(* ===== verification/RustStd.thy ===== *)
theory RustStd
  imports Main "HOL-Library.Word" "HOL-Library.Sublist"
begin

text \<open>
  What the crates use of the Rust standard library: integers at their width, and the
  \<open>str\<close> methods. A Rust string is a list of Unicode scalar values; here it is HOL's
  \<open>string\<close>, one \<open>char\<close> per scalar value from U+0000 to U+00FF. On that range every
  method below is exact (white space, lower case and the UTF-8 bytes included).
  Rust's byte offsets are only used by the modelled code to slice at a match, so they are
  character offsets here.
\<close>

named_theorems str_simps \<open>equations of the string methods used as rewrite rules\<close>

type_synonym u8 = "8 word"
type_synonym u16 = "16 word"
type_synonym u32 = "32 word"
type_synonym u64 = "64 word"

section \<open>Integers\<close>

text \<open>\<open>saturating_sub\<close> and \<open>saturating_add\<close> of the unsigned integer types.\<close>

definition saturating_sub :: "'a::len word \<Rightarrow> 'a word \<Rightarrow> 'a word" where
  "saturating_sub a b = (if a < b then 0 else a - b)"

definition saturating_add :: "'a::len word \<Rightarrow> 'a word \<Rightarrow> 'a word" where
  "saturating_add a b = (if a > - 1 - b then - 1 else a + b)"

lemma unat_saturating_sub: "unat (saturating_sub a b) = unat a - unat b"
  by (auto simp: saturating_sub_def word_less_nat_alt unat_sub_if')

lemma unat_u32_less: "unat (w :: u32) < 4294967296"
  using unsigned_less [of w, where ?'a = nat] by simp

lemma unat_u64_less: "unat (w :: u64) < 18446744073709551616"
  using unsigned_less [of w, where ?'a = nat] by simp

lemma unat_inc:
  fixes w m :: "'a::len word"
  assumes "unat w < unat m"
  shows "unat (w + 1) = Suc (unat w)"
proof -
  from assms unsigned_less [of m, where ?'a = nat] have "Suc (unat w) < 2 ^ LENGTH('a)" by linarith
  then show ?thesis by (simp add: unat_word_ariths)
qed

section \<open>Time\<close>

text \<open>Instants and durations of \<open>chrono\<close> are nanoseconds; a count of seconds as one.\<close>

definition secs :: "int \<Rightarrow> int" where
  "secs n = n * 1000000000"

section \<open>Searching\<close>

text \<open>\<open>haystack.find(pattern)\<close>: the first position where the pattern occurs.\<close>

fun find_sub :: "string \<Rightarrow> string \<Rightarrow> nat option" where
  "find_sub p s =
     (if prefix p s then Some 0
      else case s of [] \<Rightarrow> None | _ # cs \<Rightarrow> map_option Suc (find_sub p cs))"

declare find_sub.simps [simp del]

definition str_contains :: "string \<Rightarrow> string \<Rightarrow> bool" where
  "str_contains s p \<longleftrightarrow> sublist p s"

definition strip_prefix :: "string \<Rightarrow> string \<Rightarrow> string option" where
  "strip_prefix p s = (if prefix p s then Some (drop (length p) s) else None)"

lemma find_sub_Nil [simp]: "find_sub p [] = (if p = [] then Some 0 else None)"
  by (simp add: find_sub.simps)

lemma find_sub_Cons [str_simps]:
  "find_sub p (c # cs) = (if prefix p (c # cs) then Some 0 else map_option Suc (find_sub p cs))"
  by (subst find_sub.simps) simp

lemma find_sub_empty [simp]: "find_sub [] s = Some 0"
  by (subst find_sub.simps) simp

lemma find_sub_Some:
  "find_sub p s = Some n \<Longrightarrow> s = take n s @ p @ drop (n + length p) s"
proof (induction s arbitrary: n)
  case Nil
  then show ?case by (simp split: if_splits)
next
  case (Cons c cs)
  show ?case
  proof (cases "prefix p (c # cs)")
    case True
    with Cons.prems show ?thesis by (auto simp: find_sub_Cons prefix_def)
  next
    case False
    with Cons show ?thesis by (auto simp: find_sub_Cons)
  qed
qed

lemma find_sub_Some_le: "find_sub p s = Some n \<Longrightarrow> n + length p \<le> length s"
  by (induction s arbitrary: n)
    (auto simp: find_sub_Cons split: if_splits dest: prefix_length_le)

lemma find_sub_first: "find_sub p s = Some n \<Longrightarrow> m < n \<Longrightarrow> \<not> prefix p (drop m s)"
proof (induction s arbitrary: n m)
  case Nil
  then show ?case by (simp split: if_splits)
next
  case (Cons c cs)
  then show ?case by (cases m) (auto simp: find_sub_Cons split: if_splits)
qed

lemma find_sub_prefix: "prefix p (drop m s) \<Longrightarrow> \<exists>n\<le>m. find_sub p s = Some n"
proof (induction s arbitrary: m)
  case Nil
  then show ?case by simp
next
  case (Cons c cs)
  then show ?case by (cases m) (fastforce simp: find_sub_Cons)+
qed

lemma find_sub_None_iff: "find_sub p s = None \<longleftrightarrow> \<not> sublist p s"
  by (induction s) (auto simp: find_sub_Cons sublist_Cons_right)

lemma str_contains_iff: "str_contains s p \<longleftrightarrow> find_sub p s \<noteq> None"
  by (simp add: str_contains_def find_sub_None_iff)

lemma strip_prefix_Some: "strip_prefix p s = Some r \<longleftrightarrow> s = p @ r"
  by (auto simp: strip_prefix_def prefix_def)

lemma strip_prefix_None: "strip_prefix p s = None \<longleftrightarrow> \<not> prefix p s"
  by (simp add: strip_prefix_def)

section \<open>Splitting, joining and trimming\<close>

text \<open>
  \<open>s.split(f)\<close> for a character predicate: the pieces between the separators, empty
  pieces included; the empty string has one empty piece.
\<close>

fun split_by :: "(char \<Rightarrow> bool) \<Rightarrow> string \<Rightarrow> string list" where
  "split_by f [] = [[]]"
| "split_by f (c # cs) =
     (if f c then [] # split_by f cs
      else case split_by f cs of [] \<Rightarrow> [[c]] | p # ps \<Rightarrow> (c # p) # ps)"

abbreviation split_char :: "char \<Rightarrow> string \<Rightarrow> string list" where
  "split_char c \<equiv> split_by (\<lambda>x. x = c)"

fun join :: "string \<Rightarrow> string list \<Rightarrow> string" where
  "join sep [] = []"
| "join sep [p] = p"
| "join sep (p # q # ps) = p @ sep @ join sep (q # ps)"

text \<open>\<open>char::is_whitespace\<close> on U+0000 to U+00FF.\<close>

definition is_whitespace :: "char \<Rightarrow> bool" where
  "is_whitespace c \<longleftrightarrow>
     (let n = (of_char c :: nat) in (9 \<le> n \<and> n \<le> 13) \<or> n = 32 \<or> n = 133 \<or> n = 160)"

definition trim :: "string \<Rightarrow> string" where
  "trim s = rev (dropWhile is_whitespace (rev (dropWhile is_whitespace s)))"

definition split_whitespace :: "string \<Rightarrow> string list" where
  "split_whitespace s = filter (\<lambda>p. p \<noteq> []) (split_by is_whitespace s)"

lemma split_by_not_Nil [simp]: "split_by f s \<noteq> []"
  by (cases s) (auto split: list.splits)

lemma split_by_pieces: "\<forall>p\<in>set (split_by f s). \<forall>c\<in>set p. \<not> f c"
  by (induction s) (auto split: if_splits list.splits)

lemma join_Cons: "ps \<noteq> [] \<Longrightarrow> join sep (p # ps) = p @ sep @ join sep ps"
  by (cases ps) auto

lemma join_split_char [simp]: "join [c] (split_char c s) = s"
proof (induction s)
  case Nil
  show ?case by simp
next
  case (Cons x xs)
  show ?case
  proof (cases "x = c")
    case True
    with Cons show ?thesis by (simp add: join_Cons)
  next
    case False
    obtain p ps where ps: "split_char c xs = p # ps"
      by (cases "split_char c xs") auto
    with Cons False show ?thesis by (cases ps) auto
  qed
qed

lemma split_by_no_sep: "\<forall>c\<in>set s. \<not> f c \<Longrightarrow> split_by f s = [s]"
  by (induction s) auto

lemma split_by_append_sep:
  "f c \<Longrightarrow> split_by f (xs @ c # ys) = split_by f xs @ split_by f ys"
  by (induction xs) (auto split: list.splits)

lemma length_split_char: "length (split_char c s) = Suc (count_list s c)"
  by (induction s) (auto split: list.splits)

lemma trim_Nil [simp]: "trim [] = []"
  by (simp add: trim_def)

lemma set_trim: "set (trim s) \<subseteq> set s"
  by (auto simp: trim_def dest!: set_dropWhileD)

text \<open>A text that starts with white-space-free characters keeps them under \<open>trim\<close>.\<close>

lemma dropWhile_rev_mid: "\<not> f x \<Longrightarrow> \<exists>r. rev (dropWhile f (rev (u @ x # v))) = u @ x # r"
  by (cases "\<forall>y\<in>set v. f y")
    (auto simp: dropWhile_append dropWhile_append3 dest!: split_list intro: exI [of _ "[]"])

lemma split_by_first: "\<forall>c\<in>set w. \<not> f c \<Longrightarrow> f x \<Longrightarrow> split_by f (w @ x # r) = w # split_by f r"
  by (simp add: split_by_append_sep split_by_no_sep)

section \<open>Lower case\<close>

text \<open>\<open>str::to_lowercase\<close> on U+0000 to U+00FF: A to Z, and U+00C0 to U+00DE but U+00D7.\<close>

definition lower_char :: "char \<Rightarrow> char" where
  "lower_char c =
     (let n = (of_char c :: nat)
      in if (65 \<le> n \<and> n \<le> 90) \<or> (192 \<le> n \<and> n \<le> 222 \<and> n \<noteq> 215)
         then char_of (n + 32) else c)"

definition to_lowercase :: "string \<Rightarrow> string" where
  "to_lowercase s = map lower_char s"

lemma of_char_lower_char:
  "(of_char (lower_char c) :: nat) =
     (let n = of_char c in
      if (65 \<le> n \<and> n \<le> 90) \<or> (192 \<le> n \<and> n \<le> 222 \<and> n \<noteq> 215) then n + 32 else n)"
  by (auto simp: lower_char_def Let_def)

lemma lower_char_idem [simp]: "lower_char (lower_char c) = lower_char c"
proof -
  have "(of_char (lower_char (lower_char c)) :: nat) = of_char (lower_char c)"
    by (simp add: of_char_lower_char Let_def)
  then show ?thesis by simp
qed

lemma to_lowercase_idem [simp]: "to_lowercase (to_lowercase s) = to_lowercase s"
  by (simp add: to_lowercase_def)

lemma to_lowercase_append: "to_lowercase (s @ t) = to_lowercase s @ to_lowercase t"
  by (simp add: to_lowercase_def)

section \<open>Numbers as text\<close>

definition digit_char :: "nat \<Rightarrow> char" where
  "digit_char d = (if d < 10 then char_of (48 + d) else char_of (87 + d))"

fun show_radix :: "nat \<Rightarrow> nat \<Rightarrow> string" where
  "show_radix b n =
     (if b < 2 \<or> n < b then [digit_char n] else show_radix b (n div b) @ [digit_char (n mod b)])"

declare show_radix.simps [simp del]

definition show_nat :: "nat \<Rightarrow> string" where
  "show_nat n = show_radix 10 n"

definition show_hex :: "nat \<Rightarrow> string" where
  "show_hex n = show_radix 16 n"

lemma digit_char_simps [str_simps]:
  "digit_char 0 = CHR ''0''" "digit_char (Suc 0) = CHR ''1''" "digit_char 1 = CHR ''1''"
  "digit_char 2 = CHR ''2''" "digit_char 3 = CHR ''3''" "digit_char 4 = CHR ''4''"
  "digit_char 5 = CHR ''5''" "digit_char 6 = CHR ''6''" "digit_char 7 = CHR ''7''"
  "digit_char 8 = CHR ''8''" "digit_char 9 = CHR ''9''" "digit_char 10 = CHR ''a''"
  "digit_char 11 = CHR ''b''" "digit_char 12 = CHR ''c''" "digit_char 13 = CHR ''d''"
  "digit_char 14 = CHR ''e''" "digit_char 15 = CHR ''f''"
  by code_simp+

text \<open>The \<open>Debug\<close> form of a string: quoted, with escapes, on U+0000 to U+00FF.\<close>

definition debug_char :: "char \<Rightarrow> string" where
  "debug_char c =
     (let n = (of_char c :: nat) in
      if n = 0 then [CHR 92, CHR ''0'']
      else if n = 9 then [CHR 92, CHR ''t'']
      else if n = 10 then [CHR 92, CHR ''n'']
      else if n = 13 then [CHR 92, CHR ''r'']
      else if n = 34 \<or> n = 92 then [CHR 92, c]
      else if n < 32 \<or> (127 \<le> n \<and> n \<le> 160) \<or> n = 173
      then [CHR 92, CHR ''u'', CHR 123] @ show_hex n @ [CHR 125]
      else [c])"

definition debug_str :: "string \<Rightarrow> string" where
  "debug_str s = [CHR 34] @ concat (map debug_char s) @ [CHR 34]"

section \<open>UTF-8 bytes\<close>

text \<open>\<open>as_bytes\<close>: one byte below U+0080, two up to U+00FF; \<open>len\<close> counts bytes.\<close>

definition utf8_char :: "char \<Rightarrow> nat list" where
  "utf8_char c =
     (let n = (of_char c :: nat) in if n < 128 then [n] else [192 + n div 64, 128 + n mod 64])"

definition as_bytes :: "string \<Rightarrow> nat list" where
  "as_bytes s = concat (map utf8_char s)"

definition str_len :: "string \<Rightarrow> nat" where
  "str_len s = length (as_bytes s)"

definition is_ascii :: "string \<Rightarrow> bool" where
  "is_ascii s \<longleftrightarrow> (\<forall>c\<in>set s. (of_char c :: nat) < 128)"

lemma as_bytes_ascii: "is_ascii s \<Longrightarrow> as_bytes s = map of_char s"
  by (induction s) (auto simp: as_bytes_def utf8_char_def is_ascii_def)

lemma as_bytes_bound: "b \<in> set (as_bytes s) \<Longrightarrow> b < 256"
proof -
  assume "b \<in> set (as_bytes s)"
  then obtain c where "b \<in> set (utf8_char c)" by (auto simp: as_bytes_def)
  moreover have "(of_char c :: nat) div 64 < 4"
    using nat_of_char_less_256 [of c] by (simp add: less_mult_imp_div_less)
  ultimately show ?thesis
    by (auto simp: utf8_char_def Let_def split: if_splits)
qed

text \<open>\<open>String::from_utf8\<close>, for the characters of the model.\<close>

fun from_utf8 :: "nat list \<Rightarrow> string option" where
  "from_utf8 [] = Some []"
| "from_utf8 (b # bs) =
     (if b < 128 then map_option ((#) (char_of b)) (from_utf8 bs)
      else case bs of
             c # cs \<Rightarrow>
               if (b = 194 \<or> b = 195) \<and> 128 \<le> c \<and> c < 192
               then map_option ((#) (char_of ((b - 192) * 64 + (c - 128)))) (from_utf8 cs) else None
           | [] \<Rightarrow> None)"

lemma from_utf8_char: "from_utf8 (utf8_char c @ bs) = map_option ((#) c) (from_utf8 bs)"
proof (cases "(of_char c :: nat) < 128")
  case True
  then show ?thesis by (simp add: utf8_char_def)
next
  case False
  define n where "n = (of_char c :: nat)"
  have n: "n < 256" "128 \<le> n" using False by (simp_all add: n_def)
  have c: "(char_of n :: char) = c" by (simp add: n_def)
  define q r where "q = n div 64" and "r = n mod 64"
  have bytes: "utf8_char c = [192 + q, 128 + r]"
    using n(2) by (simp add: utf8_char_def Let_def q_def r_def flip: n_def)
  have qr: "q * 64 + r = n" "r < 64" by (simp_all add: q_def r_def)
  then have "q = 2 \<or> q = 3" using n by linarith
  then show ?thesis using qr c unfolding bytes by auto
qed

lemma from_utf8_as_bytes [simp]: "from_utf8 (as_bytes s) = Some s"
  by (induction s) (simp_all add: as_bytes_def from_utf8_char del: from_utf8.simps(2))

section \<open>Maps to lists\<close>

text \<open>\<open>entry(k).or_default().push(i)\<close>.\<close>

definition push_index :: "('k \<rightharpoonup> 'i list) \<Rightarrow> 'k \<Rightarrow> 'i \<Rightarrow> ('k \<rightharpoonup> 'i list)" where
  "push_index m k i = m(k \<mapsto> (case m k of Some ids \<Rightarrow> ids | None \<Rightarrow> []) @ [i])"

definition listed :: "('k \<rightharpoonup> 'i list) \<Rightarrow> 'k \<Rightarrow> 'i list" where
  "listed m k = (case m k of Some ids \<Rightarrow> ids | None \<Rightarrow> [])"

lemma listed_push [simp]: "listed (push_index m k i) k' = (if k' = k then listed m k @ [i] else listed m k')"
  by (simp add: listed_def push_index_def split: option.split)

lemma listed_empty [simp]: "listed Map.empty k = []"
  by (simp add: listed_def)

section \<open>Orderings\<close>

datatype Ordering = Less | Equal | Greater

definition ord_cmp :: "'a::linorder \<Rightarrow> 'a \<Rightarrow> Ordering" where
  "ord_cmp a b = (if a < b then Less else if a = b then Equal else Greater)"

fun then_cmp :: "Ordering \<Rightarrow> Ordering \<Rightarrow> Ordering" where
  "then_cmp Equal o' = o'"
| "then_cmp o' _ = o'"

text \<open>\<open>sort_by\<close> is stable: each element goes before the first later one it is not greater than.\<close>

fun insert_by :: "('a \<Rightarrow> 'a \<Rightarrow> Ordering) \<Rightarrow> 'a \<Rightarrow> 'a list \<Rightarrow> 'a list" where
  "insert_by cmp x [] = [x]"
| "insert_by cmp x (y # ys) = (if cmp x y = Greater then y # insert_by cmp x ys else x # y # ys)"

definition sort_by :: "('a \<Rightarrow> 'a \<Rightarrow> Ordering) \<Rightarrow> 'a list \<Rightarrow> 'a list" where
  "sort_by cmp xs = foldr (insert_by cmp) xs []"

lemma sort_by_key:
  assumes "\<And>a b. a \<in> set xs \<Longrightarrow> b \<in> set xs \<Longrightarrow> cmp a b = Greater \<longleftrightarrow> k b < k a"
  shows "sort_by cmp xs = sort_key k xs"
proof -
  have "insert_by cmp x ys = insort_key k x ys" if "x \<in> set xs" "set ys \<subseteq> set xs" for x ys
    using that assms by (induction ys) auto
  moreover have "foldr (insert_by cmp) zs [] = foldr (insort_key k) zs [] \<and> set (foldr (insort_key k) zs []) \<subseteq> set xs"
    if "set zs \<subseteq> set xs" for zs
    using that calculation by (induction zs) (auto simp: set_insort_key)
  ultimately show ?thesis by (simp add: sort_by_def sort_key_def)
qed

end
