(* ===== verification/Interfaces.thy ===== *)
theory Interfaces
  imports RustStd
begin

text \<open>
  The contracts several components share, each a locale that is interpreted on the model of
  every component that provides it.
  \<^item> \<open>state_machine\<close>: operations as events of a step function, with an invariant every step
    keeps; a run of any sequence of calls keeps it, and so does every reachable state.
  \<^item> \<open>simulation\<close>: an implementation whose operations may panic, against a specification
    that cannot; along a run nothing panics and the answers are the specification's.
  \<^item> \<open>last_write_store\<close>: a table whose insertion replaces the entry under its key;
    \<open>removable_store\<close> adds removal.
\<close>

section \<open>Machines with an invariant\<close>

locale state_machine =
  fixes step :: "'s \<Rightarrow> 'e \<Rightarrow> 's"
    and inv :: "'s \<Rightarrow> bool"
  assumes step_inv: "inv s \<Longrightarrow> inv (step s e)"
begin

lemma run_inv: "inv s \<Longrightarrow> inv (foldl step s es)"
  by (induction es arbitrary: s) (auto intro: step_inv)

text \<open>A relation between each step's states that is a preorder relates a run's ends.\<close>

lemma run_preorder:
  assumes "inv s" "\<And>s. r s s" "\<And>a b c. r a b \<Longrightarrow> r b c \<Longrightarrow> r a c"
    and "\<And>s e. inv s \<Longrightarrow> r s (step s e)"
  shows "r s (foldl step s es)"
  using assms(1)
proof (induction es arbitrary: s)
  case Nil
  show ?case by (simp add: assms(2))
next
  case (Cons e es)
  have "r s (step s e)" using Cons.prems by (rule assms(4))
  moreover have "r (step s e) (foldl step (step s e) es)"
    using Cons.prems by (intro Cons.IH step_inv)
  ultimately show ?case by (auto intro: assms(3))
qed

end

section \<open>Implementations against specifications\<close>

text \<open>Runs of operations; an implementation step that panics is \<open>None\<close> and ends the run.\<close>

fun run_impl :: "('s \<Rightarrow> 'e \<Rightarrow> ('o \<times> 's) option) \<Rightarrow> 's \<Rightarrow> 'e list \<Rightarrow> ('o list \<times> 's) option" where
  "run_impl step s [] = Some ([], s)"
| "run_impl step s (e # es) =
     (case step s e of
        None \<Rightarrow> None
      | Some (out, s') \<Rightarrow> map_option (\<lambda>(outs, t). (out # outs, t)) (run_impl step s' es))"

fun run_spec :: "('a \<Rightarrow> 'e \<Rightarrow> 'o \<times> 'a) \<Rightarrow> 'a \<Rightarrow> 'e list \<Rightarrow> 'o list \<times> 'a" where
  "run_spec spec a [] = ([], a)"
| "run_spec spec a (e # es) =
     (let (out, a') = spec a e; (outs, b) = run_spec spec a' es in (out # outs, b))"

lemma run_spec_state: "snd (run_spec spec a es) = foldl (\<lambda>a e. snd (spec a e)) a es"
  by (induction es arbitrary: a) (simp_all add: case_prod_beta Let_def)

lemma run_spec_append:
  "run_spec spec a (xs @ ys) =
     (fst (run_spec spec a xs) @ fst (run_spec spec (snd (run_spec spec a xs)) ys),
      snd (run_spec spec (snd (run_spec spec a xs)) ys))"
  by (induction xs arbitrary: a) (simp_all add: case_prod_beta Let_def)

lemma list_all_True [simp]: "list_all (\<lambda>_. True) es"
  by (induction es) simp_all

text \<open>\<open>good\<close> says which calls the contract covers.\<close>

locale simulation =
  fixes step :: "'s \<Rightarrow> 'e \<Rightarrow> ('o \<times> 's) option"
    and spec :: "'a \<Rightarrow> 'e \<Rightarrow> 'o \<times> 'a"
    and rel :: "'s \<Rightarrow> 'a \<Rightarrow> bool"
    and good :: "'e \<Rightarrow> bool"
  assumes sim: "rel s a \<Longrightarrow> good e
    \<Longrightarrow> \<exists>s'. step s e = Some (fst (spec a e), s') \<and> rel s' (snd (spec a e))"
begin

lemma run_sim:
  "rel s a \<Longrightarrow> list_all good es \<Longrightarrow> \<exists>s'. run_impl step s es = Some (fst (run_spec spec a es), s')
     \<and> rel s' (snd (run_spec spec a es))"
proof (induction es arbitrary: s a)
  case Nil
  then show ?case by simp
next
  case (Cons e es)
  obtain s1 where "step s e = Some (fst (spec a e), s1)" "rel s1 (snd (spec a e))"
    using sim [OF Cons.prems(1), of e] Cons.prems(2) by auto
  with Cons.IH [OF this(2)] Cons.prems(2) show ?case
    by (auto simp: case_prod_beta Let_def)
qed

lemma run_never_panics: "rel s a \<Longrightarrow> list_all good es \<Longrightarrow> run_impl step s es \<noteq> None"
  using run_sim by fastforce

end

section \<open>Tables\<close>

locale last_write_store =
  fixes get :: "'s \<Rightarrow> 'k \<Rightarrow> 'v option"
    and put :: "'s \<Rightarrow> 'a \<Rightarrow> 's"
    and key :: "'a \<Rightarrow> 'k"
    and val :: "'a \<Rightarrow> 'v"
  assumes get_put: "get (put s a) k = (if k = key a then Some (val a) else get s k)"
begin

lemma get_put_same [simp]: "get (put s a) (key a) = Some (val a)"
  by (simp add: get_put)

lemma get_put_other: "k \<noteq> key a \<Longrightarrow> get (put s a) k = get s k"
  by (simp add: get_put)

text \<open>After a sequence of insertions the last one under a key is what is found.\<close>

lemma get_put_list:
  "get (foldl put s as) k =
     (case find (\<lambda>a. key a = k) (rev as) of None \<Rightarrow> get s k | Some a \<Rightarrow> Some (val a))"
proof (induction as rule: rev_induct)
  case Nil
  show ?case by simp
next
  case (snoc a as)
  then show ?case by (simp add: get_put eq_commute split: option.splits)
qed

lemma get_put_commute:
  "key a \<noteq> key b \<Longrightarrow> get (put (put s a) b) k = get (put (put s b) a) k"
  by (simp add: get_put)

end

locale removable_store = last_write_store +
  fixes del :: "'s \<Rightarrow> 'k \<Rightarrow> 's"
  assumes get_del: "get (del s k) k' = (if k' = k then None else get s k')"
begin

lemma get_del_same [simp]: "get (del s k) k = None"
  by (simp add: get_del)

lemma get_put_del: "get (put (del s (key a)) a) k = get (put s a) k"
  by (simp add: get_put get_del)

lemma get_del_put: "get (del (put s a) (key a)) k = get (del s (key a)) k"
  by (simp add: get_put get_del)

end

end
