(* ===== verification/TokenBudget.thy ===== *)
theory TokenBudget
  imports Interfaces "HOL-Library.Multiset"
begin

text \<open>
  \<open>argentor-agent/src/token_budget.rs\<close>: the output-token budget of a session. The counter
  is an \<open>AtomicU64\<close> behind an \<open>Arc\<close>: \<open>fetch_add\<close> is one atomic step that wraps
  around at 64 bits, so concurrent calls are sequences of \<open>record_output\<close> steps.
\<close>

record TokenBudgetConfig =
  tbc_enabled :: bool
  max_output_tokens :: u64

definition default_token_budget_config :: TokenBudgetConfig where
  "default_token_budget_config = \<lparr>tbc_enabled = True, max_output_tokens = 100000\<rparr>"

record BudgetExhaustedError =
  err_used :: u64
  err_max :: u64
  err_partial_response :: "string option"

definition budget_error_message :: "BudgetExhaustedError \<Rightarrow> string" where
  "budget_error_message e =
     ''Output-token budget exhausted: '' @ show_nat (unat (err_used e)) @ ''/''
       @ show_nat (unat (err_max e)) @ '' tokens used''"

record TokenBudget =
  tb_config :: TokenBudgetConfig
  tb_used :: u64

definition tb_new :: "TokenBudgetConfig \<Rightarrow> TokenBudget" where
  "tb_new config = \<lparr>tb_config = config, tb_used = 0\<rparr>"

definition tb_with_defaults :: TokenBudget where
  "tb_with_defaults = tb_new default_token_budget_config"

definition tb_disabled :: TokenBudget where
  "tb_disabled = tb_new \<lparr>tbc_enabled = False, max_output_tokens = - 1\<rparr>"

definition record_output :: "TokenBudget \<Rightarrow> u64 \<Rightarrow> TokenBudget" where
  "record_output b tokens =
     (if tbc_enabled (tb_config b) then b\<lparr>tb_used := tb_used b + tokens\<rparr> else b)"

definition record_output_from_text :: "TokenBudget \<Rightarrow> string \<Rightarrow> TokenBudget" where
  "record_output_from_text b text =
     (let estimate = max (word_of_nat (str_len text) div 4) 1 in record_output b estimate)"

definition is_exhausted :: "TokenBudget \<Rightarrow> bool" where
  "is_exhausted b \<longleftrightarrow> tbc_enabled (tb_config b) \<and> tb_used b \<ge> max_output_tokens (tb_config b)"

definition tb_check :: "TokenBudget \<Rightarrow> string option \<Rightarrow> BudgetExhaustedError + unit" where
  "tb_check b partial_response =
     (if is_exhausted b
      then Inl \<lparr>err_used = tb_used b, err_max = max_output_tokens (tb_config b),
                err_partial_response = partial_response\<rparr>
      else Inr ())"

definition remaining :: "TokenBudget \<Rightarrow> u64" where
  "remaining b = saturating_sub (max_output_tokens (tb_config b)) (tb_used b)"

definition tb_reset :: "TokenBudget \<Rightarrow> TokenBudget" where
  "tb_reset b = b\<lparr>tb_used := 0\<rparr>"

section \<open>Lemmas\<close>

lemma record_output_config [simp]: "tb_config (record_output b t) = tb_config b"
  by (simp add: record_output_def)

lemma record_outputs_config [simp]: "tb_config (foldl record_output b ts) = tb_config b"
  by (induction ts arbitrary: b) auto

lemma record_outputs_used:
  "tbc_enabled (tb_config b) \<Longrightarrow> tb_used (foldl record_output b ts) = tb_used b + sum_list ts"
  by (induction ts arbitrary: b) (auto simp: record_output_def add.assoc)

lemma record_outputs_disabled: "\<not> tbc_enabled (tb_config b) \<Longrightarrow> foldl record_output b ts = b"
  by (induction ts arbitrary: b) (auto simp: record_output_def)

lemma unat_sum_list:
  fixes ts :: "'a::len word list"
  assumes "sum_list (map unat ts) < 2 ^ LENGTH('a)"
  shows "unat (sum_list ts) = sum_list (map unat ts)"
  using assms
proof (induction ts)
  case Nil
  show ?case by simp
next
  case (Cons t ts)
  then show ?case by (simp add: unat_word_ariths)
qed

lemma exhausted_iff_remaining:
  "tbc_enabled (tb_config b) \<Longrightarrow> is_exhausted b \<longleftrightarrow> remaining b = 0"
  by (auto simp: is_exhausted_def remaining_def saturating_sub_def)

section \<open>Properties\<close>

text \<open>
  Concurrent recordings commute. Each call is one atomic \<open>fetch_add\<close>, so whatever
  the order in which the calls of several threads interleave, the budget ends in the same
  state: only the multiset of recorded amounts matters.
\<close>

lemma record_output_interleaving:
  assumes "mset ts = mset us"
  shows "foldl record_output b ts = foldl record_output b us"
proof (cases "tbc_enabled (tb_config b)")
  case True
  have "sum_list ts = sum_list us"
    using assms by (metis sum_mset_sum_list)
  with True have "tb_used (foldl record_output b ts) = tb_used (foldl record_output b us)"
    by (simp add: record_outputs_used)
  then show ?thesis by (intro TokenBudget.equality) auto
next
  case False
  then show ?thesis by (simp add: record_outputs_disabled)
qed

lemma record_output_interleaving_witness:
  "mset [1, 2, 3 :: u64] = mset [3, 1, 2] \<and>
   foldl record_output tb_with_defaults [1, 2, 3] = foldl record_output tb_with_defaults [3, 1, 2]"
proof -
  have h: "mset [1, 2, 3 :: u64] = mset [3, 1, 2]" by simp
  show ?thesis using h record_output_interleaving [OF h] by blast
qed

text \<open>
  What \<open>check\<close> answers after any recordings on a fresh budget whose total stays below
  the counter's range: an error that carries the exact total, the limit and the partial
  response when the budget is enforced and the total has reached the limit, and success
  otherwise.
\<close>

lemma check_after_records:
  assumes "sum_list (map unat ts) < 2 ^ 64"
  shows "tb_check (foldl record_output (tb_new c) ts) p =
    (if tbc_enabled c \<and> unat (max_output_tokens c) \<le> sum_list (map unat ts)
     then Inl \<lparr>err_used = word_of_nat (sum_list (map unat ts)),
               err_max = max_output_tokens c, err_partial_response = p\<rparr>
     else Inr ())"
proof -
  have total: "unat (sum_list ts) = sum_list (map unat ts)"
    using assms by (intro unat_sum_list) simp
  then have word: "sum_list ts = word_of_nat (sum_list (map unat ts))"
    by (simp flip: total)
  show ?thesis
  proof (cases "tbc_enabled c")
    case True
    with total word show ?thesis
      by (simp add: tb_check_def is_exhausted_def record_outputs_used tb_new_def word_le_nat_alt)
  next
    case False
    then show ?thesis
      by (simp add: tb_check_def is_exhausted_def record_outputs_disabled tb_new_def)
  qed
qed

lemma check_after_records_witness:
  "sum_list (map unat [60 :: u64, 50]) < 2 ^ 64 \<and>
   tb_check (foldl record_output (tb_new \<lparr>tbc_enabled = True, max_output_tokens = 100\<rparr>) [60, 50]) None
     = Inl \<lparr>err_used = 110, err_max = 100, err_partial_response = None\<rparr>"
proof -
  have h: "sum_list (map unat [60 :: u64, 50]) < 2 ^ 64" by simp
  show ?thesis
    using h check_after_records [OF h, of "\<lparr>tbc_enabled = True, max_output_tokens = 100\<rparr>" None] by simp
qed

end
