(* ===== verification/CircuitBreaker.thy ===== *)
theory CircuitBreaker
  imports Interfaces
begin

text \<open>
  \<open>argentor-agent/src/circuit_breaker.rs\<close>: the breaker of one provider and the registry of
  breakers. Times (\<open>Instant\<close>) and durations are nanoseconds; a method that reads the clock
  takes the reading as an argument, and \<open>elapsed\<close> saturates at 0 as the library's does.
  The counters keep their width and wrap around (the release profile has no overflow checks).
  The registry's methods hold its lock for their whole body, so they are atomic steps.
\<close>

section \<open>The breaker\<close>

datatype CircuitState = Closed | Open | HalfOpen

record CircuitConfig =
  failure_threshold :: u32
  recovery_timeout :: nat
  success_threshold :: u32
  window_size :: u32

definition default_circuit_config :: CircuitConfig where
  "default_circuit_config =
     \<lparr>failure_threshold = 5, recovery_timeout = 30 * 1000000000,
      success_threshold = 2, window_size = 10\<rparr>"

definition circuit_config_new :: "u32 \<Rightarrow> CircuitConfig" where
  "circuit_config_new n = default_circuit_config\<lparr>failure_threshold := n\<rparr>"

definition with_recovery_timeout :: "CircuitConfig \<Rightarrow> nat \<Rightarrow> CircuitConfig" where
  "with_recovery_timeout c t = c\<lparr>recovery_timeout := t\<rparr>"

definition with_success_threshold :: "CircuitConfig \<Rightarrow> u32 \<Rightarrow> CircuitConfig" where
  "with_success_threshold c n = c\<lparr>success_threshold := n\<rparr>"

record CircuitBreaker =
  cb_config :: CircuitConfig
  cb_state :: CircuitState
  consecutive_failures :: u32
  consecutive_successes :: u32
  total_failures :: u64
  total_successes :: u64
  total_rejected :: u64
  last_failure_time :: "nat option"
  opened_at :: "nat option"

definition breaker_new :: "CircuitConfig \<Rightarrow> CircuitBreaker" where
  "breaker_new c =
     \<lparr>cb_config = c, cb_state = Closed, consecutive_failures = 0, consecutive_successes = 0,
      total_failures = 0, total_successes = 0, total_rejected = 0,
      last_failure_time = None, opened_at = None\<rparr>"

definition breaker_with_defaults :: CircuitBreaker where
  "breaker_with_defaults = breaker_new default_circuit_config"

definition elapsed :: "nat \<Rightarrow> nat \<Rightarrow> nat" where
  "elapsed now t = now - t"

definition allow_request :: "nat \<Rightarrow> CircuitBreaker \<Rightarrow> bool \<times> CircuitBreaker" where
  "allow_request now b =
     (case cb_state b of
        Closed \<Rightarrow> (True, b)
      | Open \<Rightarrow>
          (let rejected = (False, b\<lparr>total_rejected := total_rejected b + 1\<rparr>)
           in case opened_at b of
                Some opened \<Rightarrow>
                  if elapsed now opened \<ge> recovery_timeout (cb_config b)
                  then (True, b\<lparr>cb_state := HalfOpen, consecutive_successes := 0\<rparr>)
                  else rejected
              | None \<Rightarrow> rejected)
      | HalfOpen \<Rightarrow> (True, b))"

definition record_success :: "CircuitBreaker \<Rightarrow> CircuitBreaker" where
  "record_success b0 =
     (let b = b0\<lparr>total_successes := total_successes b0 + 1, consecutive_failures := 0,
                 consecutive_successes := consecutive_successes b0 + 1\<rparr>
      in case cb_state b of
           HalfOpen \<Rightarrow>
             if consecutive_successes b \<ge> success_threshold (cb_config b)
             then b\<lparr>cb_state := Closed, opened_at := None\<rparr> else b
         | Open \<Rightarrow> b\<lparr>cb_state := HalfOpen\<rparr>
         | Closed \<Rightarrow> b)"

text \<open>\<open>record_failure\<close> reads the clock twice: for the failure time, then for the opening.\<close>

definition record_failure :: "nat \<Rightarrow> nat \<Rightarrow> CircuitBreaker \<Rightarrow> CircuitBreaker" where
  "record_failure now now' b0 =
     (let b = b0\<lparr>total_failures := total_failures b0 + 1,
                 consecutive_failures := consecutive_failures b0 + 1,
                 consecutive_successes := 0, last_failure_time := Some now\<rparr>
      in case cb_state b of
           Closed \<Rightarrow>
             if consecutive_failures b \<ge> failure_threshold (cb_config b)
             then b\<lparr>cb_state := Open, opened_at := Some now'\<rparr> else b
         | HalfOpen \<Rightarrow> b\<lparr>cb_state := Open, opened_at := Some now'\<rparr>
         | Open \<Rightarrow> b)"

record CircuitBreakerStatus =
  st_state :: CircuitState
  st_consecutive_failures :: u32
  st_total_failures :: u64
  st_total_successes :: u64
  st_total_rejected :: u64
  st_failure_threshold :: u32

definition breaker_status :: "CircuitBreaker \<Rightarrow> CircuitBreakerStatus" where
  "breaker_status b =
     \<lparr>st_state = cb_state b, st_consecutive_failures = consecutive_failures b,
      st_total_failures = total_failures b, st_total_successes = total_successes b,
      st_total_rejected = total_rejected b,
      st_failure_threshold = failure_threshold (cb_config b)\<rparr>"

definition force_state :: "CircuitState \<Rightarrow> nat \<Rightarrow> CircuitBreaker \<Rightarrow> CircuitBreaker" where
  "force_state s now b0 =
     (let b = b0\<lparr>cb_state := s\<rparr>
      in if s = Open then b\<lparr>opened_at := Some now\<rparr>
         else if s = Closed then b\<lparr>opened_at := None, consecutive_failures := 0\<rparr>
         else b)"

definition breaker_reset :: "CircuitBreaker \<Rightarrow> CircuitBreaker" where
  "breaker_reset b =
     b\<lparr>cb_state := Closed, consecutive_failures := 0, consecutive_successes := 0,
       total_failures := 0, total_successes := 0, total_rejected := 0,
       last_failure_time := None, opened_at := None\<rparr>"

section \<open>The registry\<close>

record CircuitBreakerRegistry =
  breakers :: "string \<rightharpoonup> CircuitBreaker"
  default_config :: CircuitConfig

definition registry_new :: "CircuitConfig \<Rightarrow> CircuitBreakerRegistry" where
  "registry_new c = \<lparr>breakers = Map.empty, default_config = c\<rparr>"

definition reg_register ::
  "CircuitBreakerRegistry \<Rightarrow> string \<times> CircuitConfig \<Rightarrow> CircuitBreakerRegistry" where
  "reg_register r nc = r\<lparr>breakers := (breakers r)(fst nc \<mapsto> breaker_new (snd nc))\<rparr>"

text \<open>\<open>entry(..).or_insert_with(..)\<close>: the breaker to work on, a new one if there is none.\<close>

definition entry_or_default :: "CircuitBreakerRegistry \<Rightarrow> string \<Rightarrow> CircuitBreaker" where
  "entry_or_default r p =
     (case breakers r p of Some b \<Rightarrow> b | None \<Rightarrow> breaker_new (default_config r))"

definition reg_allow_request ::
  "nat \<Rightarrow> string \<Rightarrow> CircuitBreakerRegistry \<Rightarrow> bool \<times> CircuitBreakerRegistry" where
  "reg_allow_request now p r =
     (let (ok, b) = allow_request now (entry_or_default r p)
      in (ok, r\<lparr>breakers := (breakers r)(p \<mapsto> b)\<rparr>))"

definition reg_record_success :: "string \<Rightarrow> CircuitBreakerRegistry \<Rightarrow> CircuitBreakerRegistry" where
  "reg_record_success p r =
     (case breakers r p of
        Some b \<Rightarrow> r\<lparr>breakers := (breakers r)(p \<mapsto> record_success b)\<rparr>
      | None \<Rightarrow> r)"

definition reg_record_failure ::
  "nat \<Rightarrow> nat \<Rightarrow> string \<Rightarrow> CircuitBreakerRegistry \<Rightarrow> CircuitBreakerRegistry" where
  "reg_record_failure now now' p r =
     r\<lparr>breakers := (breakers r)(p \<mapsto> record_failure now now' (entry_or_default r p))\<rparr>"

definition reg_status :: "CircuitBreakerRegistry \<Rightarrow> string \<Rightarrow> CircuitBreakerStatus option" where
  "reg_status r p = map_option breaker_status (breakers r p)"

definition reg_all_statuses :: "CircuitBreakerRegistry \<Rightarrow> (string \<rightharpoonup> CircuitBreakerStatus)" where
  "reg_all_statuses r = map_option breaker_status \<circ> breakers r"

definition reg_count :: "CircuitBreakerRegistry \<Rightarrow> nat" where
  "reg_count r = card (dom (breakers r))"

section \<open>Histories of calls\<close>

text \<open>Every method of the breaker that changes it, as an event; the arguments are clock readings.\<close>

datatype breaker_event =
    AllowRequest nat
  | RecordSuccess
  | RecordFailure nat nat
  | ForceState CircuitState nat
  | Reset

fun breaker_step :: "CircuitBreaker \<Rightarrow> breaker_event \<Rightarrow> CircuitBreaker" where
  "breaker_step b (AllowRequest now) = snd (allow_request now b)"
| "breaker_step b RecordSuccess = record_success b"
| "breaker_step b (RecordFailure now now') = record_failure now now' b"
| "breaker_step b (ForceState s now) = force_state s now b"
| "breaker_step b Reset = breaker_reset b"

lemmas breaker_defs = allow_request_def record_success_def record_failure_def force_state_def
  breaker_reset_def elapsed_def Let_def

definition breaker_inv :: "CircuitConfig \<Rightarrow> CircuitBreaker \<Rightarrow> bool" where
  "breaker_inv c b \<longleftrightarrow> cb_config b = c
     \<and> (cb_state b = Open \<longrightarrow> opened_at b \<noteq> None)
     \<and> (cb_state b = Closed \<longrightarrow>
          consecutive_failures b = 0 \<or> consecutive_failures b < failure_threshold c)"

lemma breaker_inv_new: "breaker_inv c (breaker_new c)"
  by (simp add: breaker_inv_def breaker_new_def)

lemma breaker_inv_step: "breaker_inv c b \<Longrightarrow> breaker_inv c (breaker_step b e)"
  by (cases e) (auto simp: breaker_inv_def breaker_defs not_le
      split: CircuitState.splits option.splits)

interpretation breaker: state_machine breaker_step "breaker_inv c" for c
  by unfold_locales (rule breaker_inv_step)

lemma breaker_run_inv: "breaker_inv c (foldl breaker_step (breaker_new c) es)"
  by (intro breaker.run_inv breaker_inv_new)

lemma allow_request_False_iff:
  assumes "breaker_inv c b"
  shows "\<not> fst (allow_request now b) \<longleftrightarrow>
    cb_state b = Open \<and> elapsed now (the (opened_at b)) < recovery_timeout c"
  using assms by (auto simp: breaker_inv_def allow_request_def Let_def
      split: CircuitState.splits option.splits)

text \<open>Runs of failures on a closed breaker, and of successes on a half-open one.\<close>

lemma failures_closed:
  assumes "cb_state b = Closed" "unat (consecutive_failures b) + length ts < unat (failure_threshold (cb_config b))"
  shows "let b' = foldl (\<lambda>b t. record_failure t t b) b ts
    in cb_state b' = Closed \<and> cb_config b' = cb_config b
       \<and> unat (consecutive_failures b') = unat (consecutive_failures b) + length ts"
  using assms
proof (induction ts arbitrary: b)
  case Nil
  then show ?case by simp
next
  case (Cons t ts)
  from Cons.prems have "unat (consecutive_failures b + 1) = Suc (unat (consecutive_failures b))"
    by (intro unat_inc [of _ "failure_threshold (cb_config b)"]) simp
  with Cons.prems have "cb_state (record_failure t t b) = Closed"
    "cb_config (record_failure t t b) = cb_config b"
    "unat (consecutive_failures (record_failure t t b)) = Suc (unat (consecutive_failures b))"
    by (auto simp: record_failure_def Let_def word_le_nat_alt)
  then show ?case using Cons.IH [of "record_failure t t b"] Cons.prems by (simp add: Let_def)
qed

lemma failures_open:
  "cb_state b = Open \<Longrightarrow> cb_state (foldl (\<lambda>b t. record_failure t t b) b ts) = Open"
  by (induction ts arbitrary: b) (auto simp: record_failure_def Let_def)

lemma successes_half_open:
  assumes "cb_state b = HalfOpen" "unat (consecutive_successes b) + n < unat (success_threshold (cb_config b))"
  shows "let b' = (record_success ^^ n) b
    in cb_state b' = HalfOpen \<and> cb_config b' = cb_config b
       \<and> unat (consecutive_successes b') = unat (consecutive_successes b) + n"
  using assms(2)
proof (induction n)
  case 0
  then show ?case using assms(1) by simp
next
  case (Suc n)
  define b' where "b' = (record_success ^^ n) b"
  have b': "cb_state b' = HalfOpen" "cb_config b' = cb_config b"
    "unat (consecutive_successes b') = unat (consecutive_successes b) + n"
    using Suc.IH Suc.prems by (simp_all add: Let_def b'_def)
  with Suc.prems have "unat (consecutive_successes b' + 1) = Suc (unat (consecutive_successes b) + n)"
    by (subst unat_inc [of _ "success_threshold (cb_config b)"]) simp_all
  moreover have "(record_success ^^ Suc n) b = record_success b'" by (simp add: b'_def)
  ultimately show ?case
    using b' Suc.prems by (simp only: Let_def) (simp add: record_success_def Let_def word_le_nat_alt)
qed

lemma successes_closed:
  "cb_state b = Closed \<Longrightarrow> cb_state ((record_success ^^ n) b) = Closed"
  by (induction n) (auto simp: record_success_def Let_def)

section \<open>Histories of the registry\<close>

text \<open>
  The registry's methods as events about a provider. What they promise is that each provider
  sees its own breaker: \<open>provider_step\<close> is that view, an optional breaker that
  \<open>allow_request\<close> and \<open>record_failure\<close> create on demand.
\<close>

datatype registry_event =
    RegRegister CircuitConfig
  | RegAllow nat
  | RegSuccess
  | RegFailure nat nat

fun registry_step ::
  "CircuitBreakerRegistry \<Rightarrow> string \<times> registry_event \<Rightarrow> CircuitBreakerRegistry" where
  "registry_step r (p, RegRegister c) = reg_register r (p, c)"
| "registry_step r (p, RegAllow now) = snd (reg_allow_request now p r)"
| "registry_step r (p, RegSuccess) = reg_record_success p r"
| "registry_step r (p, RegFailure now now') = reg_record_failure now now' p r"

fun provider_step ::
  "CircuitConfig \<Rightarrow> CircuitBreaker option \<Rightarrow> registry_event \<Rightarrow> CircuitBreaker option" where
  "provider_step d b (RegRegister c) = Some (breaker_new c)"
| "provider_step d b (RegAllow now) =
     Some (breaker_step (case b of Some b \<Rightarrow> b | None \<Rightarrow> breaker_new d) (AllowRequest now))"
| "provider_step d b RegSuccess = map_option (\<lambda>b. breaker_step b RecordSuccess) b"
| "provider_step d b (RegFailure now now') =
     Some (breaker_step (case b of Some b \<Rightarrow> b | None \<Rightarrow> breaker_new d) (RecordFailure now now'))"

lemmas registry_defs = reg_register_def reg_allow_request_def reg_record_success_def
  reg_record_failure_def entry_or_default_def

lemma registry_step_default [simp]: "default_config (registry_step r e) = default_config r"
  by (cases "(r, e)" rule: registry_step.cases)
    (auto simp: registry_defs split: option.splits prod.splits)

lemma registry_step_view:
  "breakers (registry_step r (p, e)) q =
     (if q = p then provider_step (default_config r) (breakers r p) e else breakers r q)"
  by (cases e) (auto simp: registry_defs split: option.splits prod.splits)

interpretation registry: last_write_store
  "\<lambda>r p. breakers r p" reg_register fst "\<lambda>nc. breaker_new (snd nc)"
  by unfold_locales (simp add: reg_register_def)

section \<open>Properties\<close>

text \<open>
  C32: an open breaker never gets stuck. After any history of calls on a new breaker, a request
  is turned away exactly when the breaker is open and the recovery timeout has not yet passed
  since a recorded opening time; once it has passed the next call gets through and the breaker
  is half-open.
\<close>

theorem rejects_only_within_timeout:
  "let b = foldl breaker_step (breaker_new c) es in
     (\<not> fst (allow_request now b) \<longleftrightarrow>
        cb_state b = Open \<and> (\<exists>t. opened_at b = Some t \<and> elapsed now t < recovery_timeout c))
     \<and> cb_state (snd (allow_request now b)) =
         (if cb_state b = Open \<and> fst (allow_request now b) then HalfOpen else cb_state b)"
proof -
  define b where "b = foldl breaker_step (breaker_new c) es"
  have "breaker_inv c b" unfolding b_def by (rule breaker_run_inv)
  then show ?thesis
    unfolding b_def [symmetric] Let_def
    by (auto simp: breaker_inv_def allow_request_def Let_def not_le
        split: CircuitState.splits option.splits if_splits)
qed

text \<open>
  The breaker trips exactly at its threshold. Failures alone, from a new breaker, leave it
  closed while there are fewer than the threshold of them and open it from then on (a threshold
  of 0 acts like 1).
\<close>

lemma trips_at_threshold:
  "cb_state (foldl (\<lambda>b t. record_failure t t b) (breaker_new c) ts) =
     (if length ts < max 1 (unat (failure_threshold c)) then Closed else Open)"
proof (cases "length ts < max 1 (unat (failure_threshold c))")
  case True
  show ?thesis
  proof (cases "length ts < unat (failure_threshold c)")
    case True
    then show ?thesis
      using failures_closed [of "breaker_new c" ts] by (simp add: breaker_new_def Let_def)
  next
    case False
    with True have "ts = []" by (simp add: max_def split: if_splits)
    then show ?thesis using True by (simp add: breaker_new_def)
  qed
next
  case False
  let ?k = "max 1 (unat (failure_threshold c)) - 1"
  let ?b = "foldl (\<lambda>b t. record_failure t t b) (breaker_new c) (take ?k ts)"
  from False have len: "?k < length ts" by (cases ts) auto
  then have split: "ts = take ?k ts @ ts ! ?k # drop (Suc ?k) ts" by (rule id_take_nth_drop)
  have "cb_state ?b = Closed \<and> cb_config ?b = c \<and> unat (consecutive_failures ?b) = ?k"
  proof (cases "unat (failure_threshold c) = 0")
    case True
    then show ?thesis by (simp add: breaker_new_def)
  next
    case False
    then show ?thesis
      using failures_closed [of "breaker_new c" "take ?k ts"] len
      by (auto simp: breaker_new_def Let_def min_def)
  qed
  moreover have "unat (consecutive_failures ?b + 1) \<ge> unat (failure_threshold c)"
  proof (cases "unat (failure_threshold c) = 0")
    case True
    then show ?thesis by simp
  next
    case False
    with calculation have "unat (consecutive_failures ?b + 1) = Suc ?k"
      by (subst unat_inc [of _ "failure_threshold c"]) auto
    then show ?thesis by simp
  qed
  ultimately have "cb_state (record_failure (ts ! ?k) (ts ! ?k) ?b) = Open"
    by (simp add: record_failure_def Let_def word_le_nat_alt)
  then have "cb_state (foldl (\<lambda>b t. record_failure t t b) (breaker_new c)
      (take ?k ts @ ts ! ?k # drop (Suc ?k) ts)) = Open"
    by (simp add: failures_open)
  with False split show ?thesis by simp
qed

text \<open>
  Each provider has a breaker of its own. After any history of calls on the registry, about
  any providers in any order, the breaker of a provider is what the calls about it alone make of
  it: calls about other providers never change it.
\<close>

lemma registry_refines_providers:
  "breakers (foldl registry_step r es) p =
     foldl (provider_step (default_config r)) (breakers r p)
       (map snd (filter (\<lambda>e. fst e = p) es))"
proof (induction es arbitrary: r)
  case Nil
  show ?case by simp
next
  case (Cons e es)
  obtain q ev where e: "e = (q, ev)" by (cases e)
  have "breakers (foldl registry_step (registry_step r e) es) p =
      foldl (provider_step (default_config r)) (breakers (registry_step r e) p)
        (map snd (filter (\<lambda>e. fst e = p) es))"
    using Cons.IH [of "registry_step r e"] by simp
  then show ?case by (simp add: e registry_step_view)
qed

end
