(* ===== verification/Capability.thy ===== *)
theory Capability
  imports Interfaces
begin

text \<open>
  \<open>argentor-security/src/capability.rs\<close>, the data and the network checks: capabilities,
  the permission set and its operations, IP address classification and host patterns. The
  shell checks are in \<open>ShellCheck\<close>, the path checks in \<open>PathCheck\<close>.
  A \<open>HashSet\<close> is a set; the methods only insert, remove, test membership and ask
  whether any element satisfies a test, so its iteration order does not show.
\<close>

section \<open>Capabilities and permission sets\<close>

datatype Capability =
    FileRead "string list"
  | FileWrite "string list"
  | NetworkAccess "string list"
  | ShellExec "string list"
  | EnvRead "string list"
  | DatabaseQuery
  | BrowserAccess "string list"

fun type_name :: "Capability \<Rightarrow> string" where
  "type_name (FileRead _) = ''file_read''"
| "type_name (FileWrite _) = ''file_write''"
| "type_name (NetworkAccess _) = ''network_access''"
| "type_name (ShellExec _) = ''shell_exec''"
| "type_name (EnvRead _) = ''env_read''"
| "type_name DatabaseQuery = ''database_query''"
| "type_name (BrowserAccess _) = ''browser_access''"

record PermissionSet =
  capabilities :: "Capability set"

definition permission_set_new :: PermissionSet where
  "permission_set_new = \<lparr>capabilities = {}\<rparr>"

definition grant :: "PermissionSet \<Rightarrow> Capability \<Rightarrow> PermissionSet" where
  "grant ps cap = ps\<lparr>capabilities := insert cap (capabilities ps)\<rparr>"

definition revoke :: "PermissionSet \<Rightarrow> Capability \<Rightarrow> PermissionSet" where
  "revoke ps cap = ps\<lparr>capabilities := capabilities ps - {cap}\<rparr>"

definition has :: "PermissionSet \<Rightarrow> Capability \<Rightarrow> bool" where
  "has ps cap \<longleftrightarrow> cap \<in> capabilities ps"

definition has_capability_type :: "PermissionSet \<Rightarrow> string \<Rightarrow> bool" where
  "has_capability_type ps cap_type \<longleftrightarrow> (\<exists>c\<in>capabilities ps. type_name c = cap_type)"

definition permission_set_is_empty :: "PermissionSet \<Rightarrow> bool" where
  "permission_set_is_empty ps \<longleftrightarrow> capabilities ps = {}"

lemmas permission_set_defs = permission_set_new_def grant_def revoke_def has_def
  has_capability_type_def permission_set_is_empty_def

interpretation perms: removable_store
  "\<lambda>ps cap. if has ps cap then Some () else None" grant "\<lambda>c. c" "\<lambda>_. ()" revoke
  by unfold_locales (auto simp: permission_set_defs)

section \<open>IP addresses\<close>

datatype IpAddr =
    V4 u8 u8 u8 u8
  | V6 u16 u16 u16 u16 u16 u16 u16 u16

unbundle bit_operations_syntax

fun is_private_ip :: "IpAddr \<Rightarrow> bool" where
  "is_private_ip (V4 o0 o1 o2 o3) \<longleftrightarrow>
     o0 = 127 \<or> o0 = 10 \<or> (o0 = 172 \<and> 16 \<le> o1 \<and> o1 \<le> 31) \<or> (o0 = 192 \<and> o1 = 168)
     \<or> (o0 = 169 \<and> o1 = 254) \<or> o0 = 0"
| "is_private_ip (V6 s0 s1 s2 s3 s4 s5 s6 s7) \<longleftrightarrow>
     (s0 = 0 \<and> s1 = 0 \<and> s2 = 0 \<and> s3 = 0 \<and> s4 = 0 \<and> s5 = 0 \<and> s6 = 0 \<and> s7 = 1)
     \<or> s0 AND 0xffc0 = 0xfe80"

text \<open>
  The library's \<open>Display\<close> of an address: dotted decimal for IPv4; for IPv6 the mapped
  form, else lower-case hexadecimal groups with the first longest run of at least two zero
  groups written \<open>::\<close>.
\<close>

definition show_v4 :: "nat list \<Rightarrow> string" where
  "show_v4 os = join ''.'' (map show_nat os)"

text \<open>\<open>zero_run xs i\<close>: the start and length of the first longest run of zeros, from index i.\<close>

fun zero_run :: "nat list \<Rightarrow> nat \<Rightarrow> nat \<times> nat" where
  "zero_run [] i = (0, 0)"
| "zero_run (x # xs) i =
     (let here = length (takeWhile (\<lambda>y. y = 0) (x # xs)); (s, l) = zero_run xs (Suc i)
      in if here \<ge> l \<and> here > 0 then (i, here) else (s, l))"

definition show_v6 :: "nat list \<Rightarrow> string" where
  "show_v6 segs =
     (if take 6 segs = [0, 0, 0, 0, 0, 65535]
      then ''::ffff:'' @ show_v4 [segs ! 6 div 256, segs ! 6 mod 256, segs ! 7 div 256, segs ! 7 mod 256]
      else let (s, l) = zero_run segs 0 in
        if l > 1
        then join '':'' (map show_hex (take s segs)) @ ''::''
               @ join '':'' (map show_hex (drop (s + l) segs))
        else join '':'' (map show_hex segs))"

fun show_ip :: "IpAddr \<Rightarrow> string" where
  "show_ip (V4 o0 o1 o2 o3) = show_v4 (map unat [o0, o1, o2, o3])"
| "show_ip (V6 s0 s1 s2 s3 s4 s5 s6 s7) = show_v6 (map unat [s0, s1, s2, s3, s4, s5, s6, s7])"

section \<open>Network checks\<close>

text \<open>The test \<open>check_network\<close> applies to each allowed host pattern.\<close>

definition host_matches :: "string \<Rightarrow> string \<Rightarrow> bool" where
  "host_matches h host =
     (if h = ''*'' then True
      else let host_lower = to_lowercase host; pattern_lower = to_lowercase h in
        if host_lower = pattern_lower then True
        else case strip_prefix ''.'' pattern_lower of
               Some sfx \<Rightarrow> suffix (''.'' @ sfx) host_lower
             | None \<Rightarrow> False)"

definition check_network :: "PermissionSet \<Rightarrow> string \<Rightarrow> bool" where
  "check_network ps host \<longleftrightarrow>
     (\<exists>c\<in>capabilities ps. case c of
        NetworkAccess allowed_hosts \<Rightarrow> (\<exists>h\<in>set allowed_hosts. host_matches h host)
      | _ \<Rightarrow> False)"

definition check_network_ip :: "PermissionSet \<Rightarrow> IpAddr \<Rightarrow> bool" where
  "check_network_ip ps ip =
     (if is_private_ip ip then False else check_network ps (show_ip ip))"

lemma host_matches_dot:
  "host_matches (CHR ''.'' # d) host \<longleftrightarrow> (\<exists>sub. to_lowercase host = sub @ ''.'' @ to_lowercase d)"
  by (auto simp: host_matches_def to_lowercase_def lower_char_def strip_prefix_def suffix_def Let_def)

lemma host_matches_lower: "host_matches h (to_lowercase host) = host_matches h host"
  by (simp add: host_matches_def)

section \<open>Properties\<close>

text \<open>The block of IPv4 addresses that share the first \<open>len\<close> bits of a base address.\<close>

definition v4_number :: "nat \<Rightarrow> nat \<Rightarrow> nat \<Rightarrow> nat \<Rightarrow> nat" where
  "v4_number a b c d = ((a * 256 + b) * 256 + c) * 256 + d"

definition in_cidr :: "nat \<Rightarrow> nat \<Rightarrow> nat \<Rightarrow> bool" where
  "in_cidr n base len \<longleftrightarrow> n div 2 ^ (32 - len) = base div 2 ^ (32 - len)"

lemma v4_number_div:
  assumes "b < 256" "c < 256" "d < 256"
  shows "v4_number a b c d div 16777216 = a" (is ?d8)
    and "v4_number a b c d div 65536 = a * 256 + b" (is ?d16)
    and "v4_number a b c d div 1048576 = a * 16 + b div 16" (is ?d12)
proof -
  have n: "v4_number a b c d = (a * 256 + b) * 65536 + (c * 256 + d)"
    by (simp add: v4_number_def)
  have "c * 256 + d < 65536" using assms(2,3) by linarith
  then show d16: ?d16 unfolding n by simp
  have "v4_number a b c d div 16777216 = v4_number a b c d div 65536 div 256"
    by (simp flip: div_mult2_eq)
  with d16 show ?d8 using assms(1) by simp
  have "v4_number a b c d div 1048576 = v4_number a b c d div 65536 div 16"
    by (simp flip: div_mult2_eq)
  moreover have "(a * 256 + b) div 16 = a * 16 + b div 16"
    using div_mult_self3 [of 16 "a * 16" b] by simp
  ultimately show ?d12 using d16 by simp
qed

lemma in_cidr_v4:
  assumes "b < 256" "c < 256" "d < 256" "b' < 256" "c' < 256" "d' < 256"
  shows "in_cidr (v4_number a b c d) (v4_number a' b' c' d') 8 \<longleftrightarrow> a = a'"
    and "in_cidr (v4_number a b c d) (v4_number a' b' c' d') 16 \<longleftrightarrow> a * 256 + b = a' * 256 + b'"
    and "in_cidr (v4_number a b c d) (v4_number a' b' c' d') 12 \<longleftrightarrow>
           a * 16 + b div 16 = a' * 16 + b' div 16"
  using v4_number_div [OF assms(1-3), of a] v4_number_div [OF assms(4-6), of a']
  by (simp_all add: in_cidr_def)

lemma digit_pair_eq:
  fixes x y b c m :: nat
  assumes "b < m" "c < m"
  shows "x * m + b = y * m + c \<longleftrightarrow> x = y \<and> b = c"
proof
  assume eq: "x * m + b = y * m + c"
  then have "(x * m + b) div m = (y * m + c) div m" by simp
  with assms have "x = y" by simp
  with eq show "x = y \<and> b = c" by simp
qed simp

lemma unat_u8_less: "unat (w :: u8) < 256"
  using unsigned_less [of w, where ?'a = nat] by simp

lemma private_v4_unat:
  "is_private_ip (V4 a b c d) \<longleftrightarrow>
     unat a = 127 \<or> unat a = 10 \<or> (unat a = 172 \<and> 16 \<le> unat b \<and> unat b \<le> 31)
     \<or> (unat a = 192 \<and> unat b = 168) \<or> (unat a = 169 \<and> unat b = 254) \<or> unat a = 0"
  by (simp only: is_private_ip.simps word_unat_eq_iff word_le_nat_alt) simp

text \<open>
  The octet tests of \<open>is_private_ip\<close> are the six CIDR blocks its comment lists:
  an IPv4 address is refused exactly when, read as a 32-bit number, it lies in one of
  127.0.0.0/8, 10.0.0.0/8, 172.16.0.0/12, 192.168.0.0/16, 169.254.0.0/16 and 0.0.0.0/8.
\<close>

lemma private_v4_is_cidr:
  "is_private_ip (V4 a b c d) \<longleftrightarrow>
     (let n = v4_number (unat a) (unat b) (unat c) (unat d) in
        in_cidr n (v4_number 127 0 0 0) 8 \<or> in_cidr n (v4_number 10 0 0 0) 8
      \<or> in_cidr n (v4_number 172 16 0 0) 12 \<or> in_cidr n (v4_number 192 168 0 0) 16
      \<or> in_cidr n (v4_number 169 254 0 0) 16 \<or> in_cidr n (v4_number 0 0 0 0) 8)"
proof -
  note bounds = unat_u8_less [of b] unat_u8_less [of c] unat_u8_less [of d]
  have low: "unat b div 16 < 16" "unat b div 16 = 1 \<longleftrightarrow> 16 \<le> unat b \<and> unat b \<le> 31"
    using bounds(1) by (simp add: less_mult_imp_div_less, arith)
  have "unat a * 256 + unat b = 192 * 256 + 168 \<longleftrightarrow> unat a = 192 \<and> unat b = 168"
    "unat a * 256 + unat b = 169 * 256 + 254 \<longleftrightarrow> unat a = 169 \<and> unat b = 254"
    using bounds(1) by (simp_all only: digit_pair_eq)
  moreover have "unat a * 16 + unat b div 16 = 172 * 16 + 1 \<longleftrightarrow>
      unat a = 172 \<and> 16 \<le> unat b \<and> unat b \<le> 31"
    using low by (simp only: digit_pair_eq)
  ultimately show ?thesis
    using bounds by (simp add: private_v4_unat Let_def in_cidr_v4 del: is_private_ip.simps)
qed

text \<open>
  A pattern with a leading dot matches on a label boundary. A permission set whose only
  capability is network access to \<open>.d\<close> lets a host through exactly when the host, ignoring
  case, is some (possibly empty) text followed by a dot and \<open>d\<close>: the bare domain and names
  that merely end in the same letters are turned away.
\<close>

lemma dot_pattern_boundary:
  "check_network (grant permission_set_new (NetworkAccess [CHR ''.'' # d])) host \<longleftrightarrow>
     (\<exists>sub. to_lowercase host = sub @ ''.'' @ to_lowercase d)"
  by (simp add: check_network_def permission_set_defs host_matches_dot)

text \<open>
  IPv4 addresses written as IPv4-mapped IPv6 addresses escape the private-address test:
  with the wildcard host granted, every \<open>::ffff:a.b.c.d\<close> is let through, loopback and the
  private blocks included.
\<close>

lemma mapped_private_v4_allowed:
  "check_network_ip (grant permission_set_new (NetworkAccess [''*''])) (V6 0 0 0 0 0 0xffff hi lo)"
  by (simp add: check_network_ip_def check_network_def permission_set_defs host_matches_def)

end
