(* ===== verification/ShellCheck.thy ===== *)
theory ShellCheck
  imports Capability
begin

text \<open>
  \<open>argentor-security/src/capability.rs\<close>, the shell checks: a command line is split at
  shell metacharacters and the base command of every piece is looked up in the allowed list.
\<close>

section \<open>Splitting a command line\<close>

definition SHELL_METACHAR_PATTERNS :: "string list" where
  "SHELL_METACHAR_PATTERNS =
     [''||'', ''&&'', ''|'', '';'', ''$('', [CHR 96], [CHR 10]]"

text \<open>The inner loop of \<open>split_shell_segments\<close>: position and length of the earliest match.\<close>

definition earliest_match :: "string \<Rightarrow> (nat \<times> nat) option" where
  "earliest_match remaining =
     foldl (\<lambda>earliest pat.
       case find_sub pat remaining of
         Some pos \<Rightarrow>
           (case earliest of
              None \<Rightarrow> Some (pos, length pat)
            | Some (prev_pos, _) \<Rightarrow>
                if pos < prev_pos then Some (pos, length pat) else earliest)
       | None \<Rightarrow> earliest) None SHELL_METACHAR_PATTERNS"

definition push_nonempty :: "string \<Rightarrow> string list" where
  "push_nonempty s = (if s \<noteq> [] then [s] else [])"

lemma earliest_match_cases:
  "case earliest_match s of
     None \<Rightarrow> \<forall>pat\<in>set SHELL_METACHAR_PATTERNS. find_sub pat s = None
   | Some (pos, len) \<Rightarrow>
       (\<exists>pat\<in>set SHELL_METACHAR_PATTERNS. find_sub pat s = Some pos \<and> len = length pat)
       \<and> (\<forall>pat\<in>set SHELL_METACHAR_PATTERNS. \<forall>n. find_sub pat s = Some n \<longrightarrow> pos \<le> n)"
proof -
  let ?f = "\<lambda>earliest pat. case find_sub pat s of
         Some pos \<Rightarrow>
           (case earliest of
              None \<Rightarrow> Some (pos, length pat)
            | Some (prev_pos, _) \<Rightarrow>
                if pos < prev_pos then Some (pos, length pat) else earliest)
       | None \<Rightarrow> earliest"
  have "case foldl ?f None pats of
     None \<Rightarrow> \<forall>pat\<in>set pats. find_sub pat s = None
   | Some (pos, len) \<Rightarrow>
       (\<exists>pat\<in>set pats. find_sub pat s = Some pos \<and> len = length pat)
       \<and> (\<forall>pat\<in>set pats. \<forall>n. find_sub pat s = Some n \<longrightarrow> pos \<le> n)" for pats
    by (induction pats rule: rev_induct) (auto split: option.splits prod.splits if_splits)
  then show ?thesis unfolding earliest_match_def .
qed

lemma earliest_match_advances:
  assumes "earliest_match s = Some (pos, len)"
  shows "pos + len \<le> length s" "0 < len"
proof -
  obtain pat where pat: "pat \<in> set SHELL_METACHAR_PATTERNS" "find_sub pat s = Some pos" "len = length pat"
    using earliest_match_cases [of s] assms by auto
  then show "pos + len \<le> length s" by (simp add: find_sub_Some_le)
  show "0 < len" using pat(1,3) by (auto simp: SHELL_METACHAR_PATTERNS_def)
qed

function split_shell_segments :: "string \<Rightarrow> string list" where
  "split_shell_segments remaining =
     (case earliest_match remaining of
        Some (pos, len) \<Rightarrow>
          push_nonempty (trim (take pos remaining)) @ split_shell_segments (drop (pos + len) remaining)
      | None \<Rightarrow> push_nonempty (trim remaining))"
  by pat_completeness auto
termination
proof (relation "measure length")
  fix remaining x pos len
  assume "earliest_match remaining = Some x" "(pos, len) = x"
  then show "(drop (pos + len) remaining, remaining) \<in> measure length"
    using earliest_match_advances [of remaining pos len] by auto
qed simp

declare split_shell_segments.simps [simp del]

definition extract_base_command :: "string \<Rightarrow> string" where
  "extract_base_command segment =
     (let token = (case split_whitespace segment of [] \<Rightarrow> '''' | t # _ \<Rightarrow> t)
      in last (split_char (CHR ''/'') token))"

section \<open>The check\<close>

datatype ShellCheckResult =
    ShellAllowed
  | ShellDenied string
  | ShellNeedsReview "string list"

definition shell_allowed_commands :: "PermissionSet \<Rightarrow> string set" where
  "shell_allowed_commands ps =
     (\<Union>c\<in>capabilities ps. case c of ShellExec allowed_commands \<Rightarrow> set allowed_commands | _ \<Rightarrow> {})"

definition check_shell_strict :: "PermissionSet \<Rightarrow> string \<Rightarrow> ShellCheckResult" where
  "check_shell_strict ps command =
     (let segments = split_shell_segments command; allowed = shell_allowed_commands ps in
      if segments = [] then ShellDenied ''empty command''
      else if allowed = {} then ShellDenied ''no shell_exec capability granted''
      else
        let denied_segments = filter (\<lambda>seg. extract_base_command seg \<notin> allowed) segments in
        if denied_segments = [] then ShellAllowed
        else if length segments > 1
        then ShellDenied
               (''command chain contains disallowed segments: '' @ join '', '' denied_segments)
        else ShellDenied
               (''command '' @ [CHR 39] @ extract_base_command (hd denied_segments) @ [CHR 39]
                  @ '' is not in the allowed list''))"

definition check_shell :: "PermissionSet \<Rightarrow> string \<Rightarrow> bool" where
  "check_shell ps command \<longleftrightarrow> check_shell_strict ps command = ShellAllowed"

lemma check_shell_iff:
  "check_shell ps command \<longleftrightarrow>
     split_shell_segments command \<noteq> []
     \<and> (\<forall>seg\<in>set (split_shell_segments command). extract_base_command seg \<in> shell_allowed_commands ps)"
  by (auto simp: check_shell_def check_shell_strict_def Let_def filter_empty_conv)

section \<open>The splitter as one pass over the characters\<close>

text \<open>The pieces of a command line between metacharacters, by a left-to-right scan.\<close>

abbreviation cons_first :: "char \<Rightarrow> string list \<Rightarrow> string list" where
  "cons_first c ps \<equiv> (c # hd ps) # tl ps"

definition one_char_meta :: "char \<Rightarrow> bool" where
  "one_char_meta c \<longleftrightarrow> c \<in> {CHR ''|'', CHR '';'', CHR 96, CHR 10}"

definition two_char_meta :: "char \<Rightarrow> string \<Rightarrow> bool" where
  "two_char_meta c cs \<longleftrightarrow> prefix ''&&'' (c # cs) \<or> prefix ''$('' (c # cs)"

fun shell_pieces :: "string \<Rightarrow> string list" where
  "shell_pieces [] = [[]]"
| "shell_pieces (c # cs) =
     (if one_char_meta c then [] # shell_pieces cs
      else if two_char_meta c cs then [] # shell_pieces (drop 1 cs)
      else cons_first c (shell_pieces cs))"

definition segments_of :: "string list \<Rightarrow> string list" where
  "segments_of ps = filter (\<lambda>s. s \<noteq> []) (map trim ps)"

lemma segments_of_simps [simp]:
  "segments_of [] = []"
  "segments_of (p # ps) = push_nonempty (trim p) @ segments_of ps"
  "segments_of (ps @ qs) = segments_of ps @ segments_of qs"
  by (simp_all add: segments_of_def push_nonempty_def)

lemma shell_pieces_not_Nil [simp]: "shell_pieces s \<noteq> []"
  by (cases s) auto

definition no_meta_prefix :: "string \<Rightarrow> bool" where
  "no_meta_prefix s \<longleftrightarrow> (\<forall>pat\<in>set SHELL_METACHAR_PATTERNS. \<not> prefix pat s)"

lemma no_meta_prefix_Cons:
  "no_meta_prefix (c # cs) \<Longrightarrow> shell_pieces (c # cs) = cons_first c (shell_pieces cs)"
  by (auto simp: no_meta_prefix_def SHELL_METACHAR_PATTERNS_def one_char_meta_def two_char_meta_def)

lemma shell_pieces_plain_prefix:
  "\<forall>m<length pre. no_meta_prefix (drop m (pre @ rest)) \<Longrightarrow>
   shell_pieces (pre @ rest) = (pre @ hd (shell_pieces rest)) # tl (shell_pieces rest)"
proof (induction pre)
  case Nil
  show ?case by simp
next
  case (Cons c pre)
  have "no_meta_prefix (c # pre @ rest)" using Cons.prems by (auto dest: spec [of _ 0])
  moreover have "\<forall>m<length pre. no_meta_prefix (drop m (pre @ rest))"
    using Cons.prems by (auto dest: spec [of _ "Suc _"])
  ultimately show ?case using Cons.IH by (simp add: no_meta_prefix_Cons del: shell_pieces.simps)
qed

lemma shell_pieces_pattern:
  assumes "pat \<in> set SHELL_METACHAR_PATTERNS"
  shows "segments_of (shell_pieces (pat @ rest)) = segments_of (shell_pieces rest)
    \<and> hd (shell_pieces (pat @ rest)) = []"
  using assms by (auto simp: SHELL_METACHAR_PATTERNS_def push_nonempty_def
      one_char_meta_def two_char_meta_def)

lemma split_shell_segments_eq: "split_shell_segments s = segments_of (shell_pieces s)"
proof (induction s rule: split_shell_segments.induct)
  case (1 s)
  show ?case
  proof (cases "earliest_match s")
    case None
    then have "\<forall>m. no_meta_prefix (drop m s)"
      using earliest_match_cases [of s]
      by (auto simp: find_sub_None_iff no_meta_prefix_def dest!: prefix_imp_sublist
          sublist_order.order_trans [OF _ sublist_drop])
    then have "shell_pieces s = [s]"
      using shell_pieces_plain_prefix [of s "[]"] by simp
    with None show ?thesis by (simp add: split_shell_segments.simps [of s])
  next
    case (Some pl)
    obtain pos len where pl: "pl = (pos, len)" by (cases pl)
    obtain pat where pat: "pat \<in> set SHELL_METACHAR_PATTERNS" "find_sub pat s = Some pos"
        "len = length pat"
      and first: "\<And>p n. p \<in> set SHELL_METACHAR_PATTERNS \<Longrightarrow> find_sub p s = Some n \<Longrightarrow> pos \<le> n"
      using earliest_match_cases [of s] Some pl by auto
    let ?rest = "drop (pos + len) s"
    have s: "s = take pos s @ pat @ ?rest" using find_sub_Some [OF pat(2)] pat(3) by simp
    have "\<not> prefix p (drop m s)" if "m < pos" "p \<in> set SHELL_METACHAR_PATTERNS" for m p
      using find_sub_prefix [of p m s] first that by fastforce
    then have "\<forall>m<length (take pos s). no_meta_prefix (drop m (take pos s @ pat @ ?rest))"
      using s by (simp add: no_meta_prefix_def)
    then have "shell_pieces (take pos s @ pat @ ?rest) =
        (take pos s @ hd (shell_pieces (pat @ ?rest))) # tl (shell_pieces (pat @ ?rest))"
      by (rule shell_pieces_plain_prefix)
    moreover have "segments_of (tl (shell_pieces (pat @ ?rest))) = segments_of (shell_pieces ?rest)"
      using shell_pieces_pattern [OF pat(1), of ?rest]
      by (cases "shell_pieces (pat @ ?rest)") (auto simp: push_nonempty_def)
    ultimately have "segments_of (shell_pieces s) =
        push_nonempty (trim (take pos s)) @ segments_of (shell_pieces ?rest)"
      using s shell_pieces_pattern [OF pat(1), of ?rest] by simp
    then show ?thesis
      using 1 [OF Some] Some pl by (simp add: split_shell_segments.simps [of s])
  qed
qed

lemma shell_pieces_sep:
  "one_char_meta c \<Longrightarrow> shell_pieces (a @ c # b) = shell_pieces a @ shell_pieces b"
proof (induction a rule: shell_pieces.induct)
  case 1
  then show ?case by simp
next
  case (2 x xs)
  have "two_char_meta x (xs @ c # b) = two_char_meta x xs"
    using "2.prems" by (cases xs) (auto simp: two_char_meta_def one_char_meta_def)
  moreover have "drop 1 (xs @ c # b) = drop 1 xs @ c # b" if "two_char_meta x xs"
    using that by (cases xs) (auto simp: two_char_meta_def)
  ultimately show ?case using 2 by simp
qed

definition shell_plain :: "string \<Rightarrow> bool" where
  "shell_plain s \<longleftrightarrow> (\<forall>c\<in>set s. \<not> one_char_meta c \<and> c \<noteq> CHR ''&'' \<and> c \<noteq> CHR ''$'')"

lemma shell_pieces_plain:
  "shell_plain u \<Longrightarrow> shell_pieces (u @ v) = (u @ hd (shell_pieces v)) # tl (shell_pieces v)"
  by (induction u) (auto simp: shell_plain_def two_char_meta_def)

lemma shell_pieces_plain_all: "shell_plain u \<Longrightarrow> shell_pieces u = [u]"
  using shell_pieces_plain [of u "[]"] by simp

lemma extract_base_command_word:
  assumes "w \<noteq> []" "\<forall>c\<in>set w. \<not> is_whitespace c"
  shows "extract_base_command (w @ CHR '' '' # r) = extract_base_command w"
  using assms by (simp add: extract_base_command_def split_whitespace_def split_by_first
      split_by_no_sep is_whitespace_def)

lemma trim_word:
  assumes "w \<noteq> []" "\<forall>c\<in>set w. \<not> is_whitespace c"
  shows "trim w = w"
proof -
  from assms have "dropWhile is_whitespace w = w" "dropWhile is_whitespace (rev w) = rev w"
    by (auto simp: dropWhile_eq_self_iff hd_rev)
  then show ?thesis by (simp add: trim_def)
qed

lemma trim_word_mid:
  assumes "w \<noteq> []" "\<forall>c\<in>set w. \<not> is_whitespace c" "\<not> is_whitespace x"
  shows "\<exists>r. trim (w @ u @ x # v) = w @ u @ x # r"
proof -
  from assms have "dropWhile is_whitespace (w @ u @ x # v) = w @ u @ x # v"
    by (auto simp: dropWhile_eq_self_iff)
  moreover obtain r where
    "rev (dropWhile is_whitespace (rev ((w @ u) @ x # v))) = (w @ u) @ x # r"
    using dropWhile_rev_mid [of is_whitespace x "w @ u" v] assms(3) by blast
  ultimately show ?thesis by (auto simp: trim_def)
qed

section \<open>Properties\<close>

text \<open>
  C8: the search-and-cut loop of \<open>split_shell_segments\<close> is the plain one-pass scanner: its
  segments are the trimmed non-blank pieces between metacharacters, for every command line, and
  the loop always ends.
\<close>

theorem split_shell_segments_scan:
  "split_shell_segments command = filter (\<lambda>s. s \<noteq> []) (map trim (shell_pieces command))"
  by (simp add: split_shell_segments_eq segments_of_def)

text \<open>
  C38: a chain is allowed exactly when both of its halves are. For a pipe, a semicolon, a
  backquote or a newline between two texts that each hold a command, \<open>check_shell\<close> accepts
  the whole if and only if it accepts both sides: no command can ride behind an allowed one.
\<close>

theorem check_shell_chain:
  assumes "sep \<in> {CHR ''|'', CHR '';'', CHR 96, CHR 10}"
    and "split_shell_segments a \<noteq> []" and "split_shell_segments b \<noteq> []"
  shows "check_shell ps (a @ sep # b) \<longleftrightarrow> check_shell ps a \<and> check_shell ps b"
proof -
  have "split_shell_segments (a @ sep # b) = split_shell_segments a @ split_shell_segments b"
    using assms(1) by (simp add: split_shell_segments_eq shell_pieces_sep one_char_meta_def)
  with assms show ?thesis by (auto simp: check_shell_iff)
qed

theorem check_shell_chain_witness:
  "CHR '';'' \<in> {CHR ''|'', CHR '';'', CHR 96, CHR 10}
   \<and> split_shell_segments ''ls'' \<noteq> [] \<and> split_shell_segments ''rm'' \<noteq> []
   \<and> \<not> check_shell (grant permission_set_new (ShellExec [''ls''])) (''ls'' @ CHR '';'' # ''rm'')"
proof -
  have s: "CHR '';'' \<in> {CHR ''|'', CHR '';'', CHR 96, CHR 10}" by simp
  have ls: "split_shell_segments ''ls'' = [''ls'']" "split_shell_segments ''rm'' = [''rm'']"
    by (simp_all add: split_shell_segments_eq one_char_meta_def two_char_meta_def
        push_nonempty_def trim_def is_whitespace_def)
  have "\<not> check_shell (grant permission_set_new (ShellExec [''ls''])) ''rm''"
    by (simp add: check_shell_iff ls extract_base_command_def split_whitespace_def
        is_whitespace_def shell_allowed_commands_def permission_set_defs)
  then show ?thesis
    using s ls check_shell_chain [OF s, of "''ls''" "''rm''"
        "grant permission_set_new (ShellExec [''ls''])"]
    by simp
qed

text \<open>
  The background operator is not a separator. After an allowed command word, a single
  \<open>&\<close> lets any further text without the listed metacharacters through unchecked: the
  answer depends on the first word alone.
\<close>

lemma single_ampersand_unchecked:
  assumes "w \<noteq> []" "\<forall>c\<in>set w. \<not> is_whitespace c" "shell_plain w" "shell_plain t"
  shows "check_shell ps (w @ '' & '' @ t) = check_shell ps w"
proof -
  have "shell_pieces (w @ '' '' @ ''& '' @ t) = [w @ '' & '' @ t]"
    using assms(3,4) by (simp add: shell_pieces_plain [of w] shell_pieces_plain_all
        one_char_meta_def two_char_meta_def)
  moreover obtain r where r: "trim (w @ '' '' @ CHR ''&'' # '' '' @ t) = w @ '' '' @ CHR ''&'' # r"
    using trim_word_mid [OF assms(1,2), of "CHR ''&''" "'' ''" "'' '' @ t"]
    by (auto simp: is_whitespace_def)
  ultimately have "split_shell_segments (w @ '' & '' @ t) = [w @ '' &'' @ r]"
    by (simp add: split_shell_segments_eq push_nonempty_def)
  moreover have "split_shell_segments w = [w]"
    using assms by (simp add: split_shell_segments_eq shell_pieces_plain_all trim_word push_nonempty_def)
  ultimately show ?thesis
    using extract_base_command_word [OF assms(1,2)] by (simp add: check_shell_iff)
qed

end
