(* ===== verification/CoreTypes.thy ===== *)
theory CoreTypes
  imports RustStd
begin

text \<open>
  Types of \<open>argentor-core\<close> that several crates use: the error type (\<open>error.rs\<close>) and the
  messages of a conversation (\<open>message.rs\<close>). A \<open>Uuid\<close> is its 128 bits; \<open>Uuid::new_v4\<close> and
  the clock are inputs of the operations that call them. A \<open>serde_json::Value\<close> is of the type
  \<open>'v\<close>, for it is only stored.
\<close>

datatype ArgentorError =
    Gateway string
  | Agent string
  | Skill string
  | Channel string
  | Security string
  | Session string
  | Config string
  | Serialization string
  | Io string
  | Http string

type_synonym Uuid = "128 word"

datatype MessageRole = User | Assistant | System | Tool

record 'v Message =
  message_id :: Uuid
  message_role :: MessageRole
  content :: string
  session_id :: Uuid
  channel_id :: "string option"
  message_timestamp :: int
  message_metadata :: "string \<rightharpoonup> 'v"

definition message_new :: "Uuid \<Rightarrow> int \<Rightarrow> MessageRole \<Rightarrow> string \<Rightarrow> Uuid \<Rightarrow> 'v Message" where
  "message_new new_id now r c sid =
     \<lparr>message_id = new_id, message_role = r, content = c, session_id = sid, channel_id = None,
      message_timestamp = now, message_metadata = Map.empty\<rparr>"

definition message_user :: "Uuid \<Rightarrow> int \<Rightarrow> string \<Rightarrow> Uuid \<Rightarrow> 'v Message" where
  "message_user new_id now c sid = message_new new_id now User c sid"

definition message_assistant :: "Uuid \<Rightarrow> int \<Rightarrow> string \<Rightarrow> Uuid \<Rightarrow> 'v Message" where
  "message_assistant new_id now c sid = message_new new_id now Assistant c sid"

definition message_system :: "Uuid \<Rightarrow> int \<Rightarrow> string \<Rightarrow> Uuid \<Rightarrow> 'v Message" where
  "message_system new_id now c sid = message_new new_id now System c sid"

end
