(* ===== verification/PathCheck.thy ===== *)
theory PathCheck
  imports Capability CoreTypes
begin

text \<open>
  \<open>argentor-security/src/capability.rs\<close>, the file checks: sanitising the path text,
  resolving \<open>.\<close> and \<open>..\<close> without the file system, resolving the nearest existing ancestor
  with it, and comparing whole components. A path is its list of components, as
  \<open>std::path\<close> parses it on Unix; \<open>Path::starts_with\<close> compares components. What comes
  from outside is a parameter: the file system (\<open>canonicalize\<close> and \<open>exists\<close>) as a
  record, and the NFKC normaliser of the \<open>unicode_normalization\<close> crate as a function.
\<close>

section \<open>Sanitising the path text\<close>

text \<open>\<open>char::to_digit(16)\<close> of a byte.\<close>

definition hex_digit :: "nat \<Rightarrow> nat option" where
  "hex_digit b =
     (if 48 \<le> b \<and> b \<le> 57 then Some (b - 48)
      else if 97 \<le> b \<and> b \<le> 102 then Some (b - 87)
      else if 65 \<le> b \<and> b \<le> 70 then Some (b - 55)
      else None)"

text \<open>The ASCII byte that two hexadecimal digits at the front of the bytes encode.\<close>

definition hex_byte :: "nat list \<Rightarrow> nat option" where
  "hex_byte bs =
     (case bs of
        b1 # b2 # _ \<Rightarrow>
          (case (hex_digit b1, hex_digit b2) of
             (Some h, Some l) \<Rightarrow> if h * 16 + l < 128 then Some (h * 16 + l) else None
           | _ \<Rightarrow> None)
      | _ \<Rightarrow> None)"

fun percent_decode_bytes :: "nat list \<Rightarrow> string" where
  "percent_decode_bytes [] = []"
| "percent_decode_bytes (b # bs) =
     (case (if b = 37 then hex_byte bs else None) of
        Some v \<Rightarrow> char_of v # percent_decode_bytes (drop 2 bs)
      | None \<Rightarrow> char_of b # percent_decode_bytes bs)"

definition percent_decode_ascii :: "string \<Rightarrow> string" where
  "percent_decode_ascii input = percent_decode_bytes (as_bytes input)"

definition sanitize_path_input :: "(string \<Rightarrow> string) \<Rightarrow> string \<Rightarrow> ArgentorError + string" where
  "sanitize_path_input nfkc raw =
     (if CHR 0x00 \<in> set raw then Inl (Security ''Path contains null byte'')
      else let decoded = percent_decode_ascii raw in
        if CHR 0x00 \<in> set decoded then Inl (Security ''Encoded null byte in path'')
        else Inr (nfkc decoded))"

section \<open>Paths\<close>

datatype Component = RootDir | CurDir | ParentDir | Normal string

type_synonym path = "Component list"

text \<open>\<open>Path::components\<close>: empty and \<open>.\<close> pieces are dropped, but for a leading \<open>.\<close>.\<close>

definition component_of :: "string \<Rightarrow> Component list" where
  "component_of piece =
     (if piece = '''' \<or> piece = ''.'' then []
      else if piece = ''..'' then [ParentDir] else [Normal piece])"

definition path_components :: "string \<Rightarrow> path" where
  "path_components s =
     (let pieces = split_char (CHR ''/'') s; rest = concat (map component_of pieces) in
      if prefix ''/'' s then RootDir # rest
      else if hd pieces = ''.'' then CurDir # rest else rest)"

definition is_normal :: "Component \<Rightarrow> bool" where
  "is_normal c = (case c of Normal _ \<Rightarrow> True | _ \<Rightarrow> False)"

text \<open>One turn of the loop of \<open>normalize_path\<close> over the components.\<close>

definition normalize_step :: "path \<Rightarrow> Component \<Rightarrow> path" where
  "normalize_step components c =
     (case c of
        CurDir \<Rightarrow> components
      | ParentDir \<Rightarrow>
          if components \<noteq> [] \<and> is_normal (last components) then butlast components else components
      | _ \<Rightarrow> components @ [c])"

definition normalize_path :: "path \<Rightarrow> path" where
  "normalize_path p =
     (let components = foldl normalize_step [] p
      in if components = [] then [RootDir] else components)"

record FileSystem =
  fs_canonicalize :: "path \<Rightarrow> path option"
  fs_exists :: "path \<Rightarrow> bool"

definition path_parent :: "path \<Rightarrow> path option" where
  "path_parent p = (if p = [] \<or> p = [RootDir] then None else Some (butlast p))"

definition path_file_name :: "path \<Rightarrow> string option" where
  "path_file_name p =
     (if p = [] then None else case last p of Normal n \<Rightarrow> Some n | _ \<Rightarrow> None)"

text \<open>The loop of \<open>canonicalize_best_effort\<close>; \<open>tail\<close> is its \<open>tail_components\<close>.\<close>

function walk_up :: "FileSystem \<Rightarrow> path \<Rightarrow> string list \<Rightarrow> path option" where
  "walk_up fs current tail =
     (case path_parent current of
        None \<Rightarrow> None
      | Some parent \<Rightarrow>
          (let tail' = (case path_file_name current of Some n \<Rightarrow> tail @ [n] | None \<Rightarrow> tail);
               up = walk_up fs parent tail'
           in if fs_exists fs parent
              then case fs_canonicalize fs parent of
                     Some canonical_parent \<Rightarrow> Some (canonical_parent @ map Normal (rev tail'))
                   | None \<Rightarrow> up
              else up))"
  by pat_completeness auto
termination
  by (relation "measure (\<lambda>(fs, current, tail). length current)")
    (auto simp: path_parent_def split: if_splits)

declare walk_up.simps [simp del]

definition canonicalize_best_effort :: "FileSystem \<Rightarrow> path \<Rightarrow> path" where
  "canonicalize_best_effort fs p =
     (let normalized = normalize_path p in
      case fs_canonicalize fs normalized of
        Some canon \<Rightarrow> canon
      | None \<Rightarrow> (case walk_up fs normalized [] of Some r \<Rightarrow> r | None \<Rightarrow> normalized))"

definition path_is_under :: "path \<Rightarrow> path \<Rightarrow> bool" where
  "path_is_under candidate allowed_prefix = prefix allowed_prefix candidate"

section \<open>The checks\<close>

definition allows_path :: "FileSystem \<Rightarrow> path \<Rightarrow> string list \<Rightarrow> bool" where
  "allows_path fs canonical allowed_paths \<longleftrightarrow>
     (\<exists>p\<in>set allowed_paths.
        path_is_under canonical (canonicalize_best_effort fs (path_components p)))"

definition check_file_read_path :: "FileSystem \<Rightarrow> PermissionSet \<Rightarrow> path \<Rightarrow> bool" where
  "check_file_read_path fs ps p \<longleftrightarrow>
     (let canonical = canonicalize_best_effort fs p in
      \<exists>c\<in>capabilities ps. case c of
        FileRead allowed_paths \<Rightarrow> allows_path fs canonical allowed_paths
      | _ \<Rightarrow> False)"

definition check_file_read :: "(string \<Rightarrow> string) \<Rightarrow> FileSystem \<Rightarrow> PermissionSet \<Rightarrow> string \<Rightarrow> bool" where
  "check_file_read nfkc fs ps p =
     (case sanitize_path_input nfkc p of
        Inr s \<Rightarrow> check_file_read_path fs ps (path_components s)
      | Inl _ \<Rightarrow> False)"

definition check_file_write_path :: "FileSystem \<Rightarrow> PermissionSet \<Rightarrow> path \<Rightarrow> bool" where
  "check_file_write_path fs ps p \<longleftrightarrow>
     (let canonical = canonicalize_best_effort fs p in
      \<exists>c\<in>capabilities ps. case c of
        FileWrite allowed_paths \<Rightarrow> allows_path fs canonical allowed_paths
      | _ \<Rightarrow> False)"

definition check_file_write :: "(string \<Rightarrow> string) \<Rightarrow> FileSystem \<Rightarrow> PermissionSet \<Rightarrow> string \<Rightarrow> bool" where
  "check_file_write nfkc fs ps p =
     (case sanitize_path_input nfkc p of
        Inr s \<Rightarrow> check_file_write_path fs ps (path_components s)
      | Inl _ \<Rightarrow> False)"

section \<open>Normalisation\<close>

text \<open>A resolved path: plain names, after at most one leading root.\<close>

definition clean_path :: "path \<Rightarrow> bool" where
  "clean_path p \<longleftrightarrow>
     (case p of [] \<Rightarrow> True | c # cs \<Rightarrow> (c = RootDir \<or> is_normal c) \<and> (\<forall>c\<in>set cs. is_normal c))"

lemma is_normal_simps [simp]:
  "is_normal (Normal n)" "\<not> is_normal RootDir" "\<not> is_normal CurDir" "\<not> is_normal ParentDir"
  by (simp_all add: is_normal_def)

lemma is_normal_iff: "is_normal c \<longleftrightarrow> (\<exists>n. c = Normal n)"
  by (cases c) simp_all

lemma normalize_step_simps [simp]:
  "normalize_step q CurDir = q"
  "normalize_step q (Normal n) = q @ [Normal n]"
  "normalize_step q RootDir = q @ [RootDir]"
  "normalize_step (q @ [Normal n]) ParentDir = q"
  by (simp_all add: normalize_step_def)

lemma clean_path_snoc: "clean_path q \<Longrightarrow> is_normal c \<Longrightarrow> clean_path (q @ [c])"
  by (cases q) (auto simp: clean_path_def)

lemma clean_path_butlast: "clean_path q \<Longrightarrow> clean_path (butlast q)"
  by (cases q) (auto simp: clean_path_def dest: in_set_butlastD)

lemma clean_path_step: "clean_path q \<Longrightarrow> c \<noteq> RootDir \<Longrightarrow> clean_path (normalize_step q c)"
  by (cases c) (auto simp: normalize_step_def clean_path_butlast intro: clean_path_snoc)

text \<open>Only the head of a parsed path is the root.\<close>

definition parsed_path :: "path \<Rightarrow> bool" where
  "parsed_path p \<longleftrightarrow> RootDir \<notin> set (tl p)"

lemma component_of_no_root: "c \<in> set (component_of piece) \<Longrightarrow> c \<noteq> RootDir"
  by (auto simp: component_of_def split: if_splits)

lemma parsed_path_components: "parsed_path (path_components s)"
proof -
  have "RootDir \<notin> set (concat (map component_of ps))" for ps
    by (auto dest: component_of_no_root)
  moreover have "RootDir \<notin> set (tl xs)" if "RootDir \<notin> set xs" for xs
    using that by (cases xs) auto
  ultimately show ?thesis
    by (auto simp: parsed_path_def path_components_def Let_def)
qed

lemma normalize_fold_clean:
  "clean_path q \<Longrightarrow> RootDir \<notin> set p \<Longrightarrow> clean_path (foldl normalize_step q p)"
  by (induction p arbitrary: q) (auto simp: clean_path_step)

lemma normalize_fold_parsed: "parsed_path p \<Longrightarrow> clean_path (foldl normalize_step [] p)"
proof (cases p)
  case Nil
  then show ?thesis by (simp add: clean_path_def)
next
  case (Cons c cs)
  moreover assume "parsed_path p"
  moreover have "clean_path (normalize_step [] c)"
    by (cases c) (auto simp: normalize_step_def clean_path_def)
  ultimately show ?thesis by (simp add: parsed_path_def normalize_fold_clean)
qed

lemma normalize_path_clean: "parsed_path p \<Longrightarrow> clean_path (normalize_path p)"
  using normalize_fold_parsed [of p] by (simp add: normalize_path_def Let_def clean_path_def)

lemma normalize_fold_normals:
  "\<forall>c\<in>set p. is_normal c \<Longrightarrow> foldl normalize_step q p = q @ p"
  by (induction p arbitrary: q) (auto simp: is_normal_iff)

lemma normalize_clean: "clean_path p \<Longrightarrow> p \<noteq> [] \<Longrightarrow> normalize_path p = p"
  by (cases p) (auto simp: normalize_path_def clean_path_def normalize_fold_normals is_normal_iff)

lemma normalize_path_not_Nil [simp]: "normalize_path p \<noteq> []"
  by (simp add: normalize_path_def Let_def)

lemma normalize_step_root: "\<exists>q'. normalize_step (RootDir # q) c = RootDir # q'"
  by (cases c) (auto simp: normalize_step_def is_normal_iff)

lemma normalize_fold_root: "\<exists>q'. foldl normalize_step (RootDir # q) p = RootDir # q'"
proof (induction p arbitrary: q)
  case Nil
  show ?case by simp
next
  case (Cons c p)
  obtain q' where "normalize_step (RootDir # q) c = RootDir # q'"
    using normalize_step_root by blast
  with Cons show ?case by simp
qed

lemma normalize_path_absolute: "hd (normalize_path (RootDir # p)) = RootDir"
  using normalize_fold_root [of "[]" p] by (auto simp: normalize_path_def)

lemma normalize_fold_climb:
  "foldl normalize_step (RootDir # map Normal as) (replicate k ParentDir) =
     RootDir # map Normal (take (length as - k) as)"
proof (induction k arbitrary: as)
  case 0
  show ?case by simp
next
  case (Suc k)
  show ?case
  proof (cases as rule: rev_cases)
    case Nil
    then show ?thesis using Suc [of "[]"] by (simp add: normalize_step_def)
  next
    case (snoc bs b)
    have "normalize_step (RootDir # map Normal as) ParentDir = RootDir # map Normal bs"
      using normalize_step_simps(4) [of "RootDir # map Normal bs" b] by (simp add: snoc)
    with Suc [of bs] show ?thesis by (simp add: snoc)
  qed
qed

lemma normalize_path_climb:
  "normalize_path (RootDir # map Normal as @ replicate k ParentDir @ map Normal bs) =
     RootDir # map Normal (take (length as - k) as @ bs)"
proof -
  have "foldl normalize_step [] (RootDir # map Normal as @ replicate k ParentDir @ map Normal bs) =
      RootDir # map Normal (take (length as - k) as @ bs)"
    by (simp add: normalize_fold_normals normalize_fold_climb)
  then show ?thesis unfolding normalize_path_def by simp
qed

section \<open>The nearest existing ancestor\<close>

definition resolvable :: "FileSystem \<Rightarrow> path \<Rightarrow> bool" where
  "resolvable fs p \<longleftrightarrow> fs_exists fs p \<and> fs_canonicalize fs p \<noteq> None"

text \<open>The lengths of the proper ancestors of a path, the longest first.\<close>

definition ancestor_lengths :: "path \<Rightarrow> nat list" where
  "ancestor_lengths q = rev [(if q \<noteq> [] \<and> hd q = RootDir then 1 else 0)..<length q]"

lemma find_ancestor_snoc:
  "q \<noteq> [] \<or> c \<noteq> RootDir \<Longrightarrow>
   find (\<lambda>n. resolvable fs (take n (q @ [c]))) (ancestor_lengths (q @ [c])) =
     (if resolvable fs q then Some (length q)
      else find (\<lambda>n. resolvable fs (take n q)) (ancestor_lengths q))"
  by (auto simp: ancestor_lengths_def hd_append Suc_le_eq intro!: find_cong)

lemma find_ancestor_less:
  "find (\<lambda>n. resolvable fs (take n q)) (ancestor_lengths q) = Some n \<Longrightarrow> n < length q"
  by (auto simp: find_Some_iff ancestor_lengths_def rev_nth split: if_splits)

lemma walk_up_find:
  "clean_path q \<Longrightarrow>
   walk_up fs q tail =
     (case find (\<lambda>n. resolvable fs (take n q)) (ancestor_lengths q) of
        Some n \<Rightarrow> Some (the (fs_canonicalize fs (take n q)) @ drop n q @ map Normal (rev tail))
      | None \<Rightarrow> None)"
proof (induction q arbitrary: tail rule: rev_induct)
  case Nil
  show ?case by (simp add: walk_up.simps [of fs "[]"] path_parent_def ancestor_lengths_def)
next
  case (snoc c q)
  show ?case
  proof (cases "q = [] \<and> c = RootDir")
    case True
    then show ?thesis
      by (simp add: walk_up.simps [of fs "[RootDir]"] path_parent_def ancestor_lengths_def)
  next
    case False
    then obtain n where c: "c = Normal n"
      using snoc.prems by (cases q) (auto simp: clean_path_def is_normal_iff)
    have clean: "clean_path q"
      using clean_path_butlast [OF snoc.prems] by simp
    have up: "walk_up fs (q @ [c]) tail =
        (if resolvable fs q
         then Some (the (fs_canonicalize fs q) @ Normal n # map Normal (rev tail))
         else walk_up fs q (tail @ [n]))"
      by (subst walk_up.simps)
        (auto simp: path_parent_def path_file_name_def c Let_def resolvable_def split: option.splits)
    have "q \<noteq> [] \<or> c \<noteq> RootDir" using False by blast
    note find = find_ancestor_snoc [OF this, of fs]
    show ?thesis
      unfolding up find snoc.IH [OF clean]
      by (auto simp: c split: option.splits dest!: find_ancestor_less)
  qed
qed

text \<open>\<open>canonicalize\<close> gives the absolute path with links and dots resolved. Without symbolic links, the
  resolved form of an existing path from the root that has no dots is that path.\<close>

definition no_symlinks :: "FileSystem \<Rightarrow> bool" where
  "no_symlinks fs \<longleftrightarrow>
     (\<forall>q. clean_path (RootDir # q) \<longrightarrow>
        fs_canonicalize fs (RootDir # q) = (if fs_exists fs (RootDir # q) then Some (RootDir # q) else None))"

lemma clean_path_take: "clean_path q \<Longrightarrow> clean_path (take n q)"
  by (cases q; cases n) (auto simp: clean_path_def dest: in_set_takeD)

lemma canonicalize_no_symlinks:
  assumes "no_symlinks fs" "parsed_path (RootDir # p)"
  shows "canonicalize_best_effort fs (RootDir # p) = normalize_path (RootDir # p)"
proof -
  obtain q where q: "normalize_path (RootDir # p) = RootDir # q"
    using normalize_path_absolute [of p] by (cases "normalize_path (RootDir # p)") auto
  have clean: "clean_path (RootDir # q)" using normalize_path_clean [OF assms(2)] q by simp
  have same: "fs_canonicalize fs (RootDir # r) = (if fs_exists fs (RootDir # r) then Some (RootDir # r) else None)"
    if "clean_path (RootDir # r)" for r
    using assms(1) that by (simp add: no_symlinks_def)
  show ?thesis
  proof (cases "fs_canonicalize fs (RootDir # q)")
    case None
    have "walk_up fs (RootDir # q) [] = Some (RootDir # q) \<or> walk_up fs (RootDir # q) [] = None"
    proof (cases "find (\<lambda>n. resolvable fs (take n (RootDir # q))) (ancestor_lengths (RootDir # q))")
      case (Some n)
      then have n: "resolvable fs (take n (RootDir # q))" "n \<in> set (ancestor_lengths (RootDir # q))"
        by (auto simp: find_Some_iff)
      then obtain m where m: "n = Suc m" by (cases n) (auto simp: ancestor_lengths_def)
      have "fs_canonicalize fs (take n (RootDir # q)) = Some (take n (RootDir # q))"
        using n(1) same [of "take m q"] clean_path_take [OF clean, of n] m by (simp add: resolvable_def)
      then show ?thesis using walk_up_find [OF clean, of fs "[]"] Some by simp
    qed (simp add: walk_up_find [OF clean])
    then show ?thesis using None q by (auto simp: canonicalize_best_effort_def)
  next
    case (Some c)
    then show ?thesis using same [OF clean] q by (auto simp: canonicalize_best_effort_def split: if_splits)
  qed
qed

lemma parsed_path_climb:
  "parsed_path (RootDir # map Normal as @ replicate k ParentDir @ map Normal bs)"
  by (auto simp: parsed_path_def)

section \<open>Percent decoding\<close>

definition hex_code :: "nat \<Rightarrow> char" where
  "hex_code d = (if d < 10 then char_of (48 + d) else char_of (55 + d))"

text \<open>Every character as a percent sign and two hexadecimal digits.\<close>

definition percent_encode :: "string \<Rightarrow> string" where
  "percent_encode s =
     concat (map (\<lambda>c. [CHR 37, hex_code (of_char c div 16), hex_code (of_char c mod 16)]) s)"

lemma hex_digit_code:
  assumes "d < 16"
  shows "hex_digit (of_char (hex_code d)) = Some d" and "(of_char (hex_code d) :: nat) < 128"
proof -
  have "of_char (hex_code d) = (if d < 10 then 48 + d else 55 + d)"
    using assms by (simp add: hex_code_def)
  with assms show "hex_digit (of_char (hex_code d)) = Some d"
    and "(of_char (hex_code d) :: nat) < 128"
    by (auto simp: hex_digit_def)
qed

lemma as_bytes_Cons: "as_bytes (c # s) = utf8_char c @ as_bytes s"
  by (simp add: as_bytes_def)

lemma utf8_char_ascii: "(of_char c :: nat) < 128 \<Longrightarrow> utf8_char c = [of_char c]"
  by (simp add: utf8_char_def)

lemma percent_decode_encode:
  "is_ascii s \<Longrightarrow> percent_decode_bytes (as_bytes (percent_encode s)) = s"
proof (induction s)
  case Nil
  show ?case by (simp add: percent_encode_def as_bytes_def)
next
  case (Cons c s)
  let ?n = "of_char c :: nat"
  have n: "?n < 128" using Cons.prems by (simp add: is_ascii_def)
  have digits: "?n div 16 < 16" "?n mod 16 < 16" using n by auto
  have bytes: "as_bytes (percent_encode (c # s)) =
      37 # of_char (hex_code (?n div 16)) # of_char (hex_code (?n mod 16)) # as_bytes (percent_encode s)"
    using digits by (simp add: percent_encode_def as_bytes_Cons utf8_char_ascii hex_digit_code)
  have "hex_byte (of_char (hex_code (?n div 16)) # of_char (hex_code (?n mod 16))
      # as_bytes (percent_encode s)) = Some ?n"
    using n digits by (simp add: hex_byte_def hex_digit_code)
  with Cons bytes show ?case by (simp add: is_ascii_def)
qed

lemma percent_decode_plain: "37 \<notin> set bs \<Longrightarrow> percent_decode_bytes bs = map char_of bs"
  by (induction bs) auto

lemma percent_not_in_utf8: "CHR 37 \<notin> set s \<Longrightarrow> 37 \<notin> set (as_bytes s)"
proof (induction s)
  case Nil
  show ?case by (simp add: as_bytes_def)
next
  case (Cons c s)
  have "(of_char c :: nat) \<noteq> of_char (CHR 37)"
    using Cons.prems of_char_eq_iff [of c "CHR 37"] by auto
  then have "(of_char c :: nat) \<noteq> 37" by simp
  with Cons show ?case by (auto simp: as_bytes_Cons utf8_char_def Let_def)
qed

lemma length_as_bytes_ge: "length s \<le> length (as_bytes s)"
  by (induction s) (auto simp: as_bytes_def utf8_char_def Let_def)

lemma length_as_bytes_eq: "length (as_bytes s) = length s \<Longrightarrow> is_ascii s"
proof (induction s)
  case Nil
  show ?case by (simp add: is_ascii_def)
next
  case (Cons c s)
  then show ?case
    using length_as_bytes_ge [of s]
    by (auto simp: as_bytes_Cons utf8_char_def is_ascii_def Let_def split: if_splits)
qed

section \<open>Properties\<close>

text \<open>C12: a file permission cannot be left by climbing. On a file system without symbolic links, a read
  of \<open>/a1/../an\<close> followed by \<open>k\<close> parent steps and then \<open>b1/../bm\<close> is allowed by a permission on the
  absolute directory \<open>a\<close> exactly when the path it really denotes, with the parent steps carried out and
  never above the root, has the whole components of \<open>a\<close> as a prefix; whether these paths exist makes no
  difference.\<close>

theorem file_read_containment:
  assumes "no_symlinks fs" "prefix ''/'' a"
  shows "check_file_read_path fs (grant permission_set_new (FileRead [a]))
      (RootDir # map Normal as @ replicate k ParentDir @ map Normal bs) \<longleftrightarrow>
    prefix (normalize_path (path_components a)) (RootDir # map Normal (take (length as - k) as @ bs))"
proof -
  obtain r where r: "path_components a = RootDir # r" using assms(2) by (simp add: path_components_def Let_def)
  show ?thesis
    using assms(1) parsed_path_components [of a]
    by (simp add: check_file_read_path_def allows_path_def path_is_under_def permission_set_defs r
        canonicalize_no_symlinks parsed_path_climb normalize_path_climb del: map_append)
qed

text \<open>A file system with the directories \<open>/\<close>, \<open>/tmp\<close> and \<open>/etc\<close>, in whose root the process works.\<close>

definition from_root :: "path \<Rightarrow> path" where
  "from_root p = normalize_path (if p \<noteq> [] \<and> hd p = RootDir then p else RootDir # p)"

definition two_directories :: FileSystem where
  "two_directories =
     (let dirs = [[RootDir], [RootDir, Normal ''tmp''], [RootDir, Normal ''etc'']]
      in \<lparr>fs_canonicalize = (\<lambda>p. if from_root p \<in> set dirs then Some (from_root p) else None),
          fs_exists = (\<lambda>p. from_root p \<in> set dirs)\<rparr>)"

theorem file_read_containment_witness:
  "no_symlinks two_directories
   \<and> check_file_read_path two_directories (grant permission_set_new (FileRead [''/tmp'']))
         (RootDir # map Normal [''etc''] @ replicate 1 ParentDir @ map Normal [''tmp'', ''x''])
   \<and> \<not> check_file_read_path two_directories (grant permission_set_new (FileRead [''/tmp'']))
         (RootDir # map Normal [''tmp''] @ replicate 1 ParentDir @ map Normal [''etc''])"
proof -
  have h: "no_symlinks two_directories"
    by (simp add: no_symlinks_def two_directories_def Let_def from_root_def normalize_clean)
  have tmp: "normalize_path (path_components ''/tmp'') = [RootDir, Normal ''tmp'']"
    by (simp add: path_components_def component_of_def normalize_path_def)
  show ?thesis
    using h file_read_containment [OF h, of "''/tmp''" "[''tmp'']" 1 "[''etc'']"]
      file_read_containment [OF h, of "''/tmp''" "[''etc'']" 1 "[''tmp'', ''x'']"]
    unfolding tmp by simp
qed

text \<open>
  The resolved form of a path. Whatever text is given, the normalised path has no
  \<open>.\<close> and no \<open>..\<close> left, the root can only be its head, normalising it again changes
  nothing, and a text that starts with a slash gives a path from the root.
\<close>

lemma normalize_path_resolved:
  "(let q = normalize_path (path_components s) in
      clean_path q \<and> CurDir \<notin> set q \<and> ParentDir \<notin> set q \<and> normalize_path q = q)
   \<and> hd (normalize_path (path_components (CHR ''/'' # s))) = RootDir"
proof -
  define q where "q = normalize_path (path_components s)"
  have clean: "clean_path q"
    unfolding q_def by (intro normalize_path_clean parsed_path_components)
  moreover have "CurDir \<notin> set q \<and> ParentDir \<notin> set q"
    using clean by (cases q) (auto simp: clean_path_def)
  moreover have "normalize_path q = q"
    using clean normalize_path_not_Nil by (auto simp: q_def intro: normalize_clean)
  moreover have "hd (normalize_path (path_components (CHR ''/'' # s))) = RootDir"
    by (simp add: path_components_def normalize_path_absolute Let_def)
  ultimately show ?thesis unfolding q_def Let_def by blast
qed

text \<open>
  Symbolic links are resolved at the nearest existing ancestor. For any file system and any
  path text, the result is the canonical form of the whole normalised path if there is one; else
  that of its longest proper ancestor that exists and has one, with the remaining components
  appended; else the normalised path itself.
\<close>

lemma canonicalize_nearest_ancestor:
  "canonicalize_best_effort fs (path_components s) =
     (let q = normalize_path (path_components s) in
      case fs_canonicalize fs q of
        Some canon \<Rightarrow> canon
      | None \<Rightarrow>
          (case find (\<lambda>n. resolvable fs (take n q)) (ancestor_lengths q) of
             Some n \<Rightarrow> the (fs_canonicalize fs (take n q)) @ drop n q
           | None \<Rightarrow> q))"
  using walk_up_find [OF normalize_path_clean [OF parsed_path_components], of fs s "[]"]
  by (simp add: canonicalize_best_effort_def Let_def split: option.splits)

text \<open>
  Percent-encoded text is decoded before it is judged. For an ASCII text, encoding every
  character as a percent sign and two digits and decoding gives the text back; so a NUL hidden in
  this way is found, and the read is refused.
\<close>

lemma encoded_null_refused:
  assumes "is_ascii s" and "CHR 0x00 \<in> set s"
  shows "percent_decode_ascii (percent_encode s) = s
    \<and> \<not> check_file_read nfkc fs ps (percent_encode s)"
  using assms percent_decode_encode [OF assms(1)]
  by (simp add: check_file_read_def sanitize_path_input_def percent_decode_ascii_def Let_def)

lemma encoded_null_refused_witness:
  "is_ascii [CHR ''a'', CHR 0x00] \<and> CHR 0x00 \<in> set [CHR ''a'', CHR 0x00]
   \<and> \<not> check_file_read (\<lambda>x. x) \<lparr>fs_canonicalize = (\<lambda>_. None), fs_exists = (\<lambda>_. False)\<rparr>
        (grant permission_set_new (FileRead [''/''])) (percent_encode [CHR ''a'', CHR 0x00])"
proof -
  have h: "is_ascii [CHR ''a'', CHR 0x00]" "CHR 0x00 \<in> set [CHR ''a'', CHR 0x00]"
    by (simp_all add: is_ascii_def)
  show ?thesis using h encoded_null_refused [OF h] by blast
qed

text \<open>
  The decoder changes every text with a non-ASCII character. Without a percent sign in it,
  a text comes out as it went in exactly when it is ASCII: any other character is replaced by
  one character per byte of its UTF-8 encoding.
\<close>

lemma percent_decode_breaks_non_ascii:
  assumes "CHR 37 \<notin> set s"
  shows "percent_decode_ascii s = s \<longleftrightarrow> is_ascii s"
proof -
  have dec: "percent_decode_ascii s = map char_of (as_bytes s)"
    using assms by (simp add: percent_decode_ascii_def percent_decode_plain percent_not_in_utf8)
  show ?thesis
  proof
    assume "percent_decode_ascii s = s"
    then have "length (as_bytes s) = length s" using dec by (metis length_map)
    then show "is_ascii s" by (rule length_as_bytes_eq)
  next
    assume "is_ascii s"
    then show "percent_decode_ascii s = s" by (simp add: dec as_bytes_ascii o_def)
  qed
qed

end
