(* ===== verification/Rbac.thy ===== *)
theory Rbac
  imports ShellCheck PathCheck
begin

text \<open>
  \<open>argentor-security/src/rbac.rs\<close>: roles, the built-in permission table, policy bindings
  keyed by role, and policy evaluation. The bindings are a \<open>HashMap\<close>: a map; \<open>roles\<close>,
  which lists its values in the map's own order, takes that order as an argument.
\<close>

section \<open>Roles\<close>

datatype Permission =
    CreateAgent
  | RunAgent
  | ManageSkills
  | ViewLogs
  | ManageTenants
  | ConfigureGuardrails

datatype Role =
    Admin
  | Operator
  | Developer
  | Viewer
  | Custom string

fun check_permission :: "Role \<Rightarrow> Permission \<Rightarrow> bool" where
  "check_permission Admin _ \<longleftrightarrow> True"
| "check_permission Operator p \<longleftrightarrow> p \<in> {RunAgent, ManageSkills, ViewLogs}"
| "check_permission Developer p \<longleftrightarrow> p \<in> {RunAgent, ViewLogs}"
| "check_permission Viewer p \<longleftrightarrow> p \<in> {ViewLogs}"
| "check_permission (Custom _) _ \<longleftrightarrow> False"

fun role_key :: "Role \<Rightarrow> string" where
  "role_key Admin = ''admin''"
| "role_key Operator = ''operator''"
| "role_key Developer = ''developer''"
| "role_key Viewer = ''viewer''"
| "role_key (Custom name) = ''custom:'' @ name"

text \<open>\<open>{role:?}\<close>: the derived debug form.\<close>

fun show_role :: "Role \<Rightarrow> string" where
  "show_role Admin = ''Admin''"
| "show_role Operator = ''Operator''"
| "show_role Developer = ''Developer''"
| "show_role Viewer = ''Viewer''"
| "show_role (Custom name) = ''Custom('' @ debug_str name @ '')''"

section \<open>Policies\<close>

record PolicyBinding =
  role :: Role
  permissions :: PermissionSet
  allowed_skills :: "string list"
  denied_skills :: "string list"
  rate_limit_rpm :: u32

record RbacPolicy =
  bindings :: "string \<rightharpoonup> PolicyBinding"

datatype RbacDecision =
    RbacAllowed PermissionSet u32
  | RbacDenied string

fun is_allowed :: "RbacDecision \<Rightarrow> bool" where
  "is_allowed (RbacAllowed _ _) \<longleftrightarrow> True"
| "is_allowed (RbacDenied _) \<longleftrightarrow> False"

fun is_denied :: "RbacDecision \<Rightarrow> bool" where
  "is_denied (RbacDenied _) \<longleftrightarrow> True"
| "is_denied (RbacAllowed _ _) \<longleftrightarrow> False"

definition policy_new :: RbacPolicy where
  "policy_new = \<lparr>bindings = Map.empty\<rparr>"

definition add_binding :: "RbacPolicy \<Rightarrow> PolicyBinding \<Rightarrow> RbacPolicy" where
  "add_binding p b = p\<lparr>bindings := (bindings p)(role_key (role b) \<mapsto> b)\<rparr>"

definition remove_binding :: "RbacPolicy \<Rightarrow> Role \<Rightarrow> PolicyBinding option \<times> RbacPolicy" where
  "remove_binding p r =
     (bindings p (role_key r), p\<lparr>bindings := (bindings p)(role_key r := None)\<rparr>)"

definition get_binding :: "RbacPolicy \<Rightarrow> Role \<Rightarrow> PolicyBinding option" where
  "get_binding p r = bindings p (role_key r)"

definition admin_perms :: PermissionSet where
  "admin_perms = foldl grant permission_set_new
     [FileRead [''/''], FileWrite [''/''], NetworkAccess [''*''], ShellExec [''*''], DatabaseQuery]"

definition op_perms :: PermissionSet where
  "op_perms = foldl grant permission_set_new
     [FileRead [''/tmp'', ''/workspace''], FileWrite [''/tmp'', ''/workspace''], NetworkAccess [''*'']]"

definition dev_perms :: PermissionSet where
  "dev_perms = foldl grant permission_set_new [FileRead [''/workspace''], NetworkAccess [''*'']]"

definition viewer_perms :: PermissionSet where
  "viewer_perms = foldl grant permission_set_new [FileRead [''/workspace'']]"

definition default_bindings :: "PolicyBinding list" where
  "default_bindings =
     [\<lparr>role = Admin, permissions = admin_perms, allowed_skills = [], denied_skills = [],
       rate_limit_rpm = 0\<rparr>,
      \<lparr>role = Operator, permissions = op_perms, allowed_skills = [],
       denied_skills = [''shell_exec''], rate_limit_rpm = 60\<rparr>,
      \<lparr>role = Developer, permissions = dev_perms, allowed_skills = [],
       denied_skills = [''shell_exec'', ''file_write''], rate_limit_rpm = 120\<rparr>,
      \<lparr>role = Viewer, permissions = viewer_perms, allowed_skills = [''help'', ''memory_search''],
       denied_skills = [], rate_limit_rpm = 30\<rparr>]"

definition policy_with_defaults :: RbacPolicy where
  "policy_with_defaults = foldl add_binding policy_new default_bindings"

text \<open>The membership test both lists use: the name itself or the wildcard entry.\<close>

definition lists_skill :: "string list \<Rightarrow> string \<Rightarrow> bool" where
  "lists_skill skills skill_name \<longleftrightarrow> (\<exists>s\<in>set skills. s = skill_name \<or> s = ''*'')"

abbreviation quoted :: "string \<Rightarrow> string" where
  "quoted s \<equiv> [CHR 39] @ s @ [CHR 39]"

definition evaluate ::
  "RbacPolicy \<Rightarrow> Role \<Rightarrow> string \<Rightarrow> RbacDecision" where
  "evaluate p r skill_name =
     (case get_binding p r of
        None \<Rightarrow> RbacDenied (''No policy binding for role '' @ show_role r)
      | Some binding \<Rightarrow>
          if lists_skill (denied_skills binding) skill_name
          then RbacDenied (''Skill '' @ quoted skill_name @ '' is explicitly denied for role ''
                             @ show_role r)
          else if allowed_skills binding \<noteq> []
               \<and> \<not> lists_skill (allowed_skills binding) skill_name
          then RbacDenied (''Skill '' @ quoted skill_name @ '' not in allowed list for role ''
                             @ show_role r)
          else RbacAllowed (permissions binding) (rate_limit_rpm binding))"

definition policy_roles :: "RbacPolicy \<Rightarrow> string list \<Rightarrow> Role list" where
  "policy_roles p key_order = map role (List.map_filter (bindings p) key_order)"

section \<open>Lemmas\<close>

lemma role_key_inj: "role_key r = role_key r' \<longleftrightarrow> r = r'"
  by (cases r; cases r') auto

text \<open>A policy is a table from roles to bindings: the keys of distinct roles are distinct.\<close>

interpretation policy: removable_store
  get_binding add_binding role "\<lambda>b. b" "\<lambda>p r. snd (remove_binding p r)"
  by unfold_locales
    (auto simp: get_binding_def add_binding_def remove_binding_def role_key_inj)

lemma policy_new_get [simp]: "get_binding policy_new r = None"
  by (simp add: policy_new_def get_binding_def)

lemma evaluate_allowed_iff:
  "is_allowed (evaluate p r skill) \<longleftrightarrow>
     (\<exists>b. get_binding p r = Some b \<and> \<not> lists_skill (denied_skills b) skill
        \<and> (allowed_skills b = [] \<or> lists_skill (allowed_skills b) skill))"
  by (auto simp: evaluate_def split: option.splits)

lemma map_set_singleton: "f ` set xs = {y} \<longleftrightarrow> xs \<noteq> [] \<and> (\<forall>x\<in>set xs. f x = y)"
  by (cases xs) auto

section \<open>Properties\<close>

text \<open>
  What a policy decides. After adding any list of bindings to an empty policy, a role may
  use a skill exactly when the last binding added for that role exists, does not deny the skill
  (by name or by the wildcard), and either has no allow list or lists it there: a denial always
  wins over a grant, later bindings replace earlier ones and never touch other roles.
\<close>

lemma policy_decision:
  "is_allowed (evaluate (foldl add_binding policy_new bs) r skill) \<longleftrightarrow>
     (case find (\<lambda>b. role b = r) (rev bs) of
        None \<Rightarrow> False
      | Some b \<Rightarrow> \<not> lists_skill (denied_skills b) skill
          \<and> (allowed_skills b = [] \<or> lists_skill (allowed_skills b) skill))"
  by (auto simp: evaluate_allowed_iff policy.get_put_list split: option.splits)

text \<open>
  The built-in roles form a strict hierarchy: what the permission table grants a viewer it
  grants a developer, and so on up to the administrator, each step granting more.
\<close>

lemma role_hierarchy:
  "{p. check_permission (Custom name) p} \<subset> {p. check_permission Viewer p}
   \<and> {p. check_permission Viewer p} \<subset> {p. check_permission Developer p}
   \<and> {p. check_permission Developer p} \<subset> {p. check_permission Operator p}
   \<and> {p. check_permission Operator p} \<subset> {p. check_permission Admin p}"
  by (auto simp: psubset_eq set_eq_iff)

text \<open>
  The default administrator cannot run shell commands. The default policy grants the role
  the command list holding only the wildcard, but the shell check compares command names
  literally: it accepts a command line exactly when every command in it is named \<open>*\<close>.
\<close>

lemma default_admin_shell:
  "\<exists>b. get_binding policy_with_defaults Admin = Some b
     \<and> (\<forall>command. check_shell (permissions b) command \<longleftrightarrow>
          set (map extract_base_command (split_shell_segments command)) = {''*''})"
proof (intro exI conjI allI)
  show "get_binding policy_with_defaults Admin = Some (default_bindings ! 0)"
    by (simp add: policy_with_defaults_def policy.get_put_list) (simp add: default_bindings_def)
next
  fix command
  have "shell_allowed_commands (permissions (default_bindings ! 0)) = {''*''}"
    by (simp add: default_bindings_def admin_perms_def permission_set_defs shell_allowed_commands_def)
  then show "check_shell (permissions (default_bindings ! 0)) command \<longleftrightarrow>
      set (map extract_base_command (split_shell_segments command)) = {''*''}"
    by (simp add: check_shell_iff map_set_singleton)
qed

end
