(* ===== verification/PermissionMode.thy ===== *)
theory PermissionMode
  imports Interfaces
begin

text \<open>
  \<open>argentor-agent/src/permission_mode.rs\<close>: how the agent authorises tool calls. The
  arguments of a call are a \<open>serde_json::Value\<close>, of the type \<open>'v\<close>: the module only stores
  and passes them on. The approval callback is a function; the calls captured in plan mode are
  threaded through, and the clock reading of a check is an argument.
\<close>

section \<open>Modes, decisions and the evaluator\<close>

datatype PermissionMode =
    ModeDefault
  | ModeStrict
  | ModePermissive
  | ModePlanOnly
  | ModeReadOnly
  | ModeCustom

datatype 'v PermissionDecision =
    Allow
  | Deny string
  | Captured string 'v
  | RequiresApproval string string

record 'v CapturedCall =
  call_tool_name :: string
  call_arguments :: 'v
  call_timestamp :: nat
  would_require :: "string list"

definition READ_PATTERNS :: "string list" where
  "READ_PATTERNS =
     [''file_read'', ''search'', ''query'', ''list'', ''get'', ''describe'', ''show'', ''help'',
      ''echo'', ''time'', ''memory_search'']"

definition WRITE_PATTERNS :: "string list" where
  "WRITE_PATTERNS =
     [''file_write'', ''shell'', ''exec'', ''run'', ''delete'', ''remove'', ''create'', ''update'',
      ''put'', ''post'', ''send'', ''deploy'', ''network'', ''http'', ''memory_store'']"

record 'v PermissionEvaluator =
  mode :: PermissionMode
  allowed_tools :: "string list"
  denied_tools :: "string list"
  captured_calls :: "'v CapturedCall list"
  approval_callback :: "(string \<Rightarrow> 'v \<Rightarrow> bool) option"

definition evaluator_new :: "PermissionMode \<Rightarrow> 'v PermissionEvaluator" where
  "evaluator_new m =
     \<lparr>mode = m, allowed_tools = [], denied_tools = [], captured_calls = [],
      approval_callback = None\<rparr>"

definition with_allowed :: "'v PermissionEvaluator \<Rightarrow> string list \<Rightarrow> 'v PermissionEvaluator" where
  "with_allowed ev tools = ev\<lparr>allowed_tools := tools\<rparr>"

definition with_denied :: "'v PermissionEvaluator \<Rightarrow> string list \<Rightarrow> 'v PermissionEvaluator" where
  "with_denied ev tools = ev\<lparr>denied_tools := tools\<rparr>"

definition with_approval_callback ::
  "'v PermissionEvaluator \<Rightarrow> (string \<Rightarrow> 'v \<Rightarrow> bool) \<Rightarrow> 'v PermissionEvaluator" where
  "with_approval_callback ev f = ev\<lparr>approval_callback := Some f\<rparr>"

definition clear_captured :: "'v PermissionEvaluator \<Rightarrow> 'v PermissionEvaluator" where
  "clear_captured ev = ev\<lparr>captured_calls := []\<rparr>"

section \<open>Tool name patterns\<close>

text \<open>The loop of \<open>matches_pattern\<close>: \<open>n\<close> parts in all, at part number \<open>i\<close>.\<close>

fun match_parts :: "nat \<Rightarrow> nat \<Rightarrow> string list \<Rightarrow> string \<Rightarrow> bool" where
  "match_parts n i [] remaining = True"
| "match_parts n i (part # parts) remaining =
     (if part = [] then match_parts n (Suc i) parts remaining
      else if i = 0
      then case strip_prefix part remaining of
             Some rest \<Rightarrow> match_parts n (Suc i) parts rest
           | None \<Rightarrow> False
      else if i = n - 1
      then if \<not> suffix part remaining then False else match_parts n (Suc i) parts []
      else case find_sub part remaining of
             Some pos \<Rightarrow> match_parts n (Suc i) parts (drop (pos + length part) remaining)
           | None \<Rightarrow> False)"

definition matches_pattern :: "string \<Rightarrow> string \<Rightarrow> bool" where
  "matches_pattern pattern tool_name =
     (if pattern = ''*'' then True
      else if CHR ''*'' \<notin> set pattern then pattern = tool_name
      else let parts = split_char (CHR ''*'') pattern
        in match_parts (length parts) 0 parts tool_name)"

definition tool_allowed :: "'v PermissionEvaluator \<Rightarrow> string \<Rightarrow> bool" where
  "tool_allowed ev tool_name \<longleftrightarrow> (\<exists>p\<in>set (allowed_tools ev). matches_pattern p tool_name)"

definition tool_denied :: "'v PermissionEvaluator \<Rightarrow> string \<Rightarrow> bool" where
  "tool_denied ev tool_name \<longleftrightarrow> (\<exists>p\<in>set (denied_tools ev). matches_pattern p tool_name)"

section \<open>The checks\<close>

definition tool_text :: "string \<Rightarrow> string \<Rightarrow> string" where
  "tool_text tool_name rest = ''Tool '' @ [CHR 39] @ tool_name @ [CHR 39] @ rest"

definition infer_required_capabilities :: "string \<Rightarrow> string list" where
  "infer_required_capabilities tool_name =
     (let lower = to_lowercase tool_name; has = str_contains lower in
      (if has ''file_read'' \<or> has ''search'' \<or> has ''get'' then [''file_read''] else [])
      @ (if has ''file_write'' \<or> has ''create'' \<or> has ''update'' then [''file_write''] else [])
      @ (if has ''shell'' \<or> has ''exec'' \<or> has ''run'' then [''shell_exec''] else [])
      @ (if has ''network'' \<or> has ''http'' \<or> has ''fetch'' then [''network_access''] else [])
      @ (if has ''env'' then [''env_read''] else [])
      @ (if has ''db'' \<or> has ''query'' \<or> has ''sql'' then [''database_query''] else [])
      @ (if has ''browser'' then [''browser_access''] else []))"

definition check_default :: "'v PermissionEvaluator \<Rightarrow> string \<Rightarrow> 'v PermissionDecision" where
  "check_default ev tool_name =
     (if tool_allowed ev tool_name then Allow
      else RequiresApproval tool_name
             (tool_text tool_name '' is not in the allowlist; approval required''))"

definition check_strict :: "'v PermissionEvaluator \<Rightarrow> string \<Rightarrow> 'v PermissionDecision" where
  "check_strict ev tool_name =
     (if tool_allowed ev tool_name then Allow
      else Deny (tool_text tool_name '' is not in the allowlist (strict mode)''))"

definition check_plan_only ::
  "'v PermissionEvaluator \<Rightarrow> string \<Rightarrow> 'v \<Rightarrow> nat \<Rightarrow> 'v PermissionDecision \<times> 'v PermissionEvaluator" where
  "check_plan_only ev tool_name args now =
     (let captured = \<lparr>call_tool_name = tool_name, call_arguments = args, call_timestamp = now,
                      would_require = infer_required_capabilities tool_name\<rparr>
      in (Captured tool_name args, ev\<lparr>captured_calls := captured_calls ev @ [captured]\<rparr>))"

definition check_read_only :: "'v PermissionEvaluator \<Rightarrow> string \<Rightarrow> 'v PermissionDecision" where
  "check_read_only ev tool_name =
     (if tool_allowed ev tool_name then Allow
      else let lower = to_lowercase tool_name in
        if \<exists>p\<in>set READ_PATTERNS. str_contains lower p then Allow
        else if \<exists>p\<in>set WRITE_PATTERNS. str_contains lower p
        then Deny (tool_text tool_name '' looks like a write operation (read-only mode)'')
        else Deny (tool_text tool_name '' is not recognized as a read operation (read-only mode)''))"

definition check_custom :: "'v PermissionEvaluator \<Rightarrow> string \<Rightarrow> 'v \<Rightarrow> 'v PermissionDecision" where
  "check_custom ev tool_name args =
     (case approval_callback ev of
        Some callback \<Rightarrow>
          if callback tool_name args then Allow
          else Deny (tool_text tool_name '' denied by custom approval callback'')
      | None \<Rightarrow> Deny ''Custom mode requires an approval callback, but none was set'')"

definition check_tool ::
  "'v PermissionEvaluator \<Rightarrow> string \<Rightarrow> 'v \<Rightarrow> nat \<Rightarrow> 'v PermissionDecision \<times> 'v PermissionEvaluator" where
  "check_tool ev tool_name args now =
     (if tool_denied ev tool_name
      then (Deny (tool_text tool_name '' is in the denylist''), ev)
      else case mode ev of
             ModeDefault \<Rightarrow> (check_default ev tool_name, ev)
           | ModeStrict \<Rightarrow> (check_strict ev tool_name, ev)
           | ModePermissive \<Rightarrow> (Allow, ev)
           | ModePlanOnly \<Rightarrow> check_plan_only ev tool_name args now
           | ModeReadOnly \<Rightarrow> (check_read_only ev tool_name, ev)
           | ModeCustom \<Rightarrow> (check_custom ev tool_name args, ev))"

section \<open>Glob patterns\<close>

text \<open>What a pattern means: \<open>*\<close> stands for any text, every other character for itself.\<close>

fun glob :: "string \<Rightarrow> string \<Rightarrow> bool" where
  "glob [] s \<longleftrightarrow> s = []"
| "glob (c # p) s \<longleftrightarrow>
     (if c = CHR ''*'' then \<exists>k\<le>length s. glob p (drop k s)
      else s \<noteq> [] \<and> hd s = c \<and> glob p (tl s))"

text \<open>The same for the parts between stars: each part after an arbitrary gap, the last at the end.\<close>

fun gap_match :: "string list \<Rightarrow> string \<Rightarrow> bool" where
  "gap_match [] s \<longleftrightarrow> s = []"
| "gap_match (p # ps) s \<longleftrightarrow> (\<exists>k\<le>length s. prefix p (drop k s) \<and> gap_match ps (drop (k + length p) s))"

lemma glob_star_split:
  "glob pat s \<longleftrightarrow> prefix (hd (split_char (CHR ''*'') pat)) s
     \<and> gap_match (tl (split_char (CHR ''*'') pat)) (drop (length (hd (split_char (CHR ''*'') pat))) s)"
proof (induction pat arbitrary: s)
  case Nil
  show ?case by simp
next
  case (Cons c pat)
  obtain p ps where split: "split_char (CHR ''*'') pat = p # ps"
    by (cases "split_char (CHR ''*'') pat") auto
  show ?case
  proof (cases "c = CHR ''*''")
    case True
    then show ?thesis using Cons.IH by (simp add: split add.commute)
  next
    case False
    then show ?thesis using Cons.IH by (cases s) (auto simp: split)
  qed
qed

lemma gap_match_append: "ps \<noteq> [] \<Longrightarrow> gap_match ps s \<Longrightarrow> gap_match ps (g @ s)"
proof (cases ps)
  case (Cons p ps')
  assume "gap_match ps s"
  with Cons obtain k where k: "k \<le> length s" "prefix p (drop k s)" "gap_match ps' (drop (k + length p) s)"
    by auto
  then have "length g + k \<le> length (g @ s)" "prefix p (drop (length g + k) (g @ s))"
    "gap_match ps' (drop (length g + k + length p) (g @ s))" by (simp_all add: add.assoc)
  with Cons show ?thesis by (metis gap_match.simps(2))
qed simp

lemma gap_match_drop:
  assumes "ps \<noteq> []" "m \<le> n" "gap_match ps (drop n s)"
  shows "gap_match ps (drop m s)"
proof -
  have "drop m s = take (n - m) (drop m s) @ drop n s"
    using assms(2) by (metis append_take_drop_id drop_drop le_add_diff_inverse2)
  then show ?thesis using gap_match_append [OF assms(1,3)] by metis
qed

text \<open>Taking the first occurrence of a part loses no match: the gap after it only grows.\<close>

lemma gap_match_greedy:
  assumes "ps \<noteq> []"
  shows "gap_match (p # ps) s \<longleftrightarrow>
    (case find_sub p s of Some pos \<Rightarrow> gap_match ps (drop (pos + length p) s) | None \<Rightarrow> False)"
proof (cases "find_sub p s")
  case None
  then have "\<not> sublist p s" by (simp add: find_sub_None_iff)
  then have "\<not> prefix p (drop k s)" for k
    by (metis prefix_imp_sublist sublist_drop sublist_order.order_trans)
  with None show ?thesis by simp
next
  case (Some pos)
  have "gap_match ps (drop (pos + length p) s)" if "prefix p (drop k s)" "gap_match ps (drop (k + length p) s)" for k
  proof -
    have "pos \<le> k" using find_sub_first [OF Some, of k] that(1) by (meson not_le)
    then show ?thesis using gap_match_drop [OF assms _ that(2), of "pos + length p"] by simp
  qed
  moreover have "pos \<le> length s" using find_sub_Some_le [OF Some] by simp
  moreover have "prefix p (drop pos s)"
    using find_sub_Some [OF Some] by (metis append_same_eq append_take_drop_id drop_drop
        prefixI same_append_eq add.commute)
  ultimately show ?thesis using Some by auto
qed

lemma gap_match_last: "gap_match [p] s \<longleftrightarrow> suffix p s"
proof
  assume "gap_match [p] s"
  then obtain k where "prefix p (drop k s)" "drop (k + length p) s = []" by auto
  then have "prefix p (drop k s)" and len: "length (drop k s) \<le> length p" by auto
  then obtain zs where zs: "drop k s = p @ zs" by (auto simp: prefix_def)
  from len have "length (p @ zs) \<le> length p" unfolding zs .
  with zs have "drop k s = p" by simp
  then show "suffix p s" using suffix_drop by metis
next
  assume "suffix p s"
  then obtain g where "s = g @ p" by (auto simp: suffix_def)
  then show "gap_match [p] s" by (auto intro!: exI [of _ "length g"])
qed

lemma gap_match_empty_part: "ps \<noteq> [] \<Longrightarrow> gap_match ([] # ps) s \<longleftrightarrow> gap_match ps s"
  by (auto dest: gap_match_drop [of ps 0] intro: exI [of _ 0])

lemma match_parts_gap:
  "i \<noteq> 0 \<Longrightarrow> n = i + length parts \<Longrightarrow> parts \<noteq> [] \<Longrightarrow>
   match_parts n i parts s \<longleftrightarrow> gap_match parts s"
proof (induction parts arbitrary: i s)
  case Nil
  then show ?case by simp
next
  case (Cons p ps)
  show ?case
  proof (cases "ps = []")
    case True
    with Cons.prems show ?thesis by (simp add: gap_match_last del: gap_match.simps)
  next
    case False
    then have "i \<noteq> n - 1" using Cons.prems by (cases ps) auto
    moreover have "match_parts n (Suc i) ps r \<longleftrightarrow> gap_match ps r" for r
      using Cons False by auto
    ultimately show ?thesis
      using False Cons.prems(1)
      by (cases "p = []") (simp_all add: gap_match_empty_part gap_match_greedy del: gap_match.simps
          split: option.split)
  qed
qed

lemma glob_no_star: "CHR ''*'' \<notin> set pat \<Longrightarrow> glob pat s \<longleftrightarrow> pat = s"
proof (induction pat arbitrary: s)
  case Nil
  show ?case by auto
next
  case (Cons c pat)
  then show ?case by (cases s) auto
qed

lemma matches_pattern_glob: "matches_pattern pattern tool \<longleftrightarrow> glob pattern tool"
proof -
  consider (star) "pattern = ''*''" | (plain) "CHR ''*'' \<notin> set pattern"
    | (parts) "pattern \<noteq> ''*''" "CHR ''*'' \<in> set pattern" by blast
  then show ?thesis
  proof cases
    case star
    then show ?thesis by (auto simp: matches_pattern_def)
  next
    case plain
    then show ?thesis by (auto simp: matches_pattern_def glob_no_star)
  next
    case parts
    obtain p ps where sp: "split_char (CHR ''*'') pattern = p # ps"
      by (cases "split_char (CHR ''*'') pattern") auto
    have "count_list pattern (CHR ''*'') \<noteq> 0"
      using parts(2) by (simp add: count_list_0_iff)
    then have "length (split_char (CHR ''*'') pattern) > 1"
      by (simp add: length_split_char)
    then have ps: "ps \<noteq> []" using sp by auto
    have "match_parts (length (p # ps)) 0 (p # ps) tool \<longleftrightarrow>
        prefix p tool \<and> match_parts (length (p # ps)) 1 ps (drop (length p) tool)"
      by (simp add: strip_prefix_def)
    also have "\<dots> \<longleftrightarrow> prefix p tool \<and> gap_match ps (drop (length p) tool)"
      using ps by (simp add: match_parts_gap)
    finally show ?thesis
      using parts by (simp add: matches_pattern_def Let_def glob_star_split sp del: match_parts.simps)
  qed
qed

lemma tool_denied_glob: "tool_denied ev tool \<longleftrightarrow> (\<exists>p\<in>set (denied_tools ev). glob p tool)"
  by (simp add: tool_denied_def matches_pattern_glob)

lemma tool_allowed_glob: "tool_allowed ev tool \<longleftrightarrow> (\<exists>p\<in>set (allowed_tools ev). glob p tool)"
  by (simp add: tool_allowed_def matches_pattern_glob)

section \<open>Sequences of checks\<close>

fun check_tools ::
  "'v PermissionEvaluator \<Rightarrow> (string \<times> 'v \<times> nat) list
     \<Rightarrow> 'v PermissionDecision list \<times> 'v PermissionEvaluator" where
  "check_tools ev [] = ([], ev)"
| "check_tools ev ((tool, args, now) # calls) =
     (let (d, ev') = check_tool ev tool args now; (ds, ev'') = check_tools ev' calls
      in (d # ds, ev''))"

lemma check_tools_Cons:
  "check_tools ev ((tool, args, now) # calls) =
     (let ev' = snd (check_tool ev tool args now)
      in (fst (check_tool ev tool args now) # fst (check_tools ev' calls),
          snd (check_tools ev' calls)))"
  by (simp add: Let_def split: prod.split)

lemma check_tool_frame:
  "mode (snd (check_tool ev tool args now)) = mode ev"
  "denied_tools (snd (check_tool ev tool args now)) = denied_tools ev"
  by (simp_all add: check_tool_def check_plan_only_def Let_def split: PermissionMode.PermissionMode.split)

section \<open>Properties\<close>

text \<open>
  The pattern matcher is exact. \<open>matches_pattern\<close>, which splits the pattern at its stars
  and then takes the first occurrence of each middle part, accepts precisely the names the
  pattern describes when a star stands for any text.
\<close>

lemma matches_pattern_exact: "matches_pattern pattern tool_name \<longleftrightarrow> glob pattern tool_name"
  by (rule matches_pattern_glob)

text \<open>
  C21: no sequence of checks lets a denied tool through. In any mode, with any allow list and any
  callback, whenever the answer to the i-th call is to allow it, no deny pattern describes its
  tool name, and the mode is not plan-only.
\<close>

theorem allowed_never_denied:
  assumes "i < length calls" and "fst (check_tools ev calls) ! i = Allow"
  shows "\<not> (\<exists>p\<in>set (denied_tools ev). glob p (fst (calls ! i))) \<and> mode ev \<noteq> ModePlanOnly"
  using assms
proof (induction calls arbitrary: ev i)
  case Nil
  then show ?case by simp
next
  case (Cons c calls)
  obtain tool args now where c: "c = (tool, args, now)" by (cases c)
  define ev' where "ev' = snd (check_tool ev tool args now)"
  have run: "fst (check_tools ev (c # calls)) =
      fst (check_tool ev tool args now) # fst (check_tools ev' calls)"
    by (simp add: c ev'_def check_tools_Cons Let_def del: check_tools.simps)
  have frame: "mode ev' = mode ev" "denied_tools ev' = denied_tools ev"
    by (simp_all add: ev'_def check_tool_frame)
  show ?case
  proof (cases i)
    case 0
    with Cons.prems(2) have "fst (check_tool ev tool args now) = Allow" by (simp add: run)
    then show ?thesis
      by (auto simp: 0 c check_tool_def tool_denied_glob check_plan_only_def Let_def
          split: if_splits PermissionMode.PermissionMode.splits)
  next
    case (Suc j)
    with Cons.prems have "j < length calls" "fst (check_tools ev' calls) ! j = Allow"
      by (simp_all add: run)
    from Cons.IH [OF this] frame Suc show ?thesis by simp
  qed
qed

theorem allowed_never_denied_witness:
  "\<not> (\<exists>p\<in>set [''shell_*'']. glob p ''echo'')
   \<and> fst (check_tools (with_denied (evaluator_new ModePermissive) [''shell_*''])
        [(''shell_exec'', (), 0), (''echo'', (), 1)]) ! 1 = Allow"
proof -
  let ?ev = "with_denied (evaluator_new ModePermissive) [''shell_*''] :: unit PermissionEvaluator"
  let ?calls = "[(''shell_exec'', (), 0), (''echo'', (), 1)] :: (string \<times> unit \<times> nat) list"
  have i: "1 < length ?calls" by simp
  have a: "fst (check_tools ?ev ?calls) ! 1 = Allow"
    by (simp add: check_tool_def tool_denied_glob with_denied_def evaluator_new_def)
  show ?thesis
    using a allowed_never_denied [OF i a] by (simp add: with_denied_def evaluator_new_def)
qed

text \<open>
  Plan mode captures and never executes. After any sequence of checks in plan mode, no answer
  was to allow a call, and the captured calls are the old ones followed by exactly the calls whose
  tool is not on the deny list, in order, with their arguments and times.
\<close>

lemma plan_only_captures:
  assumes "mode ev = ModePlanOnly"
  shows "Allow \<notin> set (fst (check_tools ev calls))
    \<and> captured_calls (snd (check_tools ev calls)) = captured_calls ev @
        map (\<lambda>(tool, args, now).
               \<lparr>call_tool_name = tool, call_arguments = args, call_timestamp = now,
                would_require = infer_required_capabilities tool\<rparr>)
          (filter (\<lambda>(tool, _, _). \<not> tool_denied ev tool) calls)"
  using assms
proof (induction calls arbitrary: ev)
  case Nil
  then show ?case by simp
next
  case (Cons c calls)
  obtain tool args now where c: "c = (tool, args, now)" by (cases c)
  define ev' where "ev' = snd (check_tool ev tool args now)"
  have frame: "mode ev' = ModePlanOnly" "\<And>t. tool_denied ev' t = tool_denied ev t"
    using Cons.prems by (simp_all add: ev'_def check_tool_frame tool_denied_def)
  have first: "fst (check_tool ev tool args now) \<noteq> Allow"
    "captured_calls ev' = captured_calls ev @ (if tool_denied ev tool then []
       else [\<lparr>call_tool_name = tool, call_arguments = args, call_timestamp = now,
              would_require = infer_required_capabilities tool\<rparr>])"
    using Cons.prems by (simp_all add: ev'_def check_tool_def check_plan_only_def Let_def)
  show ?case
    using Cons.IH [OF frame(1)] frame(2) first
    by (simp add: c check_tools_Cons Let_def flip: ev'_def del: check_tools.simps)
qed

lemma plan_only_captures_witness:
  "mode (evaluator_new ModePlanOnly :: unit PermissionEvaluator) = ModePlanOnly
   \<and> Allow \<notin> set (fst (check_tools (evaluator_new ModePlanOnly) [(''shell'', (), 0)]))"
proof -
  have h: "mode (evaluator_new ModePlanOnly :: unit PermissionEvaluator) = ModePlanOnly"
    by (simp add: evaluator_new_def)
  show ?thesis using h plan_only_captures [OF h] by blast
qed

text \<open>
  In read-only mode a read-like word anywhere in a name hides every write-like one. Whatever
  text comes before it, a name that ends in \<open>_list\<close> is allowed without approval:
  \<open>delete_list\<close>, \<open>shell_exec_list\<close> and the like, although the write patterns name their verbs.
\<close>

lemma read_only_list_suffix_allowed:
  "fst (check_tool (evaluator_new ModeReadOnly) (verb @ ''_list'') args now) = Allow"
proof -
  have "to_lowercase (verb @ ''_list'') = (to_lowercase verb @ ''_'') @ ''list''"
    by (simp add: to_lowercase_def lower_char_def)
  then have "str_contains (to_lowercase (verb @ ''_list'')) ''list''"
    by (simp only: str_contains_def) (rule suffix_imp_sublist, rule suffixI, rule refl)
  then show ?thesis
    by (simp add: check_tool_def evaluator_new_def tool_denied_def check_read_only_def
        tool_allowed_def READ_PATTERNS_def)
qed

end
