(* ===== verification/TaskTypes.thy ===== *)
theory TaskTypes
  imports Interfaces
begin

text \<open>
  \<open>argentor-orchestrator/src/types.rs\<close>: roles, task statuses, artifacts, tasks and the
  per-agent state. A \<open>Uuid\<close> is only compared and used as a key, and a \<open>DateTime\<close> only
  compared: both are natural numbers, and the constructors take the fresh identifier and the
  clock reading as arguments.
\<close>

type_synonym Uuid = nat
type_synonym DateTime = nat

datatype AgentRole =
    Orchestrator
  | Spec
  | Coder
  | Tester
  | Reviewer
  | Architect
  | SecurityAuditor
  | DevOps
  | DocumentWriter
  | CustomRole string

fun show_agent_role :: "AgentRole \<Rightarrow> string" where
  "show_agent_role Orchestrator = ''orchestrator''"
| "show_agent_role Spec = ''spec''"
| "show_agent_role Coder = ''coder''"
| "show_agent_role Tester = ''tester''"
| "show_agent_role Reviewer = ''reviewer''"
| "show_agent_role Architect = ''architect''"
| "show_agent_role SecurityAuditor = ''security_auditor''"
| "show_agent_role DevOps = ''devops''"
| "show_agent_role DocumentWriter = ''document_writer''"
| "show_agent_role (CustomRole name) = ''custom:'' @ name"

datatype TaskStatus =
    Pending
  | Running
  | NeedsHumanReview
  | Completed
  | Failed string

datatype ArtifactKind =
    SpecArtifact
  | CodeArtifact
  | TestArtifact
  | ReviewArtifact
  | ReportArtifact

record Artifact =
  art_kind :: ArtifactKind
  art_content :: string
  art_file_path :: "string option"
  art_created_at :: DateTime

definition artifact_new :: "DateTime \<Rightarrow> ArtifactKind \<Rightarrow> string \<Rightarrow> Artifact" where
  "artifact_new now k c =
     \<lparr>art_kind = k, art_content = c, art_file_path = None, art_created_at = now\<rparr>"

definition artifact_with_path :: "Artifact \<Rightarrow> string \<Rightarrow> Artifact" where
  "artifact_with_path a path = a\<lparr>art_file_path := Some path\<rparr>"

record Task =
  task_id :: Uuid
  description :: string
  assigned_to :: AgentRole
  status :: TaskStatus
  dependencies :: "Uuid list"
  artifacts :: "Artifact list"
  created_at :: DateTime
  completed_at :: "DateTime option"
  parent_task :: "Uuid option"
  depth :: u32

definition task_new :: "Uuid \<Rightarrow> DateTime \<Rightarrow> string \<Rightarrow> AgentRole \<Rightarrow> Task" where
  "task_new new_id now d r =
     \<lparr>task_id = new_id, description = d, assigned_to = r, status = Pending, dependencies = [],
      artifacts = [], created_at = now, completed_at = None, parent_task = None, depth = 0\<rparr>"

definition with_dependencies :: "Task \<Rightarrow> Uuid list \<Rightarrow> Task" where
  "with_dependencies t deps = t\<lparr>dependencies := deps\<rparr>"

definition is_ready :: "Task \<Rightarrow> Uuid list \<Rightarrow> bool" where
  "is_ready t completed_ids \<longleftrightarrow>
     status t = Pending \<and> (\<forall>dep\<in>set (dependencies t). dep \<in> set completed_ids)"

definition add_artifact :: "Task \<Rightarrow> Artifact \<Rightarrow> Task" where
  "add_artifact t a = t\<lparr>artifacts := artifacts t @ [a]\<rparr>"

record AgentMetrics =
  total_turns :: u32
  total_tool_calls :: u32
  metric_errors :: u32
  duration_ms :: u64
  tokens_used :: u64

datatype WorkerStatus = Idle | Working | WaitingForApproval | WorkerError

record AgentState =
  agent_role :: AgentRole
  current_task :: "Uuid option"
  worker_status :: WorkerStatus
  agent_metrics :: AgentMetrics

lemma show_agent_role_inj: "show_agent_role r = show_agent_role r' \<longleftrightarrow> r = r'"
  by (cases r; cases r') auto

end
