(* ===== verification/TaskQueue.thy ===== *)
theory TaskQueue
  imports TaskTypes
begin

text \<open>
  \<open>argentor-orchestrator/src/task_queue.rs\<close>: the queue of tasks with dependencies. The
  tasks are a \<open>HashMap\<close>; a method that iterates over it takes the iteration order, a list of
  the keys, as its argument \<open>ks\<close>, and the theorems hold for every order. The depth-first
  search of \<open>has_cycle\<close> is given fuel; one more unit than there are tasks is enough.
\<close>

section \<open>The queue\<close>

record TaskQueue =
  tasks :: "Uuid \<rightharpoonup> Task"
  completed :: "Uuid list"

definition queue_new :: TaskQueue where
  "queue_new = \<lparr>tasks = Map.empty, completed = []\<rparr>"

definition queue_add :: "TaskQueue \<Rightarrow> Task \<Rightarrow> TaskQueue" where
  "queue_add q t = q\<lparr>tasks := (tasks q)(task_id t \<mapsto> t)\<rparr>"

text \<open>The values of the map in iteration order.\<close>

definition task_values :: "TaskQueue \<Rightarrow> Uuid list \<Rightarrow> Task list" where
  "task_values q ks = List.map_filter (tasks q) ks"

definition all_ready :: "TaskQueue \<Rightarrow> Uuid list \<Rightarrow> Task list" where
  "all_ready q ks =
     sort_key created_at (filter (\<lambda>t. is_ready t (completed q)) (task_values q ks))"

definition next_ready :: "TaskQueue \<Rightarrow> Uuid list \<Rightarrow> Task option" where
  "next_ready q ks =
     (case sort_key created_at (filter (\<lambda>t. is_ready t (completed q)) (task_values q ks)) of
        [] \<Rightarrow> None
      | t # _ \<Rightarrow> Some t)"

definition mark_running :: "TaskQueue \<Rightarrow> Uuid \<Rightarrow> bool \<times> TaskQueue" where
  "mark_running q i =
     (case tasks q i of
        Some t \<Rightarrow> (True, q\<lparr>tasks := (tasks q)(i \<mapsto> t\<lparr>status := Running\<rparr>)\<rparr>)
      | None \<Rightarrow> (False, q))"

definition mark_completed :: "TaskQueue \<Rightarrow> DateTime \<Rightarrow> Uuid \<Rightarrow> bool \<times> TaskQueue" where
  "mark_completed q now i =
     (case tasks q i of
        Some t \<Rightarrow>
          (True, q\<lparr>tasks := (tasks q)(i \<mapsto> t\<lparr>status := Completed, completed_at := Some now\<rparr>),
                   completed := completed q @ [i]\<rparr>)
      | None \<Rightarrow> (False, q))"

definition mark_failed :: "TaskQueue \<Rightarrow> Uuid \<Rightarrow> string \<Rightarrow> bool \<times> TaskQueue" where
  "mark_failed q i reason =
     (case tasks q i of
        Some t \<Rightarrow> (True, q\<lparr>tasks := (tasks q)(i \<mapsto> t\<lparr>status := Failed reason\<rparr>)\<rparr>)
      | None \<Rightarrow> (False, q))"

definition mark_needs_review :: "TaskQueue \<Rightarrow> Uuid \<Rightarrow> bool \<times> TaskQueue" where
  "mark_needs_review q i =
     (case tasks q i of
        Some t \<Rightarrow> (True, q\<lparr>tasks := (tasks q)(i \<mapsto> t\<lparr>status := NeedsHumanReview\<rparr>)\<rparr>)
      | None \<Rightarrow> (False, q))"

definition queue_get :: "TaskQueue \<Rightarrow> Uuid \<Rightarrow> Task option" where
  "queue_get q i = tasks q i"

text \<open>\<open>get_mut\<close> hands out a reference; what the caller does through it is the function.\<close>

definition queue_get_mut :: "TaskQueue \<Rightarrow> Uuid \<Rightarrow> (Task \<Rightarrow> Task) \<Rightarrow> TaskQueue" where
  "queue_get_mut q i f = q\<lparr>tasks := (tasks q)(i := map_option f (tasks q i))\<rparr>"

definition all_tasks :: "TaskQueue \<Rightarrow> Uuid list \<Rightarrow> Task list" where
  "all_tasks q ks = sort_key created_at (task_values q ks)"

definition pending_count :: "TaskQueue \<Rightarrow> Uuid list \<Rightarrow> nat" where
  "pending_count q ks = length (filter (\<lambda>t. status t = Pending) (task_values q ks))"

definition completed_count :: "TaskQueue \<Rightarrow> nat" where
  "completed_count q = length (completed q)"

definition total_count :: "TaskQueue \<Rightarrow> nat" where
  "total_count q = card (dom (tasks q))"

definition is_done :: "TaskQueue \<Rightarrow> Uuid list \<Rightarrow> bool" where
  "is_done q ks = list_all (\<lambda>t. case status t of
       Completed \<Rightarrow> True | Failed _ \<Rightarrow> True | NeedsHumanReview \<Rightarrow> True | _ \<Rightarrow> False)
     (task_values q ks)"

definition needs_review_count :: "TaskQueue \<Rightarrow> Uuid list \<Rightarrow> nat" where
  "needs_review_count q ks =
     length (filter (\<lambda>t. status t = NeedsHumanReview) (task_values q ks))"

section \<open>Cycle detection\<close>

text \<open>The marks of \<open>visited\<close>: 1 in progress, 2 done. \<open>None\<close> is out of fuel.\<close>

fun dfs_cycle ::
  "nat \<Rightarrow> (Uuid \<rightharpoonup> Task) \<Rightarrow> Uuid \<Rightarrow> (Uuid \<rightharpoonup> nat) \<Rightarrow> (bool \<times> (Uuid \<rightharpoonup> nat)) option"
and dfs_deps ::
  "nat \<Rightarrow> (Uuid \<rightharpoonup> Task) \<Rightarrow> Uuid list \<Rightarrow> (Uuid \<rightharpoonup> nat) \<Rightarrow> (bool \<times> (Uuid \<rightharpoonup> nat)) option" where
  "dfs_cycle 0 ts i visited = None"
| "dfs_cycle (Suc fuel) ts i visited =
     (if visited i = Some 1 then Some (True, visited)
      else if visited i = Some 2 then Some (False, visited)
      else case ts i of
             None \<Rightarrow> Some (False, visited(i \<mapsto> 1, i \<mapsto> 2))
           | Some t \<Rightarrow>
               (case dfs_deps fuel ts (dependencies t) (visited(i \<mapsto> 1)) of
                  None \<Rightarrow> None
                | Some (found, visited') \<Rightarrow>
                    if found then Some (True, visited') else Some (False, visited'(i \<mapsto> 2))))"
| "dfs_deps fuel ts [] visited = Some (False, visited)"
| "dfs_deps fuel ts (dep # deps) visited =
     (case dfs_cycle fuel ts dep visited of
        None \<Rightarrow> None
      | Some (found, visited') \<Rightarrow>
          if found then Some (True, visited') else dfs_deps fuel ts deps visited')"

text \<open>The loop over the keys is the loop over a dependency list.\<close>

definition has_cycle :: "TaskQueue \<Rightarrow> Uuid list \<Rightarrow> bool option" where
  "has_cycle q ks =
     map_option fst (dfs_deps (Suc (card (dom (tasks q)))) (tasks q) ks Map.empty)"

section \<open>Lemmas on the queue\<close>

interpretation task_queue: last_write_store queue_get queue_add task_id "\<lambda>t. t"
  by unfold_locales (simp add: queue_get_def queue_add_def)

lemma set_task_values: "set (task_values q ks) = {t. \<exists>k\<in>set ks. tasks q k = Some t}"
  by (induction ks) (auto simp: task_values_def List.map_filter_simps split: option.splits)

lemma next_ready_Some:
  assumes "next_ready q ks = Some t"
  shows "t \<in> set (task_values q ks)" "is_ready t (completed q)"
    "\<And>t'. t' \<in> set (task_values q ks) \<Longrightarrow> is_ready t' (completed q) \<Longrightarrow> created_at t \<le> created_at t'"
proof -
  let ?ready = "filter (\<lambda>t. is_ready t (completed q)) (task_values q ks)"
  obtain ts where ts: "sort_key created_at ?ready = t # ts"
    using assms by (auto simp: next_ready_def split: list.splits)
  then have set: "set ?ready = set (t # ts)" by (metis set_sort)
  then show "t \<in> set (task_values q ks)" "is_ready t (completed q)" by auto
  have "sorted (map created_at (t # ts))" using sorted_sort_key [of created_at ?ready] ts by simp
  then show "created_at t \<le> created_at t'"
    if "t' \<in> set (task_values q ks)" "is_ready t' (completed q)" for t'
    using that set by auto
qed

lemma next_ready_None:
  "next_ready q ks = None \<longleftrightarrow> (\<forall>t\<in>set (task_values q ks). \<not> is_ready t (completed q))"
proof -
  let ?ready = "filter (\<lambda>t. is_ready t (completed q)) (task_values q ks)"
  have "next_ready q ks = None \<longleftrightarrow> sort_key created_at ?ready = []"
    by (simp add: next_ready_def split: list.splits)
  also have "\<dots> \<longleftrightarrow> set ?ready = {}" by (metis set_sort set_empty)
  finally show ?thesis by (auto simp: filter_empty_conv)
qed

section \<open>Correctness of the search\<close>

definition dep_edges :: "(Uuid \<rightharpoonup> Task) \<Rightarrow> (Uuid \<times> Uuid) set" where
  "dep_edges ts = {(u, v). \<exists>t. ts u = Some t \<and> v \<in> set (dependencies t)}"

definition marked :: "(Uuid \<rightharpoonup> nat) \<Rightarrow> nat \<Rightarrow> Uuid set" where
  "marked visited m = {u. visited u = Some m}"

text \<open>The finished nodes: closed under dependencies, and none of them on a cycle.\<close>

definition finished_ok :: "(Uuid \<rightharpoonup> Task) \<Rightarrow> Uuid set \<Rightarrow> bool" where
  "finished_ok ts B \<longleftrightarrow>
     (\<forall>u v. u \<in> B \<longrightarrow> (u, v) \<in> dep_edges ts \<longrightarrow> v \<in> B) \<and> (\<forall>u\<in>B. (u, u) \<notin> (dep_edges ts)\<^sup>+)"

definition unvisited :: "(Uuid \<rightharpoonup> Task) \<Rightarrow> (Uuid \<rightharpoonup> nat) \<Rightarrow> nat" where
  "unvisited ts visited = card (dom ts - dom visited)"

definition search_inv :: "(Uuid \<rightharpoonup> Task) \<Rightarrow> (Uuid \<rightharpoonup> nat) \<Rightarrow> bool" where
  "search_inv ts visited \<longleftrightarrow> ran visited \<subseteq> {1, 2} \<and> finished_ok ts (marked visited 2)"

text \<open>What a search that found nothing leaves behind.\<close>

definition search_kept ::
  "(Uuid \<rightharpoonup> Task) \<Rightarrow> (Uuid \<rightharpoonup> nat) \<Rightarrow> (Uuid \<rightharpoonup> nat) \<Rightarrow> bool" where
  "search_kept ts visited visited' \<longleftrightarrow>
     search_inv ts visited' \<and> marked visited' 1 = marked visited 1
     \<and> marked visited 2 \<subseteq> marked visited' 2"

lemma finished_reach:
  "finished_ok ts B \<Longrightarrow> u \<in> B \<Longrightarrow> (u, v) \<in> (dep_edges ts)\<^sup>+ \<Longrightarrow> v \<in> B"
  by (erule trancl_induct) (auto simp: finished_ok_def)

lemma finished_ok_insert:
  assumes "finished_ok ts B" "i \<notin> B" "\<And>v. (i, v) \<in> dep_edges ts \<Longrightarrow> v \<in> B"
  shows "finished_ok ts (insert i B)"
proof -
  have "(i, i) \<notin> (dep_edges ts)\<^sup>+"
  proof
    assume "(i, i) \<in> (dep_edges ts)\<^sup>+"
    then obtain d where "(i, d) \<in> dep_edges ts" "d = i \<or> (d, i) \<in> (dep_edges ts)\<^sup>+"
      by (meson converse_tranclE)
    with assms show False using finished_reach by blast
  qed
  with assms show ?thesis by (auto simp: finished_ok_def)
qed

lemma dom_marked: "ran visited \<subseteq> {1, 2} \<Longrightarrow> dom visited = marked visited 1 \<union> marked visited 2"
  by (auto simp: marked_def ran_def dom_def subset_iff)

lemma search_kept_unvisited:
  assumes "search_inv ts visited" "search_kept ts visited visited'" "finite (dom ts)"
  shows "unvisited ts visited' \<le> unvisited ts visited"
proof -
  have "dom visited \<subseteq> dom visited'"
    using assms dom_marked [of visited] dom_marked [of visited']
    by (auto simp: search_kept_def search_inv_def)
  then show ?thesis using assms(3) by (auto simp: unvisited_def intro!: card_mono)
qed

lemma marked_upd:
  "marked (visited(i \<mapsto> m)) n = (if m = n then insert i (marked visited n) else marked visited n - {i})"
  by (auto simp: marked_def)

definition search_result ::
  "(Uuid \<rightharpoonup> Task) \<Rightarrow> (Uuid \<rightharpoonup> nat) \<Rightarrow> Uuid set \<Rightarrow> (bool \<times> (Uuid \<rightharpoonup> nat)) option \<Rightarrow> bool" where
  "search_result ts visited targets r \<longleftrightarrow>
     (\<exists>found visited'. r = Some (found, visited')
        \<and> (found \<longrightarrow> (\<exists>u. (u, u) \<in> (dep_edges ts)\<^sup>+))
        \<and> (\<not> found \<longrightarrow> search_kept ts visited visited' \<and> targets \<subseteq> marked visited' 2))"

lemma search_enter:
  assumes "search_inv ts visited" "visited i \<noteq> Some 1" "visited i \<noteq> Some 2"
  shows "search_inv ts (visited(i \<mapsto> 1))" "i \<notin> dom visited"
proof -
  show "i \<notin> dom visited"
    using assms by (force simp: search_inv_def ran_def)
  then have "marked (visited(i \<mapsto> 1)) 2 = marked visited 2"
    by (auto simp: marked_def)
  with assms(1) show "search_inv ts (visited(i \<mapsto> 1))"
    by (auto simp: search_inv_def ran_def split: if_splits)
qed

lemma search_leave:
  assumes "search_inv ts visited" "i \<notin> dom visited"
    and "search_kept ts (visited(i \<mapsto> 1)) visited'"
    and "\<And>v. (i, v) \<in> dep_edges ts \<Longrightarrow> v \<in> marked visited' 2"
  shows "search_kept ts visited (visited'(i \<mapsto> 2))" "i \<in> marked (visited'(i \<mapsto> 2)) 2"
proof -
  have "i \<in> marked visited' 1" and gray: "marked visited' 1 = insert i (marked visited 1)"
    using assms(3) by (auto simp: search_kept_def marked_upd)
  then have "i \<notin> marked visited' 2" by (auto simp: marked_def)
  then have "finished_ok ts (insert i (marked visited' 2))"
    using assms(3,4) by (intro finished_ok_insert) (auto simp: search_kept_def search_inv_def)
  moreover have "ran (visited'(i \<mapsto> 2)) \<subseteq> {1, 2}"
    using assms(3) by (auto simp: search_kept_def search_inv_def ran_def split: if_splits)
  moreover have "marked visited 2 \<subseteq> insert i (marked visited' 2)"
    using assms(2,3) by (auto simp: search_kept_def marked_upd)
  moreover have "i \<notin> marked visited 1" using assms(2) by (auto simp: marked_def)
  ultimately show "search_kept ts visited (visited'(i \<mapsto> 2))"
    using gray by (auto simp: search_kept_def search_inv_def marked_upd)
  show "i \<in> marked (visited'(i \<mapsto> 2)) 2" by (simp add: marked_upd)
qed

lemma unvisited_enter:
  assumes "finite (dom ts)" "i \<in> dom ts" "i \<notin> dom visited"
  shows "unvisited ts (visited(i \<mapsto> m)) < unvisited ts visited"
proof -
  have eq: "dom ts - dom (visited(i \<mapsto> m)) = (dom ts - dom visited) - {i}" by auto
  show ?thesis
    unfolding unvisited_def eq using assms by (intro card_Diff1_less) auto
qed

lemma search_result_after:
  assumes "search_kept ts visited visited'" "i \<in> marked visited' 2"
    and "search_result ts visited' targets r"
  shows "search_result ts visited (insert i targets) r"
proof -
  obtain found visited'' where r: "r = Some (found, visited'')"
    "found \<longrightarrow> (\<exists>u. (u, u) \<in> (dep_edges ts)\<^sup>+)"
    "\<not> found \<longrightarrow> search_kept ts visited' visited'' \<and> targets \<subseteq> marked visited'' 2"
    using assms(3) unfolding search_result_def by blast
  have "\<not> found \<longrightarrow> search_kept ts visited visited'' \<and> insert i targets \<subseteq> marked visited'' 2"
    using assms(1,2) r(3) unfolding search_kept_def by blast
  with r(1,2) show ?thesis unfolding search_result_def by blast
qed

lemma search_correct:
  shows "finite (dom ts) \<Longrightarrow> search_inv ts visited \<Longrightarrow>
     \<forall>g\<in>marked visited 1. (g, i) \<in> (dep_edges ts)\<^sup>+ \<Longrightarrow> unvisited ts visited < fuel \<Longrightarrow>
     search_result ts visited {i} (dfs_cycle fuel ts i visited)"
  and "finite (dom ts) \<Longrightarrow> search_inv ts visited \<Longrightarrow>
     \<forall>g\<in>marked visited 1. \<forall>d\<in>set ds. (g, d) \<in> (dep_edges ts)\<^sup>+ \<Longrightarrow> unvisited ts visited < fuel \<Longrightarrow>
     search_result ts visited (set ds) (dfs_deps fuel ts ds visited)"
proof (induction fuel ts i visited and fuel ts ds visited rule: dfs_cycle_dfs_deps.induct)
  case (1 ts i visited)
  then show ?case by simp
next
  case (2 fuel ts i visited)
  consider (gray) "visited i = Some 1" | (black) "visited i = Some 2"
    | (white) "visited i \<noteq> Some 1" "visited i \<noteq> Some 2" by blast
  then show ?case
  proof cases
    case gray
    then have "(i, i) \<in> (dep_edges ts)\<^sup>+" using "2.prems"(3) by (auto simp: marked_def)
    with gray show ?thesis by (auto simp: search_result_def)
  next
    case black
    then show ?thesis
      using "2.prems"(2) by (auto simp: search_result_def search_kept_def marked_def)
  next
    case white
    note enter = search_enter [OF "2.prems"(2) white]
    show ?thesis
    proof (cases "ts i")
      case None
      have "search_kept ts (visited(i \<mapsto> 1)) (visited(i \<mapsto> 1))"
        using enter(1) by (simp add: search_kept_def)
      from search_leave [OF "2.prems"(2) enter(2) this] None white show ?thesis
        by (auto simp: search_result_def dep_edges_def)
    next
      case (Some t)
      have gray: "\<forall>g\<in>marked (visited(i \<mapsto> 1)) 1. \<forall>d\<in>set (dependencies t). (g, d) \<in> (dep_edges ts)\<^sup>+"
      proof (intro ballI)
        fix g d assume "g \<in> marked (visited(i \<mapsto> 1)) 1" "d \<in> set (dependencies t)"
        moreover from this(2) Some have "(i, d) \<in> dep_edges ts" by (auto simp: dep_edges_def)
        ultimately show "(g, d) \<in> (dep_edges ts)\<^sup>+"
          using "2.prems"(3) by (auto simp: marked_upd intro: trancl_into_trancl)
      qed
      have fuel: "unvisited ts (visited(i \<mapsto> 1)) < fuel"
        using unvisited_enter [OF "2.prems"(1) _ enter(2), of 1] Some "2.prems"(4) by fastforce
      obtain found visited' where r:
        "dfs_deps fuel ts (dependencies t) (visited(i \<mapsto> 1)) = Some (found, visited')"
        "found \<Longrightarrow> \<exists>u. (u, u) \<in> (dep_edges ts)\<^sup>+"
        "\<not> found \<Longrightarrow> search_kept ts (visited(i \<mapsto> 1)) visited'"
        "\<not> found \<Longrightarrow> set (dependencies t) \<subseteq> marked visited' 2"
        using "2.IH" [OF white Some "2.prems"(1) enter(1) gray fuel]
        unfolding search_result_def by blast
      show ?thesis
      proof (cases found)
        case True
        with r white Some show ?thesis by (auto simp: search_result_def)
      next
        case False
        have "v \<in> marked visited' 2" if "(i, v) \<in> dep_edges ts" for v
          using that Some r(4) [OF False] by (auto simp: dep_edges_def)
        from search_leave [OF "2.prems"(2) enter(2) r(3) [OF False] this] False r(1) white Some
        show ?thesis by (auto simp: search_result_def)
      qed
    qed
  qed
next
  case (3 fuel ts visited)
  then show ?case by (auto simp: search_result_def search_kept_def)
next
  case (4 fuel ts dep deps visited)
  have "\<forall>g\<in>marked visited 1. (g, dep) \<in> (dep_edges ts)\<^sup>+" using "4.prems"(3) by simp
  from "4.IH"(1) [OF "4.prems"(1,2) this "4.prems"(4)]
  obtain found visited' where r: "dfs_cycle fuel ts dep visited = Some (found, visited')"
    "found \<Longrightarrow> \<exists>u. (u, u) \<in> (dep_edges ts)\<^sup>+"
    "\<not> found \<Longrightarrow> search_kept ts visited visited'" "\<not> found \<Longrightarrow> dep \<in> marked visited' 2"
    by (auto simp: search_result_def)
  show ?case
  proof (cases found)
    case True
    with r show ?thesis by (auto simp: search_result_def)
  next
    case False
    note kept = r(3) [OF False]
    have "unvisited ts visited' < fuel"
      using search_kept_unvisited [OF "4.prems"(2) kept "4.prems"(1)] "4.prems"(4) by simp
    moreover have "\<forall>g\<in>marked visited' 1. \<forall>d\<in>set deps. (g, d) \<in> (dep_edges ts)\<^sup>+"
      using kept "4.prems"(3) by (simp add: search_kept_def)
    moreover have "search_inv ts visited'" using kept by (simp add: search_kept_def)
    ultimately have "search_result ts visited' (set deps) (dfs_deps fuel ts deps visited')"
      using "4.IH"(2) [OF r(1) refl False "4.prems"(1)] by blast
    from search_result_after [OF kept r(4) [OF False] this] show ?thesis
      using False r(1) by simp
  qed
qed

lemma has_cycle_correct:
  assumes "finite (dom (tasks q))" "set ks = dom (tasks q)"
  shows "\<exists>b. has_cycle q ks = Some b \<and> (b \<longleftrightarrow> (\<exists>u. (u, u) \<in> (dep_edges (tasks q))\<^sup>+))"
proof -
  let ?ts = "tasks q"
  have inv: "search_inv ?ts Map.empty"
    by (simp add: search_inv_def finished_ok_def marked_def)
  have gray: "\<forall>g\<in>marked Map.empty 1. \<forall>d\<in>set ks. (g, d) \<in> (dep_edges ?ts)\<^sup>+"
    by (simp add: marked_def)
  have "unvisited ?ts Map.empty < Suc (card (dom ?ts))" by (simp add: unvisited_def)
  from search_correct(2) [OF assms(1) inv gray this] obtain found visited' where
    r: "dfs_deps (Suc (card (dom ?ts))) ?ts ks Map.empty = Some (found, visited')"
    "found \<Longrightarrow> \<exists>u. (u, u) \<in> (dep_edges ?ts)\<^sup>+"
    "\<not> found \<Longrightarrow> search_kept ?ts Map.empty visited' \<and> set ks \<subseteq> marked visited' 2"
    unfolding search_result_def by blast
  have "(u, u) \<notin> (dep_edges ?ts)\<^sup>+" if "\<not> found" for u
  proof
    assume uu: "(u, u) \<in> (dep_edges ?ts)\<^sup>+"
    then have "u \<in> dom ?ts" by (auto simp: dep_edges_def dest: tranclD)
    with assms(2) r(3) [OF that] uu show False
      by (auto simp: search_kept_def search_inv_def finished_ok_def)
  qed
  with r show ?thesis by (auto simp: has_cycle_def)
qed

lemma finite_dep_edges: "finite (dom ts) \<Longrightarrow> finite (dep_edges ts)"
proof -
  assume "finite (dom ts)"
  moreover have "dep_edges ts \<subseteq> Sigma (dom ts) (\<lambda>u. set (dependencies (the (ts u))))"
    by (auto simp: dep_edges_def)
  ultimately show ?thesis by (auto intro: finite_subset)
qed

section \<open>Properties\<close>

text \<open>
  C7: the cycle check is exact and always ends. For every queue, and whatever the order in which
  the map hands out its keys, \<open>has_cycle\<close> returns an answer, and the answer is yes exactly when
  some task depends on itself through one or more dependencies.
\<close>

theorem has_cycle_exact:
  assumes "finite (dom (tasks q))" and "set ks = dom (tasks q)"
  shows "has_cycle q ks = Some (\<exists>u. (u, u) \<in> (dep_edges (tasks q))\<^sup>+)"
  using has_cycle_correct [OF assms] by blast

definition two_task_cycle :: TaskQueue where
  "two_task_cycle =
     queue_add (queue_add queue_new (with_dependencies (task_new 1 0 ''a'' Coder) [2]))
       (with_dependencies (task_new 2 1 ''b'' Tester) [1])"

theorem has_cycle_exact_witness:
  "finite (dom (tasks two_task_cycle)) \<and> set [1, 2] = dom (tasks two_task_cycle)
   \<and> (\<exists>u. (u, u) \<in> (dep_edges (tasks two_task_cycle))\<^sup>+)"
proof -
  have d: "dom (tasks two_task_cycle) = {1, 2}"
    by (auto simp: two_task_cycle_def queue_add_def queue_new_def with_dependencies_def task_new_def)
  then have h: "finite (dom (tasks two_task_cycle))" "set [1, 2] = dom (tasks two_task_cycle)"
    by simp_all
  have "card (dom (tasks two_task_cycle)) = 2" unfolding d by simp
  then have "has_cycle two_task_cycle [1, 2] = Some True"
    by (simp add: has_cycle_def two_task_cycle_def queue_add_def queue_new_def
        with_dependencies_def task_new_def numeral_eq_Suc)
  with has_cycle_exact [OF h] h show ?thesis by simp
qed

text \<open>
  What the scheduler hands out. The next ready task is one of the queue's tasks, it is
  pending, each of its dependencies has been recorded as completed, and no ready task was created
  earlier; and there is none only when no task of the queue is ready.
\<close>

lemma next_ready_spec:
  "case next_ready q ks of
     None \<Rightarrow> {t. \<exists>k\<in>set ks. tasks q k = Some t} \<inter> {t. is_ready t (completed q)} = {}
   | Some t \<Rightarrow> (\<exists>k\<in>set ks. tasks q k = Some t) \<and> status t = Pending
       \<and> set (dependencies t) \<subseteq> set (completed q)
       \<and> {t'. \<exists>k\<in>set ks. tasks q k = Some t'} \<inter> {t'. is_ready t' (completed q)}
           \<subseteq> {t'. created_at t \<le> created_at t'}"
proof (cases "next_ready q ks")
  case None
  then show ?thesis using next_ready_None [of q ks] by (auto simp: set_task_values)
next
  case (Some t)
  from next_ready_Some [OF Some] show ?thesis
    by (auto simp: Some set_task_values is_ready_def)
qed

text \<open>
  C33: an acyclic queue never stalls. If no task depends on itself, every dependency is a task of
  the queue, and every task is either pending or recorded as completed, then as long as some task
  is pending there is a next ready task.
\<close>

theorem acyclic_queue_progress:
  assumes "finite (dom (tasks q))" and "set ks = dom (tasks q)"
    and "has_cycle q ks = Some False"
    and "\<And>u v. (u, v) \<in> dep_edges (tasks q) \<Longrightarrow> v \<in> dom (tasks q)"
    and "\<And>u t. tasks q u = Some t \<Longrightarrow> status t = Pending \<or> u \<in> set (completed q)"
    and "tasks q p = Some t" and "status t = Pending"
  shows "next_ready q ks \<noteq> None"
proof -
  let ?E = "dep_edges (tasks q)"
  let ?P = "{u. \<exists>t. tasks q u = Some t \<and> status t = Pending}"
  have "acyclic ?E"
    using has_cycle_exact [OF assms(1,2)] assms(3) by (auto simp: acyclic_def)
  then have "wf (?E\<inverse>)"
    using finite_dep_edges [OF assms(1)] by (rule finite_acyclic_wf_converse [rotated])
  moreover have "p \<in> ?P" using assms(6,7) by blast
  ultimately obtain u where u: "u \<in> ?P" "\<And>v. (v, u) \<in> ?E\<inverse> \<Longrightarrow> v \<notin> ?P"
    by (rule wfE_min) blast
  then obtain s where s: "tasks q u = Some s" "status s = Pending" by blast
  have "v \<in> set (completed q)" if "v \<in> set (dependencies s)" for v
  proof -
    have uv: "(u, v) \<in> ?E" using that s(1) by (auto simp: dep_edges_def)
    then have "v \<notin> ?P" using u(2) by simp
    moreover obtain t' where "tasks q v = Some t'" using assms(4) [OF uv] by blast
    ultimately show ?thesis using assms(5) [of v t'] by blast
  qed
  then have "is_ready s (completed q)" using s(2) by (simp add: is_ready_def)
  moreover have "s \<in> set (task_values q ks)"
    using s(1) assms(2) by (auto simp: set_task_values)
  ultimately show ?thesis using next_ready_None [of q ks] by blast
qed

definition half_done_queue :: TaskQueue where
  "half_done_queue =
     snd (mark_completed
       (queue_add (queue_add queue_new (task_new 1 0 ''a'' Coder))
          (with_dependencies (task_new 2 1 ''b'' Tester) [1])) 5 1)"

theorem acyclic_queue_progress_witness:
  "has_cycle half_done_queue [1, 2] = Some False
   \<and> next_ready half_done_queue [1, 2] \<noteq> None"
proof -
  let ?t1 = "(task_new 1 0 ''a'' Coder)\<lparr>status := Completed, completed_at := Some 5\<rparr>"
  let ?t2 = "with_dependencies (task_new 2 1 ''b'' Tester) [1]"
  have ts: "tasks half_done_queue = [1 \<mapsto> ?t1, 2 \<mapsto> ?t2]" "completed half_done_queue = [1]"
    by (auto simp: half_done_queue_def queue_add_def queue_new_def mark_completed_def
        with_dependencies_def task_new_def fun_eq_iff)
  then have d: "dom (tasks half_done_queue) = {1, 2}" by auto
  then have fin: "finite (dom (tasks half_done_queue))" and ks: "set [1, 2] = dom (tasks half_done_queue)"
    by simp_all
  have "card (dom (tasks half_done_queue)) = 2" unfolding d by simp
  then have nc: "has_cycle half_done_queue [1, 2] = Some False"
    by (simp add: has_cycle_def ts with_dependencies_def task_new_def numeral_eq_Suc)
  have deps: "v \<in> dom (tasks half_done_queue)" if "(u, v) \<in> dep_edges (tasks half_done_queue)" for u v
    using that by (auto simp: dep_edges_def ts with_dependencies_def task_new_def split: if_splits)
  have states: "status t = Pending \<or> u \<in> set (completed half_done_queue)"
    if "tasks half_done_queue u = Some t" for u t
    using that by (auto simp: ts with_dependencies_def task_new_def split: if_splits)
  have pending: "tasks half_done_queue 2 = Some ?t2" "status ?t2 = Pending"
    by (simp_all add: ts with_dependencies_def task_new_def)
  show ?thesis
    using nc acyclic_queue_progress [OF fin ks nc deps states pending] by simp
qed

end
