(* ===== verification/LruCache.thy ===== *)
theory LruCache
  imports Interfaces "HOL-Library.Monad_Syntax"
begin

text \<open>
  \<open>argentor-agent/src/response_cache.rs\<close>, the structure inside the lock (\<open>Inner\<close>): an LRU
  list doubly linked through indices into a vector, a key index and a free list. An operation
  that indexes the vector out of range panics: it returns \<open>None\<close>. The second half relates it to
  a plain list of entries, the most recently used first.
\<close>

unbundle bit_operations_syntax

section \<open>Keys and entries\<close>

record CacheMessage =
  msg_role :: string
  msg_content :: string

definition cache_message_new :: "string \<Rightarrow> string \<Rightarrow> CacheMessage" where
  "cache_message_new r c = \<lparr>msg_role = r, msg_content = c\<rparr>"

text \<open>The loop body of \<open>CacheKey::compute\<close> over the bytes of a text: FNV-1a on 64 bits.\<close>

definition fnv_bytes :: "u64 \<Rightarrow> string \<Rightarrow> u64" where
  "fnv_bytes hash s =
     foldl (\<lambda>h b. (h XOR word_of_nat b) * 1099511628211) hash (as_bytes s)"

text \<open>\<open>{hash:016x}\<close>: lower-case hexadecimal, padded with zeros to 16 digits.\<close>

definition show_hex16 :: "u64 \<Rightarrow> string" where
  "show_hex16 w = (let s = show_hex (unat w) in replicate (16 - length s) (CHR ''0'') @ s)"

type_synonym CacheKey = string

definition cache_key_compute :: "string \<Rightarrow> CacheMessage list \<Rightarrow> CacheKey" where
  "cache_key_compute model messages =
     (let hash = fnv_bytes 14695981039346656037 model
      in show_hex16 (foldl (\<lambda>h msg. fnv_bytes (fnv_bytes h (msg_role msg)) (msg_content msg))
           hash messages))"

record CacheEntry =
  response :: string
  entry_created_at :: nat
  hit_count :: u64
  token_estimate :: u64
  entry_model :: string

section \<open>The structure\<close>

record LruNode =
  node_key :: CacheKey
  node_entry :: CacheEntry
  node_prev :: "nat option"
  node_next :: "nat option"

datatype LruGetResult = Hit string u64 | Miss | Expired

record Inner =
  nodes :: "LruNode option list"
  index :: "CacheKey \<rightharpoonup> nat"
  free_list :: "nat list"
  head :: "nat option"
  tail :: "nat option"
  capacity :: nat
  ttl :: nat

definition inner_new :: "nat \<Rightarrow> nat \<Rightarrow> Inner" where
  "inner_new cap t =
     \<lparr>nodes = [], index = Map.empty, free_list = [], head = None, tail = None,
      capacity = cap, ttl = t\<rparr>"

definition inner_len :: "Inner \<Rightarrow> nat" where
  "inner_len c = card (dom (index c))"

text \<open>\<open>nodes[i]\<close>, and \<open>if let Some(node) = &mut nodes[i] {..}\<close>.\<close>

definition slot :: "Inner \<Rightarrow> nat \<Rightarrow> LruNode option option" where
  "slot c i = (if i < length (nodes c) then Some (nodes c ! i) else None)"

definition modify_node :: "Inner \<Rightarrow> nat \<Rightarrow> (LruNode \<Rightarrow> LruNode) \<Rightarrow> Inner option" where
  "modify_node c i f =
     (if i < length (nodes c)
      then Some (c\<lparr>nodes := (nodes c)[i := map_option f (nodes c ! i)]\<rparr>) else None)"

definition detach :: "Inner \<Rightarrow> nat \<Rightarrow> Inner option" where
  "detach c i =
     do {
       s \<leftarrow> slot c i;
       case s of
         None \<Rightarrow> Some c
       | Some node \<Rightarrow>
           do {
             c \<leftarrow> (case node_prev node of
                     Some p \<Rightarrow> modify_node c p (\<lambda>n. n\<lparr>node_next := node_next node\<rparr>)
                   | None \<Rightarrow> Some (c\<lparr>head := node_next node\<rparr>));
             c \<leftarrow> (case node_next node of
                     Some n \<Rightarrow> modify_node c n (\<lambda>n. n\<lparr>node_prev := node_prev node\<rparr>)
                   | None \<Rightarrow> Some (c\<lparr>tail := node_prev node\<rparr>));
             modify_node c i (\<lambda>n. n\<lparr>node_prev := None, node_next := None\<rparr>)
           }
     }"

definition push_front :: "Inner \<Rightarrow> nat \<Rightarrow> Inner option" where
  "push_front c i =
     do {
       c \<leftarrow> modify_node c i (\<lambda>n. n\<lparr>node_prev := None, node_next := head c\<rparr>);
       c \<leftarrow> (case head c of
               Some old_head \<Rightarrow> modify_node c old_head (\<lambda>n. n\<lparr>node_prev := Some i\<rparr>)
             | None \<Rightarrow> Some c);
       let c = c\<lparr>head := Some i\<rparr>;
       Some (if tail c = None then c\<lparr>tail := Some i\<rparr> else c)
     }"

text \<open>\<open>nodes[i].take()\<close>, the index entry removed and the slot put on the free list.\<close>

definition release :: "Inner \<Rightarrow> nat \<Rightarrow> (bool \<times> Inner) option" where
  "release c i =
     do {
       s \<leftarrow> slot c i;
       Some (case s of
               None \<Rightarrow> (False, c)
             | Some node \<Rightarrow>
                 (True, c\<lparr>nodes := (nodes c)[i := None], index := (index c)(node_key node := None),
                         free_list := free_list c @ [i]\<rparr>))
     }"

definition evict_lru :: "Inner \<Rightarrow> (bool \<times> Inner) option" where
  "evict_lru c =
     (case tail c of
        Some tail_idx \<Rightarrow> do { c \<leftarrow> detach c tail_idx; release c tail_idx }
      | None \<Rightarrow> Some (False, c))"

definition alloc_index :: "Inner \<Rightarrow> nat \<times> Inner" where
  "alloc_index c =
     (if free_list c \<noteq> [] then (last (free_list c), c\<lparr>free_list := butlast (free_list c)\<rparr>)
      else (length (nodes c), c\<lparr>nodes := nodes c @ [None]\<rparr>))"

definition inner_get :: "nat \<Rightarrow> Inner \<Rightarrow> CacheKey \<Rightarrow> (LruGetResult \<times> Inner) option" where
  "inner_get now c key =
     (case index c key of
        None \<Rightarrow> Some (Miss, c)
      | Some i \<Rightarrow>
          do {
            s \<leftarrow> slot c i;
            let expired = (case s of Some n \<Rightarrow> now - entry_created_at (node_entry n) > ttl c | None \<Rightarrow> False);
            if expired
            then do { c \<leftarrow> detach c i; (_, c) \<leftarrow> release c i; Some (Expired, c) }
            else do {
              c \<leftarrow> detach c i;
              c \<leftarrow> push_front c i;
              s \<leftarrow> slot c i;
              case s of
                Some node \<Rightarrow>
                  do {
                    c \<leftarrow> modify_node c i
                          (\<lambda>n. n\<lparr>node_entry := node_entry n\<lparr>hit_count := hit_count (node_entry n) + 1\<rparr>\<rparr>);
                    Some (Hit (response (node_entry node)) (token_estimate (node_entry node)), c)
                  }
              | None \<Rightarrow> Some (Miss, c)
            }
          })"

text \<open>The end of \<open>put\<close>, for a key that is not cached: the node into a slot and to the front.\<close>

definition put_node :: "Inner \<Rightarrow> CacheKey \<Rightarrow> CacheEntry \<Rightarrow> Inner option" where
  "put_node c key entry =
     (let (i, c) = alloc_index c;
          node = \<lparr>node_key = key, node_entry = entry, node_prev = None, node_next = None\<rparr>;
          c = (if i < length (nodes c) then c\<lparr>nodes := (nodes c)[i := Some node]\<rparr>
               else c\<lparr>nodes := nodes c @ [Some node]\<rparr>);
          c = c\<lparr>index := (index c)(key \<mapsto> i)\<rparr>
      in push_front c i)"

definition inner_put ::
  "nat \<Rightarrow> Inner \<Rightarrow> CacheKey \<Rightarrow> string \<Rightarrow> string \<Rightarrow> u64 \<Rightarrow> (bool \<times> Inner) option" where
  "inner_put now c key resp model tokens =
     (case index c key of
        Some i \<Rightarrow>
          do {
            c \<leftarrow> detach c i;
            c \<leftarrow> modify_node c i (\<lambda>n. n\<lparr>node_entry := node_entry n
                   \<lparr>response := resp, entry_created_at := now, entry_model := model,
                    token_estimate := tokens\<rparr>\<rparr>);
            c \<leftarrow> push_front c i;
            Some (False, c)
          }
      | None \<Rightarrow>
          do {
            (evicted, c) \<leftarrow> (if inner_len c \<ge> capacity c then evict_lru c else Some (False, c));
            c \<leftarrow> put_node c key
                   \<lparr>response = resp, entry_created_at = now, hit_count = 0,
                    token_estimate = tokens, entry_model = model\<rparr>;
            Some (evicted, c)
          })"

section \<open>The list it stands for\<close>

text \<open>A doubly linked segment: nodes \<open>is\<close> in order, entered from \<open>p\<close> and left towards \<open>n\<close>.\<close>

definition first_or :: "nat option \<Rightarrow> nat list \<Rightarrow> nat option" where
  "first_or n xs = (case xs of [] \<Rightarrow> n | x # _ \<Rightarrow> Some x)"

definition last_or :: "nat option \<Rightarrow> nat list \<Rightarrow> nat option" where
  "last_or p xs = (if xs = [] then p else Some (last xs))"

fun segment :: "LruNode option list \<Rightarrow> nat option \<Rightarrow> nat list \<Rightarrow> nat option \<Rightarrow> bool" where
  "segment ns p [] n \<longleftrightarrow> True"
| "segment ns p (i # is) n \<longleftrightarrow>
     i < length ns \<and> (\<exists>nd. ns ! i = Some nd \<and> node_prev nd = p \<and> node_next nd = first_or n is)
     \<and> segment ns (Some i) is n"

text \<open>What a slot holds beside its links.\<close>

definition slot_data :: "LruNode option list \<Rightarrow> nat \<Rightarrow> (CacheKey \<times> CacheEntry) option" where
  "slot_data ns i = map_option (\<lambda>nd. (node_key nd, node_entry nd)) (ns ! i)"

definition item_at :: "LruNode option list \<Rightarrow> nat \<Rightarrow> CacheKey \<times> CacheEntry" where
  "item_at ns i = the (slot_data ns i)"

text \<open>
  The invariant for the linked slots \<open>is\<close>, from head to tail: the links, and (for a set of
  occupied slots) the index and the free list.
\<close>

definition links_ok :: "Inner \<Rightarrow> nat list \<Rightarrow> bool" where
  "links_ok c is \<longleftrightarrow>
     segment (nodes c) None is None \<and> head c = first_or None is \<and> tail c = last_or None is
     \<and> distinct is"

definition data_ok :: "Inner \<Rightarrow> nat set \<Rightarrow> bool" where
  "data_ok c S \<longleftrightarrow>
     (\<forall>k i. index c k = Some i \<longleftrightarrow> i \<in> S \<and> fst (item_at (nodes c) i) = k)
     \<and> distinct (free_list c) \<and> set (free_list c) \<inter> S = {}
     \<and> (\<forall>i\<in>set (free_list c). i < length (nodes c))"

definition cache_list :: "Inner \<Rightarrow> nat list \<Rightarrow> (CacheKey \<times> CacheEntry) list" where
  "cache_list c is = map (item_at (nodes c)) is"

lemma first_or_simps [simp]: "first_or n [] = n" "first_or n (x # xs) = Some x"
  by (simp_all add: first_or_def)

lemma last_or_simps [simp]: "last_or p [] = p" "last_or p (xs @ [x]) = Some x"
  "last_or p (x # xs) = last_or (Some x) xs"
  by (simp_all add: last_or_def)

lemma first_or_append: "first_or n (xs @ ys) = first_or (first_or n ys) xs"
  by (cases xs) simp_all

lemma last_or_append: "last_or p (xs @ ys) = last_or (last_or p xs) ys"
  by (simp add: last_or_def)

lemma segment_append:
  "segment ns p (xs @ ys) n \<longleftrightarrow> segment ns p xs (first_or n ys) \<and> segment ns (last_or p xs) ys n"
  by (induction xs arbitrary: p) (auto simp: first_or_append)

lemma segment_length: "segment ns p is n \<Longrightarrow> i \<in> set is \<Longrightarrow> i < length ns \<and> (\<exists>nd. ns ! i = Some nd)"
  by (induction "is" arbitrary: p) auto

lemma segment_update_other:
  "i \<notin> set is \<Longrightarrow> segment (ns[i := x]) p is n \<longleftrightarrow> segment ns p is n"
  by (induction "is" arbitrary: p) auto

lemma segment_set_next:
  assumes "segment ns p xs n" "distinct xs" "xs \<noteq> []"
  shows "segment (ns[last xs := map_option (\<lambda>nd. nd\<lparr>node_next := n'\<rparr>) (ns ! last xs)]) p xs n'"
proof -
  obtain ys i where xs: "xs = ys @ [i]" using assms(3) by (cases xs rule: rev_cases) auto
  with assms(1,2) show ?thesis
    by (auto simp: segment_append segment_update_other)
qed

lemma segment_set_prev:
  assumes "segment ns p ys n" "distinct ys" "ys \<noteq> []"
  shows "segment (ns[hd ys := map_option (\<lambda>nd. nd\<lparr>node_prev := p'\<rparr>) (ns ! hd ys)]) p' ys n"
  using assms by (cases ys) (auto simp: segment_update_other)

section \<open>Unlinking and linking\<close>

lemma slot_data_update:
  assumes "\<And>nd. node_key (f nd) = node_key nd \<and> node_entry (f nd) = node_entry nd"
  shows "slot_data (ns[i := map_option f (ns ! i)]) j = slot_data ns j"
proof (cases "i < length ns")
  case True
  then show ?thesis
    using assms by (auto simp: slot_data_def nth_list_update option.map_comp o_def)
qed (simp add: list_update_beyond)

definition set_next :: "LruNode option list \<Rightarrow> nat \<Rightarrow> nat option \<Rightarrow> LruNode option list" where
  "set_next ns i v = ns[i := map_option (\<lambda>nd. nd\<lparr>node_next := v\<rparr>) (ns ! i)]"

definition set_prev :: "LruNode option list \<Rightarrow> nat \<Rightarrow> nat option \<Rightarrow> LruNode option list" where
  "set_prev ns i v = ns[i := map_option (\<lambda>nd. nd\<lparr>node_prev := v\<rparr>) (ns ! i)]"

definition set_links :: "LruNode option list \<Rightarrow> nat \<Rightarrow> nat option \<Rightarrow> LruNode option list" where
  "set_links ns i v = ns[i := map_option (\<lambda>nd. nd\<lparr>node_prev := None, node_next := v\<rparr>) (ns ! i)]"

lemma set_links_simps [simp]:
  "length (set_next ns i v) = length ns" "length (set_prev ns i v) = length ns"
  "length (set_links ns i v) = length ns"
  "slot_data (set_next ns i v) j = slot_data ns j" "slot_data (set_prev ns i v) j = slot_data ns j"
  "slot_data (set_links ns i v) j = slot_data ns j"
  by (simp_all add: set_next_def set_prev_def set_links_def slot_data_update)

lemma segment_links_other [simp]:
  "i \<notin> set is \<Longrightarrow> segment (set_next ns i v) p is n \<longleftrightarrow> segment ns p is n"
  "i \<notin> set is \<Longrightarrow> segment (set_prev ns i v) p is n \<longleftrightarrow> segment ns p is n"
  "i \<notin> set is \<Longrightarrow> segment (set_links ns i v) p is n \<longleftrightarrow> segment ns p is n"
  by (simp_all add: set_next_def set_prev_def set_links_def segment_update_other)

definition unlink :: "LruNode option list \<Rightarrow> nat list \<Rightarrow> nat \<Rightarrow> nat list \<Rightarrow> LruNode option list" where
  "unlink ns xs i ys =
     (let ns = (if xs = [] then ns else set_next ns (last xs) (first_or None ys));
          ns = (if ys = [] then ns else set_prev ns (hd ys) (last_or None xs))
      in set_links ns i None)"

lemma unlink_simps [simp]:
  "length (unlink ns xs i ys) = length ns" "slot_data (unlink ns xs i ys) j = slot_data ns j"
  by (simp_all add: unlink_def Let_def)

lemma segment_unlink:
  assumes "segment ns None (xs @ i # ys) None" "distinct (xs @ i # ys)"
  shows "segment (unlink ns xs i ys) None (xs @ ys) None"
proof -
  let ?ns1 = "if xs = [] then ns else set_next ns (last xs) (first_or None ys)"
  let ?ns2 = "if ys = [] then ?ns1 else set_prev ?ns1 (hd ys) (last_or None xs)"
  have parts: "segment ns None xs (Some i)" "segment ns (Some i) ys None"
    using assms(1) by (auto simp: segment_append)
  have apart: "last xs \<notin> set ys" if "xs \<noteq> []"
    using last_in_set [OF that] assms(2) by auto
  have apart': "hd ys \<notin> set xs" if "ys \<noteq> []"
    using hd_in_set [OF that] assms(2) by auto
  have ys1: "segment ?ns1 (Some i) ys None"
    using parts(2) apart by simp
  have "segment ?ns1 None xs (first_or None ys)"
    using segment_set_next [OF parts(1)] parts(1) assms(2) by (cases "xs = []") (auto simp: set_next_def)
  then have "segment ?ns2 None xs (first_or None ys)"
    using apart' by (cases "ys = []") simp_all
  moreover have "segment ?ns2 (last_or None xs) ys None"
    using segment_set_prev [OF ys1] assms(2) by (auto simp: set_prev_def)
  ultimately show ?thesis
    using assms(2) by (simp add: unlink_def Let_def segment_append)
qed

lemma detach_unlink:
  assumes "segment (nodes c) None (xs @ i # ys) None" "distinct (xs @ i # ys)"
  shows "detach c i = Some (c\<lparr>nodes := unlink (nodes c) xs i ys,
      head := (if xs = [] then first_or None ys else head c),
      tail := (if ys = [] then last_or None xs else tail c)\<rparr>)"
proof -
  obtain nd where i: "i < length (nodes c)" "nodes c ! i = Some nd"
    "node_prev nd = last_or None xs" "node_next nd = first_or None ys"
    using assms(1) by (auto simp: segment_append)
  have "last xs < length (nodes c)" if "xs \<noteq> []"
    using segment_length [OF assms(1), of "last xs"] that by auto
  moreover have "hd ys < length (nodes c)" if "ys \<noteq> []"
    using segment_length [OF assms(1), of "hd ys"] that by auto
  ultimately show ?thesis
    using i by (cases ys) (auto simp: detach_def slot_def modify_node_def unlink_def set_next_def
        set_prev_def set_links_def last_or_def Let_def)
qed

definition link_front :: "LruNode option list \<Rightarrow> nat \<Rightarrow> nat list \<Rightarrow> LruNode option list" where
  "link_front ns i is =
     (let ns = set_links ns i (first_or None is)
      in if is = [] then ns else set_prev ns (hd is) (Some i))"

lemma link_front_simps [simp]:
  "length (link_front ns i is) = length ns" "slot_data (link_front ns i is) j = slot_data ns j"
  by (simp_all add: link_front_def Let_def)

lemma segment_link_front:
  assumes "segment ns None is None" "distinct (i # is)" "i < length ns" "ns ! i = Some nd"
  shows "segment (link_front ns i is) None (i # is) None"
proof (cases "is")
  case Nil
  with assms show ?thesis by (simp add: link_front_def set_links_def)
next
  case (Cons j js)
  have "segment (set_links ns i (Some j)) None (j # js) None"
    using assms(1,2) Cons by (simp del: segment.simps)
  then have "segment (set_prev (set_links ns i (Some j)) j (Some i)) (Some i) (j # js) None"
    using segment_set_prev [of "set_links ns i (Some j)" None "j # js" None "Some i"] assms(2) Cons
    by (simp add: set_prev_def del: segment.simps)
  moreover have "set_prev (set_links ns i (Some j)) j (Some i) ! i =
      Some (nd\<lparr>node_prev := None, node_next := Some j\<rparr>)"
    using assms(2-4) Cons by (simp add: set_prev_def set_links_def)
  ultimately show ?thesis
    using assms(3) Cons by (simp add: link_front_def Let_def)
qed

lemma push_front_link:
  assumes "segment (nodes c) None is None" "head c = first_or None is" "tail c = last_or None is"
    and "i < length (nodes c)"
  shows "push_front c i = Some (c\<lparr>nodes := link_front (nodes c) i is, head := Some i,
      tail := last_or None (i # is)\<rparr>)"
proof -
  have "hd is < length (nodes c)" if "is \<noteq> []"
    using segment_length [OF assms(1), of "hd is"] that by auto
  then show ?thesis
    using assms(2-4) by (cases "is") (auto simp: push_front_def modify_node_def link_front_def
        set_links_def set_prev_def last_or_def Let_def)
qed

section \<open>Each operation on the invariant\<close>

definition same_data :: "Inner \<Rightarrow> Inner \<Rightarrow> bool" where
  "same_data c c' \<longleftrightarrow> length (nodes c') = length (nodes c)
     \<and> slot_data (nodes c') = slot_data (nodes c) \<and> index c' = index c
     \<and> free_list c' = free_list c \<and> capacity c' = capacity c \<and> ttl c' = ttl c"

lemma same_data_trans: "same_data a b \<Longrightarrow> same_data b c \<Longrightarrow> same_data a c"
  by (simp add: same_data_def)

lemma item_at_same: "same_data c c' \<Longrightarrow> item_at (nodes c') = item_at (nodes c)"
  by (simp add: same_data_def item_at_def fun_eq_iff)

lemma data_ok_same: "same_data c c' \<Longrightarrow> data_ok c' S \<longleftrightarrow> data_ok c S"
  using item_at_same [of c c'] by (simp add: data_ok_def same_data_def)

lemma cache_list_same: "same_data c c' \<Longrightarrow> cache_list c' is = cache_list c is"
  using item_at_same [of c c'] by (simp add: cache_list_def)

lemma links_ok_slot: "links_ok c is \<Longrightarrow> i \<in> set is \<Longrightarrow> i < length (nodes c) \<and> (\<exists>nd. nodes c ! i = Some nd)"
  using segment_length by (auto simp: links_ok_def)

lemma detach_ok:
  assumes "links_ok c (xs @ i # ys)"
  shows "\<exists>c'. detach c i = Some c' \<and> links_ok c' (xs @ ys) \<and> same_data c c'"
proof -
  have seg: "segment (nodes c) None (xs @ i # ys) None" and d: "distinct (xs @ i # ys)"
    and ends: "head c = first_or None (xs @ i # ys)" "tail c = last_or None (xs @ i # ys)"
    using assms by (simp_all only: links_ok_def)
  show ?thesis
    using segment_unlink [OF seg d] detach_unlink [OF seg d] ends d
    by (cases xs; cases ys rule: rev_cases)
      (auto simp: links_ok_def same_data_def fun_eq_iff last_or_def)
qed

lemma push_front_ok:
  assumes "links_ok c is" "i \<notin> set is" "i < length (nodes c)" "nodes c ! i \<noteq> None"
  shows "\<exists>c'. push_front c i = Some c' \<and> links_ok c' (i # is) \<and> same_data c c'"
proof -
  obtain nd where "nodes c ! i = Some nd" using assms(4) by auto
  then show ?thesis
    using push_front_link [of c "is" i] segment_link_front [of "nodes c" "is" i nd] assms
    by (auto simp: links_ok_def same_data_def fun_eq_iff simp del: segment.simps)
qed

lemma segment_modify_entry:
  "segment (ns[i := map_option (\<lambda>nd. nd\<lparr>node_entry := f (node_entry nd)\<rparr>) (ns ! i)]) p is n
     \<longleftrightarrow> segment ns p is n"
proof (induction "is" arbitrary: p)
  case Nil
  show ?case by simp
next
  case (Cons j "is")
  then show ?case
    by (cases "i < length ns") (auto simp: nth_list_update list_update_beyond)
qed

lemma modify_entry_ok:
  assumes "links_ok c is" "data_ok c S" "i < length (nodes c)" "nodes c ! i = Some nd"
  shows "\<exists>c'. modify_node c i (\<lambda>nd. nd\<lparr>node_entry := f (node_entry nd)\<rparr>) = Some c'
      \<and> links_ok c' is \<and> data_ok c' S \<and> length (nodes c') = length (nodes c)
      \<and> nodes c' ! i \<noteq> None \<and> capacity c' = capacity c \<and> ttl c' = ttl c
      \<and> item_at (nodes c') = (item_at (nodes c))(i := (node_key nd, f (node_entry nd)))"
proof -
  let ?g = "\<lambda>nd. nd\<lparr>node_entry := f (node_entry nd)\<rparr>"
  let ?c = "c\<lparr>nodes := (nodes c)[i := map_option ?g (nodes c ! i)]\<rparr>"
  have item: "item_at (nodes ?c) = (item_at (nodes c))(i := (node_key nd, f (node_entry nd)))"
    using assms(3,4) by (auto simp: item_at_def slot_data_def fun_eq_iff)
  have "fst (item_at (nodes c) i) = node_key nd"
    using assms(4) by (simp add: item_at_def slot_data_def)
  then have "fst (item_at (nodes ?c) j) = fst (item_at (nodes c) j)" for j
    by (simp only: item) simp
  then have "data_ok ?c S"
    using assms(2) by (simp add: data_ok_def)
  moreover have "links_ok ?c is"
    using assms(1) by (simp add: links_ok_def segment_modify_entry)
  ultimately show ?thesis
    using assms(3,4) item by (intro exI [of _ ?c]) (simp add: modify_node_def)
qed

lemma segment_drop: "i \<notin> set is \<Longrightarrow> segment (ns[i := None]) p is n \<longleftrightarrow> segment ns p is n"
  by (rule segment_update_other)

lemma release_ok:
  assumes "links_ok c is" "data_ok c (insert i (set is))" "i \<notin> set is"
    and "i < length (nodes c)" "nodes c ! i = Some nd"
  shows "\<exists>c'. release c i = Some (True, c') \<and> links_ok c' is \<and> data_ok c' (set is)
      \<and> cache_list c' is = cache_list c is \<and> capacity c' = capacity c \<and> ttl c' = ttl c"
proof -
  let ?c = "c\<lparr>nodes := (nodes c)[i := None], index := (index c)(node_key nd := None),
      free_list := free_list c @ [i]\<rparr>"
  have items: "item_at ((nodes c)[i := None]) j = item_at (nodes c) j" if "j \<noteq> i" for j
    using that by (simp add: item_at_def slot_data_def)
  have key: "fst (item_at (nodes c) i) = node_key nd"
    using assms(5) by (simp add: item_at_def slot_data_def)
  have idx: "index c k = Some j \<longleftrightarrow> j \<in> insert i (set is) \<and> fst (item_at (nodes c) j) = k" for k j
    using assms(2) by (simp add: data_ok_def)
  have own: "fst (item_at (nodes c) j) \<noteq> node_key nd" if "j \<in> set is" for j
    using idx [of "node_key nd" i] idx [of "node_key nd" j] that assms(3) key by auto
  have "index ?c k = Some j \<longleftrightarrow> j \<in> set is \<and> fst (item_at (nodes ?c) j) = k" for k j
    using idx [of k j] own [of j] items [of j] assms(3) key by (cases "j = i") auto
  moreover have "distinct (free_list ?c)" "set (free_list ?c) \<inter> set is = {}"
    "\<forall>j\<in>set (free_list ?c). j < length (nodes ?c)"
    using assms(2-4) by (auto simp: data_ok_def)
  ultimately have "data_ok ?c (set is)" by (simp add: data_ok_def)
  moreover have "links_ok ?c is"
    using assms(1,3) by (simp add: links_ok_def segment_drop)
  moreover have "cache_list ?c is = cache_list c is"
    using assms(3) by (auto simp: cache_list_def intro!: items)
  ultimately show ?thesis
    using assms(4,5) by (simp add: release_def slot_def)
qed

section \<open>The specification and the refinement\<close>

definition drop_key :: "'k \<Rightarrow> ('k \<times> 'v) list \<Rightarrow> ('k \<times> 'v) list" where
  "drop_key k l = filter (\<lambda>e. fst e \<noteq> k) l"

definition spec_get ::
  "nat \<Rightarrow> nat \<Rightarrow> (CacheKey \<times> CacheEntry) list \<Rightarrow> CacheKey
     \<Rightarrow> LruGetResult \<times> (CacheKey \<times> CacheEntry) list" where
  "spec_get t now l k =
     (case map_of l k of
        None \<Rightarrow> (Miss, l)
      | Some e \<Rightarrow>
          if now - entry_created_at e > t then (Expired, drop_key k l)
          else (Hit (response e) (token_estimate e),
                (k, e\<lparr>hit_count := hit_count e + 1\<rparr>) # drop_key k l))"

definition spec_put ::
  "nat \<Rightarrow> nat \<Rightarrow> (CacheKey \<times> CacheEntry) list \<Rightarrow> CacheKey \<Rightarrow> string \<Rightarrow> string \<Rightarrow> u64
     \<Rightarrow> bool \<times> (CacheKey \<times> CacheEntry) list" where
  "spec_put cap now l k resp model tokens =
     (case map_of l k of
        Some e \<Rightarrow>
          (False, (k, e\<lparr>response := resp, entry_created_at := now, entry_model := model,
                        token_estimate := tokens\<rparr>) # drop_key k l)
      | None \<Rightarrow>
          (cap \<le> length l \<and> l \<noteq> [],
           (k, \<lparr>response = resp, entry_created_at = now, hit_count = 0,
                token_estimate = tokens, entry_model = model\<rparr>)
             # (if cap \<le> length l then butlast l else l)))"

definition lru_abs :: "nat \<Rightarrow> nat \<Rightarrow> Inner \<Rightarrow> (CacheKey \<times> CacheEntry) list \<Rightarrow> bool" where
  "lru_abs cap t c l \<longleftrightarrow> capacity c = cap \<and> ttl c = t
     \<and> (\<exists>is. links_ok c is \<and> data_ok c (set is) \<and> l = cache_list c is)"

lemma lru_abs_new: "lru_abs cap t (inner_new cap t) []"
  by (auto simp: lru_abs_def inner_new_def links_ok_def data_ok_def cache_list_def intro!: exI [of _ "[]"])

lemma data_ok_inj: "data_ok c S \<Longrightarrow> inj_on (\<lambda>i. fst (item_at (nodes c) i)) S"
  unfolding data_ok_def inj_on_def by (metis option.inject)

lemma data_ok_index:
  "data_ok c S \<Longrightarrow> index c k = Some i \<longleftrightarrow> i \<in> S \<and> fst (item_at (nodes c) i) = k"
  by (simp add: data_ok_def)

lemma cache_list_keys:
  "data_ok c (set is) \<Longrightarrow> dom (index c) = fst ` set (cache_list c is)"
  by (auto simp: dom_def cache_list_def data_ok_index)

lemma cache_list_distinct:
  "data_ok c (set is) \<Longrightarrow> distinct is \<Longrightarrow> distinct (map fst (cache_list c is))"
  using data_ok_inj [of c "set is"] by (simp add: cache_list_def distinct_map comp_inj_on o_def)

lemma inner_len_list:
  "data_ok c (set is) \<Longrightarrow> distinct is \<Longrightarrow> inner_len c = length (cache_list c is)"
  using cache_list_distinct [of c "is"] distinct_card [of "map fst (cache_list c is)"]
  by (simp add: inner_len_def cache_list_keys)

lemma cache_list_split:
  assumes "data_ok c (set (xs @ i # ys))" "distinct (xs @ i # ys)" "item_at (nodes c) i = (k, e)"
  shows "map_of (cache_list c (xs @ i # ys)) k = Some e"
    and "drop_key k (cache_list c (xs @ i # ys)) = cache_list c (xs @ ys)"
proof -
  let ?l = "cache_list c (xs @ i # ys)"
  have d: "distinct (map fst ?l)" by (rule cache_list_distinct [OF assms(1,2)])
  moreover have "(k, e) \<in> set ?l" using assms(3) by (simp add: cache_list_def)
  ultimately show "map_of ?l k = Some e" by simp
  have "k \<notin> fst ` set (cache_list c (xs @ ys))"
    using d assms(3) by (auto simp: cache_list_def)
  then have "drop_key k (cache_list c (xs @ ys)) = cache_list c (xs @ ys)"
    unfolding drop_key_def by (intro filter_True) auto
  then show "drop_key k ?l = cache_list c (xs @ ys)"
    using assms(3) by (simp add: drop_key_def cache_list_def)
qed

lemma map_of_cache_none: "data_ok c (set is) \<Longrightarrow> index c k = None \<Longrightarrow> map_of (cache_list c is) k = None"
  using cache_list_keys [of c "is"] by (metis domIff map_of_eq_None_iff)

text \<open>A key of the index: its slot, its place in the list, and its entry.\<close>

lemma lru_abs_found:
  assumes "lru_abs cap t c l" "index c k = Some i"
  obtains xs ys nd where "links_ok c (xs @ i # ys)" "data_ok c (set (xs @ i # ys))"
    "i < length (nodes c)" "nodes c ! i = Some nd" "node_key nd = k"
    "map_of l k = Some (node_entry nd)" "drop_key k l = cache_list c (xs @ ys)"
    "i \<notin> set (xs @ ys)"
proof -
  obtain "is" where "is": "links_ok c is" "data_ok c (set is)" "l = cache_list c is"
    using assms(1) by (auto simp: lru_abs_def)
  have i: "i \<in> set is" "fst (item_at (nodes c) i) = k"
    using assms(2) data_ok_index [OF "is"(2)] by auto
  obtain xs ys where split_is: "is = xs @ i # ys" using i(1) by (meson split_list)
  obtain nd where nd: "i < length (nodes c)" "nodes c ! i = Some nd"
    using links_ok_slot [OF "is"(1) i(1)] by auto
  have item: "item_at (nodes c) i = (k, node_entry nd)" "node_key nd = k"
    using nd(2) i(2) by (auto simp: item_at_def slot_data_def)
  have d: "distinct (xs @ i # ys)" using "is"(1) split_is by (simp add: links_ok_def)
  show ?thesis
    using that [of xs ys nd] "is" split_is nd item(2) d
      cache_list_split [OF _ d item(1)] by simp
qed

lemma data_ok_mono_same: "same_data c c' \<Longrightarrow> data_ok c S \<Longrightarrow> data_ok c' S"
  by (simp add: data_ok_same)

text \<open>The slot of a key after its detachment, and after moving it to the front.\<close>

lemma same_data_slot:
  assumes "same_data c c'" "i < length (nodes c)" "nodes c ! i = Some nd"
  shows "i < length (nodes c') \<and> (\<exists>nd'. nodes c' ! i = Some nd'
      \<and> node_key nd' = node_key nd \<and> node_entry nd' = node_entry nd)"
proof -
  have "slot_data (nodes c') i = Some (node_key nd, node_entry nd)"
    using assms by (simp add: same_data_def slot_data_def)
  then show ?thesis
    using assms by (auto simp: same_data_def slot_data_def)
qed

lemma lru_absI:
  "links_ok c is \<Longrightarrow> data_ok c (set is) \<Longrightarrow> l = cache_list c is \<Longrightarrow> lru_abs (capacity c) (ttl c) c l"
  by (auto simp: lru_abs_def)

lemma inner_get_refines:
  assumes "lru_abs cap t c l"
  shows "\<exists>c'. inner_get now c k = Some (fst (spec_get t now l k), c')
      \<and> lru_abs cap t c' (snd (spec_get t now l k))"
proof (cases "index c k")
  case None
  have "map_of l k = None"
    using assms map_of_cache_none [OF _ None] by (auto simp: lru_abs_def)
  with assms None show ?thesis by (simp add: inner_get_def spec_get_def)
next
  case (Some i)
  obtain xs ys nd where c: "links_ok c (xs @ i # ys)" "data_ok c (set (xs @ i # ys))"
    "i < length (nodes c)" "nodes c ! i = Some nd" "node_key nd = k"
    "map_of l k = Some (node_entry nd)" "drop_key k l = cache_list c (xs @ ys)"
    "i \<notin> set (xs @ ys)"
    by (rule lru_abs_found [OF assms Some])
  have ct: "capacity c = cap" "ttl c = t" using assms by (auto simp: lru_abs_def)
  obtain c1 where c1: "detach c i = Some c1" "links_ok c1 (xs @ ys)" "same_data c c1"
    using detach_ok [OF c(1)] by auto
  obtain nd1 where nd1: "i < length (nodes c1)" "nodes c1 ! i = Some nd1"
    "node_key nd1 = k" "node_entry nd1 = node_entry nd"
    using same_data_slot [OF c1(3) c(3,4)] c(5) by auto
  have d1: "data_ok c1 (insert i (set (xs @ ys)))"
    using data_ok_mono_same [OF c1(3) c(2)] by simp
  have ct1: "capacity c1 = cap" "ttl c1 = t" using c1(3) ct by (auto simp: same_data_def)
  show ?thesis
  proof (cases "now - entry_created_at (node_entry nd) > t")
    case True
    obtain c2 where "release c1 i = Some (True, c2)" "links_ok c2 (xs @ ys)"
      "data_ok c2 (set (xs @ ys))" "cache_list c2 (xs @ ys) = cache_list c1 (xs @ ys)"
      "capacity c2 = capacity c1" "ttl c2 = ttl c1"
      using release_ok [OF c1(2) d1 c(8) nd1(1,2)] by auto
    then show ?thesis
      using True Some c ct ct1 c1(1) cache_list_same [OF c1(3)]
      by (auto simp: inner_get_def spec_get_def slot_def lru_abs_def)
  next
    case False
    obtain c2 where c2: "push_front c1 i = Some c2" "links_ok c2 (i # xs @ ys)" "same_data c1 c2"
      using push_front_ok [OF c1(2) c(8) nd1(1)] nd1(2) by auto
    obtain nd2 where nd2: "i < length (nodes c2)" "nodes c2 ! i = Some nd2"
      "node_key nd2 = k" "node_entry nd2 = node_entry nd"
      using same_data_slot [OF c2(3) nd1(1,2)] nd1(3,4) by auto
    have d2: "data_ok c2 (set (i # xs @ ys))"
      using data_ok_mono_same [OF c2(3) d1] by simp
    obtain c3 where c3: "modify_node c2 i
        (\<lambda>n. n\<lparr>node_entry := node_entry n\<lparr>hit_count := hit_count (node_entry n) + 1\<rparr>\<rparr>) = Some c3"
      "links_ok c3 (i # xs @ ys)" "data_ok c3 (set (i # xs @ ys))"
      "capacity c3 = capacity c2" "ttl c3 = ttl c2"
      "item_at (nodes c3) = (item_at (nodes c2))
         (i := (k, (node_entry nd)\<lparr>hit_count := hit_count (node_entry nd) + 1\<rparr>))"
      using modify_entry_ok [OF c2(2) d2 nd2(1,2), of "\<lambda>e. e\<lparr>hit_count := hit_count e + 1\<rparr>"] nd2(3,4)
      by auto
    have "cache_list c3 (i # xs @ ys) =
        (k, (node_entry nd)\<lparr>hit_count := hit_count (node_entry nd) + 1\<rparr>) # drop_key k l"
      using c(7,8) item_at_same [OF same_data_trans [OF c1(3) c2(3)]] c3(6)
      by (auto simp: cache_list_def)
    moreover have "capacity c3 = cap" "ttl c3 = t" using c3(4,5) c2(3) ct1 by (auto simp: same_data_def)
    ultimately have "lru_abs cap t c3 (snd (spec_get t now l k))"
      using c(6) False lru_absI [OF c3(2,3)] by (simp add: spec_get_def)
    moreover have "inner_get now c k = Some (fst (spec_get t now l k), c3)"
      using False Some c(3,4,6) ct(2) c1(1) c2(1) nd2 c3(1)
      by (simp add: inner_get_def spec_get_def slot_def)
    ultimately show ?thesis by blast
  qed
qed

lemma evict_lru_refines:
  assumes "lru_abs cap t c l"
  shows "\<exists>c'. evict_lru c = Some (l \<noteq> [], c') \<and> lru_abs cap t c' (butlast l)"
proof -
  obtain "is" where "is": "links_ok c is" "data_ok c (set is)" "l = cache_list c is"
    using assms by (auto simp: lru_abs_def)
  have ct: "capacity c = cap" "ttl c = t" using assms by (auto simp: lru_abs_def)
  show ?thesis
  proof (cases "is" rule: rev_cases)
    case Nil
    then show ?thesis
      using assms "is" by (auto simp: evict_lru_def links_ok_def cache_list_def)
  next
    case (snoc xs i)
    then have tail: "tail c = Some i" using "is"(1) by (simp add: links_ok_def)
    have i: "i \<in> set is" "i \<notin> set xs" using snoc "is"(1) by (auto simp: links_ok_def)
    obtain nd where nd: "i < length (nodes c)" "nodes c ! i = Some nd"
      using links_ok_slot [OF "is"(1) i(1)] by auto
    obtain c1 where c1: "detach c i = Some c1" "links_ok c1 xs" "same_data c c1"
      using detach_ok [of c xs i "[]"] "is"(1) snoc by auto
    obtain nd1 where nd1: "i < length (nodes c1)" "nodes c1 ! i = Some nd1"
      using same_data_slot [OF c1(3) nd] by auto
    have d1: "data_ok c1 (insert i (set xs))"
      using data_ok_mono_same [OF c1(3) "is"(2)] snoc by simp
    obtain c2 where c2: "release c1 i = Some (True, c2)" "links_ok c2 xs" "data_ok c2 (set xs)"
      "cache_list c2 xs = cache_list c1 xs" "capacity c2 = capacity c1" "ttl c2 = ttl c1"
      using release_ok [OF c1(2) d1 i(2) nd1] by auto
    have "l \<noteq> []" "butlast l = cache_list c2 xs"
      using "is"(3) snoc c2(4) cache_list_same [OF c1(3), of xs] by (simp_all add: cache_list_def)
    moreover have "capacity c2 = cap" "ttl c2 = t" using c1(3) ct c2(5,6) by (simp_all add: same_data_def)
    ultimately have "evict_lru c = Some (l \<noteq> [], c2)" "lru_abs cap t c2 (butlast l)"
      using tail c1(1) c2(1) lru_absI [OF c2(2,3)] by (simp_all add: evict_lru_def)
    then show ?thesis by blast
  qed
qed

lemma index_none_iff: "lru_abs cap t c l \<Longrightarrow> index c k = None \<longleftrightarrow> k \<notin> fst ` set l"
  using cache_list_keys [of c] by (metis domIff lru_abs_def)

lemma segment_more: "segment ns p is n \<Longrightarrow> segment (ns @ zs) p is n"
  by (induction "is" arbitrary: p) (auto simp: nth_append)

lemma alloc_index_ok:
  assumes "links_ok c is" "data_ok c (set is)"
  shows "\<exists>i c'. alloc_index c = (i, c') \<and> i < length (nodes c') \<and> i \<notin> set is
      \<and> i \<notin> set (free_list c') \<and> links_ok c' is \<and> data_ok c' (set is)
      \<and> cache_list c' is = cache_list c is \<and> capacity c' = capacity c \<and> ttl c' = ttl c"
proof (cases "free_list c" rule: rev_cases)
  case Nil
  have items: "item_at (nodes c @ [None]) j = item_at (nodes c) j" if "j \<in> set is" for j
    using links_ok_slot [OF assms(1) that] by (simp add: item_at_def slot_data_def nth_append)
  have "data_ok (c\<lparr>nodes := nodes c @ [None]\<rparr>) (set is)"
    using assms(2) items Nil by (auto simp: data_ok_def)
  moreover have "length (nodes c) \<notin> set is"
    using links_ok_slot [OF assms(1)] by blast
  ultimately show ?thesis
    using assms Nil items segment_more
    by (auto simp: alloc_index_def links_ok_def cache_list_def)
next
  case (snoc fs i)
  have "data_ok (c\<lparr>free_list := fs\<rparr>) (set is)"
    using assms(2) snoc by (auto simp: data_ok_def)
  then show ?thesis
    using assms snoc by (auto simp: alloc_index_def links_ok_def cache_list_def data_ok_def)
qed

lemma put_node_refines:
  assumes "lru_abs cap t c l" "k \<notin> fst ` set l"
  shows "\<exists>c'. put_node c k e = Some c' \<and> lru_abs cap t c' ((k, e) # l)"
proof -
  obtain "is" where "is": "links_ok c is" "data_ok c (set is)" "l = cache_list c is"
    using assms by (auto simp: lru_abs_def)
  have ct: "capacity c = cap" "ttl c = t" using assms(1) by (auto simp: lru_abs_def)
  obtain i c1 where c1: "alloc_index c = (i, c1)" "i < length (nodes c1)" "i \<notin> set is"
    "i \<notin> set (free_list c1)" "links_ok c1 is" "data_ok c1 (set is)"
    "cache_list c1 is = cache_list c is" "capacity c1 = cap" "ttl c1 = t"
    using alloc_index_ok [OF "is"(1,2)] ct by auto
  define nd where "nd = \<lparr>node_key = k, node_entry = e, node_prev = None, node_next = None\<rparr>"
  define c2 where "c2 = c1\<lparr>nodes := (nodes c1)[i := Some nd], index := (index c1)(k \<mapsto> i)\<rparr>"
  have items: "item_at (nodes c2) = (item_at (nodes c1))(i := (k, e))"
    using c1(2) by (auto simp: c2_def item_at_def slot_data_def nd_def fun_eq_iff)
  have new: "fst (item_at (nodes c1) j) \<noteq> k" if "j \<in> set is" for j
    using assms(2) "is"(3) c1(7) that by (force simp: cache_list_def)
  have "index c2 k' = Some j \<longleftrightarrow> j \<in> insert i (set is) \<and> fst (item_at (nodes c2) j) = k'" for k' j
    using data_ok_index [OF c1(6), of k' j] new [of j] c1(3) items
    by (cases "k' = k"; cases "j = i") (auto simp: c2_def)
  then have d2: "data_ok c2 (insert i (set is))"
    using c1(4,6) by (auto simp: data_ok_def c2_def)
  have l2: "links_ok c2 is"
    using c1(3,5) by (simp add: links_ok_def c2_def segment_update_other)
  obtain c3 where c3: "push_front c2 i = Some c3" "links_ok c3 (i # is)" "same_data c2 c3"
    using push_front_ok [OF l2 c1(3)] c1(2) by (auto simp: c2_def)
  have "cache_list c3 (i # is) = (k, e) # l"
    using item_at_same [OF c3(3)] items c1(3,7) "is"(3) by (auto simp: cache_list_def)
  moreover have "data_ok c3 (set (i # is))"
    using data_ok_mono_same [OF c3(3) d2] by simp
  ultimately have "lru_abs (capacity c3) (ttl c3) c3 ((k, e) # l)"
    using lru_absI [OF c3(2)] by simp
  moreover have "capacity c3 = cap" "ttl c3 = t"
    using c3(3) c1(8,9) by (simp_all add: same_data_def c2_def)
  ultimately show ?thesis
    using c1(1,2) c3(1) by (simp add: put_node_def c2_def nd_def)
qed

lemma inner_put_refines:
  assumes "lru_abs cap t c l"
  shows "\<exists>c'. inner_put now c k r m tk = Some (fst (spec_put cap now l k r m tk), c')
      \<and> lru_abs cap t c' (snd (spec_put cap now l k r m tk))"
proof (cases "index c k")
  case None
  have k: "k \<notin> fst ` set l" using index_none_iff [OF assms] None by blast
  have len: "inner_len c = length l" and cap: "capacity c = cap"
    using assms inner_len_list by (auto simp: lru_abs_def links_ok_def)
  define l' where "l' = (if cap \<le> length l then butlast l else l)"
  obtain c1 where c1: "(if inner_len c \<ge> capacity c then evict_lru c else Some (False, c))
      = Some (cap \<le> length l \<and> l \<noteq> [], c1)" "lru_abs cap t c1 l'"
    using evict_lru_refines [OF assms] assms len cap by (cases "cap \<le> length l") (auto simp: l'_def)
  have "k \<notin> fst ` set l'" using k by (auto simp: l'_def dest: in_set_butlastD)
  from put_node_refines [OF c1(2) this] obtain c2 where
    "put_node c1 k \<lparr>response = r, entry_created_at = now, hit_count = 0,
       token_estimate = tk, entry_model = m\<rparr> = Some c2"
    "lru_abs cap t c2 ((k, \<lparr>response = r, entry_created_at = now, hit_count = 0,
       token_estimate = tk, entry_model = m\<rparr>) # l')" by blast
  moreover have "map_of l k = None" using k by (simp add: map_of_eq_None_iff)
  ultimately show ?thesis
    using c1(1) None by (simp add: inner_put_def spec_put_def l'_def)
next
  case (Some i)
  let ?f = "\<lambda>e. e\<lparr>response := r, entry_created_at := now, entry_model := m, token_estimate := tk\<rparr>"
  obtain xs ys nd where c: "links_ok c (xs @ i # ys)" "data_ok c (set (xs @ i # ys))"
    "i < length (nodes c)" "nodes c ! i = Some nd" "node_key nd = k"
    "map_of l k = Some (node_entry nd)" "drop_key k l = cache_list c (xs @ ys)"
    "i \<notin> set (xs @ ys)"
    by (rule lru_abs_found [OF assms Some])
  obtain c1 where c1: "detach c i = Some c1" "links_ok c1 (xs @ ys)" "same_data c c1"
    using detach_ok [OF c(1)] by auto
  obtain nd1 where nd1: "i < length (nodes c1)" "nodes c1 ! i = Some nd1"
    "node_key nd1 = k" "node_entry nd1 = node_entry nd"
    using same_data_slot [OF c1(3) c(3,4)] c(5) by auto
  have d1: "data_ok c1 (set (i # xs @ ys))"
    using data_ok_mono_same [OF c1(3) c(2)] by simp
  obtain c2 where c2: "modify_node c1 i (\<lambda>n. n\<lparr>node_entry := ?f (node_entry n)\<rparr>) = Some c2"
    "links_ok c2 (xs @ ys)" "data_ok c2 (set (i # xs @ ys))" "length (nodes c2) = length (nodes c1)"
    "nodes c2 ! i \<noteq> None" "capacity c2 = capacity c1" "ttl c2 = ttl c1"
    "item_at (nodes c2) = (item_at (nodes c1))(i := (k, ?f (node_entry nd)))"
    using modify_entry_ok [OF c1(2) d1 nd1(1,2), of ?f] nd1(3,4) by auto
  obtain c3 where c3: "push_front c2 i = Some c3" "links_ok c3 (i # xs @ ys)" "same_data c2 c3"
    using push_front_ok [OF c2(2) c(8)] nd1(1) c2(4,5) by auto
  have "cache_list c3 (i # xs @ ys) = (k, ?f (node_entry nd)) # drop_key k l"
    using c(7,8) item_at_same [OF c3(3)] item_at_same [OF c1(3)] c2(8) by (auto simp: cache_list_def)
  then have "lru_abs (capacity c3) (ttl c3) c3 (snd (spec_put cap now l k r m tk))"
    using lru_absI [OF c3(2) data_ok_mono_same [OF c3(3) c2(3)]] c(6) by (simp add: spec_put_def)
  moreover have "capacity c3 = cap" "ttl c3 = t"
    using assms c1(3) c2(6,7) c3(3) by (auto simp: same_data_def lru_abs_def)
  ultimately show ?thesis
    using Some c(6) c1(1) c2(1) c3(1) by (simp add: inner_put_def spec_put_def)
qed

lemma spec_get_length: "length (snd (spec_get t now l k)) \<le> length l"
proof (cases "map_of l k")
  case (Some e)
  then have "(k, e) \<in> set l" by (rule map_of_SomeD)
  then have "length (drop_key k l) < length l"
    unfolding drop_key_def by (intro length_filter_less) auto
  with Some show ?thesis by (simp add: spec_get_def)
qed (simp add: spec_get_def)

lemma spec_put_length:
  "length l \<le> max 1 cap \<Longrightarrow> length (snd (spec_put cap now l k r m tk)) \<le> max 1 cap"
proof (cases "map_of l k")
  case (Some e)
  then have "(k, e) \<in> set l" by (rule map_of_SomeD)
  then have "length (drop_key k l) < length l"
    unfolding drop_key_def by (intro length_filter_less) auto
  with Some show "length l \<le> max 1 cap \<Longrightarrow> ?thesis" by (simp add: spec_put_def)
qed (auto simp: spec_put_def max_def split: if_splits)

end
