(* ===== verification/ResponseCache.thy ===== *)
theory ResponseCache
  imports LruCache
begin

text \<open>
  \<open>argentor-agent/src/response_cache.rs\<close>, the cache around the list of theory LruCache: the
  counters, which are 64 bits wide and wrap, and the operations a caller sees. The times of
  the calls are inputs. \<open>CacheStats\<close> has one more field, a percentage in floating point.
\<close>

record ResponseCache =
  inner :: Inner
  total_lookups :: u64
  hits :: u64
  misses :: u64
  evictions :: u64
  tokens_saved :: u64

record CacheStats =
  cs_total_lookups :: u64
  cs_hits :: u64
  cs_misses :: u64
  cs_evictions :: u64
  cs_size :: nat
  cs_capacity :: nat
  cs_tokens_saved :: u64

definition cache_new :: "nat \<Rightarrow> nat \<Rightarrow> ResponseCache" where
  "cache_new cap t =
     \<lparr>inner = inner_new cap t, total_lookups = 0, hits = 0, misses = 0, evictions = 0,
      tokens_saved = 0\<rparr>"

definition cache_get ::
  "nat \<Rightarrow> ResponseCache \<Rightarrow> CacheKey \<Rightarrow> (string option \<times> ResponseCache) option" where
  "cache_get now c key =
     (let c = c\<lparr>total_lookups := total_lookups c + 1\<rparr>
      in do {
        (result, i) \<leftarrow> inner_get now (inner c) key;
        let c = c\<lparr>inner := i\<rparr>;
        Some (case result of
                Hit resp tokens \<Rightarrow>
                  (Some resp, c\<lparr>hits := hits c + 1, tokens_saved := tokens_saved c + tokens\<rparr>)
              | Miss \<Rightarrow> (None, c\<lparr>misses := misses c + 1\<rparr>)
              | Expired \<Rightarrow> (None, c\<lparr>misses := misses c + 1, evictions := evictions c + 1\<rparr>))
      })"

definition cache_put ::
  "nat \<Rightarrow> ResponseCache \<Rightarrow> CacheKey \<Rightarrow> string \<Rightarrow> string \<Rightarrow> u64 \<Rightarrow> ResponseCache option" where
  "cache_put now c key resp model tokens =
     do {
       (evicted, i) \<leftarrow> inner_put now (inner c) key resp model tokens;
       let c = c\<lparr>inner := i\<rparr>;
       Some (if evicted then c\<lparr>evictions := evictions c + 1\<rparr> else c)
     }"

definition cache_stats :: "ResponseCache \<Rightarrow> CacheStats" where
  "cache_stats c =
     \<lparr>cs_total_lookups = total_lookups c, cs_hits = hits c, cs_misses = misses c,
      cs_evictions = evictions c, cs_size = inner_len (inner c),
      cs_capacity = capacity (inner c), cs_tokens_saved = tokens_saved c\<rparr>"

definition cache_clear :: "ResponseCache \<Rightarrow> ResponseCache" where
  "cache_clear c =
     \<lparr>inner = inner_new (capacity (inner c)) (ttl (inner c)), total_lookups = 0, hits = 0,
      misses = 0, evictions = 0, tokens_saved = 0\<rparr>"

definition cache_len :: "ResponseCache \<Rightarrow> nat" where
  "cache_len c = inner_len (inner c)"

definition cache_is_empty :: "ResponseCache \<Rightarrow> bool" where
  "cache_is_empty c \<longleftrightarrow> cache_len c = 0"

section \<open>What a caller sees\<close>

datatype cache_call =
    CallGet nat CacheKey
  | CallPut nat CacheKey string string u64
  | CallClear

definition cache_step ::
  "ResponseCache \<Rightarrow> cache_call \<Rightarrow> (string option \<times> ResponseCache) option" where
  "cache_step c call =
     (case call of
        CallGet now k \<Rightarrow> cache_get now c k
      | CallPut now k r m tk \<Rightarrow> map_option (Pair None) (cache_put now c k r m tk)
      | CallClear \<Rightarrow> Some (None, cache_clear c))"

definition answer :: "LruGetResult \<Rightarrow> string option" where
  "answer r = (case r of Hit resp _ \<Rightarrow> Some resp | Miss \<Rightarrow> None | Expired \<Rightarrow> None)"

definition cache_spec ::
  "nat \<Rightarrow> nat \<Rightarrow> (CacheKey \<times> CacheEntry) list \<Rightarrow> cache_call
     \<Rightarrow> string option \<times> (CacheKey \<times> CacheEntry) list" where
  "cache_spec cap t l call =
     (case call of
        CallGet now k \<Rightarrow> apfst answer (spec_get t now l k)
      | CallPut now k r m tk \<Rightarrow> (None, snd (spec_put cap now l k r m tk))
      | CallClear \<Rightarrow> (None, []))"

definition cache_rel :: "nat \<Rightarrow> nat \<Rightarrow> ResponseCache \<Rightarrow> (CacheKey \<times> CacheEntry) list \<Rightarrow> bool" where
  "cache_rel cap t c l \<longleftrightarrow> lru_abs cap t (inner c) l \<and> length l \<le> max 1 cap
     \<and> hits c + misses c = total_lookups c"

lemma cache_get_refines:
  assumes "cache_rel cap t c l"
  shows "\<exists>c'. cache_get now c k = Some (answer (fst (spec_get t now l k)), c')
      \<and> cache_rel cap t c' (snd (spec_get t now l k))"
proof -
  have c: "lru_abs cap t (inner c) l" "length l \<le> max 1 cap"
    "hits c + misses c = total_lookups c"
    using assms by (simp_all add: cache_rel_def)
  obtain i where "inner_get now (inner c) k = Some (fst (spec_get t now l k), i)"
    "lru_abs cap t i (snd (spec_get t now l k))"
    using inner_get_refines [OF c(1)] by blast
  moreover have "length (snd (spec_get t now l k)) \<le> max 1 cap"
    using spec_get_length [of t now l k] c(2) by linarith
  ultimately show ?thesis
    using c(3) by (cases "fst (spec_get t now l k)")
      (auto simp: cache_get_def cache_rel_def answer_def Let_def algebra_simps)
qed

lemma cache_put_refines:
  assumes "cache_rel cap t c l"
  shows "\<exists>c'. cache_put now c k r m tk = Some c'
      \<and> cache_rel cap t c' (snd (spec_put cap now l k r m tk))"
proof -
  have c: "lru_abs cap t (inner c) l" "length l \<le> max 1 cap"
    using assms by (simp_all add: cache_rel_def)
  obtain i where "inner_put now (inner c) k r m tk = Some (fst (spec_put cap now l k r m tk), i)"
    "lru_abs cap t i (snd (spec_put cap now l k r m tk))"
    using inner_put_refines [OF c(1)] by blast
  then show ?thesis
    using assms spec_put_length [OF c(2), of now k r m tk]
    by (auto simp: cache_put_def cache_rel_def Let_def)
qed

lemma cache_rel_new: "cache_rel cap t (cache_new cap t) []"
  by (simp add: cache_rel_def cache_new_def lru_abs_new)

lemma cache_clear_refines: "cache_rel cap t c l \<Longrightarrow> cache_rel cap t (cache_clear c) []"
  using lru_abs_new by (auto simp: cache_rel_def cache_clear_def lru_abs_def)

interpretation response_cache: simulation cache_step "cache_spec cap t" "cache_rel cap t" "\<lambda>_. True"
  for cap t
proof
  fix c l e
  assume "cache_rel cap t c l"
  then show "\<exists>c'. cache_step c e = Some (fst (cache_spec cap t l e), c')
      \<and> cache_rel cap t c' (snd (cache_spec cap t l e))"
    using cache_get_refines cache_put_refines cache_clear_refines
    by (cases e) (fastforce simp: cache_step_def cache_spec_def)+
qed

lemma cache_rel_len: "cache_rel cap t c l \<Longrightarrow> cache_len c = length l"
  by (auto simp: cache_rel_def cache_len_def lru_abs_def links_ok_def inner_len_list)

section \<open>Properties\<close>

text \<open>C1: Any sequence of gets, puts and clears on a new response cache indexes no slot out of
  range, and answers exactly as a plain list of entries, the most recently used first, does:
  a hit moves its entry to the front, a stale entry is dropped, an insertion at the capacity
  drops the last entry. The intrusive links, the key index and the free list never disagree.\<close>

theorem response_cache_refines_list:
  "\<exists>c. run_impl cache_step (cache_new cap t) calls
      = Some (fst (run_spec (cache_spec cap t) [] calls), c)
    \<and> lru_abs cap t (inner c) (snd (run_spec (cache_spec cap t) [] calls))"
  using response_cache.run_sim [OF cache_rel_new, of calls] by (force simp: cache_rel_def list_all_def)

text \<open>After any sequence of calls the cache holds at most \<open>max 1 capacity\<close> entries, and
  the hits and the misses add up to the lookups (modulo the width of the counters).\<close>

lemma response_cache_bounds:
  "case run_impl cache_step (cache_new cap t) calls of
     None \<Rightarrow> False
   | Some (_, c) \<Rightarrow> cache_len c \<le> max 1 cap
       \<and> cs_hits (cache_stats c) + cs_misses (cache_stats c) = cs_total_lookups (cache_stats c)"
proof -
  obtain c where "run_impl cache_step (cache_new cap t) calls
      = Some (fst (run_spec (cache_spec cap t) [] calls), c)"
    "cache_rel cap t c (snd (run_spec (cache_spec cap t) [] calls))"
    using response_cache.run_sim [OF cache_rel_new, of calls] by (auto simp: list_all_def)
  then show ?thesis
    using cache_rel_len [of cap t c] by (auto simp: cache_rel_def cache_stats_def)
qed

lemma fnv_bytes_append: "fnv_bytes h (s @ t) = fnv_bytes (fnv_bytes h s) t"
  by (simp add: fnv_bytes_def as_bytes_def)

lemma fnv_bytes_nil [simp]: "fnv_bytes h [] = h"
  by (simp add: fnv_bytes_def as_bytes_def)

lemma fnv_messages:
  "foldl (\<lambda>h msg. fnv_bytes (fnv_bytes h (msg_role msg)) (msg_content msg)) h msgs
     = fnv_bytes h (concat (map (\<lambda>x. msg_role x @ msg_content x) msgs))"
  by (induction msgs arbitrary: h) (simp_all add: fnv_bytes_append)

text \<open>A cache key depends only on the concatenation of the model, the roles and the
  contents: requests that split the same text differently share one key, as do a request and
  one with no message whose model is the whole text.\<close>

lemma cache_key_forgets_boundaries:
  "cache_key_compute model msgs
     = cache_key_compute (model @ concat (map (\<lambda>x. msg_role x @ msg_content x) msgs)) []"
  by (simp add: cache_key_compute_def fnv_messages fnv_bytes_append)

text \<open>The answer to a lookup: what the last insertion under the key stored, while it is
  not older than the time to live; a stale entry is not served.\<close>

lemma cache_get_after_put:
  "case run_impl cache_step (cache_new cap t) (calls @ [CallPut t0 k r m tk, CallGet t1 k]) of
     None \<Rightarrow> False
   | Some (outs, _) \<Rightarrow> last outs = (if t1 - t0 > t then None else Some r)"
proof -
  let ?calls = "calls @ [CallPut t0 k r m tk, CallGet t1 k]"
  have "last (fst (run_spec (cache_spec cap t) l ?calls)) = (if t1 - t0 > t then None else Some r)" for l
    by (auto simp: run_spec_append case_prod_beta Let_def cache_spec_def spec_put_def spec_get_def
        answer_def split: option.splits)
  then show ?thesis
    using response_cache.run_sim [OF cache_rel_new, of ?calls cap t] by auto
qed

end
