(* ===== verification/ConversationTree.thy ===== *)
theory ConversationTree
  imports CoreTypes Interfaces "HOL-Library.Monad_Syntax"
begin

text \<open>
  \<open>argentor-session/src/conversation_tree.rs\<close>: a conversation as a tree of messages with named
  branches. Identifiers that \<open>Uuid::new_v4\<close> draws, and the clock, are inputs. Indexing a map
  with a key it has not panics, and a walk along parent links that form a cycle does not end:
  both are \<open>None\<close>. The text of a \<open>Uuid\<close> and the JSON string are parameters; reading and
  writing the tree's file is left out.
\<close>

record 'v ConversationNode =
  node_id :: Uuid
  parent :: "Uuid option"
  message :: "'v Message"
  children :: "Uuid list"
  branch :: string
  node_metadata :: "string \<rightharpoonup> 'v"
  node_created_at :: int

record 'v ConversationTree =
  tree_id :: Uuid
  title :: "string option"
  nodes :: "Uuid \<rightharpoonup> 'v ConversationNode"
  branches :: "string \<rightharpoonup> Uuid"
  active_branch :: string
  root_id :: Uuid
  tree_created_at :: int
  tree_updated_at :: int

record BranchInfo =
  bi_name :: string
  bi_head_id :: Uuid
  bi_message_count :: nat
  bi_is_active :: bool
  bi_fork_point :: "Uuid option"
  bi_created_at :: int

record BranchComparison =
  common_ancestor :: "Uuid option"
  branch_a_unique :: "Uuid list"
  branch_b_unique :: "Uuid list"
  common_messages :: nat
  divergence_point :: "Uuid option"

text \<open>\<open>Session\<close> of \<open>session.rs\<close>.\<close>

record 'v Session =
  sess_id :: Uuid
  messages :: "'v Message list"
  active_skills :: "string list"
  sess_created_at :: int
  sess_updated_at :: int
  sess_metadata :: "string \<rightharpoonup> 'v"

definition session_new :: "Uuid \<Rightarrow> int \<Rightarrow> 'v Session" where
  "session_new new_id now =
     \<lparr>sess_id = new_id, messages = [], active_skills = [], sess_created_at = now,
      sess_updated_at = now, sess_metadata = Map.empty\<rparr>"

definition session_add_message :: "int \<Rightarrow> 'v Session \<Rightarrow> 'v Message \<Rightarrow> 'v Session" where
  "session_add_message now s m = s\<lparr>sess_updated_at := now, messages := messages s @ [m]\<rparr>"

definition message_count :: "'v Session \<Rightarrow> nat" where
  "message_count s = length (messages s)"

section \<open>Changing the tree\<close>

text \<open>The root sentinel, and the tree that holds it only; \<open>msg_id\<close> is the identifier that
  \<open>Message::system\<close> draws.\<close>

definition root_node :: "Uuid \<Rightarrow> Uuid \<Rightarrow> Uuid \<Rightarrow> int \<Rightarrow> int \<Rightarrow> 'v ConversationNode" where
  "root_node rid msg_id tid now created =
     \<lparr>node_id = rid, parent = None, message = message_system msg_id now ''conversation root'' tid,
      children = [], branch = ''main'', node_metadata = Map.empty, node_created_at = created\<rparr>"

definition tree_new :: "Uuid \<Rightarrow> Uuid \<Rightarrow> Uuid \<Rightarrow> int \<Rightarrow> 'v ConversationTree" where
  "tree_new tid rid msg_id now =
     \<lparr>tree_id = tid, title = None, nodes = [rid \<mapsto> root_node rid msg_id tid now now],
      branches = [''main'' \<mapsto> rid], active_branch = ''main'', root_id = rid,
      tree_created_at = now, tree_updated_at = now\<rparr>"

definition add_message ::
  "Uuid \<Rightarrow> int \<Rightarrow> 'v ConversationTree \<Rightarrow> 'v Message \<Rightarrow> (Uuid \<times> 'v ConversationTree) option" where
  "add_message new_id now t msg =
     do {
       head_id \<leftarrow> branches t (active_branch t);
       let node = \<lparr>node_id = new_id, parent = Some head_id, message = msg, children = [],
                   branch = active_branch t, node_metadata = Map.empty, node_created_at = now\<rparr>;
       let t = t\<lparr>nodes := (nodes t)(new_id \<mapsto> node)\<rparr>;
       let t = (case nodes t head_id of
                  Some p \<Rightarrow> t\<lparr>nodes := (nodes t)(head_id \<mapsto> p\<lparr>children := children p @ [new_id]\<rparr>)\<rparr>
                | None \<Rightarrow> t);
       let t = t\<lparr>branches := (branches t)(active_branch t \<mapsto> new_id), tree_updated_at := now\<rparr>;
       Some (new_id, t)
     }"

definition fork ::
  "(Uuid \<Rightarrow> string) \<Rightarrow> int \<Rightarrow> 'v ConversationTree \<Rightarrow> Uuid \<Rightarrow> string
     \<Rightarrow> ArgentorError + 'v ConversationTree" where
  "fork show_uuid now t from_node name =
     (if branches t name \<noteq> None
      then Inl (Session (''branch '' @ [CHR 0x27] @ name @ [CHR 0x27] @ '' already exists''))
      else if nodes t from_node = None
      then Inl (Session (''node '' @ show_uuid from_node @ '' not found''))
      else Inr (t\<lparr>branches := (branches t)(name \<mapsto> from_node), active_branch := name,
                  tree_updated_at := now\<rparr>))"

definition fork_here ::
  "(Uuid \<Rightarrow> string) \<Rightarrow> int \<Rightarrow> 'v ConversationTree \<Rightarrow> string
     \<Rightarrow> (ArgentorError + 'v ConversationTree) option" where
  "fork_here show_uuid now t name =
     do { head_id \<leftarrow> branches t (active_branch t); Some (fork show_uuid now t head_id name) }"

definition no_branch :: "string \<Rightarrow> ArgentorError" where
  "no_branch name = Session (''branch '' @ [CHR 0x27] @ name @ [CHR 0x27] @ '' does not exist'')"

definition checkout ::
  "int \<Rightarrow> 'v ConversationTree \<Rightarrow> string \<Rightarrow> ArgentorError + 'v ConversationTree" where
  "checkout now t name =
     (if branches t name = None then Inl (no_branch name)
      else Inr (t\<lparr>active_branch := name, tree_updated_at := now\<rparr>))"

definition merge_branch ::
  "(Uuid \<Rightarrow> string) \<Rightarrow> (string \<Rightarrow> 'v) \<Rightarrow> Uuid \<Rightarrow> Uuid \<Rightarrow> int \<Rightarrow> 'v ConversationTree
     \<Rightarrow> string \<Rightarrow> string \<Rightarrow> (ArgentorError + Uuid \<times> 'v ConversationTree) option" where
  "merge_branch show_uuid json_string new_id msg_id now t source summary =
     (if branches t source = None then Some (Inl (no_branch source))
      else if source = active_branch t
      then Some (Inl (Session ''cannot merge a branch into itself''))
      else do {
        let merge_content =
              ''[merge from '' @ [CHR 0x27] @ source @ [CHR 0x27] @ ''] '' @ summary;
        (node_id, t) \<leftarrow> add_message new_id now t (message_system msg_id now merge_content (tree_id t));
        t \<leftarrow> (case nodes t node_id of
                Some node \<Rightarrow>
                  do {
                    source_head \<leftarrow> branches t source;
                    Some (t\<lparr>nodes := (nodes t)(node_id \<mapsto> node\<lparr>node_metadata := (node_metadata node)
                              (''merge_source'' \<mapsto> json_string source,
                               ''merge_source_head'' \<mapsto> json_string (show_uuid source_head))\<rparr>)\<rparr>)
                  }
              | None \<Rightarrow> Some t);
        Some (Inr (node_id, t))
      })"

definition delete_branch ::
  "int \<Rightarrow> 'v ConversationTree \<Rightarrow> string \<Rightarrow> ArgentorError + 'v ConversationTree" where
  "delete_branch now t name =
     (if name = ''main''
      then Inl (Session (''cannot delete the '' @ [CHR 0x27] @ ''main'' @ [CHR 0x27] @ '' branch''))
      else if name = active_branch t
      then Inl (Session ''cannot delete the active branch; checkout another branch first'')
      else if branches t name = None then Inl (no_branch name)
      else Inr (t\<lparr>branches := (branches t)(name := None), tree_updated_at := now\<rparr>))"

section \<open>Reading the tree\<close>

text \<open>The loop of \<open>path_to_root\<close>, with the path so far; \<open>None\<close> is a walk that does not end.\<close>

partial_function (option) path_loop ::
  "(Uuid \<rightharpoonup> 'v ConversationNode) \<Rightarrow> Uuid list \<Rightarrow> Uuid option \<Rightarrow> Uuid list option" where
  "path_loop ns path current =
     (case current of
        None \<Rightarrow> Some path
      | Some i \<Rightarrow> path_loop ns (path @ [i]) (Option.bind (ns i) parent))"

definition path_to_root :: "'v ConversationTree \<Rightarrow> Uuid \<Rightarrow> Uuid list option" where
  "path_to_root t i = path_loop (nodes t) [] (Some i)"

definition history_for_head :: "'v ConversationTree \<Rightarrow> Uuid \<Rightarrow> 'v Message list option" where
  "history_for_head t head_id =
     do {
       path \<leftarrow> path_to_root t head_id;
       Some (List.map_filter (\<lambda>i. map_option message (nodes t i))
               (filter (\<lambda>i. i \<noteq> root_id t) (rev path)))
     }"

definition active_history :: "'v ConversationTree \<Rightarrow> 'v Message list option" where
  "active_history t = do { h \<leftarrow> branches t (active_branch t); history_for_head t h }"

text \<open>The outer option of \<open>branch_history\<close> is the walk, the inner one the code's result.\<close>

definition branch_history :: "'v ConversationTree \<Rightarrow> string \<Rightarrow> 'v Message list option option" where
  "branch_history t name =
     (case branches t name of
        None \<Rightarrow> Some None
      | Some h \<Rightarrow> map_option Some (history_for_head t h))"

text \<open>What \<open>branches()\<close> reports of one branch. Its \<open>find\<close> indexes the node of every
  identifier up to the one it finds: \<open>fork_scan\<close>.\<close>

fun fork_scan ::
  "'v ConversationTree \<Rightarrow> string \<Rightarrow> Uuid list \<Rightarrow> Uuid option option" where
  "fork_scan t name [] = Some None"
| "fork_scan t name (i # is) =
     do {
       node \<leftarrow> nodes t i;
       if branch node \<noteq> name \<and> i \<noteq> root_id t then Some (Some i) else fork_scan t name is
     }"

definition branch_info :: "'v ConversationTree \<Rightarrow> string \<Rightarrow> Uuid \<Rightarrow> BranchInfo option" where
  "branch_info t name head_id =
     do {
       history \<leftarrow> path_to_root t head_id;
       fork_point \<leftarrow> fork_scan t name (rev history);
       head_node \<leftarrow> nodes t head_id;
       let count = length (filter (\<lambda>i. i \<noteq> root_id t) history);
       Some \<lparr>bi_name = name, bi_head_id = head_id, bi_message_count = count,
             bi_is_active = (name = active_branch t), bi_fork_point = fork_point,
             bi_created_at = node_created_at head_node\<rparr>
     }"

text \<open>\<open>branches()\<close> by name, since a \<open>HashMap\<close> has no order.\<close>

definition branch_infos :: "'v ConversationTree \<Rightarrow> string \<rightharpoonup> BranchInfo option" where
  "branch_infos t = (\<lambda>name. map_option (branch_info t name) (branches t name))"

definition empty_comparison :: BranchComparison where
  "empty_comparison =
     \<lparr>common_ancestor = None, branch_a_unique = [], branch_b_unique = [], common_messages = 0,
      divergence_point = None\<rparr>"

definition compare_branches ::
  "'v ConversationTree \<Rightarrow> string \<Rightarrow> string \<Rightarrow> BranchComparison option" where
  "compare_branches t branch_a branch_b =
     (case (branches t branch_a, branches t branch_b) of
        (Some head_a, Some head_b) \<Rightarrow>
          do {
            path_a \<leftarrow> path_to_root t head_a;
            path_b \<leftarrow> path_to_root t head_b;
            let ancestor = List.find (\<lambda>i. i \<in> set path_b) path_a;
            common_set \<leftarrow> (case ancestor of
                             Some ca \<Rightarrow> map_option set (path_to_root t ca)
                           | None \<Rightarrow> Some {});
            Some \<lparr>common_ancestor = ancestor,
                  branch_a_unique = filter (\<lambda>i. i \<notin> common_set) path_a,
                  branch_b_unique = filter (\<lambda>i. i \<notin> common_set) path_b,
                  common_messages = card {i \<in> common_set. i \<noteq> root_id t},
                  divergence_point = ancestor\<rparr>
          }
      | _ \<Rightarrow> Some empty_comparison)"

definition tree_common_ancestor ::
  "'v ConversationTree \<Rightarrow> string \<Rightarrow> string \<Rightarrow> Uuid option option" where
  "tree_common_ancestor t branch_a branch_b =
     (case (branches t branch_a, branches t branch_b) of
        (Some head_a, Some head_b) \<Rightarrow>
          do {
            path_b \<leftarrow> path_to_root t head_b;
            path_a \<leftarrow> path_to_root t head_a;
            Some (List.find (\<lambda>i. i \<in> set path_b) path_a)
          }
      | _ \<Rightarrow> Some None)"

definition total_messages :: "'v ConversationTree \<Rightarrow> nat" where
  "total_messages t = card (dom (nodes t)) - 1"

definition get_node :: "'v ConversationTree \<Rightarrow> Uuid \<Rightarrow> 'v ConversationNode option" where
  "get_node t i = nodes t i"

section \<open>Conversion\<close>

definition to_session :: "int \<Rightarrow> 'v ConversationTree \<Rightarrow> 'v Session option" where
  "to_session now t =
     do {
       msgs \<leftarrow> active_history t;
       Some \<lparr>sess_id = tree_id t, messages = msgs, active_skills = [],
             sess_created_at = tree_created_at t, sess_updated_at = now,
             sess_metadata = Map.empty\<rparr>
     }"

text \<open>The loop that re-inserts the messages, with the identifiers and times of its calls.\<close>

fun insert_messages ::
  "'v ConversationTree \<Rightarrow> (Uuid \<times> int \<times> 'v Message) list \<Rightarrow> 'v ConversationTree option" where
  "insert_messages t [] = Some t"
| "insert_messages t ((i, now, msg) # rest) =
     do { (_, t) \<leftarrow> add_message i now t msg; insert_messages t rest }"

definition from_session ::
  "Uuid \<Rightarrow> Uuid \<Rightarrow> int \<Rightarrow> (Uuid \<times> int) list \<Rightarrow> 'v Session \<Rightarrow> 'v ConversationTree option" where
  "from_session rid msg_id now draws s =
     (let t = \<lparr>tree_id = sess_id s, title = None,
               nodes = [rid \<mapsto> root_node rid msg_id (sess_id s) now (sess_created_at s)],
               branches = [''main'' \<mapsto> rid], active_branch = ''main'', root_id = rid,
               tree_created_at = sess_created_at s, tree_updated_at = sess_updated_at s\<rparr>
      in insert_messages t (map (\<lambda>((i, at), msg). (i, at, msg)) (zip draws (messages s))))"

section \<open>Chains of parents\<close>

text \<open>The walk to the root as a relation; it is a path of nodes of the tree.\<close>

inductive chain :: "(Uuid \<rightharpoonup> 'v ConversationNode) \<Rightarrow> Uuid \<Rightarrow> Uuid list \<Rightarrow> bool"
  for ns :: "Uuid \<rightharpoonup> 'v ConversationNode" where
  chain_root: "ns i = Some n \<Longrightarrow> parent n = None \<Longrightarrow> chain ns i [i]"
| chain_step: "ns i = Some n \<Longrightarrow> parent n = Some p \<Longrightarrow> chain ns p r \<Longrightarrow> chain ns i (i # r)"

inductive_cases chainE: "chain ns i r"

inductive_simps chain_Cons: "chain ns i (j # r)"

lemma chain_det: "chain ns i r \<Longrightarrow> chain ns i r' \<Longrightarrow> r' = r"
proof (induction arbitrary: r' rule: chain.induct)
  case (chain_root i n)
  from chain_root(3) show ?case using chain_root(1,2) by (cases rule: chain.cases) auto
next
  case (chain_step i n p r)
  from chain_step(5) show ?case using chain_step(1,2,4) by (cases rule: chain.cases) auto
qed

lemma path_loop_simps [simp]:
  "path_loop ns path None = Some path"
  "path_loop ns path (Some i) = path_loop ns (path @ [i]) (Option.bind (ns i) parent)"
  by (subst path_loop.simps, simp)+

lemma chain_path_loop: "chain ns i r \<Longrightarrow> path_loop ns acc (Some i) = Some (acc @ r)"
proof (induction arbitrary: acc rule: chain.induct)
  case (chain_root i n)
  then show ?case by simp
next
  case (chain_step i n p r)
  show ?case using chain_step(1,2) chain_step(4) [of "acc @ [i]"] by simp
qed

lemma chain_start: "chain ns i r \<Longrightarrow> \<exists>r'. r = i # r'"
  by (auto elim: chainE)

lemma chain_dom: "chain ns i r \<Longrightarrow> set r \<subseteq> dom ns"
  by (induction rule: chain.induct) auto

lemma chain_suffix: "chain ns i r \<Longrightarrow> j \<in> set r \<Longrightarrow> \<exists>xs ys. r = xs @ ys \<and> chain ns j ys"
proof (induction rule: chain.induct)
  case (chain_root i n)
  then show ?case using chain.chain_root by fastforce
next
  case (chain_step i n p r)
  show ?case
  proof (cases "j = i")
    case True
    then show ?thesis using chain.chain_step [OF chain_step(1-3)] by (intro exI [of _ "[]"] exI [of _ "i # r"]) simp
  next
    case False
    then obtain xs ys where "r = xs @ ys" "chain ns j ys" using chain_step by auto
    then show ?thesis by (intro exI [of _ "i # xs"] exI [of _ ys]) simp
  qed
qed

lemma chain_distinct: "chain ns i r \<Longrightarrow> distinct r"
proof (induction rule: chain.induct)
  case (chain_root i n)
  show ?case by simp
next
  case (chain_step i n p r)
  have "i \<notin> set r"
  proof
    assume "i \<in> set r"
    then obtain xs ys where "r = xs @ ys" "chain ns i ys"
      using chain_suffix [OF chain_step(3)] by blast
    moreover have "chain ns i (i # r)" using chain_step(1-3) by (rule chain.chain_step)
    ultimately have "ys = i # xs @ ys" using chain_det by metis
    then have "length ys = length (i # xs @ ys)" by (rule arg_cong)
    then show False by simp
  qed
  with chain_step(4) show ?case by simp
qed

lemma chain_same_parents:
  "chain ns i r \<Longrightarrow> \<forall>j\<in>set r. map_option parent (ns' j) = map_option parent (ns j) \<Longrightarrow> chain ns' i r"
proof (induction rule: chain.induct)
  case (chain_root i n)
  then show ?case by (auto intro: chain.chain_root)
next
  case (chain_step i n p r)
  then show ?case by (auto intro: chain.chain_step)
qed

section \<open>The invariant\<close>

definition tree_ok :: "'v ConversationTree \<Rightarrow> bool" where
  "tree_ok t \<longleftrightarrow>
     (\<forall>i\<in>dom (nodes t). \<exists>r. chain (nodes t) i r \<and> last r = root_id t)
     \<and> ran (branches t) \<subseteq> dom (nodes t) \<and> active_branch t \<in> dom (branches t)
     \<and> ''main'' \<in> dom (branches t) \<and> finite (dom (nodes t))"

lemma tree_ok_path:
  assumes "tree_ok t" "i \<in> dom (nodes t)"
  obtains r where "path_to_root t i = Some r" "chain (nodes t) i r" "last r = root_id t"
proof -
  obtain r where r: "chain (nodes t) i r" "last r = root_id t"
    using assms by (auto simp: tree_ok_def)
  then have "path_to_root t i = Some r"
    using chain_path_loop [OF r(1), of "[]"] by (simp add: path_to_root_def)
  with r that show ?thesis by blast
qed

lemma tree_ok_head: "tree_ok t \<Longrightarrow> branches t b = Some h \<Longrightarrow> h \<in> dom (nodes t)"
  by (auto simp: tree_ok_def ran_def)

lemma tree_ok_active: "tree_ok t \<Longrightarrow> branches t (active_branch t) \<noteq> None"
  and tree_ok_main: "tree_ok t \<Longrightarrow> branches t ''main'' \<noteq> None"
  by (auto simp: tree_ok_def)

lemma tree_ok_same_nodes:
  assumes "tree_ok t" "nodes t' = nodes t" "root_id t' = root_id t"
    and "\<And>b h. branches t' b = Some h \<Longrightarrow> h \<in> dom (nodes t)"
    and "branches t' (active_branch t') \<noteq> None" "branches t' ''main'' \<noteq> None"
  shows "tree_ok t'"
  using assms(1-3,5,6) assms(4) by (simp add: tree_ok_def domIff) (auto simp: ran_def)

lemma tree_ok_new: "tree_ok (tree_new tid rid mid now)"
proof -
  have "chain [rid \<mapsto> root_node rid mid tid now now] rid [rid]"
    by (rule chain_root) (auto simp: root_node_def)
  then show ?thesis by (auto simp: tree_ok_def tree_new_def)
qed

text \<open>What adding a message does, for a new identifier in a sound tree.\<close>

lemma add_message_effect:
  assumes "tree_ok t" "new_id \<notin> dom (nodes t)"
  shows "\<exists>head p t'. branches t (active_branch t) = Some head \<and> nodes t head = Some p
    \<and> add_message new_id now t msg = Some (new_id, t')
    \<and> nodes t' = (nodes t)(new_id \<mapsto> \<lparr>node_id = new_id, parent = Some head, message = msg,
         children = [], branch = active_branch t, node_metadata = Map.empty, node_created_at = now\<rparr>,
         head \<mapsto> p\<lparr>children := children p @ [new_id]\<rparr>)
    \<and> branches t' = (branches t)(active_branch t \<mapsto> new_id)
    \<and> active_branch t' = active_branch t \<and> root_id t' = root_id t \<and> tree_id t' = tree_id t
    \<and> tree_created_at t' = tree_created_at t"
proof -
  obtain head where head: "branches t (active_branch t) = Some head"
    using assms(1) by (auto simp: tree_ok_def)
  obtain p where p: "nodes t head = Some p"
    using tree_ok_head [OF assms(1) head] by auto
  have "head \<noteq> new_id" using assms(2) p by auto
  then show ?thesis using head p by (simp add: add_message_def Let_def)
qed

lemma add_message_chain:
  assumes "tree_ok t" "new_id \<notin> dom (nodes t)" "add_message new_id now t msg = Some (i, t')"
  shows "chain (nodes t) j r \<Longrightarrow> chain (nodes t') j r"
    and "branches t (active_branch t) = Some head \<Longrightarrow> chain (nodes t) head r
      \<Longrightarrow> chain (nodes t') new_id (new_id # r)"
proof -
  obtain hd p t1 where eff: "branches t (active_branch t) = Some hd" "nodes t hd = Some p"
    "add_message new_id now t msg = Some (new_id, t1)"
    "nodes t1 = (nodes t)(new_id \<mapsto> \<lparr>node_id = new_id, parent = Some hd, message = msg,
         children = [], branch = active_branch t, node_metadata = Map.empty, node_created_at = now\<rparr>,
         hd \<mapsto> p\<lparr>children := children p @ [new_id]\<rparr>)"
    using add_message_effect [OF assms(1,2)] by blast
  have t1: "t1 = t'" using eff(3) assms(3) by simp
  have "hd \<noteq> new_id" using assms(2) eff(2) by auto
  have keep: "chain (nodes t') j r" if "chain (nodes t) j r" for j r
  proof (rule chain_same_parents [OF that], rule ballI)
    fix k
    assume "k \<in> set r"
    then have "k \<noteq> new_id" using chain_dom [OF that] assms(2) by blast
    then show "map_option parent (nodes t' k) = map_option parent (nodes t k)"
      using eff(2,4) t1 by auto
  qed
  then show "chain (nodes t) j r \<Longrightarrow> chain (nodes t') j r" .
  assume "branches t (active_branch t) = Some head" "chain (nodes t) head r"
  then show "chain (nodes t') new_id (new_id # r)"
    using keep eff(1,4) t1 \<open>hd \<noteq> new_id\<close> by (auto intro!: chain_step)
qed

lemma tree_ok_add_message:
  assumes "tree_ok t" "new_id \<notin> dom (nodes t)" "add_message new_id now t msg = Some (i, t')"
  shows "tree_ok t'"
proof -
  obtain hd p where eff: "branches t (active_branch t) = Some hd" "nodes t hd = Some p"
    "nodes t' = (nodes t)(new_id \<mapsto> \<lparr>node_id = new_id, parent = Some hd, message = msg,
         children = [], branch = active_branch t, node_metadata = Map.empty, node_created_at = now\<rparr>,
         hd \<mapsto> p\<lparr>children := children p @ [new_id]\<rparr>)"
    "branches t' = (branches t)(active_branch t \<mapsto> new_id)"
    "active_branch t' = active_branch t" "root_id t' = root_id t"
    using add_message_effect [OF assms(1,2), of now msg] assms(3) by auto
  have dom: "dom (nodes t') = insert new_id (dom (nodes t))" using eff(2,3) by auto
  have "\<exists>r. chain (nodes t') i r \<and> last r = root_id t'" if "i \<in> dom (nodes t')" for i
  proof (cases "i = new_id")
    case True
    obtain r where r: "chain (nodes t) hd r" "last r = root_id t"
      using assms(1) eff(2) by (auto simp: tree_ok_def)
    then show ?thesis
      using True add_message_chain(2) [OF assms eff(1) r(1)] chain_start [OF r(1)] eff(6) by fastforce
  next
    case False
    then have "i \<in> dom (nodes t)" using that dom by simp
    then obtain r where "chain (nodes t) i r" "last r = root_id t"
      by (rule tree_ok_path [OF assms(1)])
    then show ?thesis using add_message_chain(1) [OF assms] eff(6) by auto
  qed
  moreover have "ran (branches t') \<subseteq> dom (nodes t')"
    using assms(1) dom eff(4) by (auto simp: tree_ok_def ran_def)
  ultimately show ?thesis
    using assms(1) dom eff by (simp add: tree_ok_def)
qed

section \<open>Reachable trees\<close>

text \<open>One call that changes the tree and succeeds; \<open>Uuid::new_v4\<close> draws an identifier that no
  node has.\<close>

inductive tree_step ::
  "(Uuid \<Rightarrow> string) \<Rightarrow> (string \<Rightarrow> 'v) \<Rightarrow> 'v ConversationTree \<Rightarrow> 'v ConversationTree \<Rightarrow> bool"
  for show_uuid json_string where
  step_add: "nodes t new_id = None \<Longrightarrow> add_message new_id now t msg = Some (i, t')
    \<Longrightarrow> tree_step show_uuid json_string t t'"
| step_fork: "fork show_uuid now t from_node name = Inr t' \<Longrightarrow> tree_step show_uuid json_string t t'"
| step_checkout: "checkout now t name = Inr t' \<Longrightarrow> tree_step show_uuid json_string t t'"
| step_merge: "nodes t new_id = None
    \<Longrightarrow> merge_branch show_uuid json_string new_id msg_id now t source summary = Some (Inr (i, t'))
    \<Longrightarrow> tree_step show_uuid json_string t t'"
| step_delete: "delete_branch now t name = Inr t' \<Longrightarrow> tree_step show_uuid json_string t t'"

inductive tree_reachable ::
  "(Uuid \<Rightarrow> string) \<Rightarrow> (string \<Rightarrow> 'v) \<Rightarrow> 'v ConversationTree \<Rightarrow> bool"
  for show_uuid json_string where
  reach_new: "tree_reachable show_uuid json_string (tree_new tid rid msg_id now)"
| reach_step: "tree_reachable show_uuid json_string t \<Longrightarrow> tree_step show_uuid json_string t t'
    \<Longrightarrow> tree_reachable show_uuid json_string t'"

lemma tree_ok_merge:
  assumes "tree_ok t" "new_id \<notin> dom (nodes t)"
    and "merge_branch su js new_id msg_id now t source summary = Some (Inr (i, t'))"
  shows "tree_ok t'"
proof -
  let ?msg = "message_system msg_id now
    (''[merge from '' @ [CHR 0x27] @ source @ [CHR 0x27] @ ''] '' @ summary) (tree_id t)"
  obtain h where h: "branches t source = Some h" "source \<noteq> active_branch t"
    using assms(3) by (cases "branches t source") (simp_all add: merge_branch_def split: if_splits)
  obtain head p t1 where eff: "nodes t head = Some p" "add_message new_id now t ?msg = Some (new_id, t1)"
    "nodes t1 = (nodes t)(new_id \<mapsto> \<lparr>node_id = new_id, parent = Some head, message = ?msg,
         children = [], branch = active_branch t, node_metadata = Map.empty, node_created_at = now\<rparr>,
         head \<mapsto> p\<lparr>children := children p @ [new_id]\<rparr>)"
    "branches t1 = (branches t)(active_branch t \<mapsto> new_id)"
    using add_message_effect [OF assms(1,2), of now ?msg] by blast
  have ok: "tree_ok t1" by (rule tree_ok_add_message [OF assms(1,2) eff(2)])
  have "head \<noteq> new_id" using assms(2) eff(1) by auto
  then obtain n where n: "nodes t1 new_id = Some n" using eff(3) by simp
  have t': "t' = t1\<lparr>nodes := (nodes t1)(new_id \<mapsto> n\<lparr>node_metadata := (node_metadata n)
        (''merge_source'' \<mapsto> js source, ''merge_source_head'' \<mapsto> js (su h))\<rparr>)\<rparr>"
    using assms(3) h eff(2,4) n by (auto simp: merge_branch_def)
  have same: "map_option parent (nodes t' j) = map_option parent (nodes t1 j)" for j
    using t' n by simp
  have dom: "dom (nodes t') = dom (nodes t1)" using t' n by auto
  have "\<exists>r. chain (nodes t') j r \<and> last r = root_id t'" if "j \<in> dom (nodes t')" for j
  proof -
    have "j \<in> dom (nodes t1)" using that dom by simp
    then obtain r where "chain (nodes t1) j r" "last r = root_id t1"
      by (rule tree_ok_path [OF ok])
    then show ?thesis
      using chain_same_parents [of "nodes t1" j r "nodes t'"] same t' by auto
  qed
  then show ?thesis using ok dom t' by (simp add: tree_ok_def)
qed

lemma tree_ok_step: "tree_step su js t t' \<Longrightarrow> tree_ok t \<Longrightarrow> tree_ok t'"
proof (induction rule: tree_step.induct)
  case (step_add t new_id now msg i t')
  then show ?case using tree_ok_add_message [of t new_id now msg i t'] by (simp add: domIff)
next
  case (step_fork now t from_node name t')
  then have "t' = t\<lparr>branches := (branches t)(name \<mapsto> from_node), active_branch := name,
      tree_updated_at := now\<rparr>" "nodes t from_node \<noteq> None"
    by (auto simp: fork_def split: if_splits)
  with step_fork(2) show ?case
    using tree_ok_head [OF step_fork(2)] tree_ok_main [OF step_fork(2)]
    by (intro tree_ok_same_nodes [OF step_fork(2)]) (simp_all split: if_splits, blast)
next
  case (step_checkout now t name t')
  then have "t' = t\<lparr>active_branch := name, tree_updated_at := now\<rparr>" "branches t name \<noteq> None"
    by (auto simp: checkout_def split: if_splits)
  then show ?case
    using tree_ok_head [OF step_checkout(2)] tree_ok_main [OF step_checkout(2)]
    by (intro tree_ok_same_nodes [OF step_checkout(2)]) simp_all
next
  case (step_merge t new_id msg_id now source summary i t')
  then show ?case using tree_ok_merge [of t new_id] by (simp add: domIff)
next
  case (step_delete now t name t')
  then have "t' = t\<lparr>branches := (branches t)(name := None), tree_updated_at := now\<rparr>"
    "name \<noteq> ''main''" "name \<noteq> active_branch t"
    by (auto simp: delete_branch_def split: if_splits)
  then show ?case
    using tree_ok_head [OF step_delete(2)] tree_ok_main [OF step_delete(2)]
      tree_ok_active [OF step_delete(2)]
    by (intro tree_ok_same_nodes [OF step_delete(2)]) (simp_all split: if_splits)
qed

lemma tree_reachable_ok: "tree_reachable su js t \<Longrightarrow> tree_ok t"
  by (induction rule: tree_reachable.induct) (auto intro: tree_ok_new tree_ok_step)

section \<open>Histories\<close>

definition msgs_of :: "'v ConversationTree \<Rightarrow> Uuid list \<Rightarrow> 'v Message list" where
  "msgs_of t r = List.map_filter (\<lambda>i. map_option message (nodes t i))
     (filter (\<lambda>i. i \<noteq> root_id t) (rev r))"

lemma history_msgs: "path_to_root t h = Some r \<Longrightarrow> history_for_head t h = Some (msgs_of t r)"
  by (simp add: history_for_head_def msgs_of_def)

lemma msgs_of_Cons:
  "msgs_of t (i # r) = msgs_of t r
     @ (if i = root_id t then [] else case nodes t i of None \<Rightarrow> [] | Some n \<Rightarrow> [message n])"
  by (auto simp: msgs_of_def List.map_filter_def split: option.splits)

lemma msgs_of_cong:
  "\<forall>i\<in>set r. map_option message (nodes t' i) = map_option message (nodes t i)
     \<Longrightarrow> root_id t' = root_id t \<Longrightarrow> msgs_of t' r = msgs_of t r"
proof (induction r)
  case Nil
  show ?case by (simp add: msgs_of_def)
next
  case (Cons i r)
  then show ?case by (cases "nodes t i"; cases "nodes t' i") (auto simp: msgs_of_Cons)
qed

lemma msgs_of_length:
  "set r \<subseteq> dom (nodes t) \<Longrightarrow> length (msgs_of t r) = length (filter (\<lambda>i. i \<noteq> root_id t) r)"
  by (induction r) (auto simp: msgs_of_def List.map_filter_def)

lemma tree_ok_root: "tree_ok t \<Longrightarrow> root_id t \<in> dom (nodes t)"
proof -
  assume ok: "tree_ok t"
  obtain h where "branches t (active_branch t) = Some h" using tree_ok_active [OF ok] by auto
  then have "h \<in> dom (nodes t)" by (rule tree_ok_head [OF ok])
  then obtain r where r: "chain (nodes t) h r" "last r = root_id t"
    by (rule tree_ok_path [OF ok])
  have "last r \<in> set r" using chain_start [OF r(1)] by auto
  then show ?thesis using chain_dom [OF r(1)] r(2) by auto
qed

lemma branch_path:
  assumes "tree_ok t" "branches t b = Some h"
  obtains r where "path_to_root t h = Some r" "chain (nodes t) h r" "last r = root_id t"
  using tree_ok_path [OF assms(1) tree_ok_head [OF assms]] by blast

text \<open>A new message extends the active history and leaves every other node's walk alone.\<close>

lemma add_message_histories:
  assumes ok: "tree_ok t" and new: "new_id \<notin> dom (nodes t)"
    and head: "branches t (active_branch t) = Some head"
    and path: "path_to_root t head = Some r"
  shows "\<exists>t'. add_message new_id now t msg = Some (new_id, t') \<and> tree_ok t'
    \<and> branches t' = (branches t)(active_branch t \<mapsto> new_id) \<and> active_branch t' = active_branch t
    \<and> tree_id t' = tree_id t \<and> tree_created_at t' = tree_created_at t
    \<and> dom (nodes t') = insert new_id (dom (nodes t))
    \<and> history_for_head t' new_id = Some (msgs_of t r @ [msg])
    \<and> (\<forall>i\<in>dom (nodes t). history_for_head t' i = history_for_head t i)"
proof -
  obtain p t' where eff: "nodes t head = Some p"
    "add_message new_id now t msg = Some (new_id, t')"
    "nodes t' = (nodes t)(new_id \<mapsto> \<lparr>node_id = new_id, parent = Some head, message = msg,
         children = [], branch = active_branch t, node_metadata = Map.empty, node_created_at = now\<rparr>,
         head \<mapsto> p\<lparr>children := children p @ [new_id]\<rparr>)"
    "branches t' = (branches t)(active_branch t \<mapsto> new_id)"
    "active_branch t' = active_branch t" "root_id t' = root_id t" "tree_id t' = tree_id t"
    "tree_created_at t' = tree_created_at t"
    using add_message_effect [OF ok new, of now msg] head by auto
  have hn: "head \<noteq> new_id" using new eff(1) by auto
  have old: "map_option message (nodes t' i) = map_option message (nodes t i)" if "i \<noteq> new_id" for i
    using that eff(1,3) by simp
  have keep: "path_to_root t' i = Some q \<and> msgs_of t' q = msgs_of t q"
    if "chain (nodes t) i q" for i q
  proof -
    have "new_id \<notin> set q" using chain_dom [OF that] new by blast
    then have "msgs_of t' q = msgs_of t q"
      using old by (intro msgs_of_cong eff(6)) metis
    then show ?thesis
      using chain_path_loop [OF add_message_chain(1) [OF ok new eff(2) that], of "[]"]
      by (simp add: path_to_root_def)
  qed
  have "history_for_head t' i = history_for_head t i" if i: "i \<in> dom (nodes t)" for i
  proof -
    obtain q where q: "path_to_root t i = Some q" "chain (nodes t) i q"
      using tree_ok_path [OF ok i] .
    then show ?thesis using keep [OF q(2)] by (simp add: history_msgs)
  qed
  moreover have "history_for_head t' new_id = Some (msgs_of t r @ [msg])"
  proof -
    obtain q where q: "path_to_root t head = Some q" "chain (nodes t) head q"
      using branch_path [OF ok head] by blast
    have "q = r" using q(1) path by simp
    then have "path_to_root t' new_id = Some (new_id # r)"
      using chain_path_loop [OF add_message_chain(2) [OF ok new eff(2) head q(2)], of "[]"]
      by (simp add: path_to_root_def)
    moreover have "new_id \<noteq> root_id t" using tree_ok_root [OF ok] new by auto
    moreover have "nodes t' new_id = Some \<lparr>node_id = new_id, parent = Some head, message = msg,
        children = [], branch = active_branch t, node_metadata = Map.empty, node_created_at = now\<rparr>"
      using eff(3) hn by simp
    ultimately show ?thesis
      using keep [OF q(2)] \<open>q = r\<close> eff(6) by (simp add: history_msgs msgs_of_Cons)
  qed
  moreover have "dom (nodes t') = insert new_id (dom (nodes t))" using eff(1,3) by auto
  ultimately show ?thesis
    using eff(2,4-8) tree_ok_add_message [OF ok new eff(2)] by blast
qed

lemma insert_messages_history:
  assumes "tree_ok t" "distinct (map fst xs)" "\<forall>i\<in>fst ` set xs. i \<notin> dom (nodes t)"
    and "active_history t = Some h"
  shows "\<exists>t'. insert_messages t xs = Some t'
    \<and> active_history t' = Some (h @ map (\<lambda>(_, _, m). m) xs)
    \<and> tree_id t' = tree_id t \<and> tree_created_at t' = tree_created_at t"
  using assms
proof (induction xs arbitrary: t h)
  case Nil
  then show ?case by simp
next
  case (Cons x xs)
  obtain i now m where x: "x = (i, now, m)" by (cases x)
  obtain head where head: "branches t (active_branch t) = Some head"
    using tree_ok_active [OF Cons.prems(1)] by auto
  obtain r where r: "path_to_root t head = Some r"
    using branch_path [OF Cons.prems(1) head] by blast
  have h: "h = msgs_of t r"
    using Cons.prems(4) head history_msgs [OF r] by (simp add: active_history_def)
  obtain t1 where t1: "add_message i now t m = Some (i, t1)" "tree_ok t1"
    "branches t1 = (branches t)(active_branch t \<mapsto> i)" "active_branch t1 = active_branch t"
    "tree_id t1 = tree_id t" "tree_created_at t1 = tree_created_at t"
    "dom (nodes t1) = insert i (dom (nodes t))"
    "history_for_head t1 i = Some (msgs_of t r @ [m])"
    using add_message_histories [OF Cons.prems(1) _ head r, of i now m] Cons.prems(3) x by auto
  have "active_history t1 = Some (h @ [m])"
    using t1(3,4,8) h by (simp add: active_history_def)
  moreover have "\<forall>j\<in>fst ` set xs. j \<notin> dom (nodes t1)"
    using Cons.prems(2,3) t1(7) x by auto
  ultimately obtain t' where "insert_messages t1 xs = Some t'"
    "active_history t' = Some ((h @ [m]) @ map (\<lambda>(_, _, m). m) xs)"
    "tree_id t' = tree_id t1" "tree_created_at t' = tree_created_at t1"
    using Cons.IH [OF t1(2)] Cons.prems(2) by (auto simp: x)
  then show ?case using t1(1,5,6) x by simp
qed

lemma find_first: "\<forall>x\<in>set xs. \<not> P x \<Longrightarrow> P c \<Longrightarrow> List.find P (xs @ c # rs) = Some c"
  by (induction xs) auto

lemma filter_not_suffix:
  assumes "set xs \<inter> set zs = {}"
  shows "filter (\<lambda>i. i \<notin> set zs) (xs @ zs) = xs"
proof -
  have "filter (\<lambda>i. i \<notin> set zs) xs = xs" using assms by (intro filter_True) auto
  moreover have "filter (\<lambda>i. i \<notin> set zs) zs = []" by (rule filter_False) simp
  ultimately show ?thesis by simp
qed

lemma chains_meet:
  assumes "chain ns a pa" "chain ns b pb" "last pa = last pb"
  obtains c xs ys rs where "pa = xs @ c # rs" "pb = ys @ c # rs" "set xs \<inter> set pb = {}"
    "set ys \<inter> set pa = {}" "List.find (\<lambda>i. i \<in> set pb) pa = Some c" "chain ns c (c # rs)"
proof -
  have "\<exists>x\<in>set pa. x \<in> set pb"
    using assms chain_start [OF assms(1)] chain_start [OF assms(2)] by (metis last_in_set list.discI)
  then obtain xs c rs where pa: "pa = xs @ c # rs" "c \<in> set pb" "\<forall>x\<in>set xs. x \<notin> set pb"
    using split_list_first_prop [of pa "\<lambda>x. x \<in> set pb"] by blast
  obtain zs q where "pa = zs @ q" "chain ns c q"
    using chain_suffix [OF assms(1), of c] pa(1) by auto
  moreover obtain q' where "q = c # q'" using chain_start [OF calculation(2)] by auto
  moreover have d: "distinct pa" by (rule chain_distinct [OF assms(1)])
  ultimately have q: "chain ns c (c # rs)"
    using pa(1) by (metis append_Cons_eq_iff distinct.simps(2) distinct_append
        disjoint_iff list.set_intros(1) not_distinct_conv_prefix)
  obtain ys where pb: "pb = ys @ c # rs"
    using chain_suffix [OF assms(2) pa(2)] chain_det [OF q] by metis
  have dist_b: "distinct pb" by (rule chain_distinct [OF assms(2)])
  have "List.find (\<lambda>i. i \<in> set pb) pa = Some c"
    using pa by (simp add: find_first)
  moreover have "set ys \<inter> set pa = {}"
    using pa pb dist_b by auto
  ultimately show ?thesis using that [of xs c rs ys] pa pb q by auto
qed

section \<open>Properties\<close>

text \<open>C39: In every tree the operations can reach, the walks to the root end: each branch has a
  history, whose length \<open>branches()\<close> reports, no map is indexed with a missing key, and a
  message can be added.\<close>

theorem tree_queries_total:
  assumes "tree_reachable su js t" "branches t b = Some h"
  shows "\<exists>l info t'. branch_history t b = Some (Some l) \<and> branch_info t b h = Some info
    \<and> bi_message_count info = length l \<and> active_history t \<noteq> None
    \<and> add_message new_id now t msg = Some (new_id, t')"
proof -
  have ok: "tree_ok t" using assms(1) by (rule tree_reachable_ok)
  obtain r where r: "path_to_root t h = Some r" "chain (nodes t) h r"
    using branch_path [OF ok assms(2)] by blast
  have dom: "set r \<subseteq> dom (nodes t)" by (rule chain_dom [OF r(2)])
  have "fork_scan t b is \<noteq> None" if "set is \<subseteq> dom (nodes t)" for "is"
    using that by (induction "is") auto
  then obtain f where "fork_scan t b (rev r) = Some f" using dom by fastforce
  moreover obtain n where "nodes t h = Some n" using tree_ok_head [OF ok assms(2)] by auto
  moreover obtain g where g: "branches t (active_branch t) = Some g"
    using tree_ok_active [OF ok] by auto
  moreover obtain q where "path_to_root t g = Some q" using branch_path [OF ok g] by blast
  ultimately show ?thesis
    using r(1) assms(2) msgs_of_length [OF dom]
    by (simp add: branch_history_def branch_info_def active_history_def add_message_def history_msgs Let_def)
qed

theorem tree_queries_total_witness:
  "\<exists>l info t'. branch_history (tree_new 1 2 3 0 :: nat ConversationTree) ''main'' = Some (Some l)
    \<and> branch_info (tree_new 1 2 3 0 :: nat ConversationTree) ''main'' 2 = Some info
    \<and> bi_message_count info = length l
    \<and> active_history (tree_new 1 2 3 0 :: nat ConversationTree) \<noteq> None
    \<and> add_message 4 0 (tree_new 1 2 3 0) (message_user 5 0 ''hi'' 1) = Some (4 :: Uuid, t' :: nat ConversationTree)"
  by (rule tree_queries_total [where su = "\<lambda>_. []" and js = length], rule reach_new)
    (simp_all add: tree_new_def)

text \<open>A message added under a new identifier extends the active branch by exactly that
  message; the history of every other branch stays as it was.\<close>

lemma add_message_history:
  assumes "tree_reachable su js t" "nodes t new_id = None"
  shows "\<exists>h t'. active_history t = Some h \<and> add_message new_id now t msg = Some (new_id, t')
    \<and> active_history t' = Some (h @ [msg])
    \<and> (\<forall>b. b \<noteq> active_branch t \<longrightarrow> branch_history t' b = branch_history t b)"
proof -
  have ok: "tree_ok t" using assms(1) by (rule tree_reachable_ok)
  obtain g where g: "branches t (active_branch t) = Some g" using tree_ok_active [OF ok] by auto
  obtain r where r: "path_to_root t g = Some r" using branch_path [OF ok g] by blast
  obtain t' where t': "add_message new_id now t msg = Some (new_id, t')"
    "branches t' = (branches t)(active_branch t \<mapsto> new_id)" "active_branch t' = active_branch t"
    "history_for_head t' new_id = Some (msgs_of t r @ [msg])"
    "\<forall>i\<in>dom (nodes t). history_for_head t' i = history_for_head t i"
    using add_message_histories [OF ok _ g r, of new_id now msg] assms(2) by blast
  have "branch_history t' b = branch_history t b" if "b \<noteq> active_branch t" for b
    using t'(2,5) that tree_ok_head [OF ok, of b] by (simp add: branch_history_def split: option.splits)
  then show ?thesis
    using t' g history_msgs [OF r] by (simp add: active_history_def)
qed

lemma add_message_history_witness:
  "\<exists>h t'. active_history (tree_new 1 2 3 0 :: nat ConversationTree) = Some h
    \<and> add_message 4 0 (tree_new 1 2 3 0) (message_user 5 0 ''hi'' 1) = Some (4 :: Uuid, t')
    \<and> active_history t' = Some (h @ [message_user 5 0 ''hi'' 1])
    \<and> (\<forall>b. b \<noteq> active_branch (tree_new 1 2 3 0 :: nat ConversationTree)
         \<longrightarrow> branch_history t' b = branch_history (tree_new 1 2 3 0) b)"
  by (rule add_message_history [where su = "\<lambda>_. []" and js = length], rule reach_new)
    (simp_all add: tree_new_def)

text \<open>C18: Comparing two branches splits both walks at one node: what is unique to each side
  ends there, the two unique parts are disjoint, and the rest, which is shared, is counted
  without the root sentinel.\<close>

theorem compare_branches_splits:
  assumes "tree_reachable su js t" "branches t a = Some ha" "branches t b = Some hb"
  shows "\<exists>c xs ys rs. path_to_root t ha = Some (xs @ c # rs)
    \<and> path_to_root t hb = Some (ys @ c # rs) \<and> set xs \<inter> set ys = {}
    \<and> compare_branches t a b = Some
        \<lparr>common_ancestor = Some c, branch_a_unique = xs, branch_b_unique = ys,
         common_messages = length rs, divergence_point = Some c\<rparr>"
proof -
  have ok: "tree_ok t" using assms(1) by (rule tree_reachable_ok)
  obtain pa where pa: "path_to_root t ha = Some pa" "chain (nodes t) ha pa" "last pa = root_id t"
    by (rule branch_path [OF ok assms(2)])
  obtain pb where pb: "path_to_root t hb = Some pb" "chain (nodes t) hb pb" "last pb = root_id t"
    by (rule branch_path [OF ok assms(3)])
  obtain c xs ys rs where m: "pa = xs @ c # rs" "pb = ys @ c # rs" "set xs \<inter> set pb = {}"
    "set ys \<inter> set pa = {}" "List.find (\<lambda>i. i \<in> set pb) pa = Some c" "chain (nodes t) c (c # rs)"
    by (rule chains_meet [OF pa(2) pb(2)]) (simp_all add: pa(3) pb(3))
  have path: "path_to_root t c = Some (c # rs)"
    using chain_path_loop [OF m(6), of "[]"] by (simp add: path_to_root_def)
  have d: "distinct (c # rs)" by (rule chain_distinct [OF m(6)])
  have sub: "set (c # rs) \<subseteq> set pa" "set (c # rs) \<subseteq> set pb" using m(1,2) by auto
  have fa: "filter (\<lambda>i. i \<notin> set (c # rs)) pa = xs"
    unfolding m(1) using m(3) sub(2) by (intro filter_not_suffix) blast
  have fb: "filter (\<lambda>i. i \<notin> set (c # rs)) pb = ys"
    unfolding m(2) using m(4) sub(1) by (intro filter_not_suffix) blast
  have "{i \<in> set (c # rs). i \<noteq> root_id t} = set (butlast (c # rs))"
    using d pa(3) m(1) by (cases rs rule: rev_cases) auto
  then have n: "card {i \<in> set (c # rs). i \<noteq> root_id t} = length rs"
    using distinct_card [OF distinct_butlast [OF d]] by (simp only: length_butlast) simp
  have "compare_branches t a b = Some
      \<lparr>common_ancestor = Some c, branch_a_unique = xs, branch_b_unique = ys,
       common_messages = length rs, divergence_point = Some c\<rparr>"
    using assms(2,3) pa(1) pb(1) m(5) path fa fb n by (simp add: compare_branches_def Let_def)
  moreover have "set xs \<inter> set ys = {}" using m(1,4) by auto
  ultimately show ?thesis using pa(1) pb(1) m(1,2) by (intro exI conjI) simp_all
qed

text \<open>An example: one message on \<open>main\<close>, then a fork at the root with a message of its own.\<close>

definition forked_tree :: "nat ConversationTree" where
  "forked_tree =
     (let t = snd (the (add_message 4 0 (tree_new 1 2 3 0) (message_user 6 0 ''a'' 1)));
          t = projr (fork (\<lambda>_. []) 0 t 2 ''alt'')
      in snd (the (add_message 5 0 t (message_user 7 0 ''b'' 1))))"

lemma forked_tree_reachable: "tree_reachable (\<lambda>_. []) length forked_tree"
proof -
  let ?t0 = "tree_new 1 2 3 0 :: nat ConversationTree"
  let ?m4 = "message_user 6 0 ''a'' 1"
  let ?m5 = "message_user 7 0 ''b'' 1"
  obtain t1 where t1: "add_message 4 0 ?t0 ?m4 = Some (4, t1)" "nodes t1 2 \<noteq> None" "nodes t1 5 = None"
    "branches t1 ''alt'' = None"
    by (simp add: add_message_def tree_new_def Let_def)
  obtain t2 where t2: "fork (\<lambda>_. []) 0 t1 2 ''alt'' = Inr t2" "nodes t2 = nodes t1"
    "branches t2 (active_branch t2) = Some 2"
    using t1(2,4) by (simp add: fork_def)
  obtain t3 where t3: "add_message 5 0 t2 ?m5 = Some (5, t3)"
    using t2(3) by (simp add: add_message_def Let_def)
  have "forked_tree = t3" using t1(1) t2(1) t3 by (simp add: forked_tree_def)
  moreover have "tree_reachable (\<lambda>_. []) length t1"
    by (rule reach_step [OF reach_new step_add [OF _ t1(1)]]) (simp add: tree_new_def)
  then have "tree_reachable (\<lambda>_. []) length t2"
    by (rule reach_step) (rule step_fork [OF t2(1)])
  then have "tree_reachable (\<lambda>_. []) length t3"
    by (rule reach_step) (rule step_add [OF _ t3], simp add: t2(2) t1(3))
  ultimately show ?thesis by simp
qed

theorem compare_branches_splits_witness:
  "\<exists>c xs ys rs. path_to_root forked_tree 4 = Some (xs @ c # rs)
    \<and> path_to_root forked_tree 5 = Some (ys @ c # rs) \<and> set xs \<inter> set ys = {}
    \<and> compare_branches forked_tree ''main'' ''alt'' = Some
        \<lparr>common_ancestor = Some c, branch_a_unique = xs, branch_b_unique = ys,
         common_messages = length rs, divergence_point = Some c\<rparr>"
  by (rule compare_branches_splits [OF forked_tree_reachable])
    (simp_all add: forked_tree_def add_message_def tree_new_def fork_def Let_def)

lemma zip_draws:
  "length draws = length ms \<Longrightarrow>
     map fst (map (\<lambda>((i, at), msg). (i, at, msg)) (zip draws ms)) = map fst draws
     \<and> map (\<lambda>(_, _, m). m) (map (\<lambda>((i, at), msg). (i, at, msg)) (zip draws ms)) = ms"
  by (induction rule: list_induct2) auto

text \<open>Importing a session as a tree and reading its active branch back gives the session's
  identifier, creation time and messages, when the identifiers drawn are distinct.\<close>

lemma session_roundtrip:
  fixes s :: "'v Session"
  assumes "distinct (rid # map fst draws)" "length draws = length (messages s)"
  shows "\<exists>t s'. from_session rid msg_id now draws s = Some t \<and> to_session later t = Some s'
    \<and> sess_id s' = sess_id s \<and> messages s' = messages s \<and> sess_created_at s' = sess_created_at s"
proof -
  define t :: "'v ConversationTree" where "t = \<lparr>tree_id = sess_id s, title = None,
      nodes = [rid \<mapsto> root_node rid msg_id (sess_id s) now (sess_created_at s)],
      branches = [''main'' \<mapsto> rid], active_branch = ''main'', root_id = rid,
      tree_created_at = sess_created_at s, tree_updated_at = sess_updated_at s\<rparr>"
  define xs where "xs = map (\<lambda>((i, at), msg). (i, at, msg)) (zip draws (messages s))"
  have chain: "chain (nodes t) rid [rid]" by (rule chain_root) (auto simp: t_def root_node_def)
  then have ok: "tree_ok t" by (auto simp: tree_ok_def t_def)
  have "path_to_root t rid = Some [rid]"
    using chain_path_loop [OF chain, of "[]"] by (simp add: path_to_root_def)
  then have "active_history t = Some []"
    by (simp add: active_history_def history_msgs msgs_of_def t_def)
  moreover have fst: "map fst xs = map fst draws" and msgs: "map (\<lambda>(_, _, m). m) xs = messages s"
    using zip_draws [OF assms(2)] unfolding xs_def by blast+
  moreover have "\<forall>i\<in>set (map fst xs). i \<notin> dom (nodes t)"
    using assms(1) unfolding fst by (auto simp: t_def)
  ultimately obtain t' where "insert_messages t xs = Some t'" "active_history t' = Some (messages s)"
    "tree_id t' = tree_id t" "tree_created_at t' = tree_created_at t"
    using insert_messages_history [OF ok, of xs "[]"] assms(1) by (auto simp del: set_map simp flip: set_map)
  then show ?thesis
    by (simp add: from_session_def to_session_def t_def xs_def)
qed

lemma session_roundtrip_witness:
  "\<exists>t s'. from_session 2 3 0 [(4, 0), (5, 1)] (session_add_message 1 (session_add_message 0
       (session_new 1 0) (message_user 6 0 ''a'' 1)) (message_assistant 7 1 ''b'' 1) :: nat Session) = Some t
    \<and> to_session 9 t = Some s' \<and> sess_id s' = 1
    \<and> messages s' = [message_user 6 0 ''a'' 1, message_assistant 7 1 ''b'' 1] \<and> sess_created_at s' = 0"
  using session_roundtrip [of 2 "[(4, 0), (5, 1)]" "session_add_message 1 (session_add_message 0
       (session_new 1 0) (message_user 6 0 ''a'' 1)) (message_assistant 7 1 ''b'' 1) :: nat Session" 3 0 9]
  by (simp add: session_new_def session_add_message_def)

text \<open>After two messages on \<open>main\<close> and a fork at the second, \<open>branches()\<close> reports the
  first message, not the node where the branch left \<open>main\<close>, as the fork point: it scans
  from the root.\<close>

lemma fork_point_is_first_foreign:
  "do {
     (_, t) \<leftarrow> add_message 4 0 (tree_new 1 2 3 0) m1;
     (_, t) \<leftarrow> add_message 5 0 t m2;
     r \<leftarrow> fork_here su 0 t ''alt'';
     (case r of Inl e \<Rightarrow> None | Inr t \<Rightarrow>
        do { h \<leftarrow> branches t ''alt''; info \<leftarrow> branch_info t ''alt'' h; Some (h, bi_fork_point info) })
   } = Some (5, Some 4)"
  by (simp add: add_message_def tree_new_def Let_def fork_here_def fork_def branch_info_def
      path_to_root_def root_node_def)

end
