(* ===== verification/TokenPool.thy ===== *)
theory TokenPool
  imports CoreTypes Interfaces "HOL-Library.Multiset"
begin

text \<open>
  \<open>argentor-mcp/src/token_pool.rs\<close>: API tokens per provider, with a sliding rate window, a
  daily quota and four selection strategies. Instants are nanoseconds since the epoch, and the
  time of a call is an input. A poisoned lock, which needs a panic inside a critical section,
  is not modelled. An index out of range panics: \<open>None\<close>.
\<close>

definition RATE_WINDOW_SECONDS :: int where
  "RATE_WINDOW_SECONDS = 60"

definition day :: int where
  "day = secs 86400"

datatype TokenTier = Backup | Free | Development | Production

text \<open>The derived \<open>Ord\<close>: the order of the discriminants.\<close>

definition tier_discriminant :: "TokenTier \<Rightarrow> nat" where
  "tier_discriminant t =
     (case t of Backup \<Rightarrow> 0 | Free \<Rightarrow> 1 | Development \<Rightarrow> 2 | Production \<Rightarrow> 3)"

instantiation TokenTier :: linorder
begin

definition less_eq_TokenTier :: "TokenTier \<Rightarrow> TokenTier \<Rightarrow> bool" where
  "a \<le> b \<longleftrightarrow> tier_discriminant a \<le> tier_discriminant b"

definition less_TokenTier :: "TokenTier \<Rightarrow> TokenTier \<Rightarrow> bool" where
  "a < b \<longleftrightarrow> tier_discriminant a < tier_discriminant b"

instance
  by standard
    (auto simp: less_eq_TokenTier_def less_TokenTier_def tier_discriminant_def split: TokenTier.splits)

end

section \<open>The rate window\<close>

record RateWindow =
  max_per_minute :: u32
  window_calls :: "int list"

definition rate_window_new :: "u32 \<Rightarrow> RateWindow" where
  "rate_window_new m = \<lparr>max_per_minute = m, window_calls = []\<rparr>"

definition record_call :: "RateWindow \<Rightarrow> int \<Rightarrow> RateWindow" where
  "record_call w now = w\<lparr>window_calls := window_calls w @ [now]\<rparr>"

definition calls_in_window :: "RateWindow \<Rightarrow> int \<Rightarrow> u32" where
  "calls_in_window w now =
     (let cutoff = now - secs RATE_WINDOW_SECONDS
      in word_of_nat (length (filter (\<lambda>ts. ts > cutoff) (window_calls w))))"

definition is_limited :: "RateWindow \<Rightarrow> int \<Rightarrow> bool" where
  "is_limited w now \<longleftrightarrow> calls_in_window w now \<ge> max_per_minute w"

definition cleanup :: "RateWindow \<Rightarrow> int \<Rightarrow> RateWindow" where
  "cleanup w now =
     (let cutoff = now - secs RATE_WINDOW_SECONDS
      in w\<lparr>window_calls := filter (\<lambda>ts. ts > cutoff) (window_calls w)\<rparr>)"

section \<open>Tokens\<close>

record PooledToken =
  token_id :: string
  provider :: string
  token_value :: string
  tier :: TokenTier
  rate_limit :: RateWindow
  daily_quota :: "u64 option"
  daily_usage :: u64
  quota_reset_at :: int
  total_usage :: u64
  total_errors :: u64
  last_used :: "int option"
  last_error :: "(int \<times> string) option"
  enabled :: bool
  weight :: u32

text \<open>Both branches of the code add a day to the midnight before.\<close>

definition next_midnight_utc_from :: "int \<Rightarrow> int" where
  "next_midnight_utc_from now =
     (let today_midnight = now div day * day
      in if now mod day < secs 1 then today_midnight + day else today_midnight + day)"

definition is_quota_exhausted_inner :: "PooledToken \<Rightarrow> bool" where
  "is_quota_exhausted_inner t =
     (case daily_quota t of Some quota \<Rightarrow> daily_usage t \<ge> quota | None \<Rightarrow> False)"

definition is_token_available :: "PooledToken \<Rightarrow> int \<Rightarrow> bool" where
  "is_token_available t now \<longleftrightarrow>
     enabled t \<and> \<not> is_limited (rate_limit t) now \<and> \<not> is_quota_exhausted_inner t"

definition remaining_quota :: "PooledToken \<Rightarrow> u64" where
  "remaining_quota t =
     (case daily_quota t of Some quota \<Rightarrow> saturating_sub quota (daily_usage t) | None \<Rightarrow> - 1)"

definition maybe_reset_daily :: "PooledToken \<Rightarrow> int \<Rightarrow> PooledToken" where
  "maybe_reset_daily t now =
     (if now \<ge> quota_reset_at t
      then t\<lparr>daily_usage := 0, quota_reset_at := next_midnight_utc_from now\<rparr> else t)"

section \<open>Selection\<close>

text \<open>\<open>max_by\<close>: the last of the greatest elements; \<open>gt\<close> is \<open>cmp == Greater\<close>.\<close>

fun max_by :: "('a \<Rightarrow> 'a \<Rightarrow> bool) \<Rightarrow> 'a list \<Rightarrow> 'a option" where
  "max_by gt [] = None"
| "max_by gt (x # xs) = Some (foldl (\<lambda>best y. if gt best y then best else y) x xs)"

definition select_most_remaining :: "PooledToken list \<Rightarrow> PooledToken option" where
  "select_most_remaining available = max_by (\<lambda>a b. remaining_quota a > remaining_quota b) available"

definition select_round_robin :: "PooledToken list \<Rightarrow> u64 \<Rightarrow> PooledToken option" where
  "select_round_robin available counter =
     (if available = [] then None else Some (available ! (unat counter mod length available)))"

text \<open>The loop of \<open>select_weighted\<close>.\<close>

fun weighted_scan :: "u64 \<Rightarrow> u64 \<Rightarrow> PooledToken list \<Rightarrow> PooledToken option" where
  "weighted_scan pos cumulative [] = None"
| "weighted_scan pos cumulative (t # ts) =
     (let cumulative = cumulative + ucast (weight t)
      in if pos < cumulative then Some t else weighted_scan pos cumulative ts)"

definition total_weight :: "PooledToken list \<Rightarrow> u64" where
  "total_weight available = sum_list (map (\<lambda>t. ucast (weight t)) available)"

definition select_weighted :: "PooledToken list \<Rightarrow> u64 \<Rightarrow> PooledToken option" where
  "select_weighted available counter =
     (if total_weight available = 0 then select_round_robin available counter
      else case weighted_scan (counter mod total_weight available) 0 available of
             Some t \<Rightarrow> Some t
           | None \<Rightarrow> if available = [] then None else Some (last available))"

definition tier_greater :: "PooledToken \<Rightarrow> PooledToken \<Rightarrow> bool" where
  "tier_greater a b \<longleftrightarrow>
     tier a > tier b \<or> tier a = tier b \<and> remaining_quota a > remaining_quota b"

definition select_tier_priority :: "PooledToken list \<Rightarrow> PooledToken option" where
  "select_tier_priority available = max_by tier_greater available"

section \<open>The pool\<close>

datatype SelectionStrategy = MostRemaining | RoundRobin | WeightedRandom | TierPriority

record TokenPool =
  tokens :: "string \<rightharpoonup> PooledToken"
  providers :: "string \<rightharpoonup> string list"
  strategy :: SelectionStrategy
  round_robin_index :: u64

record PoolHealth =
  ph_provider :: string
  ph_total_tokens :: nat
  available_tokens :: nat
  exhausted_tokens :: nat
  rate_limited_tokens :: nat
  disabled_tokens :: nat
  total_daily_remaining :: u64
  estimated_calls_available :: u64

record PoolStats =
  ps_total_tokens :: nat
  total_providers :: nat
  ps_total_usage :: u64
  ps_total_errors :: u64
  per_provider :: "string \<rightharpoonup> PoolHealth"

definition pool_new :: "SelectionStrategy \<Rightarrow> TokenPool" where
  "pool_new s =
     \<lparr>tokens = Map.empty, providers = Map.empty, strategy = s, round_robin_index = 0\<rparr>"

definition quoted :: "string \<Rightarrow> string" where
  "quoted s = [CHR 0x27] @ s @ [CHR 0x27]"

definition token_not_found :: "string \<Rightarrow> ArgentorError" where
  "token_not_found i = Config (''Token with id '' @ quoted i @ '' not found in pool'')"

definition add_token ::
  "int \<Rightarrow> TokenPool \<Rightarrow> string \<Rightarrow> string \<Rightarrow> string \<Rightarrow> TokenTier \<Rightarrow> u32 \<Rightarrow> u64 option \<Rightarrow> u32
     \<Rightarrow> ArgentorError + TokenPool" where
  "add_token now p i prov val tr mpm quota wt =
     (let token = \<lparr>token_id = i, provider = prov, token_value = val, tier = tr,
            rate_limit = rate_window_new mpm, daily_quota = quota, daily_usage = 0,
            quota_reset_at = next_midnight_utc_from now, total_usage = 0, total_errors = 0,
            last_used = None, last_error = None, enabled = True, weight = wt\<rparr>
      in if tokens p i \<noteq> None
         then Inl (Config (''Token with id '' @ quoted i @ '' already exists in pool''))
         else let p = p\<lparr>tokens := (tokens p)(i \<mapsto> token)\<rparr>;
                  ids = (case providers p prov of Some ids \<Rightarrow> ids | None \<Rightarrow> [])
              in Inr (p\<lparr>providers := (providers p)(prov \<mapsto> ids @ [i])\<rparr>))"

definition remove_token :: "TokenPool \<Rightarrow> string \<Rightarrow> ArgentorError + TokenPool" where
  "remove_token p i =
     (case tokens p i of
        None \<Rightarrow> Inl (token_not_found i)
      | Some token \<Rightarrow>
          let p = p\<lparr>tokens := (tokens p)(i := None)\<rparr>
          in Inr (case providers p (provider token) of
                    None \<Rightarrow> p
                  | Some ids \<Rightarrow>
                      let ids = filter (\<lambda>j. j \<noteq> i) ids
                      in p\<lparr>providers := (providers p)
                             (provider token := (if ids = [] then None else Some ids))\<rparr>))"

definition available_list :: "TokenPool \<Rightarrow> int \<Rightarrow> string list \<Rightarrow> PooledToken list" where
  "available_list p now ids =
     filter (\<lambda>t. is_token_available t now) (List.map_filter (tokens p) ids)"

text \<open>\<open>select\<close>: the answer, and the pool with its counter moved on.\<close>

definition select ::
  "int \<Rightarrow> TokenPool \<Rightarrow> string \<Rightarrow> ((ArgentorError + string) \<times> TokenPool) option" where
  "select now p prov =
     (case providers p prov of
        None \<Rightarrow> Some (Inl (Config (''No tokens registered for provider '' @ quoted prov)), p)
      | Some token_ids \<Rightarrow>
          let available = available_list p now token_ids;
              idx = round_robin_index p;
              p' = p\<lparr>round_robin_index := idx + 1\<rparr>
          in if available = []
             then Some (Inl (Security (''No available tokens for provider '' @ quoted prov
                    @ '': all tokens are disabled, rate-limited, or quota-exhausted'')), p)
             else map_option (\<lambda>(t, p). (Inr (token_value t), p))
                    (case strategy p of
                       MostRemaining \<Rightarrow> map_option (\<lambda>t. (t, p)) (select_most_remaining available)
                     | RoundRobin \<Rightarrow> map_option (\<lambda>t. (t, p')) (select_round_robin available idx)
                     | WeightedRandom \<Rightarrow> map_option (\<lambda>t. (t, p')) (select_weighted available idx)
                     | TierPriority \<Rightarrow> map_option (\<lambda>t. (t, p)) (select_tier_priority available)))"

text \<open>An operation on one token: the error when it is not in the pool.\<close>

definition update_token ::
  "TokenPool \<Rightarrow> string \<Rightarrow> (PooledToken \<Rightarrow> PooledToken) \<Rightarrow> ArgentorError + TokenPool" where
  "update_token p i f =
     (case tokens p i of
        None \<Rightarrow> Inl (token_not_found i)
      | Some t \<Rightarrow> Inr (p\<lparr>tokens := (tokens p)(i \<mapsto> f t)\<rparr>))"

definition use_token :: "int \<Rightarrow> PooledToken \<Rightarrow> PooledToken" where
  "use_token now t =
     (let t = maybe_reset_daily t now
      in t\<lparr>daily_usage := daily_usage t + 1, total_usage := total_usage t + 1,
           last_used := Some now, rate_limit := cleanup (record_call (rate_limit t) now) now\<rparr>)"

definition record_usage :: "int \<Rightarrow> TokenPool \<Rightarrow> string \<Rightarrow> ArgentorError + TokenPool" where
  "record_usage now p i = update_token p i (use_token now)"

definition record_error :: "int \<Rightarrow> TokenPool \<Rightarrow> string \<Rightarrow> string \<Rightarrow> ArgentorError + TokenPool" where
  "record_error now p i error_msg =
     update_token p i
       (\<lambda>t. t\<lparr>total_errors := total_errors t + 1, last_error := Some (now, error_msg)\<rparr>)"

definition set_enabled :: "TokenPool \<Rightarrow> string \<Rightarrow> bool \<Rightarrow> ArgentorError + TokenPool" where
  "set_enabled p i b = update_token p i (\<lambda>t. t\<lparr>enabled := b\<rparr>)"

definition set_strategy :: "TokenPool \<Rightarrow> SelectionStrategy \<Rightarrow> TokenPool" where
  "set_strategy p s = p\<lparr>strategy := s\<rparr>"

definition reset_daily_quotas :: "int \<Rightarrow> TokenPool \<Rightarrow> TokenPool" where
  "reset_daily_quotas now p =
     p\<lparr>tokens := (\<lambda>i. map_option (\<lambda>t. maybe_reset_daily t now) (tokens p i))\<rparr>"

definition is_rate_limited :: "int \<Rightarrow> TokenPool \<Rightarrow> string \<Rightarrow> bool" where
  "is_rate_limited now p i =
     (case tokens p i of Some t \<Rightarrow> is_limited (rate_limit t) now | None \<Rightarrow> False)"

definition is_quota_exhausted :: "TokenPool \<Rightarrow> string \<Rightarrow> bool" where
  "is_quota_exhausted p i =
     (case tokens p i of Some t \<Rightarrow> is_quota_exhausted_inner t | None \<Rightarrow> False)"

definition is_available :: "int \<Rightarrow> TokenPool \<Rightarrow> string \<Rightarrow> bool" where
  "is_available now p i =
     (case tokens p i of Some t \<Rightarrow> is_token_available t now | None \<Rightarrow> False)"

definition available_for_provider :: "int \<Rightarrow> TokenPool \<Rightarrow> string \<Rightarrow> string list" where
  "available_for_provider now p prov =
     (case providers p prov of
        None \<Rightarrow> []
      | Some ids \<Rightarrow>
          filter (\<lambda>i. case tokens p i of Some t \<Rightarrow> is_token_available t now | None \<Rightarrow> False) ids)"

definition provider_has_capacity :: "int \<Rightarrow> TokenPool \<Rightarrow> string \<Rightarrow> bool" where
  "provider_has_capacity now p prov \<longleftrightarrow> available_for_provider now p prov \<noteq> []"

text \<open>\<open>list_all\<close> returns the values of a \<open>HashMap\<close>, in no order.\<close>

definition list_all_tokens :: "TokenPool \<Rightarrow> PooledToken multiset" where
  "list_all_tokens p = image_mset (\<lambda>i. the (tokens p i)) (mset_set (dom (tokens p)))"

text \<open>The loop body of \<open>pool_health\<close> for a token of the pool.\<close>

definition count_token :: "int \<Rightarrow> PoolHealth \<Rightarrow> PooledToken \<Rightarrow> PoolHealth" where
  "count_token now h t =
     h\<lparr>ph_total_tokens := ph_total_tokens h + 1,
       disabled_tokens := disabled_tokens h + of_bool (\<not> enabled t),
       rate_limited_tokens := rate_limited_tokens h + of_bool (is_limited (rate_limit t) now),
       exhausted_tokens := exhausted_tokens h + of_bool (is_quota_exhausted_inner t),
       available_tokens := available_tokens h + of_bool (is_token_available t now),
       total_daily_remaining :=
         (case daily_quota t of
            Some quota \<Rightarrow> total_daily_remaining h + saturating_sub quota (daily_usage t)
          | None \<Rightarrow> saturating_add (total_daily_remaining h) ((- 1) div 2))\<rparr>"

definition pool_health :: "int \<Rightarrow> TokenPool \<Rightarrow> string \<Rightarrow> PoolHealth" where
  "pool_health now p prov =
     (let token_ids = (case providers p prov of Some ids \<Rightarrow> ids | None \<Rightarrow> []);
          h = foldl (count_token now)
                \<lparr>ph_provider = prov, ph_total_tokens = 0, available_tokens = 0,
                 exhausted_tokens = 0, rate_limited_tokens = 0, disabled_tokens = 0,
                 total_daily_remaining = 0, estimated_calls_available = 0\<rparr>
                (List.map_filter (tokens p) token_ids)
      in h\<lparr>estimated_calls_available := total_daily_remaining h\<rparr>)"

definition pool_stats :: "int \<Rightarrow> TokenPool \<Rightarrow> PoolStats" where
  "pool_stats now p =
     \<lparr>ps_total_tokens = card (dom (tokens p)), total_providers = card (dom (providers p)),
      ps_total_usage = \<Sum>\<^sub># (image_mset total_usage (list_all_tokens p)),
      ps_total_errors = \<Sum>\<^sub># (image_mset total_errors (list_all_tokens p)),
      per_provider = (\<lambda>prov. map_option (\<lambda>_. pool_health now p prov) (providers p prov))\<rparr>"

section \<open>Selection lemmas\<close>

lemma max_by_greatest:
  assumes "\<And>a b c. gt c a \<Longrightarrow> gt c b \<or> gt b a" "\<And>a b. gt a b \<Longrightarrow> \<not> gt b a" "\<And>a. \<not> gt a a"
    and "max_by gt xs = Some r"
  shows "r \<in> set xs" "y \<in> set xs \<Longrightarrow> \<not> gt y r"
proof -
  let ?f = "\<lambda>best y. if gt best y then best else y"
  obtain x xs' where xs: "xs = x # xs'" "r = foldl ?f x xs'"
    using assms(4) by (cases xs) auto
  have "foldl ?f x xs' \<in> set (x # xs') \<and> (\<forall>y\<in>set (x # xs'). \<not> gt y (foldl ?f x xs'))"
  proof (induction xs' rule: rev_induct)
    case Nil
    show ?case using assms(3) by simp
  next
    case (snoc z zs)
    let ?m = "foldl ?f x zs"
    show ?case
    proof (cases "gt ?m z")
      case True
      then show ?thesis using snoc assms(2) by auto
    next
      case False
      then have "\<not> gt y z" if "y \<in> set (x # zs)" for y
        using snoc that assms(1) by blast
      then show ?thesis using False assms(3) by auto
    qed
  qed
  with xs show "r \<in> set xs" "y \<in> set xs \<Longrightarrow> \<not> gt y r" by auto
qed

lemma max_by_None [simp]: "max_by gt xs = None \<longleftrightarrow> xs = []"
  by (cases xs) auto

lemma select_most_remaining_greatest:
  assumes "select_most_remaining ts = Some t"
  shows "t \<in> set ts" "u \<in> set ts \<Longrightarrow> remaining_quota u \<le> remaining_quota t"
  using max_by_greatest [of "\<lambda>a b. remaining_quota a > remaining_quota b" ts t] assms
  by (force simp: select_most_remaining_def)+

lemma select_tier_priority_greatest:
  assumes "select_tier_priority ts = Some t"
  shows "t \<in> set ts" "u \<in> set ts \<Longrightarrow> \<not> tier_greater u t"
proof -
  have "t \<in> set ts \<and> (u \<in> set ts \<longrightarrow> \<not> tier_greater u t)" for u
    using max_by_greatest [of tier_greater ts t] assms
    by (fastforce simp: select_tier_priority_def tier_greater_def)
  then show "t \<in> set ts" "u \<in> set ts \<Longrightarrow> \<not> tier_greater u t" by auto
qed

text \<open>The ring of the weighted selection, one place per unit of weight.\<close>

definition weight_ring :: "PooledToken list \<Rightarrow> PooledToken list" where
  "weight_ring ts = concat (map (\<lambda>t. replicate (unat (weight t)) t) ts)"

lemma length_weight_ring: "length (weight_ring ts) = sum_list (map (\<lambda>t. unat (weight t)) ts)"
  by (simp add: weight_ring_def length_concat o_def)

lemma weight_ring_Cons: "weight_ring (t # ts) = replicate (unat (weight t)) t @ weight_ring ts"
  by (simp add: weight_ring_def)

lemma unat_add_u64: "unat (a :: u64) + unat b < 2 ^ 64 \<Longrightarrow> unat (a + b) = unat a + unat b"
  by (simp add: unat_add_lem [THEN iffD1])

lemma unat_ucast_weight: "unat (ucast (w :: u32) :: u64) = unat w"
proof -
  have "unat w < 2 ^ 64" using unat_u32_less [of w] by simp
  then show ?thesis by (simp add: unsigned_ucast_eq take_bit_nat_eq_self)
qed

lemma unat_total_weight:
  "length (weight_ring ts) < 2 ^ 64 \<Longrightarrow> unat (total_weight ts) = length (weight_ring ts)"
proof (induction ts)
  case Nil
  show ?case by (simp add: total_weight_def weight_ring_def)
next
  case (Cons t ts)
  have IH: "unat (total_weight ts) = length (weight_ring ts)"
    using Cons by (simp add: weight_ring_Cons)
  have "unat (total_weight (t # ts)) = unat (ucast (weight t) :: u64) + unat (total_weight ts)"
    unfolding total_weight_def
    using Cons.prems IH by (simp add: weight_ring_Cons total_weight_def unat_add_u64 unat_ucast_weight)
  then show ?case using IH by (simp add: weight_ring_Cons unat_ucast_weight)
qed

lemma weighted_scan_ring:
  "unat c + length (weight_ring ts) < 2 ^ 64 \<Longrightarrow> unat c \<le> unat pos
     \<Longrightarrow> unat pos < unat c + length (weight_ring ts)
     \<Longrightarrow> weighted_scan pos c ts = Some (weight_ring ts ! (unat pos - unat c))"
proof (induction ts arbitrary: c)
  case Nil
  then show ?case by (simp add: weight_ring_def)
next
  case (Cons t ts)
  have sum: "unat (c + ucast (weight t)) = unat c + unat (weight t)"
    using Cons.prems(1) by (simp add: weight_ring_Cons unat_add_u64 unat_ucast_weight)
  show ?case
  proof (cases "pos < c + ucast (weight t)")
    case True
    then show ?thesis
      using Cons.prems(2) sum by (simp add: weight_ring_Cons nth_append word_less_nat_alt)
  next
    case False
    then have "unat c + unat (weight t) \<le> unat pos" using sum by (simp add: word_less_nat_alt)
    then show ?thesis
      using Cons.IH [of "c + ucast (weight t)"] Cons.prems sum False
      by (simp add: weight_ring_Cons nth_append)
  qed
qed

lemma select_weighted_some:
  "ts \<noteq> [] \<Longrightarrow> \<exists>t\<in>set ts. select_weighted ts c = Some t"
proof -
  assume ts: "ts \<noteq> []"
  have scan: "weighted_scan p k us = Some t \<Longrightarrow> t \<in> set us" for p k us t
    by (induction us arbitrary: k) (auto simp: Let_def split: if_splits)
  show ?thesis
    using ts scan last_in_set [OF ts]
    by (auto simp: select_weighted_def select_round_robin_def split: option.splits)
qed

section \<open>The provider index\<close>

datatype pool_op =
    AddToken int string string string TokenTier u32 "u64 option" u32
  | RemoveToken string
  | SelectToken int string
  | RecordUsage int string
  | RecordError int string string
  | SetEnabled string bool
  | SetStrategy SelectionStrategy
  | ResetQuotas int

text \<open>A call; one that fails changes nothing.\<close>

definition ok_or :: "'s \<Rightarrow> ArgentorError + 's \<Rightarrow> 's" where
  "ok_or s r = (case r of Inl _ \<Rightarrow> s | Inr s' \<Rightarrow> s')"

fun pool_step :: "TokenPool \<Rightarrow> pool_op \<Rightarrow> TokenPool" where
  "pool_step p (AddToken now i prov v tr m q w) = ok_or p (add_token now p i prov v tr m q w)"
| "pool_step p (RemoveToken i) = ok_or p (remove_token p i)"
| "pool_step p (SelectToken now prov) = (case select now p prov of None \<Rightarrow> p | Some (_, p') \<Rightarrow> p')"
| "pool_step p (RecordUsage now i) = ok_or p (record_usage now p i)"
| "pool_step p (RecordError now i msg) = ok_or p (record_error now p i msg)"
| "pool_step p (SetEnabled i b) = ok_or p (set_enabled p i b)"
| "pool_step p (SetStrategy s) = set_strategy p s"
| "pool_step p (ResetQuotas now) = reset_daily_quotas now p"

definition ids_of :: "TokenPool \<Rightarrow> string \<Rightarrow> string list" where
  "ids_of p prov = (case providers p prov of Some ids \<Rightarrow> ids | None \<Rightarrow> [])"

definition provider_of :: "TokenPool \<Rightarrow> string \<Rightarrow> string option" where
  "provider_of p i = map_option provider (tokens p i)"

definition pool_ok :: "TokenPool \<Rightarrow> bool" where
  "pool_ok p \<longleftrightarrow> (\<forall>prov. providers p prov \<noteq> Some [] \<and> distinct (ids_of p prov)
     \<and> set (ids_of p prov) = {i. provider_of p i = Some prov})"

lemma pool_ok_same:
  "provider_of p' = provider_of p \<Longrightarrow> providers p' = providers p \<Longrightarrow> pool_ok p' \<longleftrightarrow> pool_ok p"
  by (simp add: pool_ok_def ids_of_def)

lemma update_token_index:
  assumes "\<And>t. provider (f t) = provider t"
  shows "provider_of (ok_or p (update_token p i f)) = provider_of p"
    and "providers (ok_or p (update_token p i f)) = providers p"
  using assms by (auto simp: ok_or_def update_token_def provider_of_def fun_eq_iff split: option.splits)

lemma provider_reset [simp]: "provider (maybe_reset_daily t now) = provider t"
  by (simp add: maybe_reset_daily_def)

lemma select_index:
  assumes "select now p prov = Some (r, p')"
  shows "tokens p' = tokens p \<and> providers p' = providers p \<and> strategy p' = strategy p"
  using assms by (auto simp: select_def Let_def split: option.splits SelectionStrategy.splits if_splits)

lemma pool_ok_add:
  assumes "pool_ok p"
  shows "pool_ok (ok_or p (add_token now p i prov v tr m q w))"
proof (cases "tokens p i")
  case (Some t)
  then show ?thesis using assms by (simp add: add_token_def ok_or_def)
next
  case None
  let ?p = "ok_or p (add_token now p i prov v tr m q w)"
  have ids: "ids_of ?p pr = (if pr = prov then ids_of p prov @ [i] else ids_of p pr)"
    and non: "providers ?p pr \<noteq> Some [] \<longleftrightarrow> pr = prov \<or> providers p pr \<noteq> Some []"
    and own: "provider_of ?p j = (if j = i then Some prov else provider_of p j)" for pr j
    using None by (auto simp: add_token_def ok_or_def ids_of_def provider_of_def Let_def)
  have "provider_of p i = None" using None by (simp add: provider_of_def)
  then show ?thesis
    using assms by (auto simp: pool_ok_def ids non own)
qed

lemma pool_ok_remove:
  assumes "pool_ok p"
  shows "pool_ok (ok_or p (remove_token p i))"
proof (cases "tokens p i")
  case None
  then show ?thesis using assms by (simp add: remove_token_def ok_or_def)
next
  case (Some t)
  let ?p = "ok_or p (remove_token p i)"
  have "i \<in> set (ids_of p (provider t))"
    using assms Some by (simp add: pool_ok_def provider_of_def)
  then obtain ids where ids: "providers p (provider t) = Some ids"
    by (cases "providers p (provider t)") (auto simp: ids_of_def)
  have idp: "ids_of ?p pr = filter (\<lambda>j. j \<noteq> i) (ids_of p pr)" for pr
  proof (cases "pr = provider t")
    case True
    then show ?thesis
      using Some ids by (simp add: remove_token_def ok_or_def ids_of_def Let_def)
  next
    case False
    have "set (ids_of p pr) = {j. provider_of p j = Some pr}" using assms by (simp add: pool_ok_def)
    then have "i \<notin> set (ids_of p pr)" using False Some by (simp add: provider_of_def)
    moreover have "ids_of ?p pr = ids_of p pr"
      using False Some ids by (simp add: remove_token_def ok_or_def ids_of_def Let_def)
    ultimately show ?thesis by (metis (mono_tags, lifting) filter_True)
  qed
  have non: "providers ?p pr \<noteq> Some []" for pr
    using assms Some ids by (auto simp: remove_token_def ok_or_def Let_def pool_ok_def)
  have own: "provider_of ?p j = (if j = i then None else provider_of p j)" for j
    using Some ids by (simp add: remove_token_def ok_or_def provider_of_def Let_def)
  show ?thesis
    using assms by (auto simp: pool_ok_def idp non own)
qed

lemma pool_ok_update:
  "pool_ok p \<Longrightarrow> (\<And>t. provider (f t) = provider t) \<Longrightarrow> pool_ok (ok_or p (update_token p i f))"
  using pool_ok_same [OF update_token_index] by blast

lemma pool_ok_reset: "pool_ok p \<Longrightarrow> pool_ok (reset_daily_quotas now p)"
  by (rule pool_ok_same [THEN iffD2])
    (simp_all add: reset_daily_quotas_def provider_of_def fun_eq_iff option.map_comp o_def)

lemma pool_ok_select: "pool_ok p \<Longrightarrow> select now p prov = Some (r, p') \<Longrightarrow> pool_ok p'"
  using select_index [of now p prov r p'] pool_ok_same [of p' p] by (simp add: provider_of_def fun_eq_iff)

interpretation pool: state_machine pool_step pool_ok
proof
  fix p op
  assume ok: "pool_ok p"
  show "pool_ok (pool_step p op)"
  proof (cases op)
    case (AddToken now i prov v tr m q w)
    then show ?thesis using ok by (simp add: pool_ok_add)
  next
    case (RemoveToken i)
    then show ?thesis using ok by (simp add: pool_ok_remove)
  next
    case (SelectToken now prov)
    then show ?thesis using ok pool_ok_select by (auto split: option.splits)
  next
    case (RecordUsage now i)
    then show ?thesis using ok by (simp add: record_usage_def use_token_def Let_def pool_ok_update)
  next
    case (RecordError now i msg)
    then show ?thesis using ok by (simp add: record_error_def pool_ok_update)
  next
    case (SetEnabled i b)
    then show ?thesis using ok by (simp add: set_enabled_def pool_ok_update)
  next
    case (SetStrategy s)
    then show ?thesis
      using ok pool_ok_same [of "set_strategy p s" p] by (simp add: set_strategy_def provider_of_def fun_eq_iff)
  next
    case (ResetQuotas now)
    then show ?thesis using ok by (simp add: pool_ok_reset)
  qed
qed

lemma pool_ok_new: "pool_ok (pool_new s)"
  by (simp add: pool_ok_def pool_new_def ids_of_def provider_of_def)

section \<open>Uses of one token\<close>

text \<open>The token after uses at the instants of a list, and the condition that each of them found
  the token available.\<close>

definition uses :: "PooledToken \<Rightarrow> int list \<Rightarrow> PooledToken" where
  "uses t ns = foldl (\<lambda>t now. use_token now t) t ns"

fun each_available :: "PooledToken \<Rightarrow> int list \<Rightarrow> bool" where
  "each_available t [] \<longleftrightarrow> True"
| "each_available t (now # ns) \<longleftrightarrow> is_token_available t now \<and> each_available (use_token now t) ns"

definition window_of :: "int \<Rightarrow> int list \<Rightarrow> int list" where
  "window_of T ns = filter (\<lambda>s. T - secs RATE_WINDOW_SECONDS < s \<and> s \<le> T) ns"

lemma uses_snoc: "uses t (ns @ [now]) = use_token now (uses t ns)"
  by (simp add: uses_def)

lemma uses_Cons: "uses t (now # ns) = uses (use_token now t) ns"
  by (simp add: uses_def)

lemma each_available_snoc:
  "each_available t (ns @ [now]) \<longleftrightarrow> each_available t ns \<and> is_token_available (uses t ns) now"
  by (induction ns arbitrary: t) (auto simp: uses_def)

lemma use_token_simps [simp]:
  "rate_limit (use_token now t) = cleanup (record_call (rate_limit t) now) now"
  "daily_quota (use_token now t) = daily_quota t"
  by (simp_all add: use_token_def maybe_reset_daily_def Let_def)

lemma uses_limit [simp]:
  "max_per_minute (rate_limit (uses t ns)) = max_per_minute (rate_limit t)"
  "daily_quota (uses t ns) = daily_quota t"
  by (induction ns rule: rev_induct)
    (simp_all add: uses_snoc, simp_all add: uses_def cleanup_def record_call_def Let_def)

lemma filter_filter_and: "(\<And>x. P x \<Longrightarrow> Q x) \<Longrightarrow> filter P (filter Q xs) = filter P xs"
  by (induction xs) auto

lemma sorted_le_last: "sorted (ns :: int list) \<Longrightarrow> s \<in> set ns \<Longrightarrow> s \<le> last ns"
  by (induction ns) auto

lemma uses_window:
  assumes "window_calls (rate_limit t) = []" "sorted ns" "ns \<noteq> []"
  shows "window_calls (rate_limit (uses t ns)) = window_of (last ns) ns"
  using assms(2,3)
proof (induction ns rule: rev_induct)
  case Nil
  then show ?case by simp
next
  case (snoc now ns)
  have le: "\<forall>s\<in>set ns. s \<le> now" using snoc.prems(1) by (simp add: sorted_append)
  let ?P = "\<lambda>s. s > now - secs RATE_WINDOW_SECONDS"
  have "filter ?P (window_calls (rate_limit (uses t ns))) = filter ?P ns"
  proof (cases "ns = []")
    case True
    then show ?thesis using assms(1) by (simp add: uses_def)
  next
    case False
    then have "window_calls (rate_limit (uses t ns)) = window_of (last ns) ns"
      using snoc by (simp add: sorted_append)
    moreover have "\<forall>s\<in>set ns. s \<le> last ns" "last ns \<le> now"
      using snoc.prems(1) False le last_in_set [OF False] sorted_le_last [of ns]
      by (auto simp: sorted_append)
    ultimately show ?thesis
      by (auto simp: window_of_def intro!: filter_cong)
  qed
  moreover have "filter ?P ns = filter (\<lambda>s. now - secs RATE_WINDOW_SECONDS < s \<and> s \<le> now) ns"
    using le by (intro filter_cong) auto
  moreover have "secs RATE_WINDOW_SECONDS > 0" by (simp add: secs_def RATE_WINDOW_SECONDS_def)
  ultimately show ?case
    by (simp add: uses_snoc cleanup_def record_call_def window_of_def Let_def)
qed

text \<open>While each use finds the token available, the window never holds more calls than the
  limit, and the usage of the day stays within the quota.\<close>

lemma available_count:
  assumes "is_token_available t now" "length (window_calls (rate_limit t)) \<le> unat (max_per_minute (rate_limit t))"
  shows "length (filter (\<lambda>s. s > now - secs RATE_WINDOW_SECONDS) (window_calls (rate_limit t)))
    < unat (max_per_minute (rate_limit t))"
proof -
  let ?n = "length (filter (\<lambda>s. s > now - secs RATE_WINDOW_SECONDS) (window_calls (rate_limit t)))"
  have "?n \<le> unat (max_per_minute (rate_limit t))"
    using assms(2) length_filter_le order_trans by blast
  then have "?n < 2 ^ 32" using unat_u32_less [of "max_per_minute (rate_limit t)"] by simp
  then have "unat (word_of_nat ?n :: u32) = ?n" by (simp add: unsigned_of_nat take_bit_nat_eq_self)
  then show ?thesis
    using assms(1) by (simp add: is_token_available_def is_limited_def calls_in_window_def Let_def
        word_le_nat_alt)
qed

lemma uses_window_bound:
  "window_calls (rate_limit t) = [] \<Longrightarrow> each_available t ns
     \<Longrightarrow> length (window_calls (rate_limit (uses t ns))) \<le> unat (max_per_minute (rate_limit t))"
proof (induction ns rule: rev_induct)
  case Nil
  then show ?case by (simp add: uses_def)
next
  case (snoc now ns)
  then have "length (filter (\<lambda>s. s > now - secs RATE_WINDOW_SECONDS) (window_calls (rate_limit (uses t ns))))
      < unat (max_per_minute (rate_limit t))"
    using available_count [of "uses t ns" now] by (simp add: each_available_snoc)
  then show ?case
    by (simp add: uses_snoc cleanup_def record_call_def Let_def)
qed

lemma uses_quota_bound:
  "daily_quota t = Some q \<Longrightarrow> daily_usage t \<le> q \<Longrightarrow> each_available t ns
     \<Longrightarrow> daily_usage (uses t ns) \<le> q"
proof (induction ns rule: rev_induct)
  case Nil
  then show ?case by (simp add: uses_def)
next
  case (snoc now ns)
  let ?t = "uses t ns"
  have less: "daily_usage ?t < q"
    using snoc.prems by (simp add: each_available_snoc is_token_available_def is_quota_exhausted_inner_def not_le)
  then have "daily_usage (maybe_reset_daily ?t now) < q"
    using less le_less_trans [OF word_zero_le less] by (auto simp: maybe_reset_daily_def)
  then show ?case
    by (simp add: uses_snoc use_token_def Let_def inc_le)
qed

section \<open>Properties\<close>

text \<open>Selecting a token never panics and leaves tokens and index alone. It fails exactly
  when the provider has no available token; otherwise it returns the value of an available
  token of the provider, under the strategies by quota and by tier a greatest one.\<close>

lemma select_spec:
  "case select now p prov of
     None \<Rightarrow> False
   | Some (r, p') \<Rightarrow> tokens p' = tokens p \<and> providers p' = providers p
       \<and> (case r of
            Inl _ \<Rightarrow> \<not> provider_has_capacity now p prov
          | Inr v \<Rightarrow> \<exists>t\<in>set (available_list p now (ids_of p prov)). v = token_value t
              \<and> is_token_available t now
              \<and> (case strategy p of
                   MostRemaining \<Rightarrow>
                     \<forall>u\<in>set (available_list p now (ids_of p prov)). remaining_quota u \<le> remaining_quota t
                 | TierPriority \<Rightarrow>
                     \<forall>u\<in>set (available_list p now (ids_of p prov)). \<not> tier_greater u t
                 | _ \<Rightarrow> True))"
proof (cases "providers p prov")
  case None
  then show ?thesis
    by (simp add: select_def provider_has_capacity_def available_for_provider_def)
next
  case (Some ids)
  let ?av = "available_list p now ids"
  have ids: "ids_of p prov = ids" using Some by (simp add: ids_of_def)
  have cap: "provider_has_capacity now p prov \<longleftrightarrow> ?av \<noteq> []"
    unfolding provider_has_capacity_def available_for_provider_def available_list_def Some
    by (induction ids) (auto simp: List.map_filter_def split: option.splits)
  have av: "is_token_available t now" if "t \<in> set ?av" for t
    using that by (simp add: available_list_def)
  show ?thesis
  proof (cases "?av = []")
    case True
    then show ?thesis using Some cap by (simp add: select_def)
  next
    case False
    then have len: "unat (round_robin_index p) mod length ?av < length ?av" by simp
    obtain w where w: "w \<in> set ?av" "select_weighted ?av (round_robin_index p) = Some w"
      using select_weighted_some [OF False] by blast
    obtain m where m: "select_most_remaining ?av = Some m"
      using False by (cases "select_most_remaining ?av") (simp_all add: select_most_remaining_def)
    obtain tp where tp: "select_tier_priority ?av = Some tp"
      using False by (cases "select_tier_priority ?av") (simp_all add: select_tier_priority_def)
    show ?thesis
      using Some False ids av w m tp select_most_remaining_greatest [OF m]
        select_tier_priority_greatest [OF tp] nth_mem [OF len]
      by (cases "strategy p") (auto simp: select_def Let_def select_round_robin_def intro!: bexI)
  qed
qed

definition sample_pool :: TokenPool where
  "sample_pool = foldl pool_step (pool_new MostRemaining)
     [AddToken 0 ''k1'' ''openai'' ''sk-1'' Free 5 (Some 10) 1,
      AddToken 0 ''k2'' ''openai'' ''sk-2'' Production 5 None 3]"

lemma select_spec_witness:
  "case select 0 sample_pool ''openai'' of
     None \<Rightarrow> False
   | Some (r, p') \<Rightarrow> tokens p' = tokens sample_pool \<and> providers p' = providers sample_pool
       \<and> (case r of
            Inl _ \<Rightarrow> \<not> provider_has_capacity 0 sample_pool ''openai''
          | Inr v \<Rightarrow> \<exists>t\<in>set (available_list sample_pool 0 (ids_of sample_pool ''openai'')).
              v = token_value t \<and> is_token_available t 0
              \<and> (case strategy sample_pool of
                   MostRemaining \<Rightarrow>
                     \<forall>u\<in>set (available_list sample_pool 0 (ids_of sample_pool ''openai'')).
                       remaining_quota u \<le> remaining_quota t
                 | TierPriority \<Rightarrow>
                     \<forall>u\<in>set (available_list sample_pool 0 (ids_of sample_pool ''openai'')).
                       \<not> tier_greater u t
                 | _ \<Rightarrow> True))"
  by (rule select_spec)

text \<open>The weighted strategy is exact: as the counter runs once through the sum of the
  weights, it answers each token as often as its weight, in the order of the list.\<close>

lemma weighted_selection_exact:
  assumes "length (weight_ring ts) < 2 ^ 64"
  shows "map (\<lambda>c. select_weighted ts (word_of_nat c)) [0..<length (weight_ring ts)]
    = map Some (weight_ring ts)"
proof (rule nth_equalityI)
  fix c
  assume "c < length (map (\<lambda>c. select_weighted ts (word_of_nat c)) [0..<length (weight_ring ts)])"
  then have c: "c < length (weight_ring ts)" by simp
  let ?W = "total_weight ts"
  have W: "unat ?W = length (weight_ring ts)" by (rule unat_total_weight [OF assms])
  have cw: "unat (word_of_nat c :: u64) = c"
    using c assms by (simp add: unsigned_of_nat take_bit_nat_eq_self)
  have "?W \<noteq> 0" using W c by auto
  moreover have "unat (word_of_nat c mod ?W) = c" using cw W c by (simp add: unat_mod_distrib)
  moreover have "weighted_scan (word_of_nat c mod ?W) 0 ts = Some (weight_ring ts ! c)"
    using weighted_scan_ring [of 0 ts "word_of_nat c mod ?W"] assms c calculation(2) by simp
  ultimately show "map (\<lambda>c. select_weighted ts (word_of_nat c)) [0..<length (weight_ring ts)] ! c
      = map Some (weight_ring ts) ! c"
    using c by (simp add: select_weighted_def)
qed simp

definition weighted_token :: "string \<Rightarrow> u32 \<Rightarrow> PooledToken" where
  "weighted_token i w =
     \<lparr>token_id = i, provider = ''openai'', token_value = i, tier = Free,
      rate_limit = rate_window_new 2, daily_quota = None, daily_usage = 0, quota_reset_at = day,
      total_usage = 0, total_errors = 0, last_used = None, last_error = None, enabled = True,
      weight = w\<rparr>"

lemma weighted_selection_exact_witness:
  "map (\<lambda>c. select_weighted [weighted_token ''a'' 1, weighted_token ''b'' 2] (word_of_nat c)) [0..<3]
     = map Some [weighted_token ''a'' 1, weighted_token ''b'' 2, weighted_token ''b'' 2]"
proof -
  let ?ts = "[weighted_token ''a'' 1, weighted_token ''b'' 2]"
  have ring: "weight_ring ?ts = [weighted_token ''a'' 1, weighted_token ''b'' 2, weighted_token ''b'' 2]"
    by (simp add: weight_ring_def weighted_token_def) (simp add: numeral_2_eq_2)
  show ?thesis using weighted_selection_exact [of ?ts] unfolding ring by (simp add: upt_conv_Cons)
qed

text \<open>C31: If every use of a new token finds it available and the clock does not run back, then
  in no window of 60 seconds are there more uses than the limit per minute, and the usage
  counted for the day never passes the quota.\<close>

theorem token_limits_respected:
  assumes "window_calls (rate_limit t) = []" "daily_usage t = 0" "sorted ns" "each_available t ns"
  shows "length (window_of T ns) \<le> unat (max_per_minute (rate_limit t))
    \<and> (case daily_quota t of None \<Rightarrow> True | Some q \<Rightarrow> daily_usage (uses t ns) \<le> q)"
proof
  show "length (window_of T ns) \<le> unat (max_per_minute (rate_limit t))"
    using assms(3,4)
  proof (induction ns rule: rev_induct)
    case Nil
    show ?case by (simp add: window_of_def)
  next
    case (snoc now ns)
    show ?case
    proof (cases "T < now")
      case True
      then show ?thesis using snoc by (simp add: window_of_def sorted_append each_available_snoc)
    next
      case False
      have "\<forall>s\<in>set ns. s \<le> now" using snoc.prems(1) by (simp add: sorted_append)
      then have eq: "window_of T (ns @ [now]) = window_of T (window_of now (ns @ [now]))"
        using False unfolding window_of_def filter_filter by (intro filter_cong refl) auto
      have "length (window_of T (ns @ [now])) \<le> length (window_of now (ns @ [now]))"
        unfolding eq by (subst window_of_def) (rule length_filter_le)
      also have "window_of now (ns @ [now]) = window_calls (rate_limit (uses t (ns @ [now])))"
        using uses_window [OF assms(1) snoc.prems(1)] by simp
      also have "length \<dots> \<le> unat (max_per_minute (rate_limit t))"
        by (rule uses_window_bound [OF assms(1) snoc.prems(2)])
      finally show ?thesis .
    qed
  qed
  show "case daily_quota t of None \<Rightarrow> True | Some q \<Rightarrow> daily_usage (uses t ns) \<le> q"
    using uses_quota_bound [OF _ _ assms(4)] assms(2) by (cases "daily_quota t") simp_all
qed

theorem token_limits_respected_witness:
  "length (window_of 5 [0, 1]) \<le> unat (max_per_minute (rate_limit (weighted_token ''a'' 1)))
    \<and> (case daily_quota (weighted_token ''a'' 1) of None \<Rightarrow> True
       | Some q \<Rightarrow> daily_usage (uses (weighted_token ''a'' 1) [0, 1]) \<le> q)"
  by (rule token_limits_respected)
    (simp_all add: weighted_token_def rate_window_new_def is_token_available_def is_limited_def
      calls_in_window_def is_quota_exhausted_inner_def use_token_def maybe_reset_daily_def
      cleanup_def record_call_def Let_def day_def secs_def RATE_WINDOW_SECONDS_def,
      simp_all add: word_le_nat_alt)

text \<open>After any sequence of calls on a new pool the provider index and the token table
  agree: a provider's list holds the tokens of that provider, each once, and no list is empty.\<close>

lemma pool_index_consistent:
  "(let p = foldl pool_step (pool_new s) ops
    in providers p prov \<noteq> Some [] \<and> distinct (ids_of p prov)
       \<and> set (ids_of p prov) = {i. provider_of p i = Some prov})"
  using pool.run_inv [OF pool_ok_new] by (simp add: pool_ok_def Let_def)

text \<open>The remaining quota that \<open>pool_health\<close> reports wraps: with two unlimited tokens and
  one of quota 2, all available, it is 0.\<close>

lemma health_remaining_wraps:
  "(let p = foldl pool_step (pool_new s)
       [AddToken 0 ''a'' ''x'' ''v'' Free 1 None 1, AddToken 0 ''b'' ''x'' ''v'' Free 1 None 1,
        AddToken 0 ''c'' ''x'' ''v'' Free 1 (Some 2) 1];
        h = pool_health 0 p ''x''
    in (available_tokens h, total_daily_remaining h)) = (3, 0)"
  by (simp add: pool_new_def add_token_def ok_or_def Let_def pool_health_def count_token_def
      List.map_filter_def rate_window_new_def is_token_available_def is_limited_def
      calls_in_window_def is_quota_exhausted_inner_def saturating_add_def saturating_sub_def)

end
