(* ===== verification/ProxyOrchestrator.thy ===== *)
theory ProxyOrchestrator
  imports CoreTypes Interfaces
begin

text \<open>
  \<open>argentor-mcp/src/proxy_orchestrator.rs\<close>: tool calls are routed to a group of proxies by rules,
  within the group to a proxy by a strategy, and a proxy that fails repeatedly is cut off for a
  time. An \<open>Arc<McpProxy>\<close> is its address; running a call on it is outside, and its outcome is
  an input. Each pass over the proxies that reads the clock does so at one instant. Instants are
  nanoseconds; the range of \<open>chrono\<close>, poisoned locks and logging are not modelled.
\<close>

datatype RoutingStrategy = Fixed | RoundRobin | LeastLoaded | PatternBased

record RoutingRule =
  rule_name :: string
  tool_pattern :: "string option"
  agent_roles :: "string list"
  target_group :: string
  priority :: u32

record ManagedProxy =
  proxy_id :: string
  group :: string
  proxy :: nat
  proxy_enabled :: bool
  consecutive_failures :: u32
  circuit_open :: bool
  circuit_open_until :: "int option"
  total_calls :: u64
  last_call :: "int option"

record CircuitBreakerConfig =
  failure_threshold :: u32
  cooldown_secs :: u64
  half_open_max_calls :: u32

definition default_breaker_config :: CircuitBreakerConfig where
  "default_breaker_config = \<lparr>failure_threshold = 5, cooldown_secs = 30, half_open_max_calls = 3\<rparr>"

record ProxyInfo =
  pi_id :: string
  pi_group :: string
  pi_enabled :: bool
  pi_circuit_open :: bool
  pi_consecutive_failures :: u32
  pi_total_calls :: u64
  pi_last_call :: "int option"

record OrchestratorMetrics =
  total_proxies :: nat
  active_proxies :: nat
  circuit_open_proxies :: nat
  om_total_calls :: u64
  total_failures :: u64
  calls_per_group :: "string \<rightharpoonup> u64"
  routing_rules_count :: nat

record ProxyOrchestrator =
  proxies :: "ManagedProxy list"
  rules :: "RoutingRule list"
  strategy :: RoutingStrategy
  circuit_breaker :: CircuitBreakerConfig
  round_robin_counter :: u64

definition orchestrator_new :: "RoutingStrategy \<Rightarrow> CircuitBreakerConfig \<Rightarrow> ProxyOrchestrator" where
  "orchestrator_new s cb =
     \<lparr>proxies = [], rules = [], strategy = s, circuit_breaker = cb, round_robin_counter = 0\<rparr>"

section \<open>Proxies and rules\<close>

definition in_quotes :: "string \<Rightarrow> string" where
  "in_quotes s = [CHR 0x27] @ s @ [CHR 0x27]"

definition proxy_not_found :: "string \<Rightarrow> ArgentorError" where
  "proxy_not_found i = Skill (''Proxy '' @ in_quotes i @ '' not found'')"

definition add_proxy ::
  "ProxyOrchestrator \<Rightarrow> string \<Rightarrow> string \<Rightarrow> nat \<Rightarrow> ArgentorError + ProxyOrchestrator" where
  "add_proxy orch i g px =
     (if list_ex (\<lambda>p. proxy_id p = i) (proxies orch)
      then Inl (Skill (''Proxy with id '' @ in_quotes i @ '' already exists''))
      else Inr (orch\<lparr>proxies := proxies orch @
             [\<lparr>proxy_id = i, group = g, proxy = px, proxy_enabled = True, consecutive_failures = 0,
               circuit_open = False, circuit_open_until = None, total_calls = 0,
               last_call = None\<rparr>]\<rparr>))"

text \<open>The first proxy with an identifier: removed, or updated in place.\<close>

fun drop_proxy :: "string \<Rightarrow> ManagedProxy list \<Rightarrow> ManagedProxy list option" where
  "drop_proxy i [] = None"
| "drop_proxy i (p # ps) =
     (if proxy_id p = i then Some ps else map_option ((#) p) (drop_proxy i ps))"

fun update_proxy ::
  "string \<Rightarrow> (ManagedProxy \<Rightarrow> ManagedProxy) \<Rightarrow> ManagedProxy list \<Rightarrow> ManagedProxy list" where
  "update_proxy i f [] = []"
| "update_proxy i f (p # ps) = (if proxy_id p = i then f p # ps else p # update_proxy i f ps)"

definition find_proxy :: "ProxyOrchestrator \<Rightarrow> string \<Rightarrow> ManagedProxy option" where
  "find_proxy orch i = List.find (\<lambda>p. proxy_id p = i) (proxies orch)"

definition remove_proxy :: "ProxyOrchestrator \<Rightarrow> string \<Rightarrow> ArgentorError + ProxyOrchestrator" where
  "remove_proxy orch i =
     (case drop_proxy i (proxies orch) of
        None \<Rightarrow> Inl (proxy_not_found i)
      | Some ps \<Rightarrow> Inr (orch\<lparr>proxies := ps\<rparr>))"

definition switch_proxy ::
  "bool \<Rightarrow> ProxyOrchestrator \<Rightarrow> string \<Rightarrow> ArgentorError + ProxyOrchestrator" where
  "switch_proxy b orch i =
     (case find_proxy orch i of
        None \<Rightarrow> Inl (proxy_not_found i)
      | Some _ \<Rightarrow>
          Inr (orch\<lparr>proxies := update_proxy i (\<lambda>p. p\<lparr>proxy_enabled := b\<rparr>) (proxies orch)\<rparr>))"

definition enable_proxy :: "ProxyOrchestrator \<Rightarrow> string \<Rightarrow> ArgentorError + ProxyOrchestrator" where
  "enable_proxy = switch_proxy True"

definition disable_proxy :: "ProxyOrchestrator \<Rightarrow> string \<Rightarrow> ArgentorError + ProxyOrchestrator" where
  "disable_proxy = switch_proxy False"

definition add_rule :: "ProxyOrchestrator \<Rightarrow> RoutingRule \<Rightarrow> ProxyOrchestrator" where
  "add_rule orch r = orch\<lparr>rules := rules orch @ [r]\<rparr>"

definition remove_rule :: "ProxyOrchestrator \<Rightarrow> string \<Rightarrow> ProxyOrchestrator" where
  "remove_rule orch name = orch\<lparr>rules := filter (\<lambda>r. rule_name r \<noteq> name) (rules orch)\<rparr>"

definition set_routing_strategy :: "ProxyOrchestrator \<Rightarrow> RoutingStrategy \<Rightarrow> ProxyOrchestrator" where
  "set_routing_strategy orch s = orch\<lparr>strategy := s\<rparr>"

section \<open>Routing\<close>

definition proxy_matches_pattern :: "string \<Rightarrow> string \<Rightarrow> bool" where
  "proxy_matches_pattern pattern val =
     (if pattern = ''*'' then True
      else case (prefix ''*'' pattern, suffix ''*'' pattern) of
             (True, True) \<Rightarrow> str_contains val (butlast (tl pattern))
           | (True, False) \<Rightarrow> suffix (tl pattern) val
           | (False, True) \<Rightarrow> prefix (butlast pattern) val
           | (False, False) \<Rightarrow> pattern = val)"

definition rule_matches :: "string \<Rightarrow> string option \<Rightarrow> RoutingRule \<Rightarrow> bool" where
  "rule_matches tool_name agent_role rule \<longleftrightarrow>
     (case tool_pattern rule of None \<Rightarrow> True | Some pattern \<Rightarrow> proxy_matches_pattern pattern tool_name)
     \<and> (if agent_roles rule = [] then True
        else case agent_role of
               Some role \<Rightarrow> list_ex (\<lambda>r. r = role) (agent_roles rule)
             | None \<Rightarrow> False)"

text \<open>\<open>sort_by_key\<close> is stable.\<close>

definition find_target_group ::
  "RoutingRule list \<Rightarrow> string \<Rightarrow> string option \<Rightarrow> ArgentorError + string" where
  "find_target_group rs tool_name agent_role =
     (if rs = [] then Inr ''*''
      else let sorted = sort_key (\<lambda>r. - int (unat (priority r))) rs
           in case List.find (rule_matches tool_name agent_role) sorted of
                Some rule \<Rightarrow> Inr (target_group rule)
              | None \<Rightarrow>
                  Inl (Skill (''No routing rule matches tool '' @ in_quotes tool_name
                    @ '' with role '' @ in_quotes
                      (case agent_role of Some role \<Rightarrow> role | None \<Rightarrow> ''<none>''))))"

definition is_circuit_effectively_open :: "int \<Rightarrow> ManagedProxy \<Rightarrow> bool" where
  "is_circuit_effectively_open now p \<longleftrightarrow>
     (if \<not> circuit_open p then False
      else case circuit_open_until p of Some t \<Rightarrow> now < t | None \<Rightarrow> True)"

definition is_half_open :: "int \<Rightarrow> ManagedProxy \<Rightarrow> bool" where
  "is_half_open now p \<longleftrightarrow>
     (if \<not> circuit_open p then False
      else case circuit_open_until p of Some t \<Rightarrow> now \<ge> t | None \<Rightarrow> False)"

definition candidates :: "int \<Rightarrow> string \<Rightarrow> ManagedProxy list \<Rightarrow> ManagedProxy list" where
  "candidates now g ps =
     filter (\<lambda>p. group p = g \<and> proxy_enabled p \<and> \<not> is_circuit_effectively_open now p) ps"

text \<open>\<open>min_by_key\<close>: the first of the least.\<close>

definition least_loaded :: "ManagedProxy list \<Rightarrow> ManagedProxy" where
  "least_loaded ps =
     foldl (\<lambda>best p. if total_calls p < total_calls best then p else best) (hd ps) (tl ps)"

text \<open>\<open>route\<close> reads the clock for the candidates (\<open>now\<close>) and, when there is none, again for the
  half-open proxies (\<open>later\<close>). It moves the round-robin counter on.\<close>

definition route ::
  "int \<Rightarrow> int \<Rightarrow> ProxyOrchestrator \<Rightarrow> string \<Rightarrow> string option
     \<Rightarrow> (ArgentorError + nat) \<times> ProxyOrchestrator" where
  "route now later orch tool_name agent_role =
     (if proxies orch = []
      then (Inl (Skill ''No proxies registered in the orchestrator''), orch)
      else case find_target_group (rules orch) tool_name agent_role of
             Inl e \<Rightarrow> (Inl e, orch)
           | Inr g \<Rightarrow>
               let cs = candidates now g (proxies orch)
               in if cs = []
                  then case filter (\<lambda>p. group p = g \<and> proxy_enabled p \<and> is_half_open later p) (proxies orch) of
                         [] \<Rightarrow> (Inl (Skill (''No available proxies in group '' @ in_quotes g
                                  @ '' (all circuits open or disabled)'')), orch)
                       | p # _ \<Rightarrow> (Inr (proxy p), orch)
                  else (case strategy orch of
                          Fixed \<Rightarrow> (Inr (proxy (hd cs)), orch)
                        | RoundRobin \<Rightarrow>
                            (Inr (proxy (cs ! (unat (round_robin_counter orch) mod length cs))),
                             orch\<lparr>round_robin_counter := round_robin_counter orch + 1\<rparr>)
                        | LeastLoaded \<Rightarrow> (Inr (proxy (least_loaded cs)), orch)
                        | PatternBased \<Rightarrow> (Inr (proxy (hd cs)), orch)))"

section \<open>Circuit breaking and execution\<close>

definition proxy_success :: "ManagedProxy \<Rightarrow> ManagedProxy" where
  "proxy_success p =
     (let p = p\<lparr>consecutive_failures := 0\<rparr>
      in if circuit_open p then p\<lparr>circuit_open := False, circuit_open_until := None\<rparr> else p)"

definition proxy_record_success :: "ProxyOrchestrator \<Rightarrow> string \<Rightarrow> ProxyOrchestrator" where
  "proxy_record_success orch i = orch\<lparr>proxies := update_proxy i proxy_success (proxies orch)\<rparr>"

text \<open>\<open>Duration::seconds(cooldown_secs as i64)\<close>, in nanoseconds.\<close>

definition cooldown :: "CircuitBreakerConfig \<Rightarrow> int" where
  "cooldown cb = sint (cooldown_secs cb) * 1000000000"

definition proxy_failure :: "CircuitBreakerConfig \<Rightarrow> int \<Rightarrow> ManagedProxy \<Rightarrow> ManagedProxy" where
  "proxy_failure cb now p =
     (let p = p\<lparr>consecutive_failures := consecutive_failures p + 1\<rparr>
      in if consecutive_failures p \<ge> failure_threshold cb \<and> \<not> circuit_open p
         then p\<lparr>circuit_open := True, circuit_open_until := Some (now + cooldown cb)\<rparr> else p)"

definition proxy_record_failure :: "int \<Rightarrow> ProxyOrchestrator \<Rightarrow> string \<Rightarrow> ProxyOrchestrator" where
  "proxy_record_failure now orch i =
     orch\<lparr>proxies := update_proxy i (proxy_failure (circuit_breaker orch) now) (proxies orch)\<rparr>"

definition check_circuit :: "int \<Rightarrow> ProxyOrchestrator \<Rightarrow> string \<Rightarrow> bool" where
  "check_circuit now orch i =
     (case find_proxy orch i of Some p \<Rightarrow> is_circuit_effectively_open now p | None \<Rightarrow> False)"

definition reset_circuit :: "ProxyOrchestrator \<Rightarrow> string \<Rightarrow> ProxyOrchestrator" where
  "reset_circuit orch i =
     orch\<lparr>proxies := update_proxy i
            (\<lambda>p. p\<lparr>circuit_open := False, circuit_open_until := None, consecutive_failures := 0\<rparr>)
            (proxies orch)\<rparr>"

text \<open>\<open>execute\<close>, in two parts around the call itself, which may take any time and let other calls in
  between: choosing the proxy and counting the call, and recording its outcome. The outcome is
  an error of the transport or a \<open>ToolResult\<close>, of which only \<open>is_error\<close> is read.\<close>

definition execute_start ::
  "int \<Rightarrow> int \<Rightarrow> int \<Rightarrow> ProxyOrchestrator \<Rightarrow> string \<Rightarrow> string option
     \<Rightarrow> (ArgentorError + nat \<times> string) \<times> ProxyOrchestrator" where
  "execute_start now later called orch tool_name agent_role =
     (case route now later orch tool_name agent_role of
        (Inl e, orch) \<Rightarrow> (Inl e, orch)
      | (Inr px, orch) \<Rightarrow>
          let i = (case List.find (\<lambda>p. proxy p = px) (proxies orch) of
                     Some p \<Rightarrow> proxy_id p | None \<Rightarrow> [])
          in (Inr (px, i),
              orch\<lparr>proxies := update_proxy i
                (\<lambda>p. p\<lparr>total_calls := total_calls p + 1, last_call := Some called\<rparr>) (proxies orch)\<rparr>))"

definition execute_finish ::
  "int \<Rightarrow> ProxyOrchestrator \<Rightarrow> string \<Rightarrow> ArgentorError + bool \<Rightarrow> ProxyOrchestrator" where
  "execute_finish now orch i outcome =
     (case outcome of
        Inr is_error \<Rightarrow> if \<not> is_error then proxy_record_success orch i else proxy_record_failure now orch i
      | Inl _ \<Rightarrow> proxy_record_failure now orch i)"

section \<open>Observability\<close>

definition count_proxy :: "int \<Rightarrow> OrchestratorMetrics \<Rightarrow> ManagedProxy \<Rightarrow> OrchestratorMetrics" where
  "count_proxy now m p =
     m\<lparr>om_total_calls := om_total_calls m + total_calls p,
       total_failures := total_failures m + ucast (consecutive_failures p),
       calls_per_group := (calls_per_group m)(group p \<mapsto>
         (case calls_per_group m (group p) of Some n \<Rightarrow> n | None \<Rightarrow> 0) + total_calls p),
       active_proxies := active_proxies m
         + of_bool (proxy_enabled p \<and> \<not> is_circuit_effectively_open now p),
       circuit_open_proxies := circuit_open_proxies m + of_bool (is_circuit_effectively_open now p)\<rparr>"

definition metrics :: "int \<Rightarrow> ProxyOrchestrator \<Rightarrow> OrchestratorMetrics" where
  "metrics now orch =
     foldl (count_proxy now)
       \<lparr>total_proxies = length (proxies orch), active_proxies = 0, circuit_open_proxies = 0,
        om_total_calls = 0, total_failures = 0, calls_per_group = Map.empty,
        routing_rules_count = length (rules orch)\<rparr> (proxies orch)"

definition list_proxies :: "ProxyOrchestrator \<Rightarrow> ProxyInfo list" where
  "list_proxies orch =
     map (\<lambda>p. \<lparr>pi_id = proxy_id p, pi_group = group p, pi_enabled = proxy_enabled p,
               pi_circuit_open = circuit_open p, pi_consecutive_failures = consecutive_failures p,
               pi_total_calls = total_calls p, pi_last_call = last_call p\<rparr>) (proxies orch)"

section \<open>Lemmas\<close>

lemma least_loaded_least:
  assumes "ps \<noteq> []"
  shows "least_loaded ps \<in> set ps \<and> (\<forall>p\<in>set ps. total_calls (least_loaded ps) \<le> total_calls p)"
proof -
  obtain x ys where ps: "ps = x # ys" using assms by (cases ps) auto
  let ?f = "\<lambda>best p. if total_calls p < total_calls best then p else best"
  have "foldl ?f x ys \<in> set (x # ys) \<and> (\<forall>p\<in>set (x # ys). total_calls (foldl ?f x ys) \<le> total_calls p)"
    by (induction ys rule: rev_induct) (auto simp: not_less intro: less_imp_le order.trans)
  with ps show ?thesis by (simp add: least_loaded_def)
qed

lemma set_candidates:
  "p \<in> set (candidates now g ps) \<longleftrightarrow>
     p \<in> set ps \<and> group p = g \<and> proxy_enabled p \<and> \<not> is_circuit_effectively_open now p"
  by (auto simp: candidates_def)

text \<open>At one instant a half-open proxy is a candidate already.\<close>

lemma half_open_is_candidate: "is_half_open now p \<Longrightarrow> \<not> is_circuit_effectively_open now p"
  by (auto simp: is_half_open_def is_circuit_effectively_open_def split: option.splits if_splits)

lemma find_filter: "List.find P xs = (case filter P xs of [] \<Rightarrow> None | x # _ \<Rightarrow> Some x)"
  by (induction xs) auto

text \<open>The head of a stable sort is the first of the least elements.\<close>

lemma sort_key_head:
  fixes f :: "'a \<Rightarrow> int"
  shows "sort_key f xs = r # rest \<Longrightarrow>
    \<exists>as bs. xs = as @ r # bs \<and> (\<forall>a\<in>set as. f r < f a) \<and> (\<forall>b\<in>set bs. f r \<le> f b)"
proof (induction xs arbitrary: r rest)
  case Nil
  then show ?case by simp
next
  case (Cons x xs)
  show ?case
  proof (cases "sort_key f xs")
    case Nil
    then have "xs = []" by (metis length_0_conv length_sort)
    then show ?thesis using Cons.prems by (intro exI [of _ "[]"]) auto
  next
    case (Cons y ys)
    obtain as bs where ab: "xs = as @ y # bs" "\<forall>a\<in>set as. f y < f a" "\<forall>b\<in>set bs. f y \<le> f b"
      using Cons.IH [OF Cons] by blast
    show ?thesis
    proof (cases "f x \<le> f y")
      case True
      then have "r = x" using Cons.prems Cons by simp
      moreover have "\<forall>b\<in>set xs. f x \<le> f b" using ab True by (auto intro: less_imp_le order.trans)
      ultimately show ?thesis by (intro exI [of _ "[]"] exI [of _ xs]) simp
    next
      case False
      then have "r = y" using Cons.prems Cons by simp
      then show ?thesis using ab False by (intro exI [of _ "x # as"] exI [of _ bs]) auto
    qed
  qed
qed

lemma filter_split:
  "filter P xs = as @ r # bs \<Longrightarrow>
     \<exists>us vs. xs = us @ r # vs \<and> P r \<and> filter P us = as \<and> filter P vs = bs"
proof (induction xs arbitrary: as)
  case Nil
  then show ?case by simp
next
  case (Cons x xs)
  show ?case
  proof (cases "P x")
    case False
    then obtain us vs where "xs = us @ r # vs" "P r" "filter P us = as" "filter P vs = bs"
      using Cons by auto
    then show ?thesis using False by (intro exI [of _ "x # us"] exI [of _ vs]) simp
  next
    case True
    show ?thesis
    proof (cases as)
      case Nil
      then show ?thesis using Cons.prems True by (intro exI [of _ "[]"] exI [of _ xs]) simp
    next
      case (Cons a as')
      then obtain us vs where "xs = us @ r # vs" "P r" "filter P us = as'" "filter P vs = bs"
        using Cons.IH [of as'] Cons.prems True by auto
      then show ?thesis using Cons Cons.prems True by (intro exI [of _ "x # us"] exI [of _ vs]) simp
    qed
  qed
qed

lemma find_update_proxy:
  assumes "\<And>p. proxy_id (f p) = proxy_id p"
  shows "List.find (\<lambda>p. proxy_id p = i) (update_proxy j f ps) =
    map_option (if i = j then f else id) (List.find (\<lambda>p. proxy_id p = i) ps)"
  by (induction ps) (auto simp: assms option.map_ident id_def)

lemma proxy_id_update [simp]:
  "proxy_id (proxy_failure cb now p) = proxy_id p" "proxy_id (proxy_success p) = proxy_id p"
  by (simp_all add: proxy_failure_def proxy_success_def Let_def)

lemma proxy_failure_open:
  "circuit_open p \<Longrightarrow> circuit_open (proxy_failure cb now p)
     \<and> circuit_open_until (proxy_failure cb now p) = circuit_open_until p"
  by (simp add: proxy_failure_def Let_def)

text \<open>What a proxy must be to receive a call for a group at an instant.\<close>

definition serves :: "string \<Rightarrow> int \<Rightarrow> ManagedProxy \<Rightarrow> bool" where
  "serves g now p \<longleftrightarrow> group p = g \<and> proxy_enabled p
     \<and> (circuit_open p \<longrightarrow> (\<exists>t. circuit_open_until p = Some t \<and> t \<le> now))"

lemma serves_iff: "serves g now p \<longleftrightarrow>
    group p = g \<and> proxy_enabled p \<and> \<not> is_circuit_effectively_open now p"
  by (auto simp: serves_def is_circuit_effectively_open_def split: option.splits)

lemma serves_half_open: "circuit_open p \<Longrightarrow> serves g now p \<longleftrightarrow>
    group p = g \<and> proxy_enabled p \<and> is_half_open now p"
  by (auto simp: serves_def is_half_open_def split: option.splits)

lemma serves_later: "serves g now p \<Longrightarrow> now \<le> later \<Longrightarrow> serves g later p"
  by (auto simp: serves_def)

lemma set_candidates_serves: "p \<in> set (candidates now g ps) \<longleftrightarrow> p \<in> set ps \<and> serves g now p"
  by (simp add: set_candidates serves_iff)

lemma route_candidates:
  assumes "proxies orch \<noteq> []" "find_target_group (rules orch) tool_name agent_role = Inr g"
    and "candidates now g (proxies orch) \<noteq> []"
  shows "\<exists>p orch'. route now later orch tool_name agent_role = (Inr (proxy p), orch')
    \<and> p \<in> set (candidates now g (proxies orch))
    \<and> proxies orch' = proxies orch \<and> rules orch' = rules orch
    \<and> (strategy orch = LeastLoaded \<longrightarrow>
         (\<forall>q\<in>set (candidates now g (proxies orch)). total_calls p \<le> total_calls q))"
proof -
  let ?cs = "candidates now g (proxies orch)"
  let ?i = "unat (round_robin_counter orch) mod length ?cs"
  have hd: "hd ?cs \<in> set ?cs" and nth: "?cs ! ?i \<in> set ?cs" using assms(3) by simp_all
  note least = least_loaded_least [OF assms(3)]
  show ?thesis
  proof (cases "strategy orch")
    case Fixed
    then show ?thesis using assms hd by (intro exI [of _ "hd ?cs"]) (simp add: route_def)
  next
    case RoundRobin
    then show ?thesis using assms nth by (intro exI [of _ "?cs ! ?i"]) (simp add: route_def Let_def)
  next
    case LeastLoaded
    then show ?thesis using assms least by (intro exI [of _ "least_loaded ?cs"]) (simp add: route_def)
  next
    case PatternBased
    then show ?thesis using assms hd by (intro exI [of _ "hd ?cs"]) (simp add: route_def)
  qed
qed

text \<open>Without a candidate: the first proxy that has become half-open since, or an error.\<close>

lemma route_no_candidates:
  assumes "proxies orch \<noteq> []" "find_target_group (rules orch) tool_name agent_role = Inr g"
    and "candidates now g (proxies orch) = []"
  shows "(\<exists>p. route now later orch tool_name agent_role = (Inr (proxy p), orch)
            \<and> p \<in> set (proxies orch) \<and> serves g later p)
    \<or> (\<exists>e. route now later orch tool_name agent_role = (Inl e, orch)
            \<and> (\<forall>p\<in>set (proxies orch). \<not> serves g later p))"
proof -
  let ?hs = "filter (\<lambda>p. group p = g \<and> proxy_enabled p \<and> is_half_open later p) (proxies orch)"
  have "circuit_open p" if "p \<in> set (proxies orch)" "group p = g" "proxy_enabled p" for p
  proof (rule ccontr)
    assume "\<not> circuit_open p"
    then have "p \<in> set (candidates now g (proxies orch))"
      using that by (simp add: set_candidates is_circuit_effectively_open_def)
    then show False using assms(3) by simp
  qed
  then have hs: "set ?hs = {p \<in> set (proxies orch). serves g later p}"
    using serves_half_open [of _ g later] by (auto simp: serves_def)
  show ?thesis
  proof (cases ?hs)
    case Nil
    with hs show ?thesis using assms by (auto simp: route_def)
  next
    case (Cons p ps)
    with hs have "p \<in> set (proxies orch) \<and> serves g later p" by auto
    then show ?thesis using assms Cons by (auto simp: route_def)
  qed
qed

section \<open>Histories\<close>

text \<open>The calls of the public methods, as events; a call that fails leaves the state alone.\<close>

datatype orch_event =
    AddProxy string string nat
  | RemoveProxy string
  | SwitchProxy bool string
  | AddRule RoutingRule
  | RemoveRule string
  | SetStrategy RoutingStrategy
  | RouteCall int int string "string option"
  | ExecuteStart int int int string "string option"
  | ExecuteFinish int string "ArgentorError + bool"
  | ProxySuccess string
  | ProxyFailure int string
  | ResetCircuit string

definition or_else_same :: "ProxyOrchestrator \<Rightarrow> ArgentorError + ProxyOrchestrator \<Rightarrow> ProxyOrchestrator" where
  "or_else_same orch res = (case res of Inl _ \<Rightarrow> orch | Inr orch' \<Rightarrow> orch')"

fun orch_step :: "ProxyOrchestrator \<Rightarrow> orch_event \<Rightarrow> ProxyOrchestrator" where
  "orch_step orch (AddProxy i g px) = or_else_same orch (add_proxy orch i g px)"
| "orch_step orch (RemoveProxy i) = or_else_same orch (remove_proxy orch i)"
| "orch_step orch (SwitchProxy True i) = or_else_same orch (enable_proxy orch i)"
| "orch_step orch (SwitchProxy False i) = or_else_same orch (disable_proxy orch i)"
| "orch_step orch (AddRule r) = add_rule orch r"
| "orch_step orch (RemoveRule name) = remove_rule orch name"
| "orch_step orch (SetStrategy s) = set_routing_strategy orch s"
| "orch_step orch (RouteCall now later tool_name agent_role) = snd (route now later orch tool_name agent_role)"
| "orch_step orch (ExecuteStart now later called tool_name agent_role) =
     snd (execute_start now later called orch tool_name agent_role)"
| "orch_step orch (ExecuteFinish now i outcome) = execute_finish now orch i outcome"
| "orch_step orch (ProxySuccess i) = proxy_record_success orch i"
| "orch_step orch (ProxyFailure now i) = proxy_record_failure now orch i"
| "orch_step orch (ResetCircuit i) = reset_circuit orch i"

text \<open>Identifiers are distinct; an open circuit has a deadline and a closed one has not, and a
  closed circuit has seen fewer failures in a row than the threshold.\<close>

definition proxy_ok :: "CircuitBreakerConfig \<Rightarrow> ManagedProxy \<Rightarrow> bool" where
  "proxy_ok cb p \<longleftrightarrow> (circuit_open p \<longleftrightarrow> circuit_open_until p \<noteq> None)
     \<and> (\<not> circuit_open p \<longrightarrow>
          consecutive_failures p = 0 \<or> consecutive_failures p < failure_threshold cb)"

definition orch_ok :: "CircuitBreakerConfig \<Rightarrow> ProxyOrchestrator \<Rightarrow> bool" where
  "orch_ok cb orch \<longleftrightarrow> circuit_breaker orch = cb \<and> distinct (map proxy_id (proxies orch))
     \<and> (\<forall>p\<in>set (proxies orch). proxy_ok cb p)"

lemma proxy_ok_failure: "proxy_ok cb p \<Longrightarrow> proxy_ok cb (proxy_failure cb now p)"
  by (auto simp: proxy_ok_def proxy_failure_def Let_def)

lemma proxy_ok_success: "proxy_ok cb p \<Longrightarrow> proxy_ok cb (proxy_success p)"
  by (auto simp: proxy_ok_def proxy_success_def Let_def)

lemma map_proxy_id_update:
  "(\<And>p. proxy_id (f p) = proxy_id p) \<Longrightarrow> map proxy_id (update_proxy i f ps) = map proxy_id ps"
  by (induction ps) auto

lemma set_update_proxy: "q \<in> set (update_proxy i f ps) \<Longrightarrow> q \<in> set ps \<or> (\<exists>p\<in>set ps. q = f p)"
  by (induction ps) (auto split: if_splits)

lemma orch_ok_update:
  assumes "orch_ok cb orch" "\<And>p. proxy_id (f p) = proxy_id p" "\<And>p. proxy_ok cb p \<Longrightarrow> proxy_ok cb (f p)"
  shows "orch_ok cb (orch\<lparr>proxies := update_proxy i f (proxies orch)\<rparr>)"
proof -
  have "proxy_ok cb q" if "q \<in> set (update_proxy i f (proxies orch))" for q
    using set_update_proxy [OF that] assms(1,3) by (auto simp: orch_ok_def)
  then show ?thesis using assms(1,2) by (auto simp: orch_ok_def map_proxy_id_update)
qed

lemma drop_proxy_Some:
  "drop_proxy i ps = Some qs \<Longrightarrow> set qs \<subseteq> set ps
     \<and> (distinct (map proxy_id ps) \<longrightarrow> distinct (map proxy_id qs) \<and> i \<notin> proxy_id ` set qs)"
  by (induction ps arbitrary: qs) (fastforce split: if_splits)+

lemma orch_ok_same:
  "orch_ok cb orch \<Longrightarrow> proxies orch' = proxies orch \<Longrightarrow> circuit_breaker orch' = circuit_breaker orch
     \<Longrightarrow> orch_ok cb orch'"
  by (simp add: orch_ok_def)

lemma route_same:
  "proxies (snd (route now later orch tool_name agent_role)) = proxies orch"
  "circuit_breaker (snd (route now later orch tool_name agent_role)) = circuit_breaker orch"
  by (simp_all add: route_def Let_def split: sum.split list.split RoutingStrategy.split)

lemma orch_ok_switch: "orch_ok cb orch \<Longrightarrow> orch_ok cb (or_else_same orch (switch_proxy b orch i))"
  by (auto simp: switch_proxy_def or_else_same_def proxy_ok_def split: option.split
      intro!: orch_ok_update)

lemma orch_ok_success: "orch_ok cb orch \<Longrightarrow> orch_ok cb (proxy_record_success orch i)"
  by (auto simp: proxy_record_success_def intro!: orch_ok_update proxy_ok_success)

lemma orch_ok_failure: "orch_ok cb orch \<Longrightarrow> orch_ok cb (proxy_record_failure now orch i)"
  by (frule orch_ok_update [of cb orch "proxy_failure cb now" i])
    (auto simp: proxy_record_failure_def orch_ok_def [of _ orch] intro: proxy_ok_failure)

lemma orch_ok_add: "orch_ok cb orch \<Longrightarrow> orch_ok cb (or_else_same orch (add_proxy orch i g px))"
  by (auto simp: add_proxy_def or_else_same_def orch_ok_def proxy_ok_def list_ex_iff)

lemma orch_ok_remove: "orch_ok cb orch \<Longrightarrow> orch_ok cb (or_else_same orch (remove_proxy orch i))"
  using drop_proxy_Some [of i "proxies orch"]
  by (auto simp: remove_proxy_def or_else_same_def orch_ok_def split: option.split)

lemma orch_ok_start: "orch_ok cb orch \<Longrightarrow> orch_ok cb (snd (execute_start now later called orch n r))"
  using orch_ok_same [OF _ route_same, of cb orch now later n r]
  by (auto simp: execute_start_def Let_def proxy_ok_def split: prod.split sum.split
      intro!: orch_ok_update)

lemma orch_ok_step: "orch_ok cb orch \<Longrightarrow> orch_ok cb (orch_step orch e)"
proof (induction orch e rule: orch_step.induct)
  case (13 orch i)
  then show ?case by (auto simp: reset_circuit_def proxy_ok_def intro!: orch_ok_update)
next
  case (10 orch now i outcome)
  then show ?case
    by (simp add: execute_finish_def orch_ok_success orch_ok_failure split: sum.split)
next
  case (8 orch now later n r)
  then show ?case by (simp add: orch_ok_same [OF _ route_same])
qed (simp_all add: orch_ok_add orch_ok_remove orch_ok_switch orch_ok_start orch_ok_success
    orch_ok_failure enable_proxy_def disable_proxy_def orch_ok_same add_rule_def remove_rule_def
    set_routing_strategy_def)

interpretation orchestrator: state_machine orch_step "orch_ok cb" for cb
  by unfold_locales (rule orch_ok_step)

lemma orchestrator_run_ok: "orch_ok cb (foldl orch_step (orchestrator_new s cb) es)"
  by (rule orchestrator.run_inv) (simp add: orch_ok_def orchestrator_new_def)

text \<open>The calls that may close the circuit of a proxy, or take the proxy away.\<close>

fun closes :: "string \<Rightarrow> orch_event \<Rightarrow> bool" where
  "closes i (ExecuteFinish now j outcome) \<longleftrightarrow> j = i \<and> outcome = Inr False"
| "closes i (ProxySuccess j) \<longleftrightarrow> j = i"
| "closes i (ResetCircuit j) \<longleftrightarrow> j = i"
| "closes i (RemoveProxy j) \<longleftrightarrow> j = i"
| "closes i _ \<longleftrightarrow> False"

definition open_until :: "string \<Rightarrow> int \<Rightarrow> ProxyOrchestrator \<Rightarrow> bool" where
  "open_until i deadline orch \<longleftrightarrow>
     (\<exists>q. find_proxy orch i = Some q \<and> circuit_open q \<and> circuit_open_until q = Some deadline)"

lemma open_until_update:
  assumes "open_until i d orch" "\<And>p. proxy_id (f p) = proxy_id p"
    and "\<And>q. i = j \<Longrightarrow> circuit_open q \<Longrightarrow> circuit_open (f q) \<and> circuit_open_until (f q) = circuit_open_until q"
  shows "open_until i d (orch\<lparr>proxies := update_proxy j f (proxies orch)\<rparr>)"
  using assms find_update_proxy [of f i j "proxies orch"] by (auto simp: open_until_def find_proxy_def)

lemma open_until_same: "open_until i d orch \<Longrightarrow> proxies orch' = proxies orch \<Longrightarrow> open_until i d orch'"
  by (simp add: open_until_def find_proxy_def)

lemma find_drop_proxy:
  "drop_proxy j ps = Some qs \<Longrightarrow> i \<noteq> j \<Longrightarrow> List.find (\<lambda>p. proxy_id p = i) qs = List.find (\<lambda>p. proxy_id p = i) ps"
  by (induction ps arbitrary: qs) (auto split: if_splits)

lemma open_until_failure: "open_until i d orch \<Longrightarrow> open_until i d (proxy_record_failure now orch j)"
  unfolding proxy_record_failure_def by (rule open_until_update) (simp_all add: proxy_failure_open)

lemma open_until_success: "open_until i d orch \<Longrightarrow> i \<noteq> j \<Longrightarrow> open_until i d (proxy_record_success orch j)"
  unfolding proxy_record_success_def by (rule open_until_update) simp_all

lemma open_until_switch: "open_until i d orch \<Longrightarrow> open_until i d (or_else_same orch (switch_proxy b orch j))"
  by (auto simp: switch_proxy_def or_else_same_def split: option.split intro!: open_until_update)

lemma find_append: "List.find P xs = Some x \<Longrightarrow> List.find P (xs @ ys) = Some x"
  by (induction xs) auto

lemma open_until_step: "open_until i d orch \<Longrightarrow> \<not> closes i e \<Longrightarrow> open_until i d (orch_step orch e)"
proof (induction orch e rule: orch_step.induct)
  case (1 orch j g px)
  then show ?case by (auto simp: open_until_def find_proxy_def add_proxy_def or_else_same_def dest: find_append)
next
  case (2 orch j)
  then show ?case
    using find_drop_proxy [of j "proxies orch" _ i]
    by (auto simp: open_until_def find_proxy_def remove_proxy_def or_else_same_def split: option.split)
next
  case (9 orch now later called n r)
  obtain res orch' where o: "route now later orch n r = (res, orch')" by fastforce
  then have "open_until i d orch'" using open_until_same [OF 9(1)] route_same(1) [of now later orch n r] by simp
  then show ?case
    by (cases res) (auto simp: execute_start_def o Let_def intro!: open_until_update)
next
  case (10 orch now j outcome)
  then show ?case
    by (auto simp: execute_finish_def open_until_failure intro: open_until_success split: sum.split)
next
  case (13 orch j)
  then show ?case unfolding orch_step.simps reset_circuit_def by (intro open_until_update) auto
qed (simp_all add: open_until_switch enable_proxy_def disable_proxy_def open_until_failure open_until_success
    open_until_same route_same add_rule_def remove_rule_def set_routing_strategy_def)

lemma open_until_run: "open_until i d orch \<Longrightarrow> \<forall>e\<in>set es. \<not> closes i e \<Longrightarrow> open_until i d (foldl orch_step orch es)"
  by (induction es arbitrary: orch) (simp_all add: open_until_step)

lemma open_until_check: "open_until i d orch \<Longrightarrow> check_circuit now orch i \<longleftrightarrow> now < d"
  by (auto simp: open_until_def check_circuit_def is_circuit_effectively_open_def)

section \<open>Properties\<close>

text \<open>What routing answers. The proxy it returns belongs to the group the rules give, is
  enabled, and its circuit is closed or past its deadline; under the least-loaded strategy no
  proxy that could serve has had fewer calls. It fails only without proxies, without a matching
  rule, or when every enabled proxy of the group is still cut off at the second reading of the
  clock. Proxies and rules stay as they were.\<close>

lemma route_spec:
  assumes "now \<le> later"
  shows "case route now later orch tool_name agent_role of
     (Inr px, orch') \<Rightarrow> proxies orch' = proxies orch \<and> rules orch' = rules orch
       \<and> (\<exists>g. find_target_group (rules orch) tool_name agent_role = Inr g
            \<and> (\<exists>p\<in>set (proxies orch). px = proxy p \<and> serves g later p
                 \<and> (strategy orch = LeastLoaded \<longrightarrow>
                      (\<forall>q\<in>set (proxies orch). serves g now q \<longrightarrow> total_calls p \<le> total_calls q))))
   | (Inl e, orch') \<Rightarrow> orch' = orch
       \<and> (proxies orch = [] \<or> find_target_group (rules orch) tool_name agent_role = Inl e
          \<or> (\<exists>g. find_target_group (rules orch) tool_name agent_role = Inr g
               \<and> (\<forall>p\<in>set (proxies orch). \<not> serves g later p)))"
proof (cases "proxies orch = []")
  case True
  then show ?thesis by (simp add: route_def)
next
  case False
  show ?thesis
  proof (cases "find_target_group (rules orch) tool_name agent_role")
    case (Inl e)
    then show ?thesis using False by (simp add: route_def)
  next
    case (Inr g)
    show ?thesis
    proof (cases "candidates now g (proxies orch) = []")
      case True
      then have "\<forall>q\<in>set (proxies orch). \<not> serves g now q"
        by (metis empty_iff list.set(1) set_candidates_serves)
      with route_no_candidates [OF False Inr True, of later] show ?thesis using Inr by fastforce
    next
      case ne: False
      obtain p orch' where r: "route now later orch tool_name agent_role = (Inr (proxy p), orch')"
        "p \<in> set (candidates now g (proxies orch))" "proxies orch' = proxies orch"
        "rules orch' = rules orch"
        "strategy orch = LeastLoaded \<longrightarrow>
           (\<forall>q\<in>set (candidates now g (proxies orch)). total_calls p \<le> total_calls q)"
        using route_candidates [OF False Inr ne, of later] by blast
      then have "p \<in> set (proxies orch)" "serves g later p"
        using serves_later [OF _ assms] by (auto simp: set_candidates_serves)
      then show ?thesis unfolding r(1) using Inr r(3-5)
        by (auto simp: set_candidates_serves intro!: bexI [of _ p])
    qed
  qed
qed

definition sample_orchestrator :: ProxyOrchestrator where
  "sample_orchestrator =
     projr (add_proxy (orchestrator_new LeastLoaded default_breaker_config) ''p1'' ''*'' 100)"

lemma route_spec_witness:
  "strategy sample_orchestrator = LeastLoaded
   \<and> (\<exists>orch'. route 0 1 sample_orchestrator ''shell'' None = (Inr 100, orch')
        \<and> proxies orch' = proxies sample_orchestrator)"
proof -
  have c: "strategy sample_orchestrator = LeastLoaded" "rules sample_orchestrator = []"
    "proxies sample_orchestrator \<noteq> []"
    "\<forall>p\<in>set (proxies sample_orchestrator). proxy p = 100 \<and> serves ''*'' 1 p"
    by (simp_all add: sample_orchestrator_def add_proxy_def orchestrator_new_def serves_def)
  have "find_target_group (rules sample_orchestrator) ''shell'' None = Inr ''*''"
    by (simp add: c find_target_group_def)
  with route_spec [where now = 0 and later = 1 and orch = sample_orchestrator
      and tool_name = "''shell''" and agent_role = None] c show ?thesis
    by (cases "route 0 1 sample_orchestrator ''shell'' None") (auto split: sum.splits)
qed

text \<open>The rule that decides. With rules, the target group is that of a matching rule of the
  highest priority, the one added first among equals; there is an error exactly when no rule
  matches. Without rules it is the group \<open>*\<close>.\<close>

lemma find_target_group_spec:
  "case find_target_group rs tool_name agent_role of
     Inl _ \<Rightarrow> rs \<noteq> [] \<and> filter (rule_matches tool_name agent_role) rs = []
   | Inr g \<Rightarrow> rs = [] \<and> g = ''*'' \<or>
       (\<exists>us r vs. rs = us @ r # vs \<and> g = target_group r \<and> rule_matches tool_name agent_role r
          \<and> (\<forall>u\<in>set us. rule_matches tool_name agent_role u \<longrightarrow> priority u < priority r)
          \<and> (\<forall>v\<in>set vs. rule_matches tool_name agent_role v \<longrightarrow> priority v \<le> priority r))"
proof (cases "rs = []")
  case True
  then show ?thesis by (simp add: find_target_group_def)
next
  case False
  let ?P = "rule_matches tool_name agent_role"
  let ?f = "\<lambda>r. - int (unat (priority r))"
  have found: "List.find ?P (sort_key ?f rs) = (case sort_key ?f (filter ?P rs) of [] \<Rightarrow> None | r # _ \<Rightarrow> Some r)"
    by (simp add: find_filter filter_sort)
  show ?thesis
  proof (cases "sort_key ?f (filter ?P rs)")
    case Nil
    then have "filter ?P rs = []" by (metis length_0_conv length_sort)
    then show ?thesis using False found Nil by (simp add: find_target_group_def)
  next
    case (Cons r rest)
    obtain as bs where ab: "filter ?P rs = as @ r # bs" "\<forall>a\<in>set as. ?f r < ?f a" "\<forall>b\<in>set bs. ?f r \<le> ?f b"
      using sort_key_head [OF Cons] by blast
    obtain us vs where uv: "rs = us @ r # vs" "?P r" "filter ?P us = as" "filter ?P vs = bs"
      using filter_split [OF ab(1)] by blast
    have "\<forall>u\<in>set us. ?P u \<longrightarrow> priority u < priority r"
      using ab(2) uv(3) by (auto simp: word_less_def)
    moreover have "\<forall>v\<in>set vs. ?P v \<longrightarrow> priority v \<le> priority r"
      using ab(3) uv(4) by (auto simp: word_le_def)
    ultimately show ?thesis
      using False found Cons uv(1,2) by (auto simp: find_target_group_def)
  qed
qed

definition sample_rules :: "RoutingRule list" where
  "sample_rules =
     [\<lparr>rule_name = ''low'', tool_pattern = None, agent_roles = [], target_group = ''a'', priority = 1\<rparr>,
      \<lparr>rule_name = ''high'', tool_pattern = Some ''sh*'', agent_roles = [], target_group = ''b'', priority = 2\<rparr>]"

lemma find_target_group_spec_witness:
  "find_target_group sample_rules ''shell'' None = Inr ''b''
   \<and> (\<exists>us r vs. sample_rules = us @ r # vs \<and> rule_matches ''shell'' None r
        \<and> (\<forall>u\<in>set us. rule_matches ''shell'' None u \<longrightarrow> priority u < priority r))"
proof -
  have "find_target_group sample_rules ''shell'' None = Inr ''b''"
    by (simp add: find_target_group_def sample_rules_def rule_matches_def proxy_matches_pattern_def
        suffix_to_prefix)
  moreover have "sample_rules \<noteq> []" by (simp add: sample_rules_def)
  ultimately show ?thesis
    using find_target_group_spec [where rs = sample_rules and tool_name = "''shell''" and agent_role = None]
    by auto
qed

text \<open>C40: The life of a circuit. After any history of calls on a new orchestrator, a closed circuit has
  seen fewer failures in a row than the threshold (where a threshold of 0 counts as 1). An open one has
  a deadline, and only a success or a reset of this proxy closes it, or its removal takes it away: after
  any other calls, routed calls and failures among them, it is open with the same deadline, and the
  proxy is cut off exactly before that. So a proxy that fails again after the deadline is not cut off
  again.\<close>

theorem circuit_life_cycle:
  assumes "find_proxy (foldl orch_step (orchestrator_new s cb) es) i = Some p"
  shows "(\<not> circuit_open p \<longrightarrow> consecutive_failures p < max 1 (failure_threshold cb))
    \<and> (circuit_open p \<longrightarrow> (\<exists>deadline. circuit_open_until p = Some deadline
         \<and> (\<forall>later. (\<forall>e\<in>set later. \<not> closes i e) \<longrightarrow>
              (let orch = foldl orch_step (orchestrator_new s cb) (es @ later)
               in (\<exists>q. find_proxy orch i = Some q \<and> circuit_open q \<and> circuit_open_until q = Some deadline)
                  \<and> (\<forall>now. check_circuit now orch i \<longleftrightarrow> now < deadline)))))"
proof -
  have "orch_ok cb (foldl orch_step (orchestrator_new s cb) es)" by (rule orchestrator_run_ok)
  then have ok: "proxy_ok cb p" using assms by (auto simp: orch_ok_def find_proxy_def find_Some_iff)
  then have "\<not> circuit_open p \<longrightarrow> consecutive_failures p < max 1 (failure_threshold cb)"
    by (auto simp: proxy_ok_def less_max_iff_disj)
  moreover have "\<exists>deadline. circuit_open_until p = Some deadline
      \<and> (\<forall>later. (\<forall>e\<in>set later. \<not> closes i e) \<longrightarrow> open_until i deadline (foldl orch_step (orchestrator_new s cb) (es @ later)))"
    if "circuit_open p"
  proof -
    obtain d where d: "circuit_open_until p = Some d" using ok \<open>circuit_open p\<close> by (auto simp: proxy_ok_def)
    then have "open_until i d (foldl orch_step (orchestrator_new s cb) es)"
      using assms \<open>circuit_open p\<close> by (simp add: open_until_def)
    then show ?thesis using d open_until_run by (intro exI [of _ d]) simp
  qed
  ultimately show ?thesis using open_until_check by (fastforce simp: open_until_def Let_def)
qed

definition tripped_history :: "orch_event list" where
  "tripped_history = [AddProxy ''p1'' ''g'' 100, ProxyFailure 0 ''p1'']"

definition tripping_breaker :: CircuitBreakerConfig where
  "tripping_breaker = \<lparr>failure_threshold = 1, cooldown_secs = 30, half_open_max_calls = 1\<rparr>"

theorem circuit_life_cycle_witness:
  "let orch = foldl orch_step (orchestrator_new Fixed tripping_breaker)
       (tripped_history @ [ProxyFailure 30000000000 ''p1'', RouteCall 30000000001 30000000001 ''t'' None])
   in check_circuit 29999999999 orch ''p1'' \<and> \<not> check_circuit 30000000001 orch ''p1''"
proof -
  let ?orch = "foldl orch_step (orchestrator_new Fixed tripping_breaker) tripped_history"
  have h: "find_proxy ?orch ''p1'' = Some
      \<lparr>proxy_id = ''p1'', group = ''g'', proxy = 100, proxy_enabled = True, consecutive_failures = 1,
       circuit_open = True, circuit_open_until = Some 30000000000, total_calls = 0, last_call = None\<rparr>"
    by (simp add: tripped_history_def tripping_breaker_def find_proxy_def add_proxy_def
        or_else_same_def orchestrator_new_def proxy_record_failure_def proxy_failure_def cooldown_def)
  let ?later = "[ProxyFailure 30000000000 ''p1'', RouteCall 30000000001 30000000001 ''t'' None]"
  have "\<forall>e\<in>set ?later. \<not> closes ''p1'' e" by simp
  moreover obtain d where "Some 30000000000 = Some d" "\<forall>later. (\<forall>e\<in>set later. \<not> closes ''p1'' e) \<longrightarrow>
      (\<forall>now. check_circuit now (foldl orch_step (orchestrator_new Fixed tripping_breaker) (tripped_history @ later)) ''p1''
         \<longleftrightarrow> now < d)"
    using circuit_life_cycle [OF h, THEN conjunct2] by (auto simp: Let_def simp del: foldl_append)
  ultimately have "\<forall>now. check_circuit now (foldl orch_step (orchestrator_new Fixed tripping_breaker) (tripped_history @ ?later)) ''p1''
      \<longleftrightarrow> now < 30000000000" by blast
  then show ?thesis by (simp add: Let_def del: foldl_append foldl_Cons)
qed

text \<open>Without rules only a proxy whose group is literally \<open>*\<close> is ever chosen.\<close>

lemma no_rules_only_star_group:
  assumes "rules orch = []" "route now later orch tool_name agent_role = (Inr px, orch')"
  shows "\<exists>p\<in>set (proxies orch). proxy p = px \<and> group p = ''*''"
proof -
  have g: "find_target_group (rules orch) tool_name agent_role = Inr ''*''"
    using assms(1) by (simp add: find_target_group_def)
  have "proxies orch \<noteq> []" using assms(2) by (auto simp: route_def)
  then show ?thesis
    using assms(2) route_candidates [OF _ g, of now later] route_no_candidates [OF _ g, of now later]
    by (cases "candidates now ''*'' (proxies orch) = []") (auto simp: set_candidates serves_def)
qed

end
