(* ===== verification/EncryptedStore.thy ===== *)
theory EncryptedStore
  imports CoreTypes Interfaces "HOL-Library.Monad_Syntax"
begin

text \<open>
  \<open>argentor-security/src/encrypted_store.rs\<close>: the cipher the repository builds from SHA-256
  (a counter-mode key stream with an HMAC tag), the key derivation, and the store of encrypted
  files. SHA-256 (the \<open>sha2\<close> crate), hexadecimal text (\<open>hex\<close>) and JSON (\<open>serde_json\<close>) are
  parameters; of SHA-256 the code relies on the length of a digest. Random bytes are inputs. The
  files of the store's directory are a map; a file operation that fails is not modelled.
\<close>

unbundle bit_operations_syntax

definition NONCE_SIZE :: nat where "NONCE_SIZE = 12"

definition KEY_SIZE :: nat where "KEY_SIZE = 32"

definition PBKDF2_ITERATIONS :: nat where "PBKDF2_ITERATIONS = 100000"

definition SALT_SIZE :: nat where "SALT_SIZE = 16"

text \<open>The bytes of a text, and \<open>u64::to_le_bytes\<close>.\<close>

definition bytes_of :: "string \<Rightarrow> u8 list" where
  "bytes_of s = map word_of_nat (as_bytes s)"

definition to_le_bytes :: "u64 \<Rightarrow> u8 list" where
  "to_le_bytes w = map (\<lambda>i. ucast (drop_bit (8 * i) w)) [0..<8]"

section \<open>The cipher\<close>

definition hmac_sha256 :: "(u8 list \<Rightarrow> u8 list) \<Rightarrow> u8 list \<Rightarrow> u8 list \<Rightarrow> u8 list" where
  "hmac_sha256 sha key message =
     (let block_size = 64;
          k = (if length key > block_size then sha key else key);
          key_padded = k @ replicate (block_size - length k) 0;
          ipad = map (\<lambda>b. 0x36 XOR b) key_padded;
          opad = map (\<lambda>b. 0x5c XOR b) key_padded
      in sha (opad @ sha (ipad @ message)))"

text \<open>\<open>*a ^= b\<close> over the zip of two arrays.\<close>

definition xor_into :: "u8 list \<Rightarrow> u8 list \<Rightarrow> u8 list" where
  "xor_into a b = map2 (XOR) a b @ drop (length b) a"

definition pbkdf2_step ::
  "(u8 list \<Rightarrow> u8 list) \<Rightarrow> u8 list \<Rightarrow> u8 list \<times> u8 list \<Rightarrow> u8 list \<times> u8 list" where
  "pbkdf2_step sha password = (\<lambda>(u_prev, dk).
     let u = hmac_sha256 sha password u_prev in (u, xor_into dk u))"

definition derive_key :: "(u8 list \<Rightarrow> u8 list) \<Rightarrow> string \<Rightarrow> u8 list \<Rightarrow> u8 list" where
  "derive_key sha passphrase salt =
     (let password = bytes_of passphrase;
          u = hmac_sha256 sha password (salt @ [0, 0, 0, 1]);
          dk = snd ((pbkdf2_step sha password ^^ (PBKDF2_ITERATIONS - 1)) (u, u))
      in sha (take KEY_SIZE dk @ bytes_of ''argentor-kdf-final''))"

text \<open>\<open>xor_encrypt\<close>, chunk by chunk: the counter numbers the chunks of 32 bytes.\<close>

function xor_chunks ::
  "(u8 list \<Rightarrow> u8 list) \<Rightarrow> u8 list \<Rightarrow> u8 list \<Rightarrow> nat \<Rightarrow> u8 list \<Rightarrow> u8 list" where
  "xor_chunks sha key nonce counter data =
     (if data = [] then []
      else let keystream_block = sha (key @ nonce @ to_le_bytes (word_of_nat counter))
           in map2 (XOR) (take 32 data) keystream_block
                @ xor_chunks sha key nonce (counter + 1) (drop 32 data))"
  by pat_completeness auto
termination by (relation "measure (\<lambda>(_, _, _, _, data). length data)") auto

declare xor_chunks.simps [simp del]

definition xor_encrypt ::
  "(u8 list \<Rightarrow> u8 list) \<Rightarrow> u8 list \<Rightarrow> u8 list \<Rightarrow> u8 list \<Rightarrow> u8 list" where
  "xor_encrypt sha key nonce data = xor_chunks sha key nonce 0 data"

definition message_key :: "(u8 list \<Rightarrow> u8 list) \<Rightarrow> u8 list \<Rightarrow> u8 list \<Rightarrow> u8 list" where
  "message_key sha key salt = sha (key @ salt @ bytes_of ''argentor-per-message-key'')"

definition encrypt_value ::
  "(u8 list \<Rightarrow> u8 list) \<Rightarrow> u8 list \<Rightarrow> u8 list \<Rightarrow> u8 list \<Rightarrow> u8 list \<Rightarrow> string + u8 list" where
  "encrypt_value sha salt nonce key plaintext =
     (let msg_key = message_key sha key salt;
          ciphertext = salt @ nonce @ xor_encrypt sha msg_key nonce plaintext;
          tag = hmac_sha256 sha key ciphertext
      in Inr (ciphertext @ tag))"

definition constant_time_eq :: "u8 list \<Rightarrow> u8 list \<Rightarrow> bool" where
  "constant_time_eq a b \<longleftrightarrow>
     (if length a \<noteq> length b then False
      else foldl (\<lambda>diff (x, y). diff OR (x XOR y)) 0 (zip a b) = 0)"

text \<open>The dash in the code's message is U+2014, outside the model's characters; the text is cut
  before it.\<close>

definition decrypt_value ::
  "(u8 list \<Rightarrow> u8 list) \<Rightarrow> u8 list \<Rightarrow> u8 list \<Rightarrow> string + u8 list" where
  "decrypt_value sha key data =
     (let min_size = SALT_SIZE + NONCE_SIZE + 32
      in if length data < min_size then Inl ''Encrypted data too short''
         else let tag_start = length data - 32;
                  authenticated_data = take tag_start data;
                  stored_tag = drop tag_start data;
                  computed_tag = hmac_sha256 sha key authenticated_data
              in if \<not> constant_time_eq stored_tag computed_tag
                 then Inl ''Authentication failed''
                 else let salt = take SALT_SIZE data;
                          nonce = take NONCE_SIZE (drop SALT_SIZE data);
                          ciphertext = drop (SALT_SIZE + NONCE_SIZE) authenticated_data;
                          msg_key = message_key sha key salt
                      in Inr (xor_encrypt sha msg_key nonce ciphertext))"

section \<open>The store\<close>

record EncryptedStore =
  store_files :: "string \<rightharpoonup> u8 list"
  store_key :: "u8 list"

definition hash_key ::
  "(u8 list \<Rightarrow> u8 list) \<Rightarrow> (u8 list \<Rightarrow> string) \<Rightarrow> string \<Rightarrow> string" where
  "hash_key sha hex key = hex (sha (bytes_of key @ bytes_of ''argentor-key-hash''))"

definition store_new ::
  "(u8 list \<Rightarrow> u8 list) \<Rightarrow> (string \<rightharpoonup> u8 list) \<Rightarrow> string \<Rightarrow> EncryptedStore" where
  "store_new sha dir passphrase =
     \<lparr>store_files = dir, store_key = derive_key sha passphrase (bytes_of ''argentor-encrypted-store-v1'')\<rparr>"

definition store_put ::
  "(u8 list \<Rightarrow> u8 list) \<Rightarrow> (u8 list \<Rightarrow> string) \<Rightarrow> u8 list \<Rightarrow> u8 list \<Rightarrow> EncryptedStore
     \<Rightarrow> string \<Rightarrow> u8 list \<Rightarrow> string + EncryptedStore" where
  "store_put sha hex salt nonce st key val =
     (case encrypt_value sha salt nonce (store_key st) val of
        Inl e \<Rightarrow> Inl e
      | Inr encrypted \<Rightarrow>
          Inr (st\<lparr>store_files := (store_files st)(hash_key sha hex key \<mapsto> encrypted)\<rparr>))"

definition store_get ::
  "(u8 list \<Rightarrow> u8 list) \<Rightarrow> (u8 list \<Rightarrow> string) \<Rightarrow> EncryptedStore \<Rightarrow> string
     \<Rightarrow> string + u8 list option" where
  "store_get sha hex st key =
     (case store_files st (hash_key sha hex key) of
        None \<Rightarrow> Inr None
      | Some data \<Rightarrow>
          (case decrypt_value sha (store_key st) data of
             Inl e \<Rightarrow> Inl e
           | Inr plaintext \<Rightarrow> Inr (Some plaintext)))"

definition put_string ::
  "(u8 list \<Rightarrow> u8 list) \<Rightarrow> (u8 list \<Rightarrow> string) \<Rightarrow> u8 list \<Rightarrow> u8 list \<Rightarrow> EncryptedStore
     \<Rightarrow> string \<Rightarrow> string \<Rightarrow> string + EncryptedStore" where
  "put_string sha hex salt nonce st key val = store_put sha hex salt nonce st key (bytes_of val)"

text \<open>The text of a \<open>FromUtf8Error\<close> is the parameter \<open>utf8_error\<close>.\<close>

definition get_string ::
  "(u8 list \<Rightarrow> u8 list) \<Rightarrow> (u8 list \<Rightarrow> string) \<Rightarrow> (u8 list \<Rightarrow> string) \<Rightarrow> EncryptedStore
     \<Rightarrow> string \<Rightarrow> string + string option" where
  "get_string sha hex utf8_error st key =
     (case store_get sha hex st key of
        Inl e \<Rightarrow> Inl e
      | Inr None \<Rightarrow> Inr None
      | Inr (Some bs) \<Rightarrow>
          (case from_utf8 (map unat bs) of
             Some s \<Rightarrow> Inr (Some s)
           | None \<Rightarrow> Inl (''Stored value is not valid UTF-8: '' @ utf8_error bs)))"

definition put_json ::
  "(u8 list \<Rightarrow> u8 list) \<Rightarrow> (u8 list \<Rightarrow> string) \<Rightarrow> ('a \<Rightarrow> string + u8 list) \<Rightarrow> u8 list \<Rightarrow> u8 list
     \<Rightarrow> EncryptedStore \<Rightarrow> string \<Rightarrow> 'a \<Rightarrow> string + EncryptedStore" where
  "put_json sha hex to_json salt nonce st key val =
     (case to_json val of
        Inl e \<Rightarrow> Inl (''JSON serialization failed: '' @ e)
      | Inr json \<Rightarrow> store_put sha hex salt nonce st key json)"

definition get_json ::
  "(u8 list \<Rightarrow> u8 list) \<Rightarrow> (u8 list \<Rightarrow> string) \<Rightarrow> (u8 list \<Rightarrow> string + 'a) \<Rightarrow> EncryptedStore
     \<Rightarrow> string \<Rightarrow> string + 'a option" where
  "get_json sha hex of_json st key =
     (case store_get sha hex st key of
        Inl e \<Rightarrow> Inl e
      | Inr None \<Rightarrow> Inr None
      | Inr (Some bs) \<Rightarrow>
          (case of_json bs of
             Inr v \<Rightarrow> Inr (Some v)
           | Inl e \<Rightarrow> Inl (''JSON deserialization failed: '' @ e)))"

definition store_delete ::
  "(u8 list \<Rightarrow> u8 list) \<Rightarrow> (u8 list \<Rightarrow> string) \<Rightarrow> EncryptedStore \<Rightarrow> string
     \<Rightarrow> bool \<times> EncryptedStore" where
  "store_delete sha hex st key =
     (let file_name = hash_key sha hex key
      in if store_files st file_name \<noteq> None
         then (True, st\<lparr>store_files := (store_files st)(file_name := None)\<rparr>) else (False, st))"

definition list_hashed_keys :: "EncryptedStore \<Rightarrow> string set" where
  "list_hashed_keys st = {n \<in> dom (store_files st). str_len n = 64}"

section \<open>Lemmas\<close>

lemma or_eq_0_word: "(a :: u8) OR b = 0 \<longleftrightarrow> a = 0 \<and> b = 0"
  by (auto simp: bit_eq_iff bit_simps)

lemma xor_eq_0_word: "(a :: u8) XOR b = 0 \<longleftrightarrow> a = b"
  by (auto simp: bit_eq_iff bit_simps)

lemma xor_cancel: "((a :: u8) XOR b) XOR b = a"
  by (simp add: xor.assoc)

lemma diff_fold:
  "length a = length b \<Longrightarrow>
     foldl (\<lambda>diff (x, y). diff OR (x XOR y)) d (zip a b) = (0 :: u8) \<longleftrightarrow> d = 0 \<and> a = b"
  by (induction a b arbitrary: d rule: list_induct2) (auto simp: or_eq_0_word xor_eq_0_word)

lemma constant_time_eq_iff [simp]: "constant_time_eq a b \<longleftrightarrow> a = b"
  by (auto simp: constant_time_eq_def diff_fold)

lemma map2_xor_cancel: "length a \<le> length b \<Longrightarrow> map2 (XOR) (map2 (XOR) (a :: u8 list) b) b = a"
proof (induction a arbitrary: b)
  case (Cons x a)
  then show ?case by (cases b) (simp_all add: xor_cancel)
qed simp

lemma hmac_length: "(\<And>m. length (sha m) = 32) \<Longrightarrow> length (hmac_sha256 sha key m) = 32"
  by (simp add: hmac_sha256_def Let_def)

lemma xor_chunks_length:
  "(\<And>m. length (sha m) = 32) \<Longrightarrow> length (xor_chunks sha key nonce c data) = length data"
proof (induction sha key nonce c data rule: xor_chunks.induct)
  case (1 sha key nonce c data)
  then show ?case by (subst xor_chunks.simps) (simp add: Let_def min_def)
qed

lemma xor_chunks_step:
  assumes "length a = 32 \<or> length a < 32 \<and> b = []" "a @ b \<noteq> []"
  shows "xor_chunks sha key nonce c (a @ b) =
    map2 (XOR) a (sha (key @ nonce @ to_le_bytes (word_of_nat c))) @ xor_chunks sha key nonce (c + 1) b"
proof -
  have "take 32 (a @ b) = a" "drop 32 (a @ b) = b" using assms(1) by auto
  then show ?thesis using assms(2) by (subst xor_chunks.simps) (auto simp: Let_def)
qed

text \<open>The key stream applied twice is the identity.\<close>

lemma xor_chunks_twice:
  "(\<And>m. length (sha m) = 32)
     \<Longrightarrow> xor_chunks sha key nonce c (xor_chunks sha key nonce c data) = data"
proof (induction sha key nonce c data rule: xor_chunks.induct)
  case (1 sha key nonce c data)
  show ?case
  proof (cases "data = []")
    case True
    then show ?thesis by (simp add: xor_chunks.simps)
  next
    case False
    let ?ks = "sha (key @ nonce @ to_le_bytes (word_of_nat c))"
    let ?first = "map2 (XOR) (take 32 data) ?ks"
    let ?rest = "xor_chunks sha key nonce (c + 1) (drop 32 data)"
    have ks: "length ?ks = 32" by (rule "1.prems")
    have out: "xor_chunks sha key nonce c data = ?first @ ?rest"
      using False by (subst xor_chunks.simps) (simp add: Let_def)
    have rest: "?rest = []" if "length data < 32"
      using that by (simp add: xor_chunks.simps)
    have fl: "length ?first = min (length data) 32" using ks by simp
    then have "length ?first \<noteq> 0" using False by simp
    then have "?first @ ?rest \<noteq> []" by (simp only: length_0_conv append_is_Nil_conv simp_thms)
    moreover have "length ?first = 32 \<or> length ?first < 32 \<and> ?rest = []"
      using rest by (cases "length data < 32") (simp_all only: fl min_def, simp_all)
    ultimately have "xor_chunks sha key nonce c (?first @ ?rest) =
        map2 (XOR) ?first ?ks @ xor_chunks sha key nonce (c + 1) ?rest"
      by (intro xor_chunks_step)
    moreover have "map2 (XOR) ?first ?ks = take 32 data"
      using ks by (intro map2_xor_cancel) simp
    moreover have "xor_chunks sha key nonce (c + 1) ?rest = drop 32 data"
      using False "1.prems" by (intro "1.IH") simp_all
    ultimately show ?thesis by (simp add: out)
  qed
qed

lemma sizes: "SALT_SIZE = 16" "NONCE_SIZE = 12" "KEY_SIZE = 32"
  by (simp_all add: SALT_SIZE_def NONCE_SIZE_def KEY_SIZE_def)

lemma decrypt_parts:
  assumes "length salt = SALT_SIZE" "length nonce = NONCE_SIZE" "length tag = 32"
  shows "decrypt_value sha key (salt @ nonce @ ct @ tag) =
    (if tag = hmac_sha256 sha key (salt @ nonce @ ct)
     then Inr (xor_encrypt sha (message_key sha key salt) nonce ct)
     else Inl ''Authentication failed'')"
  using assms by (simp add: decrypt_value_def Let_def sizes)

lemma data_parts:
  assumes "\<not> length data < SALT_SIZE + NONCE_SIZE + 32"
  obtains salt nonce ct tag where "data = salt @ nonce @ ct @ tag"
    "length salt = SALT_SIZE" "length nonce = NONCE_SIZE" "length tag = 32"
proof -
  let ?body = "take (length data - 32) data"
  have "data = take 16 ?body @ take 12 (drop 16 ?body) @ drop 12 (drop 16 ?body)
      @ drop (length data - 32) data"
    by (simp only: append_take_drop_id flip: append_assoc)
  then show ?thesis
    using assms that [of "take 16 ?body" "take 12 (drop 16 ?body)" "drop 12 (drop 16 ?body)"
        "drop (length data - 32) data"] by (simp add: sizes)
qed

lemma encrypt_value_roundtrip:
  assumes "\<And>m. length (sha m) = 32" "length salt = SALT_SIZE" "length nonce = NONCE_SIZE"
  shows "\<exists>data. encrypt_value sha salt nonce key plaintext = Inr data
    \<and> length data = length plaintext + SALT_SIZE + NONCE_SIZE + 32
    \<and> decrypt_value sha key data = Inr plaintext"
proof -
  let ?ct = "xor_encrypt sha (message_key sha key salt) nonce plaintext"
  have "length (hmac_sha256 sha key (salt @ nonce @ ?ct)) = 32"
    using assms(1) by (rule hmac_length)
  moreover have "length ?ct = length plaintext"
    unfolding xor_encrypt_def using assms(1) by (rule xor_chunks_length)
  moreover have "xor_encrypt sha (message_key sha key salt) nonce ?ct = plaintext"
    unfolding xor_encrypt_def using assms(1) by (rule xor_chunks_twice)
  ultimately show ?thesis
    using assms(2,3) by (simp add: encrypt_value_def Let_def decrypt_parts)
qed

section \<open>The files as a table\<close>

text \<open>A call of \<open>put\<close>: key, value, and the salt and nonce it draws.\<close>

type_synonym put_call = "string \<times> u8 list \<times> u8 list \<times> u8 list"

definition put_step ::
  "(u8 list \<Rightarrow> u8 list) \<Rightarrow> (u8 list \<Rightarrow> string) \<Rightarrow> EncryptedStore \<Rightarrow> put_call \<Rightarrow> EncryptedStore" where
  "put_step sha hex st = (\<lambda>(key, val, salt, nonce).
     case store_put sha hex salt nonce st key val of Inl _ \<Rightarrow> st | Inr st' \<Rightarrow> st')"

definition put_key :: "(u8 list \<Rightarrow> u8 list) \<Rightarrow> (u8 list \<Rightarrow> string) \<Rightarrow> put_call \<Rightarrow> string" where
  "put_key sha hex = (\<lambda>(key, _). hash_key sha hex key)"

definition put_data :: "(u8 list \<Rightarrow> u8 list) \<Rightarrow> u8 list \<Rightarrow> put_call \<Rightarrow> u8 list" where
  "put_data sha k = (\<lambda>(_, val, salt, nonce). projr (encrypt_value sha salt nonce k val))"

definition put_value :: "put_call \<Rightarrow> u8 list" where
  "put_value = (\<lambda>(_, val, _). val)"

lemma put_step_files:
  "put_step sha hex st c = st\<lparr>store_files := (store_files st)
     (put_key sha hex c \<mapsto> put_data sha (store_key st) c)\<rparr>"
  by (cases c) (simp add: put_step_def store_put_def put_key_def put_data_def encrypt_value_def Let_def)

interpretation files: last_write_store
  "\<lambda>fs. fs" "\<lambda>fs c. store_files (put_step sha hex \<lparr>store_files = fs, store_key = k\<rparr> c)"
  "put_key sha hex" "put_data sha k" for sha hex k
  by unfold_locales (simp add: put_step_files)

lemma put_step_key [simp]: "store_key (put_step sha hex st c) = store_key st"
  by (simp add: put_step_files)

lemma put_step_store:
  "store_files (put_step sha hex st c) =
     store_files (put_step sha hex \<lparr>store_files = store_files st, store_key = store_key st\<rparr> c)"
  by (simp add: put_step_files)

lemma put_steps_files:
  "store_files (foldl (put_step sha hex) st cs) =
     foldl (\<lambda>fs c. store_files (put_step sha hex \<lparr>store_files = fs, store_key = store_key st\<rparr> c))
       (store_files st) cs
   \<and> store_key (foldl (put_step sha hex) st cs) = store_key st"
proof (induction cs rule: rev_induct)
  case (snoc c cs)
  then show ?case using put_step_store [of sha hex "foldl (put_step sha hex) st cs" c] by simp
qed simp

section \<open>Properties\<close>

text \<open>C35: Encryption round trip: with the parameters of the right sizes, encryption succeeds,
  adds the salt, the nonce and the tag, and decryption under the same key gives the plaintext
  back.\<close>

theorem encrypt_roundtrip:
  assumes "\<And>m. length (sha m) = 32" "length salt = SALT_SIZE" "length nonce = NONCE_SIZE"
  shows "case encrypt_value sha salt nonce key plaintext of
      Inl _ \<Rightarrow> False
    | Inr data \<Rightarrow> length data = length plaintext + SALT_SIZE + NONCE_SIZE + 32
        \<and> decrypt_value sha key data = Inr plaintext"
  using encrypt_value_roundtrip [of sha salt nonce key plaintext, OF assms] by (auto split: sum.splits)

theorem encrypt_roundtrip_witness:
  "case encrypt_value (\<lambda>m. replicate 32 (word_of_nat (length m))) (replicate 16 1) (replicate 12 2)
       [3] [4, 5, 6] of
      Inl _ \<Rightarrow> False
    | Inr data \<Rightarrow> length data = length ([4, 5, 6] :: u8 list) + SALT_SIZE + NONCE_SIZE + 32
        \<and> decrypt_value (\<lambda>m. replicate 32 (word_of_nat (length m))) [3] data = Inr [4, 5, 6]"
  by (rule encrypt_roundtrip) (simp_all add: sizes)

text \<open>C30: Decryption returns a plaintext exactly for data that is a salt, a nonce, a body and the
  HMAC of these under the key; every other byte string, a truncated or altered one included, is
  an error.\<close>

theorem decrypt_accepts_authentic:
  assumes "\<And>m. length (sha m) = 32"
  shows "decrypt_value sha key data = Inr plaintext \<longleftrightarrow>
    (\<exists>salt nonce ct. length salt = SALT_SIZE \<and> length nonce = NONCE_SIZE
       \<and> data = salt @ nonce @ ct @ hmac_sha256 sha key (salt @ nonce @ ct)
       \<and> plaintext = xor_encrypt sha (message_key sha key salt) nonce ct)"
proof
  assume ok: "decrypt_value sha key data = Inr plaintext"
  then have "\<not> length data < SALT_SIZE + NONCE_SIZE + 32" by (auto simp: decrypt_value_def)
  then obtain salt nonce ct tag where "data = salt @ nonce @ ct @ tag"
    "length salt = SALT_SIZE" "length nonce = NONCE_SIZE" "length tag = 32"
    by (rule data_parts)
  with ok show "\<exists>salt nonce ct. length salt = SALT_SIZE \<and> length nonce = NONCE_SIZE
       \<and> data = salt @ nonce @ ct @ hmac_sha256 sha key (salt @ nonce @ ct)
       \<and> plaintext = xor_encrypt sha (message_key sha key salt) nonce ct"
    by (auto simp: decrypt_parts split: if_splits)
next
  assume "\<exists>salt nonce ct. length salt = SALT_SIZE \<and> length nonce = NONCE_SIZE
       \<and> data = salt @ nonce @ ct @ hmac_sha256 sha key (salt @ nonce @ ct)
       \<and> plaintext = xor_encrypt sha (message_key sha key salt) nonce ct"
  then show "decrypt_value sha key data = Inr plaintext"
    using hmac_length [of sha key, OF assms] by (auto simp: decrypt_parts)
qed

theorem decrypt_accepts_authentic_witness:
  "(let sha = (\<lambda>m. replicate 32 (word_of_nat (length m)));
        data = projr (encrypt_value sha (replicate 16 1) (replicate 12 2) [3] [4, 5])
    in decrypt_value sha [3] data = Inr [4, 5] \<longleftrightarrow>
      (\<exists>salt nonce ct. length salt = SALT_SIZE \<and> length nonce = NONCE_SIZE
         \<and> data = salt @ nonce @ ct @ hmac_sha256 sha [3] (salt @ nonce @ ct)
         \<and> [4, 5] = xor_encrypt sha (message_key sha [3] salt) nonce ct))"
  unfolding Let_def by (rule decrypt_accepts_authentic) simp

text \<open>After any sequence of puts, a get under a key gives the value of the last put whose key
  has the same file name, and what the file held before when there was none.\<close>

lemma store_last_write:
  assumes "\<And>m. length (sha m) = 32"
    and "\<forall>(_, _, salt, nonce)\<in>set cs. length salt = SALT_SIZE \<and> length nonce = NONCE_SIZE"
  shows "store_get sha hex (foldl (put_step sha hex) st cs) key =
    (case List.find (\<lambda>c. put_key sha hex c = hash_key sha hex key) (rev cs) of
       None \<Rightarrow> store_get sha hex st key
     | Some c \<Rightarrow> Inr (Some (put_value c)))"
proof (cases "List.find (\<lambda>c. put_key sha hex c = hash_key sha hex key) (rev cs)")
  case None
  then show ?thesis
    using files.get_put_list [of sha hex "store_key st" "store_files st" cs "hash_key sha hex key"]
    by (simp add: store_get_def put_steps_files split: option.split)
next
  case (Some c)
  obtain k v salt nonce where c: "c = (k, v, salt, nonce)" by (cases c)
  have "c \<in> set cs" using Some by (metis find_Some_iff length_rev nth_mem set_rev)
  then have "length salt = SALT_SIZE" "length nonce = NONCE_SIZE" using assms(2) c by auto
  then have "decrypt_value sha (store_key st) (put_data sha (store_key st) c) = Inr (put_value c)"
    using encrypt_value_roundtrip [of sha salt nonce "store_key st" v, OF assms(1)] c
    by (auto simp: put_data_def put_value_def split: sum.splits)
  then show ?thesis
    using files.get_put_list [of sha hex "store_key st" "store_files st" cs "hash_key sha hex key"] Some
    by (simp add: store_get_def put_steps_files)
qed

lemma store_last_write_witness:
  "(let sha = (\<lambda>m. replicate 32 (word_of_nat (length m))); hex = (\<lambda>bs. map (\<lambda>b. char_of (unat b)) bs);
        st = \<lparr>store_files = Map.empty, store_key = [9]\<rparr>;
        cs = [(''k'', [1, 2], replicate 16 0, replicate 12 0), (''k'', [3], replicate 16 1, replicate 12 0)]
    in store_get sha hex (foldl (put_step sha hex) st cs) ''k'' = Inr (Some [3]))"
proof -
  let ?sha = "\<lambda>m :: u8 list. replicate 32 (word_of_nat (length m)) :: u8 list"
  let ?hex = "\<lambda>bs :: u8 list. map (\<lambda>b. char_of (unat b) :: char) bs"
  let ?cs = "[(''k'', [1, 2], replicate 16 0, replicate 12 0), (''k'', [3], replicate 16 1, replicate 12 0)] :: put_call list"
  have "store_get ?sha ?hex (foldl (put_step ?sha ?hex) \<lparr>store_files = Map.empty, store_key = [9]\<rparr> ?cs) ''k''
      = Inr (Some [3])"
    by (subst store_last_write) (simp_all add: sizes put_key_def put_value_def)
  then show ?thesis by (simp only: Let_def)
qed

end
