(* ===== verification/CredentialVault.thy ===== *)
theory CredentialVault
  imports EncryptedStore
begin

text \<open>
  \<open>argentor-mcp/src/credential_vault.rs\<close>: credentials by identifier, with quotas, expiry and
  rotation; a vault with a key stores each value encrypted (theory EncryptedStore) and in
  base 64. The crates \<open>base64\<close>, \<open>sha2\<close> and \<open>serde_json\<close> are parameters, as are the text of a
  UTF-8 error, the time, the random bytes, the environment, and the order in which a
  \<open>HashMap\<close> yields its values. The file that \<open>save_encrypted\<close> writes and \<open>load_encrypted\<close> reads
  is the byte string it holds. Lock poisoning is not modelled.
\<close>

record CredentialPolicy =
  max_calls_per_minute :: "u32 option"
  max_daily_usage :: "u64 option"
  auto_rotate :: bool
  fallback_credential_id :: "string option"

record Credential =
  cred_id :: string
  cred_provider :: string
  key_name :: string
  cred_value :: string
  cred_created_at :: int
  expires_at :: "int option"
  cred_last_used :: "int option"
  usage_count :: u64
  policy :: CredentialPolicy
  cred_enabled :: bool
  tags :: "string \<rightharpoonup> string"

record CredentialStats =
  total_credentials :: nat
  active_credentials :: nat
  expired_credentials :: nat
  stats_providers :: "string \<rightharpoonup> nat"
  cs_total_usage :: u64

record CredentialVault =
  credentials :: "string \<rightharpoonup> Credential"
  encryption_key :: "u8 list option"

text \<open>What comes from other crates.\<close>

record Crates =
  sha256 :: "u8 list \<Rightarrow> u8 list"
  base64_encode :: "u8 list \<Rightarrow> string"
  base64_decode :: "string \<Rightarrow> string + u8 list"
  utf8_error :: "u8 list \<Rightarrow> string"

text \<open>The salt and the nonce that one encryption draws.\<close>

type_synonym draw = "u8 list \<times> u8 list"

section \<open>Encryption of values\<close>

definition vault_new :: CredentialVault where
  "vault_new = \<lparr>credentials = Map.empty, encryption_key = None\<rparr>"

definition vault_salt :: "u8 list" where
  "vault_salt = bytes_of ''argentor-credential-vault-v1''"

definition with_encryption :: "Crates \<Rightarrow> string \<Rightarrow> CredentialVault" where
  "with_encryption cr passphrase =
     \<lparr>credentials = Map.empty, encryption_key = Some (derive_key (sha256 cr) passphrase vault_salt)\<rparr>"

definition is_encrypted :: "CredentialVault \<Rightarrow> bool" where
  "is_encrypted v \<longleftrightarrow> encryption_key v \<noteq> None"

definition encrypt_credential_value ::
  "Crates \<Rightarrow> draw \<Rightarrow> CredentialVault \<Rightarrow> string \<Rightarrow> ArgentorError + string" where
  "encrypt_credential_value cr d v plaintext =
     (case encryption_key v of
        None \<Rightarrow> Inl (Security ''Encryption not enabled on this vault'')
      | Some key \<Rightarrow>
          (case encrypt_value (sha256 cr) (fst d) (snd d) key (bytes_of plaintext) of
             Inl e \<Rightarrow> Inl (Security (''Encryption failed: '' @ e))
           | Inr encrypted \<Rightarrow> Inr (base64_encode cr encrypted)))"

definition decrypt_credential_value ::
  "Crates \<Rightarrow> CredentialVault \<Rightarrow> string \<Rightarrow> ArgentorError + string" where
  "decrypt_credential_value cr v ciphertext =
     (case encryption_key v of
        None \<Rightarrow> Inl (Security ''Encryption not enabled on this vault'')
      | Some key \<Rightarrow>
          (case base64_decode cr ciphertext of
             Inl e \<Rightarrow> Inl (Security (''Base64 decode failed: '' @ e))
           | Inr encrypted \<Rightarrow>
               (case decrypt_value (sha256 cr) key encrypted of
                  Inl e \<Rightarrow> Inl (Security (''Decryption failed: '' @ e))
                | Inr plaintext \<Rightarrow>
                    (case from_utf8 (map unat plaintext) of
                       Some s \<Rightarrow> Inr s
                     | None \<Rightarrow> Inl (Security (''Decrypted value is not valid UTF-8: ''
                                   @ utf8_error cr plaintext))))))"

definition maybe_encrypt ::
  "Crates \<Rightarrow> draw \<Rightarrow> CredentialVault \<Rightarrow> string \<Rightarrow> ArgentorError + string" where
  "maybe_encrypt cr d v val =
     (if encryption_key v \<noteq> None then encrypt_credential_value cr d v val else Inr val)"

definition maybe_decrypt ::
  "Crates \<Rightarrow> CredentialVault \<Rightarrow> string \<Rightarrow> ArgentorError + string" where
  "maybe_decrypt cr v val =
     (if encryption_key v \<noteq> None then decrypt_credential_value cr v val else Inr val)"

section \<open>Operations\<close>

definition cred_text :: "string \<Rightarrow> string \<Rightarrow> ArgentorError" where
  "cred_text i what = Security (''Credential '' @ [CHR 0x27] @ i @ [CHR 0x27] @ what)"

definition cred_not_found :: "string \<Rightarrow> ArgentorError" where
  "cred_not_found i = cred_text i '' not found''"

definition vault_add ::
  "Crates \<Rightarrow> draw \<Rightarrow> int \<Rightarrow> CredentialVault \<Rightarrow> string \<Rightarrow> string \<Rightarrow> string \<Rightarrow> string
     \<Rightarrow> CredentialPolicy \<Rightarrow> ArgentorError + CredentialVault" where
  "vault_add cr d now v i prov kn val pol =
     (case maybe_encrypt cr d v val of
        Inl e \<Rightarrow> Inl e
      | Inr stored_value \<Rightarrow>
          if credentials v i \<noteq> None then Inl (cred_text i '' already exists'')
          else Inr (v\<lparr>credentials := (credentials v)(i \<mapsto>
                 \<lparr>cred_id = i, cred_provider = prov, key_name = kn, cred_value = stored_value,
                  cred_created_at = now, expires_at = None, cred_last_used = None,
                  usage_count = 0, policy = pol, cred_enabled = True, tags = Map.empty\<rparr>)\<rparr>))"

definition vault_get :: "Crates \<Rightarrow> CredentialVault \<Rightarrow> string \<Rightarrow> Credential option" where
  "vault_get cr v i =
     (case credentials v i of
        None \<Rightarrow> None
      | Some cred \<Rightarrow>
          (case maybe_decrypt cr v (cred_value cred) of
             Inl _ \<Rightarrow> None
           | Inr val \<Rightarrow> Some (cred\<lparr>cred_value := val\<rparr>)))"

definition vault_remove :: "CredentialVault \<Rightarrow> string \<Rightarrow> ArgentorError + CredentialVault" where
  "vault_remove v i =
     (if credentials v i = None then Inl (cred_not_found i)
      else Inr (v\<lparr>credentials := (credentials v)(i := None)\<rparr>))"

definition is_expired_at :: "Credential \<Rightarrow> int \<Rightarrow> bool" where
  "is_expired_at cred now \<longleftrightarrow> (case expires_at cred of Some exp \<Rightarrow> exp \<le> now | None \<Rightarrow> False)"

definition is_over_daily_quota :: "Credential \<Rightarrow> bool" where
  "is_over_daily_quota cred \<longleftrightarrow>
     (case max_daily_usage (policy cred) of Some m \<Rightarrow> usage_count cred \<ge> m | None \<Rightarrow> False)"

text \<open>\<open>min_by_key\<close>: the first of the least elements.\<close>

fun min_by_key :: "('a \<Rightarrow> 'b::linorder) \<Rightarrow> 'a list \<Rightarrow> 'a option" where
  "min_by_key f [] = None"
| "min_by_key f (x # xs) = Some (foldl (\<lambda>best y. if f y < f best then y else best) x xs)"

definition usable :: "int \<Rightarrow> string \<Rightarrow> Credential \<Rightarrow> bool" where
  "usable now prov c \<longleftrightarrow> cred_provider c = prov \<and> cred_enabled c \<and> \<not> is_expired_at c now
     \<and> \<not> is_over_daily_quota c"

text \<open>\<open>order\<close> lists the identifiers in the order of the map's iteration.\<close>

definition resolve ::
  "Crates \<Rightarrow> int \<Rightarrow> string list \<Rightarrow> CredentialVault \<Rightarrow> string \<Rightarrow> ArgentorError + Credential" where
  "resolve cr now order v prov =
     (case min_by_key usage_count (filter (usable now prov) (List.map_filter (credentials v) order)) of
        None \<Rightarrow> Inl (Security (''No available credential for provider '' @ [CHR 0x27] @ prov @ [CHR 0x27]))
      | Some cred \<Rightarrow>
          (case maybe_decrypt cr v (cred_value cred) of
             Inl e \<Rightarrow> Inl e
           | Inr val \<Rightarrow> Inr (cred\<lparr>cred_value := val\<rparr>)))"

definition update_cred ::
  "CredentialVault \<Rightarrow> string \<Rightarrow> (Credential \<Rightarrow> Credential) \<Rightarrow> ArgentorError + CredentialVault" where
  "update_cred v i f =
     (case credentials v i of
        None \<Rightarrow> Inl (cred_not_found i)
      | Some c \<Rightarrow> Inr (v\<lparr>credentials := (credentials v)(i \<mapsto> f c)\<rparr>))"

definition cred_record_usage ::
  "int \<Rightarrow> CredentialVault \<Rightarrow> string \<Rightarrow> ArgentorError + CredentialVault" where
  "cred_record_usage now v i =
     update_cred v i (\<lambda>c. c\<lparr>usage_count := usage_count c + 1, cred_last_used := Some now\<rparr>)"

definition cred_is_available :: "int \<Rightarrow> CredentialVault \<Rightarrow> string \<Rightarrow> bool" where
  "cred_is_available now v i \<longleftrightarrow>
     (case credentials v i of
        Some cred \<Rightarrow> cred_enabled cred \<and> \<not> is_expired_at cred now \<and> \<not> is_over_daily_quota cred
      | None \<Rightarrow> False)"

definition rotate ::
  "Crates \<Rightarrow> draw \<Rightarrow> int \<Rightarrow> CredentialVault \<Rightarrow> string \<Rightarrow> string
     \<Rightarrow> ArgentorError + CredentialVault" where
  "rotate cr d now v i new_value =
     (case maybe_encrypt cr d v new_value of
        Inl e \<Rightarrow> Inl e
      | Inr stored_value \<Rightarrow>
          update_cred v i (\<lambda>c. c\<lparr>cred_value := stored_value, usage_count := 0,
            cred_created_at := now, cred_last_used := None\<rparr>))"

definition shown_cred :: "Crates \<Rightarrow> CredentialVault \<Rightarrow> Credential \<Rightarrow> Credential" where
  "shown_cred cr v c =
     (case maybe_decrypt cr v (cred_value c) of
        Inr val \<Rightarrow> c\<lparr>cred_value := val\<rparr> | Inl _ \<Rightarrow> c)"

definition list_by_provider ::
  "Crates \<Rightarrow> string list \<Rightarrow> CredentialVault \<Rightarrow> string \<Rightarrow> Credential list" where
  "list_by_provider cr order v prov =
     map (shown_cred cr v)
       (filter (\<lambda>c. cred_provider c = prov) (List.map_filter (credentials v) order))"

definition list_all_creds :: "Crates \<Rightarrow> string list \<Rightarrow> CredentialVault \<Rightarrow> Credential list" where
  "list_all_creds cr order v = map (shown_cred cr v) (List.map_filter (credentials v) order)"

definition count_cred :: "int \<Rightarrow> CredentialStats \<Rightarrow> Credential \<Rightarrow> CredentialStats" where
  "count_cred now s cred =
     (let n = (case stats_providers s (cred_provider cred) of Some n \<Rightarrow> n | None \<Rightarrow> 0);
          s = s\<lparr>stats_providers := (stats_providers s)(cred_provider cred \<mapsto> n + 1),
                cs_total_usage := cs_total_usage s + usage_count cred\<rparr>
      in if is_expired_at cred now then s\<lparr>expired_credentials := expired_credentials s + 1\<rparr>
         else if cred_enabled cred then s\<lparr>active_credentials := active_credentials s + 1\<rparr>
         else s)"

definition vault_stats :: "int \<Rightarrow> string list \<Rightarrow> CredentialVault \<Rightarrow> CredentialStats" where
  "vault_stats now order v =
     foldl (count_cred now)
       \<lparr>total_credentials = card (dom (credentials v)), active_credentials = 0,
        expired_credentials = 0, stats_providers = Map.empty, cs_total_usage = 0\<rparr>
       (List.map_filter (credentials v) order)"

definition cred_set_enabled ::
  "CredentialVault \<Rightarrow> string \<Rightarrow> bool \<Rightarrow> ArgentorError + CredentialVault" where
  "cred_set_enabled v i b = update_cred v i (\<lambda>c. c\<lparr>cred_enabled := b\<rparr>)"

definition set_expires_at ::
  "CredentialVault \<Rightarrow> string \<Rightarrow> int option \<Rightarrow> ArgentorError + CredentialVault" where
  "set_expires_at v i e = update_cred v i (\<lambda>c. c\<lparr>expires_at := e\<rparr>)"

text \<open>The loop of \<open>from_env\<close> and \<open>from_env_encrypted\<close>, with the draw and the time of each call.\<close>

fun import_env ::
  "Crates \<Rightarrow> (string \<rightharpoonup> string) \<Rightarrow> CredentialPolicy \<Rightarrow> CredentialVault
     \<Rightarrow> ((string \<times> string \<times> string) \<times> draw \<times> int) list \<Rightarrow> CredentialVault" where
  "import_env cr env pol v [] = v"
| "import_env cr env pol v (((prov, kn, env_var), d, now) # rest) =
     import_env cr env pol
       (case env env_var of
          None \<Rightarrow> v
        | Some val \<Rightarrow>
            (case vault_add cr d now v (prov @ ''_'' @ kn) prov kn val pol of
               Inl _ \<Rightarrow> v | Inr v' \<Rightarrow> v')) rest"

definition from_env ::
  "Crates \<Rightarrow> (string \<rightharpoonup> string) \<Rightarrow> ((string \<times> string \<times> string) \<times> draw \<times> int) list
     \<Rightarrow> CredentialPolicy \<Rightarrow> CredentialVault" where
  "from_env cr env mappings pol = import_env cr env pol vault_new mappings"

definition from_env_encrypted ::
  "Crates \<Rightarrow> (string \<rightharpoonup> string) \<Rightarrow> ((string \<times> string \<times> string) \<times> draw \<times> int) list
     \<Rightarrow> CredentialPolicy \<Rightarrow> string \<Rightarrow> CredentialVault" where
  "from_env_encrypted cr env mappings pol passphrase =
     import_env cr env pol (with_encryption cr passphrase) mappings"

definition save_encrypted ::
  "Crates \<Rightarrow> ((string \<rightharpoonup> Credential) \<Rightarrow> string + u8 list) \<Rightarrow> draw \<Rightarrow> CredentialVault
     \<Rightarrow> ArgentorError + u8 list" where
  "save_encrypted cr to_json d v =
     (case encryption_key v of
        None \<Rightarrow> Inl (Security ''Cannot save encrypted vault: encryption not enabled'')
      | Some key \<Rightarrow>
          (case to_json (credentials v) of
             Inl e \<Rightarrow> Inl (Security (''Failed to serialize vault: '' @ e))
           | Inr json \<Rightarrow>
               (case encrypt_value (sha256 cr) (fst d) (snd d) key json of
                  Inl e \<Rightarrow> Inl (Security (''Vault encryption failed: '' @ e))
                | Inr encrypted \<Rightarrow> Inr encrypted)))"

definition load_encrypted ::
  "Crates \<Rightarrow> (u8 list \<Rightarrow> string + (string \<rightharpoonup> Credential)) \<Rightarrow> u8 list \<Rightarrow> string
     \<Rightarrow> ArgentorError + CredentialVault" where
  "load_encrypted cr of_json file passphrase =
     (let key = derive_key (sha256 cr) passphrase vault_salt
      in case decrypt_value (sha256 cr) key file of
           Inl e \<Rightarrow> Inl (Security (''Vault decryption failed: '' @ e))
         | Inr json_bytes \<Rightarrow>
             (case of_json json_bytes of
                Inl e \<Rightarrow> Inl (Security (''Failed to deserialize vault: '' @ e))
              | Inr creds \<Rightarrow> Inr \<lparr>credentials = creds, encryption_key = Some key\<rparr>))"

section \<open>An encrypted vault against a plain one\<close>

text \<open>What the code relies on of the crates.\<close>

definition crate_laws :: "Crates \<Rightarrow> bool" where
  "crate_laws cr \<longleftrightarrow> (\<forall>m. length (sha256 cr m) = 32)
     \<and> (\<forall>b. base64_decode cr (base64_encode cr b) = Inr b)"

definition good_draw :: "draw \<Rightarrow> bool" where
  "good_draw d \<longleftrightarrow> length (fst d) = SALT_SIZE \<and> length (snd d) = NONCE_SIZE"

text \<open>The plain vault that a vault shows, and a vault all of whose values can be decrypted.\<close>

definition plain :: "Crates \<Rightarrow> CredentialVault \<Rightarrow> CredentialVault" where
  "plain cr v = \<lparr>credentials = (\<lambda>i. map_option (shown_cred cr v) (credentials v i)),
     encryption_key = None\<rparr>"

definition sealed :: "Crates \<Rightarrow> CredentialVault \<Rightarrow> bool" where
  "sealed cr v \<longleftrightarrow> encryption_key v \<noteq> None
     \<and> (\<forall>i c. credentials v i = Some c \<longrightarrow> (\<exists>s. maybe_decrypt cr v (cred_value c) = Inr s))"

lemma utf8_bytes_of: "from_utf8 (map unat (bytes_of s)) = Some s"
proof -
  have "map unat (bytes_of s) = as_bytes s"
    unfolding bytes_of_def map_map
    by (rule map_idI) (use as_bytes_bound in \<open>fastforce simp: unsigned_of_nat take_bit_nat_eq_self\<close>)
  then show ?thesis by simp
qed

lemma encrypt_decrypt:
  assumes "crate_laws cr" "good_draw d" "encryption_key v \<noteq> None"
  shows "\<exists>s. maybe_encrypt cr d v val = Inr s \<and> maybe_decrypt cr v s = Inr val"
proof -
  obtain k where k: "encryption_key v = Some k" using assms(3) by auto
  obtain data where "encrypt_value (sha256 cr) (fst d) (snd d) k (bytes_of val) = Inr data"
    "decrypt_value (sha256 cr) k data = Inr (bytes_of val)"
    using encrypt_value_roundtrip [of "sha256 cr" "fst d" "snd d" k "bytes_of val"] assms(1,2)
    by (auto simp: crate_laws_def good_draw_def)
  then show ?thesis
    using assms(1) k by (simp add: maybe_encrypt_def maybe_decrypt_def encrypt_credential_value_def
        decrypt_credential_value_def crate_laws_def utf8_bytes_of)
qed

lemma decrypt_key:
  "encryption_key v' = encryption_key v \<Longrightarrow> maybe_decrypt cr v' = maybe_decrypt cr v
     \<and> shown_cred cr v' = shown_cred cr v"
  by (simp add: fun_eq_iff maybe_decrypt_def decrypt_credential_value_def shown_cred_def)

lemma maybe_plain [simp]:
  "maybe_encrypt cr d (plain cr' v) val = Inr val" "maybe_decrypt cr (plain cr' v) val = Inr val"
  "encryption_key (plain cr' v) = None"
  by (simp_all add: maybe_encrypt_def maybe_decrypt_def plain_def)

lemma credentials_plain [simp]: "credentials (plain cr v) i = map_option (shown_cred cr v) (credentials v i)"
  by (simp add: plain_def)

lemma shown_plain [simp]: "shown_cred cr (plain cr' v) c = c"
  by (simp add: shown_cred_def)

lemma shown_cred_simps [simp]:
  "cred_provider (shown_cred cr v c) = cred_provider c" "cred_enabled (shown_cred cr v c) = cred_enabled c"
  "usage_count (shown_cred cr v c) = usage_count c" "expires_at (shown_cred cr v c) = expires_at c"
  "policy (shown_cred cr v c) = policy c"
  by (simp_all add: shown_cred_def split: sum.splits)

lemma usable_shown [simp]:
  "usable now prov (shown_cred cr v c) \<longleftrightarrow> usable now prov c"
  "is_expired_at (shown_cred cr v c) now \<longleftrightarrow> is_expired_at c now"
  "is_over_daily_quota (shown_cred cr v c) \<longleftrightarrow> is_over_daily_quota c"
  by (simp_all add: usable_def is_expired_at_def is_over_daily_quota_def split: option.split)

lemma map_filter_plain:
  "List.map_filter (credentials (plain cr v)) order
     = map (shown_cred cr v) (List.map_filter (credentials v) order)"
  by (induction order) (auto simp: List.map_filter_def split: option.splits)

lemma min_by_key_map:
  "(\<And>x. f (g x) = f x) \<Longrightarrow> min_by_key f (map g xs) = map_option g (min_by_key f xs)"
proof (cases xs)
  case (Cons x ys)
  assume fg: "\<And>x. f (g x) = f x"
  have "foldl (\<lambda>best y. if f y < f best then y else best) (g x) (map g ys)
      = g (foldl (\<lambda>best y. if f y < f best then y else best) x ys)"
    by (induction ys arbitrary: x) (simp_all add: fg flip: if_distrib)
  with Cons show ?thesis by simp
qed simp

lemma min_by_key_least:
  "min_by_key f xs = Some m \<Longrightarrow> m \<in> set xs \<and> (\<forall>y\<in>set xs. f m \<le> f y)"
proof (cases xs)
  case (Cons x ys)
  have "foldl (\<lambda>best y. if f y < f best then y else best) x ys \<in> set (x # ys)
      \<and> (\<forall>y\<in>set (x # ys). f (foldl (\<lambda>best y. if f y < f best then y else best) x ys) \<le> f y)"
    by (induction ys rule: rev_induct) (auto simp: not_less intro: less_imp_le order.trans)
  with Cons show "min_by_key f xs = Some m \<Longrightarrow> ?thesis" by auto
qed simp

section \<open>Runs\<close>

datatype vault_op =
    VAdd draw int string string string string CredentialPolicy
  | VRemove string
  | VGet string
  | VResolve int "string list" string
  | VRecordUsage int string
  | VRotate draw int string string
  | VSetEnabled string bool
  | VSetExpiry string "int option"
  | VIsAvailable int string
  | VList "string list" string
  | VListAll "string list"
  | VStats int "string list"

datatype vault_out =
    Done "ArgentorError + unit"
  | Found "Credential option"
  | Resolved "ArgentorError + Credential"
  | Answer bool
  | Listed "Credential list"
  | Counted CredentialStats

definition finish :: "CredentialVault \<Rightarrow> ArgentorError + CredentialVault \<Rightarrow> vault_out \<times> CredentialVault" where
  "finish v r = (case r of Inl e \<Rightarrow> (Done (Inl e), v) | Inr v' \<Rightarrow> (Done (Inr ()), v'))"

fun vault_step :: "Crates \<Rightarrow> CredentialVault \<Rightarrow> vault_op \<Rightarrow> vault_out \<times> CredentialVault" where
  "vault_step cr v (VAdd d now i prov kn val pol) = finish v (vault_add cr d now v i prov kn val pol)"
| "vault_step cr v (VRemove i) = finish v (vault_remove v i)"
| "vault_step cr v (VGet i) = (Found (vault_get cr v i), v)"
| "vault_step cr v (VResolve now order prov) = (Resolved (resolve cr now order v prov), v)"
| "vault_step cr v (VRecordUsage now i) = finish v (cred_record_usage now v i)"
| "vault_step cr v (VRotate d now i val) = finish v (rotate cr d now v i val)"
| "vault_step cr v (VSetEnabled i b) = finish v (cred_set_enabled v i b)"
| "vault_step cr v (VSetExpiry i e) = finish v (set_expires_at v i e)"
| "vault_step cr v (VIsAvailable now i) = (Answer (cred_is_available now v i), v)"
| "vault_step cr v (VList order prov) = (Listed (list_by_provider cr order v prov), v)"
| "vault_step cr v (VListAll order) = (Listed (list_all_creds cr order v), v)"
| "vault_step cr v (VStats now order) = (Counted (vault_stats now order v), v)"

fun good_op :: "vault_op \<Rightarrow> bool" where
  "good_op (VAdd d _ _ _ _ _ _) = good_draw d"
| "good_op (VRotate d _ _ _) = good_draw d"
| "good_op _ = True"

definition vault_rel :: "Crates \<Rightarrow> CredentialVault \<Rightarrow> CredentialVault \<Rightarrow> bool" where
  "vault_rel cr v p \<longleftrightarrow> crate_laws cr \<and> sealed cr v \<and> p = plain cr v"

lemma sealed_upd:
  assumes "sealed cr v" "\<exists>s. maybe_decrypt cr v (cred_value c) = Inr s"
  shows "sealed cr (v\<lparr>credentials := (credentials v)(i \<mapsto> c)\<rparr>)"
  using assms decrypt_key [of "v\<lparr>credentials := (credentials v)(i \<mapsto> c)\<rparr>" v cr]
  by (auto simp: sealed_def)

lemma plain_upd:
  "plain cr (v\<lparr>credentials := (credentials v)(i \<mapsto> c)\<rparr>)
     = (plain cr v)\<lparr>credentials := (credentials (plain cr v))(i \<mapsto> shown_cred cr v c)\<rparr>"
proof -
  have eq: "shown_cred cr (v\<lparr>credentials := (credentials v)(i \<mapsto> c)\<rparr>) = shown_cred cr v"
    using decrypt_key [of "v\<lparr>credentials := (credentials v)(i \<mapsto> c)\<rparr>" v cr] by simp
  show ?thesis by (simp add: plain_def eq fun_eq_iff)
qed

text \<open>A step that updates one credential, where the update and its plain image agree.\<close>

lemma update_cred_refines:
  assumes "vault_rel cr v p"
    and "\<And>c. credentials v i = Some c \<Longrightarrow> shown_cred cr v (f c) = g (shown_cred cr v c)
      \<and> (\<exists>s. maybe_decrypt cr v (cred_value (f c)) = Inr s)"
  shows "fst (finish v (update_cred v i f)) = fst (finish p (update_cred p i g))
    \<and> vault_rel cr (snd (finish v (update_cred v i f))) (snd (finish p (update_cred p i g)))"
proof (cases "credentials v i")
  case None
  then show ?thesis using assms(1) by (simp add: update_cred_def finish_def vault_rel_def)
next
  case (Some c)
  then show ?thesis
    using assms(1) assms(2) [OF Some] sealed_upd [of cr v "f c" i] plain_upd [of cr v i "f c"]
    by (simp add: update_cred_def finish_def vault_rel_def)
qed

lemma sealed_value: "sealed cr v \<Longrightarrow> credentials v i = Some c \<Longrightarrow> \<exists>s. maybe_decrypt cr v (cred_value c) = Inr s"
  by (simp add: sealed_def)

lemma shown_value:
  "maybe_decrypt cr v (cred_value c) = Inr s \<Longrightarrow> shown_cred cr v c = c\<lparr>cred_value := s\<rparr>"
  by (simp add: shown_cred_def)

lemma keep_value_refines:
  assumes "vault_rel cr v p" "\<And>c s. (f c)\<lparr>cred_value := s\<rparr> = f (c\<lparr>cred_value := s\<rparr>)"
    and "\<And>c. cred_value (f c) = cred_value c"
  shows "fst (finish v (update_cred v i f)) = fst (finish p (update_cred p i f))
    \<and> vault_rel cr (snd (finish v (update_cred v i f))) (snd (finish p (update_cred p i f)))"
proof (rule update_cred_refines [OF assms(1)])
  fix c
  assume c: "credentials v i = Some c"
  obtain s where "maybe_decrypt cr v (cred_value c) = Inr s"
    using sealed_value [OF _ c] assms(1) by (auto simp: vault_rel_def)
  then show "shown_cred cr v (f c) = f (shown_cred cr v c) \<and> (\<exists>s. maybe_decrypt cr v (cred_value (f c)) = Inr s)"
    using assms(2,3) by (simp add: shown_value)
qed

lemma vault_get_refines: "vault_rel cr v p \<Longrightarrow> vault_get cr v i = vault_get cr p i"
  using sealed_value [of cr v i] shown_value [of cr v]
  by (fastforce simp: vault_get_def vault_rel_def split: option.splits sum.splits)

lemma resolve_refines: "vault_rel cr v p \<Longrightarrow> resolve cr now order v prov = resolve cr now order p prov"
proof -
  assume rel: "vault_rel cr v p"
  let ?cs = "filter (usable now prov) (List.map_filter (credentials v) order)"
  have p: "p = plain cr v" using rel by (simp add: vault_rel_def)
  have "filter (usable now prov) (List.map_filter (credentials p) order) = map (shown_cred cr v) ?cs"
    unfolding p map_filter_plain by (simp add: filter_map o_def)
  then have min: "min_by_key usage_count (filter (usable now prov) (List.map_filter (credentials p) order))
      = map_option (shown_cred cr v) (min_by_key usage_count ?cs)"
    by (simp add: min_by_key_map)
  show ?thesis
  proof (cases "min_by_key usage_count ?cs")
    case None
    then show ?thesis using min by (simp add: resolve_def)
  next
    case (Some c)
    then have "c \<in> set ?cs" using min_by_key_least [of usage_count ?cs] by blast
    then obtain i where "credentials v i = Some c" by (auto simp: List.map_filter_def)
    then obtain s where "maybe_decrypt cr v (cred_value c) = Inr s"
      using sealed_value [of cr v i c] rel by (auto simp: vault_rel_def)
    then show ?thesis using Some min shown_value [of cr v c s] by (simp add: resolve_def p)
  qed
qed

lemma list_refines: "vault_rel cr v p \<Longrightarrow> list_by_provider cr order v prov = list_by_provider cr order p prov"
  by (simp add: list_by_provider_def vault_rel_def map_filter_plain filter_map o_def)

lemma list_all_refines: "vault_rel cr v p \<Longrightarrow> list_all_creds cr order v = list_all_creds cr order p"
  by (simp add: list_all_creds_def vault_rel_def map_filter_plain o_def)

lemma count_shown: "count_cred now s (shown_cred cr v c) = count_cred now s c"
  by (simp add: count_cred_def shown_cred_def is_expired_at_def Let_def split: sum.split)

lemma stats_refines: "vault_rel cr v p \<Longrightarrow> vault_stats now order v = vault_stats now order p"
proof -
  assume rel: "vault_rel cr v p"
  then have "dom (credentials p) = dom (credentials v)" by (auto simp: vault_rel_def plain_def dom_def)
  then show ?thesis using rel by (simp add: vault_stats_def vault_rel_def map_filter_plain foldl_map count_shown)
qed

lemma add_refines:
  assumes "vault_rel cr v p" "good_draw d"
  shows "fst (finish v (vault_add cr d now v i prov kn val pol)) = fst (finish p (vault_add cr d now p i prov kn val pol))
    \<and> vault_rel cr (snd (finish v (vault_add cr d now v i prov kn val pol)))
        (snd (finish p (vault_add cr d now p i prov kn val pol)))"
proof -
  have rel: "crate_laws cr" "sealed cr v" "p = plain cr v" using assms(1) by (simp_all add: vault_rel_def)
  obtain s where s: "maybe_encrypt cr d v val = Inr s" "maybe_decrypt cr v s = Inr val"
    using encrypt_decrypt [OF rel(1) assms(2), of v val] rel(2) by (auto simp: sealed_def)
  show ?thesis
  proof (cases "credentials v i")
    case None
    let ?c = "\<lparr>cred_id = i, cred_provider = prov, key_name = kn, cred_value = s,
        cred_created_at = now, expires_at = None, cred_last_used = None, usage_count = 0,
        policy = pol, cred_enabled = True, tags = Map.empty\<rparr>"
    have "sealed cr (v\<lparr>credentials := (credentials v)(i \<mapsto> ?c)\<rparr>)"
      by (rule sealed_upd [OF rel(2)]) (simp add: s)
    then show ?thesis
      using None s rel plain_upd [of cr v i ?c] shown_value [of cr v ?c val]
      by (simp add: vault_add_def finish_def vault_rel_def)
  next
    case (Some c)
    then show ?thesis using s assms(1) rel(3) by (simp add: vault_add_def finish_def)
  qed
qed

lemma remove_refines:
  assumes "vault_rel cr v p"
  shows "fst (finish v (vault_remove v i)) = fst (finish p (vault_remove p i))
    \<and> vault_rel cr (snd (finish v (vault_remove v i))) (snd (finish p (vault_remove p i)))"
proof -
  let ?v = "v\<lparr>credentials := (credentials v)(i := None)\<rparr>"
  have eq: "maybe_decrypt cr ?v = maybe_decrypt cr v" "shown_cred cr ?v = shown_cred cr v"
    using decrypt_key [of ?v v cr] by simp_all
  have "sealed cr v \<Longrightarrow> sealed cr ?v" by (simp add: sealed_def eq)
  moreover have "plain cr ?v = (plain cr v)\<lparr>credentials := (credentials (plain cr v))(i := None)\<rparr>"
    by (simp add: plain_def eq fun_eq_iff)
  ultimately show ?thesis
    using assms by (cases "credentials v i") (simp_all add: vault_remove_def finish_def vault_rel_def)
qed

lemma rotate_refines:
  assumes "vault_rel cr v p" "good_draw d"
  shows "fst (finish v (rotate cr d now v i val)) = fst (finish p (rotate cr d now p i val))
    \<and> vault_rel cr (snd (finish v (rotate cr d now v i val))) (snd (finish p (rotate cr d now p i val)))"
proof -
  have rel: "crate_laws cr" "sealed cr v" "p = plain cr v" using assms(1) by (simp_all add: vault_rel_def)
  obtain s where s: "maybe_encrypt cr d v val = Inr s" "maybe_decrypt cr v s = Inr val"
    using encrypt_decrypt [OF rel(1) assms(2), of v val] rel(2) by (auto simp: sealed_def)
  have r: "rotate cr d now v i val = update_cred v i (\<lambda>c. c\<lparr>cred_value := s, usage_count := 0,
      cred_created_at := now, cred_last_used := None\<rparr>)"
    "rotate cr d now p i val = update_cred p i (\<lambda>c. c\<lparr>cred_value := val, usage_count := 0,
      cred_created_at := now, cred_last_used := None\<rparr>)"
    using s rel(3) by (simp_all add: rotate_def)
  show ?thesis unfolding r
  proof (rule update_cred_refines [OF assms(1)])
    fix c :: Credential
    let ?f = "\<lambda>x. c\<lparr>cred_value := x, usage_count := 0, cred_created_at := now, cred_last_used := None\<rparr>"
    assume "credentials v i = Some c"
    then obtain x where "maybe_decrypt cr v (cred_value c) = Inr x" using sealed_value [OF rel(2)] by blast
    then show "shown_cred cr v (?f s) = shown_cred cr v c\<lparr>cred_value := val, usage_count := 0,
          cred_created_at := now, cred_last_used := None\<rparr>
        \<and> (\<exists>x. maybe_decrypt cr v (cred_value (?f s)) = Inr x)"
      using s(2) by (simp add: shown_value [of cr v "?f s" val] shown_value [of cr v c x])
  qed
qed

lemma available_refines: "vault_rel cr v p \<Longrightarrow> cred_is_available now v i = cred_is_available now p i"
  by (cases "credentials v i") (simp_all add: cred_is_available_def vault_rel_def)

interpretation vault: simulation "\<lambda>v e. Some (vault_step cr v e)" "vault_step cr" "vault_rel cr" good_op for cr
proof
  fix v p e
  assume rel: "vault_rel cr v p" and good: "good_op e"
  have "fst (vault_step cr v e) = fst (vault_step cr p e)
      \<and> vault_rel cr (snd (vault_step cr v e)) (snd (vault_step cr p e))"
  proof (cases e)
    case (VAdd d now i prov kn val pol)
    then show ?thesis using rel good add_refines by simp
  next
    case (VRemove i)
    then show ?thesis using rel remove_refines by simp
  next
    case (VGet i)
    then show ?thesis using rel vault_get_refines by simp
  next
    case (VResolve now order prov)
    then show ?thesis using rel resolve_refines by simp
  next
    case (VRecordUsage now i)
    then show ?thesis using keep_value_refines [OF rel] by (simp add: cred_record_usage_def)
  next
    case (VRotate d now i val)
    then show ?thesis using rel good rotate_refines by simp
  next
    case (VSetEnabled i b)
    then show ?thesis using keep_value_refines [OF rel] by (simp add: cred_set_enabled_def)
  next
    case (VSetExpiry i x)
    then show ?thesis using keep_value_refines [OF rel] by (simp add: set_expires_at_def)
  next
    case (VIsAvailable now i)
    then show ?thesis using rel available_refines by simp
  next
    case (VList order prov)
    then show ?thesis using rel list_refines by simp
  next
    case (VListAll order)
    then show ?thesis using rel list_all_refines by simp
  next
    case (VStats now order)
    then show ?thesis using rel stats_refines by simp
  qed
  then show "\<exists>v'. Some (vault_step cr v e) = Some (fst (vault_step cr p e), v')
      \<and> vault_rel cr v' (snd (vault_step cr p e))"
    by (metis prod.collapse)
qed

lemma vault_rel_new: "crate_laws cr \<Longrightarrow> vault_rel cr (with_encryption cr passphrase) vault_new"
  by (simp add: vault_rel_def sealed_def with_encryption_def vault_new_def plain_def)

section \<open>Properties\<close>

text \<open>Sample crates that satisfy the laws, for examples.\<close>

definition sample_crates :: Crates where
  "sample_crates = \<lparr>sha256 = (\<lambda>m. replicate 32 (word_of_nat (length m))),
     base64_encode = map (\<lambda>b. char_of (unat b)), base64_decode = (\<lambda>s. Inr (map (\<lambda>c. word_of_nat (of_char c)) s)),
     utf8_error = (\<lambda>_. [])\<rparr>"

lemma sample_laws: "crate_laws sample_crates"
proof -
  have "map (\<lambda>c. word_of_nat (of_char (char_of (unat b) :: char))) [b] = [b]" for b :: u8
  proof -
    have "unat b < 256" using unsigned_less [of b, where 'a = nat] by simp
    then show ?thesis by (simp add: of_char_of)
  qed
  then have "map ((\<lambda>c. word_of_nat (of_char c)) \<circ> (\<lambda>b. char_of (unat b) :: char)) bs = bs" for bs :: "u8 list"
    by (intro map_idI) simp
  then show ?thesis by (simp add: crate_laws_def sample_crates_def o_def)
qed

definition default_policy :: CredentialPolicy where
  "default_policy = \<lparr>max_calls_per_minute = None, max_daily_usage = None, auto_rotate = False,
     fallback_credential_id = None\<rparr>"

definition sample_calls :: "vault_op list" where
  "sample_calls = [VAdd (replicate 16 1, replicate 12 2) 0 ''k'' ''openai'' ''api_key'' ''sk'' default_policy,
     VRotate (replicate 16 3, replicate 12 4) 1 ''k'' ''sk2'', VGet ''k'', VResolve 2 [''k''] ''openai'', VListAll [''k''], VStats 3 [''k'']]"

text \<open>C9: Encryption is transparent to those who use the credentials. With crates that keep their laws and
  draws of the sizes of a salt and a nonce, a vault with a passphrase answers every sequence of calls
  that add, remove, read, resolve, count, rotate, enable, expire, list or total up credentials, errors
  included, exactly as a vault without one does. The other two public calls, \<open>is_encrypted\<close> and
  \<open>save_encrypted\<close>, are about the encryption itself and differ.\<close>

theorem vault_encryption_transparent:
  assumes "crate_laws cr" "list_all good_op ops"
  shows "map_option fst (run_impl (\<lambda>v e. Some (vault_step cr v e)) (with_encryption cr passphrase) ops)
    = Some (fst (run_spec (vault_step cr) vault_new ops))"
  using vault.run_sim [OF vault_rel_new [OF assms(1)] assms(2)] by auto

theorem vault_encryption_transparent_witness:
  "map_option fst (run_impl (\<lambda>v e. Some (vault_step sample_crates v e)) (with_encryption sample_crates ''pw'')
     sample_calls) = Some (fst (run_spec (vault_step sample_crates) vault_new sample_calls))"
  by (rule vault_encryption_transparent [OF sample_laws])
    (simp add: sample_calls_def good_draw_def sizes)

text \<open>What \<open>resolve\<close> answers, whatever the order of the map: an error exactly when the
  provider has no credential that is enabled, not expired and within its quota, and else one
  of these with the least use.\<close>

lemma resolve_least_used:
  assumes "encryption_key v = None" "set order = dom (credentials v)"
  shows "case resolve cr now order v prov of
      Inl _ \<Rightarrow> {i. \<exists>c. credentials v i = Some c \<and> usable now prov c} = {}
    | Inr c \<Rightarrow> c \<in> ran (credentials v) \<and> usable now prov c
        \<and> usage_count c = Min (usage_count ` {c \<in> ran (credentials v). usable now prov c})"
proof -
  let ?cs = "filter (usable now prov) (List.map_filter (credentials v) order)"
  have ran: "ran (credentials v) = set (List.map_filter (credentials v) order)"
    using assms(2) by (force simp: List.map_filter_def ran_def)
  show ?thesis
  proof (cases "min_by_key usage_count ?cs")
    case None
    then have "?cs = []" by (cases ?cs) auto
    then have "\<not> usable now prov c" if "credentials v i = Some c" for i c
      using that ran by (auto simp: filter_empty_conv intro: ranI)
    then show ?thesis using None by (simp add: resolve_def)
  next
    case (Some c)
    then have "c \<in> set ?cs" "\<forall>d\<in>set ?cs. usage_count c \<le> usage_count d"
      using min_by_key_least [of usage_count ?cs] by blast+
    moreover have "set ?cs = {c \<in> ran (credentials v). usable now prov c}" using ran by auto
    ultimately have "usage_count c = Min (usage_count ` {c \<in> ran (credentials v). usable now prov c})"
      and "c \<in> ran (credentials v)" "usable now prov c"
      using ran by (auto intro!: Min_eqI [symmetric] simp flip: \<open>set ?cs = _\<close>)
    then show ?thesis using Some assms(1) by (simp add: resolve_def maybe_decrypt_def)
  qed
qed

lemma resolve_least_used_witness:
  "case resolve sample_crates 0 [] vault_new ''openai'' of
      Inl _ \<Rightarrow> {i. \<exists>c. credentials vault_new i = Some c \<and> usable 0 ''openai'' c} = {}
    | Inr c \<Rightarrow> c \<in> ran (credentials vault_new) \<and> usable 0 ''openai'' c
        \<and> usage_count c = Min (usage_count ` {c \<in> ran (credentials vault_new). usable 0 ''openai'' c})"
  by (rule resolve_least_used) (simp_all add: vault_new_def)

text \<open>Saving an encrypted vault and loading the bytes with its passphrase gives the vault
  back, with crates that keep their laws and a serialiser that reads back what it wrote.\<close>

lemma save_load_roundtrip:
  assumes "crate_laws cr" "good_draw d"
    and "encryption_key v = encryption_key (with_encryption cr passphrase)"
    and "to_json (credentials v) = Inr json" "of_json json = Inr (credentials v)"
  shows "\<exists>file. save_encrypted cr to_json d v = Inr file \<and> load_encrypted cr of_json file passphrase = Inr v"
proof -
  let ?k = "derive_key (sha256 cr) passphrase vault_salt"
  obtain data where "encrypt_value (sha256 cr) (fst d) (snd d) ?k json = Inr data"
    "decrypt_value (sha256 cr) ?k data = Inr json"
    using encrypt_value_roundtrip [of "sha256 cr" "fst d" "snd d" ?k json] assms(1,2)
    by (auto simp: crate_laws_def good_draw_def)
  then show ?thesis
    using assms(3-5) by (simp add: save_encrypted_def load_encrypted_def with_encryption_def Let_def)
qed

lemma save_load_roundtrip_witness:
  "\<exists>file. save_encrypted sample_crates (\<lambda>_. Inr [1]) (replicate 16 0, replicate 12 0)
        (with_encryption sample_crates ''pw'') = Inr file
    \<and> load_encrypted sample_crates (\<lambda>_. Inr Map.empty) file ''pw'' = Inr (with_encryption sample_crates ''pw'')"
  by (rule save_load_roundtrip [where json = "[1]"])
    (simp_all add: sample_laws good_draw_def sizes with_encryption_def)

text \<open>The daily quota is never reset: a credential of quota 1 that was used once is unavailable at
  every later time.\<close>

lemma daily_quota_is_lifetime:
  assumes "vault_add cr d 0 v i prov kn val (default_policy\<lparr>max_daily_usage := Some 1\<rparr>) = Inr v1"
    and "cred_record_usage t1 v1 i = Inr v2"
  shows "\<not> cred_is_available t v2 i"
  using assms
  by (auto simp: vault_add_def cred_record_usage_def update_cred_def cred_is_available_def
      is_over_daily_quota_def split: sum.splits if_splits)

end
