(* ===== verification/RustText.thy ===== *)
theory RustText
  imports RustStd "HOL-Library.Char_ord" "HOL-Library.List_Lexorder"
begin

text \<open>
  Texts as the built-in tools read and write them: lines, numbers in decimal, and the order of
  strings. Rust compares strings by their UTF-8 bytes, which is the order of the scalar values,
  so it is the lexicographic order on characters.
\<close>

section \<open>Lines\<close>

abbreviation LF :: char where "LF \<equiv> CHR 10"

abbreviation CR :: char where "CR \<equiv> CHR 13"

text \<open>\<open>str::lines\<close>: every piece that a line feed ends, without it and without one carriage return
  before it, and what follows the last line feed unless it is empty.\<close>

definition strip_cr :: "string \<Rightarrow> string" where
  "strip_cr l = (if suffix [CR] l then butlast l else l)"

definition str_lines :: "string \<Rightarrow> string list" where
  "str_lines s =
     (let ps = split_char LF s
      in map strip_cr (butlast ps) @ (if last ps = [] then [] else [last ps]))"

text \<open>Text written line by line, each line ended by a line feed.\<close>

definition write_lines :: "string list \<Rightarrow> string" where
  "write_lines ls = concat (map (\<lambda>l. l @ [LF]) ls)"

lemma write_lines_simps [simp]:
  "write_lines [] = []" "write_lines (l # ls) = l @ LF # write_lines ls"
  "write_lines (ls @ ls') = write_lines ls @ write_lines ls'"
  by (simp_all add: write_lines_def)

lemma split_write_lines:
  "\<forall>l\<in>set ls. LF \<notin> set l \<Longrightarrow> split_char LF (write_lines ls) = ls @ [[]]"
proof (induction ls)
  case Nil
  show ?case by simp
next
  case (Cons l ls)
  then have "split_char LF (l @ LF # write_lines ls) = l # split_char LF (write_lines ls)"
    by (intro split_by_first) auto
  with Cons show ?case by simp
qed

lemma strip_cr_id: "\<not> suffix [CR] l \<Longrightarrow> strip_cr l = l"
  by (simp add: strip_cr_def)

lemma strip_cr_subset: "set (strip_cr l) \<subseteq> set l"
  by (auto simp: strip_cr_def dest: in_set_butlastD)

lemma str_lines_write_lines:
  "\<forall>l\<in>set ls. LF \<notin> set l \<Longrightarrow> str_lines (write_lines ls) = map strip_cr ls"
  by (simp add: str_lines_def split_write_lines)

lemma str_lines_no_LF: "l \<in> set (str_lines s) \<Longrightarrow> LF \<notin> set l"
proof -
  assume l: "l \<in> set (str_lines s)"
  let ?ps = "split_char LF s"
  have pieces: "LF \<notin> set p" if "p \<in> set ?ps" for p
    using split_by_pieces [of "\<lambda>x. x = LF" s] that by blast
  from l consider p where "p \<in> set (butlast ?ps)" "l = strip_cr p" | "l = last ?ps"
    unfolding str_lines_def Let_def by (cases "last ?ps = []") auto
  then show "LF \<notin> set l"
  proof cases
    case 1
    have "LF \<notin> set p" by (rule pieces [OF in_set_butlastD [OF 1(1)]])
    then show ?thesis unfolding 1(2) by (rule contra_subsetD [OF strip_cr_subset])
  next
    case 2
    then show ?thesis using pieces [of l] by simp
  qed
qed

section \<open>Decimal numbers\<close>

text \<open>\<open>str::parse\<close> to an unsigned integer below \<open>lim\<close>: an optional plus sign and then digits; the
  error is the first that the loop over the digits meets.\<close>

datatype IntError = EmptyInt | InvalidDigit | PosOverflow

fun int_error_message :: "IntError \<Rightarrow> string" where
  "int_error_message EmptyInt = ''cannot parse integer from empty string''"
| "int_error_message InvalidDigit = ''invalid digit found in string''"
| "int_error_message PosOverflow = ''number too large to fit in target type''"

definition to_digit :: "char \<Rightarrow> nat option" where
  "to_digit c = (let n = of_char c in if 48 \<le> n \<and> n \<le> 57 then Some (n - 48) else None)"

fun parse_digits :: "nat \<Rightarrow> nat \<Rightarrow> string \<Rightarrow> IntError + nat" where
  "parse_digits lim acc [] = Inr acc"
| "parse_digits lim acc (c # cs) =
     (case to_digit c of
        None \<Rightarrow> Inl InvalidDigit
      | Some d \<Rightarrow>
          if acc * 10 + d < lim then parse_digits lim (acc * 10 + d) cs else Inl PosOverflow)"

definition parse_uint :: "nat \<Rightarrow> string \<Rightarrow> IntError + nat" where
  "parse_uint lim s =
     (if s = [] then Inl EmptyInt
      else if s = ''+'' \<or> s = ''-'' then Inl InvalidDigit
      else parse_digits lim 0 (if hd s = CHR ''+'' then tl s else s))"

lemma to_digit_digit_char: "d < 10 \<Longrightarrow> to_digit (digit_char d) = Some d"
  by (simp add: to_digit_def digit_char_def Let_def)

lemma show_nat_digits: "c \<in> set (show_nat n) \<Longrightarrow> \<exists>d<10. c = digit_char d"
  unfolding show_nat_def
proof (induction n rule: less_induct)
  case (less n)
  show ?case
  proof (cases "n < 10")
    case True
    then show ?thesis using less.prems by (auto simp: show_radix.simps [of 10 n])
  next
    case False
    then have "c \<in> set (show_radix 10 (n div 10)) \<or> c = digit_char (n mod 10)"
      using less.prems by (auto simp: show_radix.simps [of 10 n])
    then show ?thesis
    proof
      assume "c \<in> set (show_radix 10 (n div 10))"
      then show ?thesis using less.IH [of "n div 10"] False by simp
    next
      assume "c = digit_char (n mod 10)"
      then show ?thesis by (intro exI [of _ "n mod 10"]) simp
    qed
  qed
qed

lemma show_nat_not_Nil [simp]: "show_nat n \<noteq> []"
  by (simp add: show_nat_def show_radix.simps [of 10 n])

lemma digit_char_range: "d < 10 \<Longrightarrow> of_char (digit_char d) = 48 + (d :: nat)"
  by (simp add: digit_char_def)

lemma show_nat_range: "c \<in> set (show_nat n) \<Longrightarrow> 48 \<le> (of_char c :: nat) \<and> of_char c \<le> (57 :: nat)"
  using show_nat_digits [of c n] by (auto simp: digit_char_range)

lemma parse_digits_append:
  "parse_digits lim acc (s @ t) =
     (case parse_digits lim acc s of Inl e \<Rightarrow> Inl e | Inr n \<Rightarrow> parse_digits lim n t)"
  by (induction lim acc s rule: parse_digits.induct) (auto split: option.split)

lemma parse_digits_show: "n < lim \<Longrightarrow> parse_digits lim 0 (show_nat n) = Inr n"
  unfolding show_nat_def
proof (induction n rule: less_induct)
  case (less n)
  show ?case
  proof (cases "n < 10")
    case True
    then show ?thesis using less.prems by (simp add: show_radix.simps [of 10 n] to_digit_digit_char)
  next
    case False
    then have "parse_digits lim 0 (show_radix 10 (n div 10)) = Inr (n div 10)"
      using less.prems by (intro less.IH) simp_all
    with False less.prems show ?thesis
      by (simp add: show_radix.simps [of 10 n] parse_digits_append to_digit_digit_char)
  qed
qed

lemma parse_uint_show:
  assumes "n < lim"
  shows "parse_uint lim (show_nat n) = Inr n"
proof -
  have no: "c \<in> set (show_nat n) \<Longrightarrow> c \<noteq> CHR ''+'' \<and> c \<noteq> CHR ''-''" for c
    using show_nat_range [of c n] by auto
  have "hd (show_nat n) \<in> set (show_nat n)" by simp
  then have "hd (show_nat n) \<noteq> CHR ''+''" using no by blast
  moreover have "show_nat n \<noteq> ''+''" "show_nat n \<noteq> ''-''" using no by fastforce+
  ultimately show ?thesis using assms by (simp add: parse_uint_def parse_digits_show)
qed

lemma parse_digits_less: "parse_digits lim acc s = Inr n \<Longrightarrow> acc < lim \<Longrightarrow> n < lim"
  by (induction lim acc s rule: parse_digits.induct) (auto split: option.splits if_splits)

lemma parse_uint_less: "parse_uint lim s = Inr n \<Longrightarrow> 0 < lim \<Longrightarrow> n < lim"
  by (auto simp: parse_uint_def intro: parse_digits_less split: if_splits)

lemma digits_no:
  "LF \<notin> set (show_nat n)" "CR \<notin> set (show_nat n)" "CHR '','' \<notin> set (show_nat n)"
  "CHR '' '' \<notin> set (show_nat n)" "CHR ''@'' \<notin> set (show_nat n)"
  using show_nat_range [of _ n] by fastforce+

lemma digits_no_whitespace: "c \<in> set (show_nat n) \<Longrightarrow> \<not> is_whitespace c"
  using show_nat_range [of c n] by (auto simp: is_whitespace_def Let_def)

section \<open>Splitting once\<close>

text \<open>\<open>str::split_once\<close> on a character: around its first occurrence.\<close>

fun split_once :: "char \<Rightarrow> string \<Rightarrow> (string \<times> string) option" where
  "split_once x [] = None"
| "split_once x (c # cs) =
     (if c = x then Some ([], cs) else map_option (\<lambda>(a, b). (c # a, b)) (split_once x cs))"

lemma split_once_None: "split_once x s = None \<longleftrightarrow> x \<notin> set s"
  by (induction s) auto

lemma split_once_Some: "split_once x s = Some (a, b) \<longleftrightarrow> s = a @ x # b \<and> x \<notin> set a"
proof (induction s arbitrary: a)
  case Nil
  show ?case by simp
next
  case (Cons c cs)
  show ?case by (cases a) (auto simp: Cons.IH)
qed

end
