(* ===== verification/Lcs.thy ===== *)
theory Lcs
  imports RustText
begin

text \<open>
  The longest-common-subsequence matching that \<open>argentor-agent/src/diff_engine.rs\<close>
  (\<open>compute_edit_ops\<close>, over a table of \<open>u32\<close>) and \<open>argentor-builtins/src/diff_tool.rs\<close> (\<open>lcs_table\<close>, over
  \<open>usize\<close>) share: filling the table, walking back through it, and what an edit script is.
  The walk yields a script for the two sequences whatever the table holds, and one that keeps
  as many elements as possible when the table holds the lengths of the common subsequences.
\<close>

datatype EditOp = EqualOp | InsertOp | DeleteOp

section \<open>The code\<close>

definition fill_cell ::
  "'a list \<Rightarrow> 'a list \<Rightarrow> nat \<Rightarrow> 'w::len word list list \<Rightarrow> nat \<Rightarrow> 'w word list list" where
  "fill_cell a b i table j =
     table[i := (table ! i)[j :=
       (if a ! (i - 1) = b ! (j - 1) then table ! (i - 1) ! (j - 1) + 1
        else max (table ! (i - 1) ! j) (table ! i ! (j - 1)))]]"

definition lcs_table :: "'a list \<Rightarrow> 'a list \<Rightarrow> 'w::len word list list" where
  "lcs_table a b =
     foldl (\<lambda>table i. foldl (fill_cell a b i) table [1..<length b + 1])
       (replicate (length a + 1) (replicate (length b + 1) 0)) [1..<length a + 1]"

text \<open>The operations are pushed from the last to the first and then reversed; here each is put in
  front.\<close>

function backtrack ::
  "'a list \<Rightarrow> 'a list \<Rightarrow> 'w::len word list list \<Rightarrow> nat \<Rightarrow> nat \<Rightarrow> EditOp list \<Rightarrow> EditOp list" where
  "backtrack a b table i j ops =
     (if i = 0 \<and> j = 0 then ops
      else if i > 0 \<and> j > 0 \<and> a ! (i - 1) = b ! (j - 1)
      then backtrack a b table (i - 1) (j - 1) (EqualOp # ops)
      else if j > 0 \<and> (i = 0 \<or> table ! i ! (j - 1) \<ge> table ! (i - 1) ! j)
      then backtrack a b table i (j - 1) (InsertOp # ops)
      else backtrack a b table (i - 1) j (DeleteOp # ops))"
  by auto
termination by (relation "measure (\<lambda>(a, b, table, i, j, ops). i + j)") auto

declare backtrack.simps [simp del]

section \<open>Edit scripts\<close>

text \<open>A script for two sequences, and how many elements it keeps.\<close>

fun script_ok :: "EditOp list \<Rightarrow> 'a list \<Rightarrow> 'a list \<Rightarrow> bool" where
  "script_ok [] xs ys \<longleftrightarrow> xs = [] \<and> ys = []"
| "script_ok (EqualOp # ops) xs ys \<longleftrightarrow>
     xs \<noteq> [] \<and> ys \<noteq> [] \<and> hd xs = hd ys \<and> script_ok ops (tl xs) (tl ys)"
| "script_ok (InsertOp # ops) xs ys \<longleftrightarrow> ys \<noteq> [] \<and> script_ok ops xs (tl ys)"
| "script_ok (DeleteOp # ops) xs ys \<longleftrightarrow> xs \<noteq> [] \<and> script_ok ops (tl xs) ys"

definition kept :: "EditOp list \<Rightarrow> nat" where
  "kept ops = count_list ops EqualOp"

lemma kept_simps [simp]:
  "kept [] = 0" "kept (EqualOp # ops) = Suc (kept ops)" "kept (InsertOp # ops) = kept ops"
  "kept (DeleteOp # ops) = kept ops" "kept (ops @ ops') = kept ops + kept ops'"
  by (simp_all add: kept_def)

lemma kept_rev [simp]: "kept (rev ops) = kept ops"
  by (simp add: kept_def)

lemma script_ok_append:
  "script_ok ops xs ys \<Longrightarrow> script_ok ops' xs' ys' \<Longrightarrow> script_ok (ops @ ops') (xs @ xs') (ys @ ys')"
  by (induction ops xs ys rule: script_ok.induct) auto

lemma script_ok_split:
  "script_ok (ops @ ops') xs ys \<Longrightarrow>
     \<exists>xs1 xs2 ys1 ys2. xs = xs1 @ xs2 \<and> ys = ys1 @ ys2 \<and> script_ok ops xs1 ys1 \<and> script_ok ops' xs2 ys2"
proof (induction ops xs ys rule: script_ok.induct)
  case (1 xs ys)
  then show ?case by (intro exI [of _ "[]"] exI [of _ xs] exI [of _ ys]) simp
next
  case (2 ops xs ys)
  then obtain xs1 xs2 ys1 ys2 where "tl xs = xs1 @ xs2" "tl ys = ys1 @ ys2"
    "script_ok ops xs1 ys1" "script_ok ops' xs2 ys2" by auto
  with 2 show ?case
    by (intro exI [of _ "hd xs # xs1"] exI [of _ xs2] exI [of _ "hd ys # ys1"] exI [of _ ys2])
      (cases xs; cases ys; simp)
next
  case (3 ops xs ys)
  then obtain xs1 xs2 ys1 ys2 where "xs = xs1 @ xs2" "tl ys = ys1 @ ys2"
    "script_ok ops xs1 ys1" "script_ok ops' xs2 ys2" by auto
  with 3 show ?case
    by (intro exI [of _ xs1] exI [of _ xs2] exI [of _ "hd ys # ys1"] exI [of _ ys2])
      (cases ys; simp)
next
  case (4 ops xs ys)
  then obtain xs1 xs2 ys1 ys2 where "tl xs = xs1 @ xs2" "ys = ys1 @ ys2"
    "script_ok ops xs1 ys1" "script_ok ops' xs2 ys2" by auto
  with 4 show ?case
    by (intro exI [of _ "hd xs # xs1"] exI [of _ xs2] exI [of _ ys1] exI [of _ ys2])
      (cases xs; simp)
qed

lemma script_ok_singleton [simp]:
  "script_ok [EqualOp] [x] [y] \<longleftrightarrow> x = y" "script_ok [InsertOp] [] [y]" "script_ok [DeleteOp] [x] []"
  by simp_all

lemma script_ok_rev: "script_ok ops xs ys \<Longrightarrow> script_ok (rev ops) (rev xs) (rev ys)"
proof (induction ops xs ys rule: script_ok.induct)
  case (2 ops xs ys)
  then have "script_ok (rev ops @ [EqualOp]) (rev (tl xs) @ [hd xs]) (rev (tl ys) @ [hd ys])"
    by (intro script_ok_append) auto
  with 2 show ?case by (cases xs; cases ys; simp)
next
  case (3 ops xs ys)
  then have "script_ok (rev ops @ [InsertOp]) (rev xs @ []) (rev (tl ys) @ [hd ys])"
    by (intro script_ok_append) auto
  with 3 show ?case by (cases ys; simp)
next
  case (4 ops xs ys)
  then have "script_ok (rev ops @ [DeleteOp]) (rev (tl xs) @ [hd xs]) (rev ys @ [])"
    by (intro script_ok_append) auto
  with 4 show ?case by (cases xs; simp)
qed simp

lemma script_ok_equal: "set ops \<subseteq> {EqualOp} \<Longrightarrow> script_ok ops xs ys \<Longrightarrow> xs = ys \<and> length xs = length ops"
proof (induction ops xs ys rule: script_ok.induct)
  case (2 ops xs ys)
  then show ?case by (cases xs; cases ys; simp)
qed auto

section \<open>Common subsequences\<close>

fun lcs :: "'a list \<Rightarrow> 'a list \<Rightarrow> nat" where
  "lcs [] ys = 0"
| "lcs (x # xs) [] = 0"
| "lcs (x # xs) (y # ys) =
     (if x = y then Suc (lcs xs ys) else max (lcs xs (y # ys)) (lcs (x # xs) ys))"

lemma lcs_Nil [simp]: "lcs xs [] = 0"
  by (cases xs) auto

lemma lcs_sym: "lcs xs ys = lcs ys xs"
  by (induction xs ys rule: lcs.induct) auto

lemma lcs_Cons_bounds: "lcs xs ys \<le> lcs (x # xs) ys \<and> lcs (x # xs) ys \<le> Suc (lcs xs ys)"
proof (induction "length xs + length ys" arbitrary: xs ys x rule: less_induct)
  case less
  show ?case
  proof (cases ys)
    case Nil
    then show ?thesis by simp
  next
    case (Cons y ys')
    have "lcs ys' xs \<le> lcs (y # ys') xs \<and> lcs (y # ys') xs \<le> Suc (lcs ys' xs)"
      using Cons by (intro less) simp
    then have col: "lcs xs ys' \<le> lcs xs (y # ys')" "lcs xs (y # ys') \<le> Suc (lcs xs ys')"
      by (simp_all add: lcs_sym [of xs])
    have row: "lcs (x # xs) ys' \<le> Suc (lcs xs ys')"
      using less [of xs ys' x] Cons by simp
    show ?thesis using col row by (simp add: Cons)
  qed
qed

lemmas lcs_Cons_le = lcs_Cons_bounds [THEN conjunct1]

lemma lcs_Cons_le_right: "lcs xs ys \<le> lcs xs (y # ys)"
  using lcs_Cons_le [of ys xs y] by (simp add: lcs_sym)

lemma lcs_le: "lcs xs ys \<le> length ys"
  by (induction xs ys rule: lcs.induct) auto

text \<open>No script keeps more than the longest common subsequence.\<close>

lemma kept_le_lcs: "script_ok ops xs ys \<Longrightarrow> kept ops \<le> lcs xs ys"
proof (induction ops xs ys rule: script_ok.induct)
  case (2 ops xs ys)
  then show ?case by (cases xs; cases ys; simp)
next
  case (3 ops xs ys)
  then show ?case using lcs_Cons_le_right [of xs "tl ys" "hd ys"] by (cases ys) auto
next
  case (4 ops xs ys)
  then show ?case using lcs_Cons_le [of "tl xs" ys "hd xs"] by (cases xs) auto
qed simp

text \<open>Prefixes, read from their ends.\<close>

definition lcs_prefix :: "'a list \<Rightarrow> 'a list \<Rightarrow> nat \<Rightarrow> nat \<Rightarrow> nat" where
  "lcs_prefix a b i j = lcs (rev (take i a)) (rev (take j b))"

lemma lcs_prefix_0 [simp]: "lcs_prefix a b 0 j = 0" "lcs_prefix a b i 0 = 0"
  by (simp_all add: lcs_prefix_def)

lemma lcs_prefix_Suc:
  assumes "i < length a" "j < length b"
  shows "lcs_prefix a b (Suc i) (Suc j) =
    (if a ! i = b ! j then Suc (lcs_prefix a b i j)
     else max (lcs_prefix a b i (Suc j)) (lcs_prefix a b (Suc i) j))"
  using assms by (simp add: lcs_prefix_def take_Suc_conv_app_nth)

lemma lcs_prefix_le: "lcs_prefix a b i j \<le> length b"
proof -
  have "lcs_prefix a b i j \<le> length (rev (take j b))"
    unfolding lcs_prefix_def by (rule lcs_le)
  then show ?thesis by simp
qed

lemma kept_le_lcs_prefix: "script_ok ops a b \<Longrightarrow> kept ops \<le> lcs_prefix a b (length a) (length b)"
  using kept_le_lcs [OF script_ok_rev] by (fastforce simp: lcs_prefix_def)

section \<open>The table\<close>

definition cell_ok :: "'a list \<Rightarrow> 'a list \<Rightarrow> 'w::len word list list \<Rightarrow> nat \<Rightarrow> nat \<Rightarrow> bool" where
  "cell_ok a b table i j \<longleftrightarrow> table ! i ! j = of_nat (lcs_prefix a b i j)"

text \<open>The table before row \<open>i\<close> is filled from column \<open>j\<close> on.\<close>

definition table_ok :: "'a list \<Rightarrow> 'a list \<Rightarrow> nat \<Rightarrow> nat \<Rightarrow> 'w::len word list list \<Rightarrow> bool" where
  "table_ok a b i j table \<longleftrightarrow> length table = length a + 1
     \<and> (\<forall>i'\<le>length a. length (table ! i') = length b + 1
         \<and> (\<forall>j'\<le>length b. j' = 0 \<or> i' < i \<or> (i' = i \<and> j' < j) \<longrightarrow> cell_ok a b table i' j'))"

lemma table_okD:
  "table_ok a b i j table \<Longrightarrow> i' \<le> length a \<Longrightarrow> j' \<le> length b
     \<Longrightarrow> j' = 0 \<or> i' < i \<or> i' = i \<and> j' < j \<Longrightarrow> cell_ok a b table i' j'"
  by (auto simp: table_ok_def)

lemma fill_cell_nth:
  assumes "table_ok a b i j table" "i' \<le> length a" "i \<le> length a" "j' \<le> length b" "j \<le> length b"
  shows "fill_cell a b i table j ! i' ! j' =
    (if i' = i \<and> j' = j
     then (if a ! (i - 1) = b ! (j - 1) then table ! (i - 1) ! (j - 1) + 1
           else max (table ! (i - 1) ! j) (table ! i ! (j - 1)))
     else table ! i' ! j')"
  using assms by (auto simp: fill_cell_def table_ok_def nth_list_update)

lemma max_of_nat:
  assumes "x < 2 ^ LENGTH('w)" "y < 2 ^ LENGTH('w)"
  shows "max (of_nat x :: 'w::len word) (of_nat y) = of_nat (max x y)"
  using assms by (auto simp: max_def word_le_nat_alt unat_of_nat take_bit_nat_eq_self)

lemma fill_cell_length: "length (fill_cell a b i table j) = length table"
  by (simp add: fill_cell_def)

lemma fill_cell_row:
  "i' < length table \<Longrightarrow> length (fill_cell a b i table j ! i') = length (table ! i')"
  by (cases "i = i'") (simp_all add: fill_cell_def)

lemma fill_cell_ok:
  fixes table :: "'w::len word list list"
  assumes ok: "table_ok a b (Suc i) (Suc j) table" and ij: "i < length a" "j < length b"
    and small: "length b < 2 ^ LENGTH('w)"
  shows "table_ok a b (Suc i) (Suc (Suc j)) (fill_cell a b (Suc i) table (Suc j))"
proof -
  have below: "lcs_prefix a b i' j' < 2 ^ LENGTH('w)" for i' j'
    using lcs_prefix_le [of a b i' j'] small by (rule order.strict_trans1)
  have cells: "cell_ok a b table i j" "cell_ok a b table i (Suc j)" "cell_ok a b table (Suc i) j"
    by (rule table_okD [OF ok]; use ij in simp)+
  have new: "cell_ok a b (fill_cell a b (Suc i) table (Suc j)) (Suc i) (Suc j)"
    using cells fill_cell_nth [OF ok, of "Suc i" "Suc j"] ij
    by (simp add: cell_ok_def lcs_prefix_Suc max_of_nat below)
  have "cell_ok a b (fill_cell a b (Suc i) table (Suc j)) i' j'"
    if "i' \<le> length a" "j' \<le> length b" "j' = 0 \<or> i' < Suc i \<or> i' = Suc i \<and> j' < Suc (Suc j)" for i' j'
  proof (cases "i' = Suc i \<and> j' = Suc j")
    case True
    then show ?thesis using new by simp
  next
    case False
    then have "cell_ok a b table i' j'" using that ok by (auto simp: table_ok_def)
    moreover have "fill_cell a b (Suc i) table (Suc j) ! i' ! j' = table ! i' ! j'"
      using fill_cell_nth [OF ok, of i' j'] that(1,2) ij by (simp add: False)
    ultimately show ?thesis by (simp add: cell_ok_def)
  qed
  then show ?thesis
    using ok by (simp add: table_ok_def fill_cell_length fill_cell_row)
qed

lemma fill_row_ok:
  fixes table :: "'w::len word list list"
  assumes "table_ok a b (Suc i) 1 table" "i < length a" "length b < 2 ^ LENGTH('w)" "k \<le> length b"
  shows "table_ok a b (Suc i) (Suc k) (foldl (fill_cell a b (Suc i)) table [1..<k + 1])"
  using assms(4)
proof (induction k)
  case 0
  then show ?case using assms(1) by simp
next
  case (Suc k)
  then show ?case using fill_cell_ok [OF Suc.IH _ _ assms(3)] assms(2) by simp
qed

lemma table_ok_next_row:
  assumes "table_ok a b i (Suc (length b)) table"
  shows "table_ok a b (Suc i) 1 table"
proof -
  have "cell_ok a b table i' j'"
    if "i' \<le> length a" "j' \<le> length b" "j' = 0 \<or> i' < Suc i \<or> i' = Suc i \<and> j' < 1" for i' j'
    by (rule table_okD [OF assms]) (use that in auto)
  then show ?thesis using assms by (simp add: table_ok_def)
qed

lemma table_ok_init:
  "table_ok a b 1 1 (replicate (length a + 1) (replicate (length b + 1) 0))"
  by (auto simp: table_ok_def cell_ok_def simp del: replicate_Suc)

lemma lcs_table_ok:
  assumes "length b < 2 ^ LENGTH('w::len)"
  shows "table_ok a b (Suc (length a)) 1 (lcs_table a b :: 'w word list list)"
proof -
  define init where "init = (replicate (length a + 1) (replicate (length b + 1) 0) :: 'w word list list)"
  define row where "row = (\<lambda>(table :: 'w word list list) i. foldl (fill_cell a b i) table [1..<length b + 1])"
  have "table_ok a b (Suc k) 1 (foldl row init [1..<k + 1])" if "k \<le> length a" for k
    using that
  proof (induction k)
    case 0
    show ?case using table_ok_init [of a b] by (simp add: init_def)
  next
    case (Suc k)
    then have "table_ok a b (Suc (Suc k)) 1 (row (foldl row init [1..<k + 1]) (Suc k))"
      using fill_row_ok [OF Suc.IH _ assms order.refl] unfolding row_def
      by (intro table_ok_next_row) simp
    then show ?case by (simp add: upt_Suc_append)
  qed
  then show ?thesis by (simp add: lcs_table_def init_def row_def del: replicate_Suc upt_Suc)
qed

lemma lcs_table_nth:
  assumes "length b < 2 ^ LENGTH('w::len)" "i \<le> length a" "j \<le> length b"
  shows "lcs_table a b ! i ! j = (of_nat (lcs_prefix a b i j) :: 'w word)"
  using table_okD [OF lcs_table_ok [OF assms(1), of a] assms(2,3)] assms(2) by (simp add: cell_ok_def)

section \<open>The walk back\<close>

lemma drop_pred: "0 < i \<Longrightarrow> i \<le> length xs \<Longrightarrow> drop (i - Suc 0) xs = xs ! (i - Suc 0) # drop i xs"
  using Cons_nth_drop_Suc [of "i - 1" xs] by simp

text \<open>Whatever the table holds, the result is a script.\<close>

lemma backtrack_script:
  "script_ok ops (drop i a) (drop j b) \<Longrightarrow> i \<le> length a \<Longrightarrow> j \<le> length b
     \<Longrightarrow> script_ok (backtrack a b table i j ops) a b"
proof (induction a b table i j ops rule: backtrack.induct)
  case (1 a b table i j ops)
  consider "i = 0" "j = 0"
    | "i > 0" "j > 0" "a ! (i - 1) = b ! (j - 1)"
    | "\<not> (i > 0 \<and> j > 0 \<and> a ! (i - 1) = b ! (j - 1))" "j > 0" "i = 0 \<or> table ! i ! (j - 1) \<ge> table ! (i - 1) ! j"
    | "\<not> (i > 0 \<and> j > 0 \<and> a ! (i - 1) = b ! (j - 1))" "i > 0" "\<not> (j > 0 \<and> (i = 0 \<or> table ! i ! (j - 1) \<ge> table ! (i - 1) ! j))"
    by blast
  then show ?case
  proof cases
    case 1
    with "1.prems" show ?thesis by (simp add: backtrack.simps)
  next
    case 2
    with "1.IH"(1) "1.prems" show ?thesis
      by (subst backtrack.simps) (simp add: drop_pred)
  next
    case 3
    with "1.IH"(2) "1.prems" show ?thesis
      by (subst backtrack.simps) (auto simp: drop_pred)
  next
    case 4
    with "1.IH"(3) "1.prems" show ?thesis
      by (subst backtrack.simps) (auto simp: drop_pred)
  qed
qed

text \<open>With the exact table it keeps as much as can be kept.\<close>

lemma backtrack_kept:
  assumes exact: "\<And>i j. i \<le> length a \<Longrightarrow> j \<le> length b \<Longrightarrow> unat (table ! i ! j) = lcs_prefix a b i j"
  shows "i \<le> length a \<Longrightarrow> j \<le> length b
    \<Longrightarrow> kept (backtrack a b table i j ops) = lcs_prefix a b i j + kept ops"
proof (induction "i + j" arbitrary: i j ops rule: less_induct)
  case less
  have diag: "lcs_prefix a b i j = Suc (lcs_prefix a b (i - 1) (j - 1))"
    if "i > 0" "j > 0" "a ! (i - 1) = b ! (j - 1)"
    using lcs_prefix_Suc [of "i - 1" a "j - 1" b] that less.prems by simp
  have off: "lcs_prefix a b i j = max (lcs_prefix a b (i - 1) j) (lcs_prefix a b i (j - 1))"
    if "i > 0" "j > 0" "a ! (i - 1) \<noteq> b ! (j - 1)"
    using lcs_prefix_Suc [of "i - 1" a "j - 1" b] that less.prems by simp
  have cmp: "table ! i ! (j - 1) \<ge> table ! (i - 1) ! j \<longleftrightarrow>
      lcs_prefix a b (i - 1) j \<le> lcs_prefix a b i (j - 1)"
    using exact [of i "j - 1"] exact [of "i - 1" j] less.prems by (simp add: word_le_nat_alt)
  consider "i = 0" "j = 0"
    | "i > 0" "j > 0" "a ! (i - 1) = b ! (j - 1)"
    | "i = 0" "j > 0" | "i > 0" "j = 0"
    | "i > 0" "j > 0" "a ! (i - 1) \<noteq> b ! (j - 1)"
    by blast
  then show ?case
  proof cases
    case 5
    then show ?thesis
      using less.hyps [of i "j - 1" "InsertOp # ops"] less.hyps [of "i - 1" j "DeleteOp # ops"] less.prems off
      by (subst backtrack.simps) (simp add: cmp [simplified] max_def split: if_splits)
  next
    case 2
    then show ?thesis
      using less.hyps [of "i - 1" "j - 1" "EqualOp # ops"] less.prems diag
      by (subst backtrack.simps) simp
  next
    case 3
    then show ?thesis
      using less.hyps [of i "j - 1" "InsertOp # ops"] less.prems by (subst backtrack.simps) simp
  next
    case 4
    then show ?thesis
      using less.hyps [of "i - 1" j "DeleteOp # ops"] less.prems by (subst backtrack.simps) simp
  qed (simp add: backtrack.simps)
qed

definition matching :: "'w::len itself \<Rightarrow> 'a list \<Rightarrow> 'a list \<Rightarrow> EditOp list" where
  "matching w a b = backtrack a b (lcs_table a b :: 'w word list list) (length a) (length b) []"

lemma matching_script: "script_ok (matching w a b) a b"
  unfolding matching_def by (rule backtrack_script) simp_all

lemma matching_optimal:
  assumes "length b < 2 ^ LENGTH('w::len)" "script_ok ops a b"
  shows "kept ops \<le> kept (matching TYPE('w) a b)"
proof -
  have "unat (lcs_table a b ! i ! j :: 'w word) = lcs_prefix a b i j"
    if "i \<le> length a" "j \<le> length b" for i j
    using lcs_table_nth [OF assms(1) that] lcs_prefix_le [of a b i j] assms(1)
    by (simp add: unat_of_nat take_bit_nat_eq_self)
  then have "kept (matching TYPE('w) a b) = lcs_prefix a b (length a) (length b)"
    using backtrack_kept [of a b "lcs_table a b :: 'w word list list", OF _ order.refl order.refl, of "[]"]
    by (simp add: matching_def)
  then show ?thesis using kept_le_lcs_prefix [OF assms(2)] by simp
qed

text \<open>Kept, inserted and deleted lines make up the two sides.\<close>

lemma script_counts:
  "script_ok ops xs ys \<Longrightarrow> length xs = kept ops + count_list ops DeleteOp
     \<and> length ys = kept ops + count_list ops InsertOp"
proof (induction ops xs ys rule: script_ok.induct)
  case (2 ops xs ys)
  then show ?case by (cases xs; cases ys; simp)
next
  case (3 ops xs ys)
  then show ?case by (cases ys; simp)
next
  case (4 ops xs ys)
  then show ?case by (cases xs; simp)
qed simp

text \<open>The width of the table's entries does not matter while they fit.\<close>

lemma backtrack_cong:
  assumes "\<And>i j. i \<le> length a \<Longrightarrow> j \<le> length b \<Longrightarrow> unat (t ! i ! j) = unat (t' ! i ! j)"
  shows "i \<le> length a \<Longrightarrow> j \<le> length b \<Longrightarrow> backtrack a b t i j ops = backtrack a b t' i j ops"
proof (induction "i + j" arbitrary: i j ops rule: less_induct)
  case less
  have cmp: "t ! i ! (j - 1) \<ge> t ! (i - 1) ! j \<longleftrightarrow> t' ! i ! (j - 1) \<ge> t' ! (i - 1) ! j"
    using assms [of i "j - 1"] assms [of "i - 1" j] less.prems by (simp add: word_le_nat_alt)
  show ?case
    using less.hyps [of "i - 1" "j - 1" "EqualOp # ops"] less.hyps [of i "j - 1" "InsertOp # ops"]
      less.hyps [of "i - 1" j "DeleteOp # ops"] less.prems
    by (subst (1 2) backtrack.simps) (auto simp: cmp [simplified])
qed

lemma matching_width:
  assumes "length b < 2 ^ LENGTH('v::len)" "length b < 2 ^ LENGTH('w::len)"
  shows "matching TYPE('v) a b = matching TYPE('w) a b"
proof -
  have "unat (lcs_table a b ! i ! j :: 'v word) = unat (lcs_table a b ! i ! j :: 'w word)"
    if "i \<le> length a" "j \<le> length b" for i j
    using that lcs_table_nth [OF assms(1)] lcs_table_nth [OF assms(2)] lcs_prefix_le [of a b i j] assms
    by (simp add: unat_of_nat take_bit_nat_eq_self)
  then show ?thesis unfolding matching_def by (intro backtrack_cong) simp_all
qed

end
