(* ===== verification/DiffEngine.thy ===== *)
theory DiffEngine
  imports Lcs
begin

text \<open>
  \<open>argentor-agent/src/diff_engine.rs\<close>: unified diffs between two versions of a file. A diff is
  generated from a matching of the lines, grouped in hunks with context, written and parsed in
  the unified format, validated against a file and applied to it. Counts and positions are
  natural numbers; the conversions between \<open>usize\<close> and \<open>isize\<close> that applying a hunk makes, and the
  sums that may leave \<open>usize\<close>, are written out. A panic is \<open>None\<close>.
\<close>

section \<open>Data\<close>

datatype DiffLine = Context string | Added string | Removed string

fun show_line :: "DiffLine \<Rightarrow> string" where
  "show_line (Context l) = '' '' @ l"
| "show_line (Added l) = ''+'' @ l"
| "show_line (Removed l) = ''-'' @ l"

record DiffHunk =
  old_start :: nat
  old_count :: nat
  new_start :: nat
  new_count :: nat
  hunk_lines :: "DiffLine list"

datatype DiffOperation = Modify | Create | Delete | Rename string

record FileDiff =
  diff_path :: string
  operation :: DiffOperation
  hunks :: "DiffHunk list"
  additions :: nat
  deletions :: nat

record DiffPlan =
  plan_description :: string
  diffs :: "FileDiff list"
  total_additions :: nat
  total_deletions :: nat
  estimated_tokens :: nat

record ApplyResult =
  ar_path :: string
  success :: bool
  new_content :: "string option"
  ar_error :: "string option"

datatype IssueSeverity = SeverityWarning | SeverityError

record ValidationIssue =
  hunk_index :: nat
  issue_message :: string
  severity :: IssueSeverity

record ValidationResult =
  valid :: bool
  issues :: "ValidationIssue list"

record DiffConfig =
  context_lines :: nat
  minimize :: bool

definition default_diff_config :: DiffConfig where
  "default_diff_config = \<lparr>context_lines = 3, minimize = True\<rparr>"

section \<open>Machine integers\<close>

definition usize_add :: "nat \<Rightarrow> nat \<Rightarrow> nat" where
  "usize_add a b = (a + b) mod 2 ^ 64"

definition to_isize :: "int \<Rightarrow> int" where
  "to_isize x = signed_take_bit 63 x"

definition as_usize :: "int \<Rightarrow> nat" where
  "as_usize x = nat (take_bit 64 x)"

section \<open>Generating\<close>

text \<open>\<open>lines.last() == Some("")\<close>: a final line feed does not start another line.\<close>

definition split_lines :: "string \<Rightarrow> string list" where
  "split_lines s =
     (if s = [] then []
      else let ls = split_char LF s in if last ls = [] then butlast ls else ls)"

definition compute_edit_ops :: "string list \<Rightarrow> string list \<Rightarrow> EditOp list" where
  "compute_edit_ops old new = matching TYPE(32) old new"

function change_ranges :: "nat \<Rightarrow> EditOp list \<Rightarrow> (nat \<times> nat) list" where
  "change_ranges i [] = []"
| "change_ranges i (op # ops) =
     (if op \<noteq> EqualOp
      then let n = length (takeWhile (\<lambda>op. op \<noteq> EqualOp) (op # ops))
           in (i, i + n) # change_ranges (i + n) (drop n (op # ops))
      else change_ranges (Suc i) ops)"
  by pat_completeness auto
termination by (relation "measure (\<lambda>(i, ops). length ops)") auto

text \<open>\<open>merged.last_mut()\<close>: extend the last range or start another one.\<close>

definition merge_range ::
  "nat \<Rightarrow> nat \<Rightarrow> (nat \<times> nat) list \<Rightarrow> nat \<times> nat \<Rightarrow> (nat \<times> nat) list" where
  "merge_range ctx n merged r =
     (let start = fst r - ctx; stop = min (usize_add (snd r) ctx) n
      in if merged = [] then [(start, stop)]
         else if start \<le> snd (last merged)
         then butlast merged @ [(fst (last merged), stop)]
         else merged @ [(start, stop)])"

definition merge_ranges :: "nat \<Rightarrow> nat \<Rightarrow> (nat \<times> nat) list \<Rightarrow> (nat \<times> nat) list" where
  "merge_ranges ctx n ranges = foldl (merge_range ctx n) [] ranges"

definition get_line :: "string list \<Rightarrow> nat \<Rightarrow> string" where
  "get_line ls i = (if i < length ls then ls ! i else [])"

fun advance :: "nat \<times> nat \<Rightarrow> EditOp \<Rightarrow> nat \<times> nat" where
  "advance (old_pos, new_pos) EqualOp = (old_pos + 1, new_pos + 1)"
| "advance (old_pos, new_pos) DeleteOp = (old_pos + 1, new_pos)"
| "advance (old_pos, new_pos) InsertOp = (old_pos, new_pos + 1)"

fun hunk_line :: "string list \<Rightarrow> string list \<Rightarrow> nat \<times> nat \<Rightarrow> EditOp \<Rightarrow> DiffLine" where
  "hunk_line old new (old_pos, new_pos) EqualOp = Context (get_line old old_pos)"
| "hunk_line old new (old_pos, new_pos) DeleteOp = Removed (get_line old old_pos)"
| "hunk_line old new (old_pos, new_pos) InsertOp = Added (get_line new new_pos)"

fun hunk_body :: "string list \<Rightarrow> string list \<Rightarrow> nat \<times> nat \<Rightarrow> EditOp list \<Rightarrow> DiffLine list" where
  "hunk_body old new pos [] = []"
| "hunk_body old new pos (op # ops) =
     hunk_line old new pos op # hunk_body old new (advance pos op) ops"

definition build_hunk :: "string list \<Rightarrow> string list \<Rightarrow> EditOp list \<Rightarrow> nat \<times> nat \<Rightarrow> DiffHunk" where
  "build_hunk old new ops r =
     (let start = foldl advance (0, 0) (take (fst r) ops);
          part = drop (fst r) (take (snd r) ops);
          counts = foldl advance (0, 0) part
      in \<lparr>old_start = fst start + 1, old_count = fst counts,
          new_start = snd start + 1, new_count = snd counts,
          hunk_lines = hunk_body old new start part\<rparr>)"

definition ops_to_hunks ::
  "DiffConfig \<Rightarrow> string list \<Rightarrow> string list \<Rightarrow> EditOp list \<Rightarrow> DiffHunk list" where
  "ops_to_hunks cfg old new ops =
     (if ops = [] then []
      else let ranges = change_ranges 0 ops
           in if ranges = [] then []
              else map (build_hunk old new ops) (merge_ranges (context_lines cfg) (length ops) ranges))"

fun is_added :: "DiffLine \<Rightarrow> bool" where
  "is_added (Added _) = True" | "is_added _ = False"

fun is_removed :: "DiffLine \<Rightarrow> bool" where
  "is_removed (Removed _) = True" | "is_removed _ = False"

definition count_lines :: "(DiffLine \<Rightarrow> bool) \<Rightarrow> DiffLine list \<Rightarrow> nat" where
  "count_lines f ls = length (filter f ls)"

definition generate_diff :: "DiffConfig \<Rightarrow> string \<Rightarrow> string \<Rightarrow> string \<Rightarrow> FileDiff" where
  "generate_diff cfg p old new =
     (let old_lines = split_lines old; new_lines = split_lines new;
          ops = compute_edit_ops old_lines new_lines;
          hs = ops_to_hunks cfg old_lines new_lines ops
      in \<lparr>diff_path = p,
          operation =
            (if old = [] \<and> new \<noteq> [] then Create
             else if old \<noteq> [] \<and> new = [] then Delete else Modify),
          hunks = hs,
          additions = sum_list (map (count_lines is_added \<circ> hunk_lines) hs),
          deletions = sum_list (map (count_lines is_removed \<circ> hunk_lines) hs)\<rparr>)"

definition minimize_diff :: "string \<Rightarrow> string \<Rightarrow> string \<Rightarrow> FileDiff" where
  "minimize_diff p old new = generate_diff \<lparr>context_lines = 0, minimize = True\<rparr> p old new"

section \<open>Applying\<close>

text \<open>The check of a hunk against the lines from a position on: an error message, or nothing.\<close>

fun verify_hunk :: "nat \<Rightarrow> string list \<Rightarrow> nat \<Rightarrow> DiffLine list \<Rightarrow> string option" where
  "verify_hunk k lines pos [] = None"
| "verify_hunk k lines pos (Context c # ls) =
     (if pos \<ge> length lines \<or> lines ! pos \<noteq> c
      then Some (''Context mismatch at hunk '' @ show_nat k @ '', line '' @ show_nat pos)
      else verify_hunk k lines (pos + 1) ls)"
| "verify_hunk k lines pos (Removed r # ls) =
     (if pos \<ge> length lines \<or> lines ! pos \<noteq> r
      then Some (''Remove mismatch at hunk '' @ show_nat k @ '', line '' @ show_nat pos)
      else verify_hunk k lines (pos + 1) ls)"
| "verify_hunk k lines pos (Added _ # ls) = verify_hunk k lines pos ls"

fun replacement :: "DiffLine list \<Rightarrow> string list" where
  "replacement [] = []"
| "replacement (Context c # ls) = c # replacement ls"
| "replacement (Added a # ls) = a # replacement ls"
| "replacement (Removed _ # ls) = replacement ls"

definition hunk_offset :: "int \<Rightarrow> DiffHunk \<Rightarrow> int" where
  "hunk_offset offset h = to_isize (to_isize (to_isize (int (old_start h)) - 1) + offset)"

fun apply_hunks :: "nat \<Rightarrow> int \<Rightarrow> string list \<Rightarrow> DiffHunk list \<Rightarrow> (string + string list) option" where
  "apply_hunks k offset lines [] = Some (Inr lines)"
| "apply_hunks k offset lines (h # hs) =
     (let start = as_usize (hunk_offset offset h)
      in case verify_hunk k lines start (hunk_lines h) of
           Some e \<Rightarrow> Some (Inl e)
         | None \<Rightarrow>
             let new_lines = replacement (hunk_lines h);
                 stop = min (usize_add start (old_count h)) (length lines)
             in if start > stop then None
                else apply_hunks (Suc k)
                       (to_isize (offset + to_isize (to_isize (int (length new_lines)) - to_isize (int (old_count h)))))
                       (take start lines @ new_lines @ drop stop lines) hs)"

definition end_line :: "string \<Rightarrow> string" where
  "end_line s = (if s \<noteq> [] \<and> \<not> suffix [LF] s then s @ [LF] else s)"

definition added_lines :: "DiffHunk list \<Rightarrow> string" where
  "added_lines hs =
     concat (map (\<lambda>h. concat (map (\<lambda>l. case l of Added a \<Rightarrow> a @ [LF] | _ \<Rightarrow> []) (hunk_lines h))) hs)"

definition apply_diff :: "string \<Rightarrow> FileDiff \<Rightarrow> ApplyResult option" where
  "apply_diff content d =
     (if operation d = Create \<and> content = []
      then Some \<lparr>ar_path = diff_path d, success = True, new_content = Some (added_lines (hunks d)),
                 ar_error = None\<rparr>
      else if operation d = Delete
      then Some \<lparr>ar_path = diff_path d, success = True, new_content = Some [], ar_error = None\<rparr>
      else case apply_hunks 0 0 (split_lines content) (hunks d) of
             None \<Rightarrow> None
           | Some (Inl e) \<Rightarrow>
               Some \<lparr>ar_path = diff_path d, success = False, new_content = None, ar_error = Some e\<rparr>
           | Some (Inr lines) \<Rightarrow>
               Some \<lparr>ar_path = diff_path d, success = True,
                     new_content = Some (end_line (join [LF] lines)), ar_error = None\<rparr>)"

section \<open>What was generated applies\<close>

lemma to_isize_id: "- (2 ^ 63) \<le> x \<Longrightarrow> x < 2 ^ 63 \<Longrightarrow> to_isize x = x"
  unfolding to_isize_def by (rule signed_take_bit_int_eq_self) simp_all

lemma as_usize_id: "0 \<le> x \<Longrightarrow> x < 2 ^ 64 \<Longrightarrow> as_usize x = nat x"
  unfolding as_usize_def by (simp add: take_bit_int_eq_self)

lemma usize_add_id: "a + b < 2 ^ 64 \<Longrightarrow> usize_add a b = a + b"
  by (simp add: usize_add_def)

subsection \<open>Positions\<close>

lemma advance_shift: "foldl advance (a + c, b + d) ops =
    (fst (foldl advance (a, b) ops) + c, snd (foldl advance (a, b) ops) + d)"
proof (induction ops arbitrary: a b)
  case (Cons op ops)
  then show ?case using Cons.IH [of "Suc a" b] Cons.IH [of a "Suc b"] Cons.IH [of "Suc a" "Suc b"]
    by (cases op) simp_all
qed simp

lemma script_positions: "script_ok ops xs ys \<Longrightarrow> foldl advance (a, b) ops = (a + length xs, b + length ys)"
proof (induction ops xs ys arbitrary: a b rule: script_ok.induct)
  case (2 ops xs ys)
  then show ?case by (cases xs; cases ys; simp)
next
  case (3 ops xs ys)
  then show ?case by (cases ys; simp)
next
  case (4 ops xs ys)
  then show ?case by (cases xs; simp)
qed simp

lemma get_line_mid [simp]: "get_line (xs @ x # ys) (length xs) = x"
  by (simp add: get_line_def)

text \<open>A hunk built over a part of the script checks against the old part and yields the new one.\<close>

lemma hunk_body_spec:
  "script_ok part o2 n2 \<Longrightarrow>
     verify_hunk k (x @ o2 @ y) (length x)
       (hunk_body (o1 @ o2 @ o3) (n1 @ n2 @ n3) (length o1, length n1) part) = None
     \<and> replacement (hunk_body (o1 @ o2 @ o3) (n1 @ n2 @ n3) (length o1, length n1) part) = n2"
proof (induction part o2 n2 arbitrary: x o1 n1 rule: script_ok.induct)
  case (2 ops xs ys)
  then obtain l xs' ys' where "xs = l # xs'" "ys = l # ys'" by (cases xs; cases ys; simp)
  then show ?case
    using "2.IH" [of "x @ [l]" "o1 @ [l]" "n1 @ [l]"] "2.prems" by simp
next
  case (3 ops xs ys)
  then obtain l ys' where "ys = l # ys'" by (cases ys; simp)
  then show ?case
    using "3.IH" [of x o1 "n1 @ [l]"] "3.prems" by simp
next
  case (4 ops xs ys)
  then obtain l xs' where "xs = l # xs'" by (cases xs; simp)
  then show ?case
    using "4.IH" [of "x @ [l]" "o1 @ [l]" n1] "4.prems" by simp
qed simp

subsection \<open>Ranges\<close>

text \<open>Ranges in order from \<open>e\<close> on, with nothing but equal lines between and after them.\<close>

fun ranges_ok :: "EditOp list \<Rightarrow> nat \<Rightarrow> (nat \<times> nat) list \<Rightarrow> bool" where
  "ranges_ok ops e [] \<longleftrightarrow> set (drop e ops) \<subseteq> {EqualOp}"
| "ranges_ok ops e (r # rs) \<longleftrightarrow> e \<le> fst r \<and> fst r \<le> snd r \<and> snd r \<le> length ops
     \<and> set (drop e (take (fst r) ops)) \<subseteq> {EqualOp} \<and> ranges_ok ops (snd r) rs"

lemma ranges_okI:
  assumes "sorted_wrt (\<lambda>r r'. snd r \<le> fst r') rs" "\<forall>r\<in>set rs. e \<le> fst r \<and> fst r \<le> snd r \<and> snd r \<le> length ops"
    and "\<And>k. e \<le> k \<Longrightarrow> k < length ops \<Longrightarrow> ops ! k \<noteq> EqualOp \<Longrightarrow> \<exists>r\<in>set rs. fst r \<le> k \<and> k < snd r"
  shows "ranges_ok ops e rs"
  using assms
proof (induction rs arbitrary: e)
  case Nil
  then have "ops ! k = EqualOp" if "e \<le> k" "k < length ops" for k using that by auto
  then show ?case by (auto simp: in_set_conv_nth)
next
  case (Cons r rs)
  have "ops ! k = EqualOp" if k: "e \<le> k" "k < fst r" for k
  proof (rule ccontr)
    assume "ops ! k \<noteq> EqualOp"
    moreover have "k < length ops" using k Cons.prems(2) by auto
    ultimately obtain r' where "r' \<in> set (r # rs)" "fst r' \<le> k" using Cons.prems(3) [OF k(1)] by blast
    then show False using k Cons.prems(1,2) by fastforce
  qed
  then have "drop e (take (fst r) ops) ! i = EqualOp" if "i < length (drop e (take (fst r) ops))" for i
  proof -
    have "e + i < fst r" "e \<le> length (take (fst r) ops)"
      using that by (auto simp: min_def split: if_splits)
    then show ?thesis using \<open>\<And>k. e \<le> k \<Longrightarrow> k < fst r \<Longrightarrow> ops ! k = EqualOp\<close> [of "e + i"]
      by (simp add: nth_drop)
  qed
  then have "set (drop e (take (fst r) ops)) \<subseteq> {EqualOp}" by (auto simp: in_set_conv_nth)
  moreover have "ranges_ok ops (snd r) rs"
  proof (rule Cons.IH)
    fix k
    assume k: "snd r \<le> k" "k < length ops" "ops ! k \<noteq> EqualOp"
    moreover have "e \<le> k" using k Cons.prems(2) by fastforce
    ultimately obtain r' where "r' \<in> set (r # rs)" "fst r' \<le> k" "k < snd r'" using Cons.prems(3) by blast
    with k show "\<exists>r\<in>set rs. fst r \<le> k \<and> k < snd r" by auto
  qed (use Cons.prems in auto)
  ultimately show ?case using Cons.prems(2) by simp
qed

lemma change_ranges_bounds:
  "r \<in> set (change_ranges i ops) \<Longrightarrow> i \<le> fst r \<and> fst r < snd r \<and> snd r \<le> i + length ops"
proof (induction i ops rule: change_ranges.induct)
  case (2 i op ops)
  show ?case
  proof (cases "op = EqualOp")
    case True
    then show ?thesis using 2 by fastforce
  next
    case False
    define n where "n = length (takeWhile (\<lambda>op. op \<noteq> EqualOp) (op # ops))"
    have n: "0 < n" "n \<le> length (op # ops)" using False by (simp_all add: n_def length_takeWhile_le)
    have eq: "change_ranges i (op # ops) = (i, i + n) # change_ranges (i + n) (drop n (op # ops))"
      using False by (simp add: n_def)
    from "2.prems" consider "r = (i, i + n)" | "r \<in> set (change_ranges (i + n) (drop n (op # ops)))"
      unfolding eq by auto
    then show ?thesis
    proof cases
      case 2
      then show ?thesis using "2.IH"(1) [OF False n_def] n by auto
    qed (use n in simp)
  qed
qed simp

lemma change_ranges_sorted: "sorted_wrt (\<lambda>r r'. snd r \<le> fst r') (change_ranges i ops)"
proof (induction i ops rule: change_ranges.induct)
  case (2 i op ops)
  then show ?case using change_ranges_bounds by (fastforce simp: Let_def simp del: takeWhile.simps)
qed simp

lemma change_ranges_cover:
  "k < length ops \<Longrightarrow> ops ! k \<noteq> EqualOp \<Longrightarrow> \<exists>r\<in>set (change_ranges i ops). fst r \<le> i + k \<and> i + k < snd r"
proof (induction i ops arbitrary: k rule: change_ranges.induct)
  case (2 i op ops)
  show ?case
  proof (cases "op = EqualOp")
    case True
    then obtain k' where "k = Suc k'" using "2.prems" by (cases k) auto
    then show ?thesis using "2.IH"(2) [of k'] "2.prems" True by simp
  next
    case False
    define n where "n = length (takeWhile (\<lambda>op. op \<noteq> EqualOp) (op # ops))"
    have eq: "change_ranges i (op # ops) = (i, i + n) # change_ranges (i + n) (drop n (op # ops))"
      using False by (simp add: n_def)
    show ?thesis
    proof (cases "k < n")
      case True
      then show ?thesis unfolding eq by simp
    next
      case ge: False
      then have "\<exists>r\<in>set (change_ranges (i + n) (drop n (op # ops))).
          fst r \<le> i + n + (k - n) \<and> i + n + (k - n) < snd r"
        using "2.prems" by (intro "2.IH"(1) [OF False n_def]) (auto simp del: drop_Cons)
      then show ?thesis using ge unfolding eq by auto
    qed
  qed
qed simp

text \<open>The ranges with context around them, merged where they touch.\<close>

definition merged_ok :: "nat \<Rightarrow> nat \<Rightarrow> (nat \<times> nat) list \<Rightarrow> (nat \<times> nat) list \<Rightarrow> bool" where
  "merged_ok ctx n rs M \<longleftrightarrow> sorted_wrt (\<lambda>r r'. snd r \<le> fst r') M
     \<and> (\<forall>r\<in>set M. fst r \<le> snd r \<and> snd r \<le> n)
     \<and> (\<forall>r\<in>set rs. \<exists>r'\<in>set M. fst r' \<le> fst r \<and> snd r \<le> snd r')
     \<and> (rs \<noteq> [] \<longrightarrow> M \<noteq> [] \<and> fst (last M) \<le> fst (last rs) \<and> snd (last M) = min (snd (last rs) + ctx) n)"

lemma merged_okD:
  "merged_ok ctx n rs M \<Longrightarrow> r \<in> set rs \<Longrightarrow> \<exists>r'\<in>set M. fst r' \<le> fst r \<and> snd r \<le> snd r'"
  by (simp add: merged_ok_def)

lemma sorted_wrt_snoc: "sorted_wrt P (xs @ [x]) \<longleftrightarrow> sorted_wrt P xs \<and> (\<forall>y\<in>set xs. P y x)"
  by (simp add: sorted_wrt_append)

lemma merge_ranges_ok:
  assumes "sorted_wrt (\<lambda>r r'. snd r \<le> fst r') rs" "\<forall>r\<in>set rs. fst r < snd r \<and> snd r \<le> n" "n + ctx < 2 ^ 64"
  shows "merged_ok ctx n rs (merge_ranges ctx n rs)"
  using assms(1,2)
proof (induction rs rule: rev_induct)
  case Nil
  show ?case by (simp add: merged_ok_def merge_ranges_def)
next
  case (snoc r rs)
  define M where "M = merge_ranges ctx n rs"
  define start stop where "start = fst r - ctx" and "stop = min (snd r + ctx) n"
  have IH: "merged_ok ctx n rs M"
    unfolding M_def using snoc.prems by (intro snoc.IH) (auto simp: sorted_wrt_append)
  have r: "fst r < snd r" "snd r \<le> n" using snoc.prems(2) by auto
  then have add: "usize_add (snd r) ctx = snd r + ctx" using assms(3) by (intro usize_add_id) simp
  have step: "merge_ranges ctx n (rs @ [r]) = (if M = [] then [(start, stop)]
      else if start \<le> snd (last M) then butlast M @ [(fst (last M), stop)] else M @ [(start, stop)])"
    by (simp add: merge_ranges_def M_def merge_range_def add start_def stop_def)
  have in_r: "start \<le> fst r" "snd r \<le> stop" "start \<le> stop" "stop \<le> n"
    using r by (auto simp: start_def stop_def)
  show ?case
  proof (cases "M = []")
    case True
    then have "rs = []" using IH by (auto simp: merged_ok_def)
    then show ?thesis using True in_r unfolding step by (auto simp: merged_ok_def stop_def)
  next
    case False
    then obtain M' s t where M: "M = M' @ [(s, t)]" by (metis rev_exhaust surj_pair)
    have t_stop: "t \<le> stop"
    proof (cases "rs = []")
      case True
      then show ?thesis using False by (simp add: M_def merge_ranges_def)
    next
      case False
      then have "snd (last rs) \<le> fst r" using snoc.prems(1) by (auto simp: sorted_wrt_append)
      then show ?thesis using IH False r by (auto simp: merged_ok_def M stop_def)
    qed
    show ?thesis
    proof (cases "start \<le> t")
      case True
      have "\<exists>r''\<in>set (M' @ [(s, stop)]). fst r'' \<le> fst r' \<and> snd r' \<le> snd r''" if "r' \<in> set rs" for r'
        using IH that t_stop by (fastforce simp: merged_ok_def M)
      moreover have "s \<le> fst r"
      proof (cases "rs = []")
        case True
        then show ?thesis using False by (simp add: M_def merge_ranges_def)
      next
        case False
        then have "s \<le> fst (last rs)" using IH by (simp add: merged_ok_def M)
        moreover have "fst (last rs) < snd (last rs)" "snd (last rs) \<le> fst r"
          using snoc.prems False by (auto simp: sorted_wrt_append)
        ultimately show ?thesis by simp
      qed
      ultimately show ?thesis
        using IH True in_r t_stop unfolding step
        by (auto simp: merged_ok_def M sorted_wrt_append stop_def)
    next
      case False
      have "snd r' \<le> start" if "r' \<in> set M" for r'
        using IH that False by (fastforce simp: merged_ok_def M sorted_wrt_append)
      then show ?thesis
        using IH False in_r unfolding step
        by (fastforce simp: merged_ok_def M sorted_wrt_append stop_def)
    qed
  qed
qed

lemma ops_ranges_ok:
  assumes "length ops + ctx < 2 ^ 64"
  shows "ranges_ok ops 0 (merge_ranges ctx (length ops) (change_ranges 0 ops))"
proof (rule ranges_okI)
  have ok: "merged_ok ctx (length ops) (change_ranges 0 ops) (merge_ranges ctx (length ops) (change_ranges 0 ops))"
    using change_ranges_bounds [of _ 0 ops] by (intro merge_ranges_ok change_ranges_sorted assms) auto
  then show "sorted_wrt (\<lambda>r r'. snd r \<le> fst r') (merge_ranges ctx (length ops) (change_ranges 0 ops))"
    "\<forall>r\<in>set (merge_ranges ctx (length ops) (change_ranges 0 ops)). 0 \<le> fst r \<and> fst r \<le> snd r \<and> snd r \<le> length ops"
    by (auto simp: merged_ok_def)
  fix k
  assume "k < length ops" "ops ! k \<noteq> EqualOp"
  then obtain r where "r \<in> set (change_ranges 0 ops)" "fst r \<le> k" "k < snd r"
    using change_ranges_cover [of k ops 0] by auto
  moreover obtain r' where "r' \<in> set (merge_ranges ctx (length ops) (change_ranges 0 ops))"
    "fst r' \<le> fst r" "snd r \<le> snd r'"
    using merged_okD [OF ok calculation(1)] by blast
  ultimately show "\<exists>r\<in>set (merge_ranges ctx (length ops) (change_ranges 0 ops)). fst r \<le> k \<and> k < snd r"
    by (intro bexI [of _ r']) simp_all
qed

subsection \<open>The hunks one after another\<close>

definition old_at :: "EditOp list \<Rightarrow> nat \<Rightarrow> nat" where
  "old_at ops e = fst (foldl advance (0, 0) (take e ops))"

definition new_at :: "EditOp list \<Rightarrow> nat \<Rightarrow> nat" where
  "new_at ops e = snd (foldl advance (0, 0) (take e ops))"

lemma script_at:
  assumes "script_ok (ops1 @ ops2) old new" "length ops1 = e"
  shows "script_ok ops1 (take (old_at (ops1 @ ops2) e) old) (take (new_at (ops1 @ ops2) e) new)
    \<and> script_ok ops2 (drop (old_at (ops1 @ ops2) e) old) (drop (new_at (ops1 @ ops2) e) new)
    \<and> old_at (ops1 @ ops2) e \<le> length old \<and> new_at (ops1 @ ops2) e \<le> length new"
proof -
  obtain a1 a2 b1 b2 where ab: "old = a1 @ a2" "new = b1 @ b2" "script_ok ops1 a1 b1" "script_ok ops2 a2 b2"
    using script_ok_split [OF assms(1)] by blast
  then show ?thesis using script_positions [OF ab(3), of 0 0] assms(2) by (simp add: old_at_def new_at_def)
qed

lemma take_split: "e \<le> s \<Longrightarrow> take s xs = take e xs @ drop e (take s xs)"
  using append_take_drop_id [of e "take s xs"] by (simp add: min_absorb1)

lemma hunk_offset_build:
  assumes "old_start h = m + 1" "m < 2 ^ 62" "n < 2 ^ 62" "d \<le> n" "e \<le> m" "m - e = n - d"
  shows "as_usize (hunk_offset (int d - int e) h) = n"
proof -
  have "int m + (int d - int e) = int n" using assms by linarith
  moreover have "to_isize (1 + int m) = 1 + int m" "to_isize (int m) = int m" "to_isize (int n) = int n"
    using assms by (simp_all add: to_isize_id)
  ultimately show ?thesis using assms(1,3) by (simp add: hunk_offset_def as_usize_id)
qed

lemma apply_ranges:
  assumes "ranges_ok ops e rs" "script_ok ops old new" "e \<le> length ops"
    and "length old < 2 ^ 61" "length new < 2 ^ 61"
  shows "apply_hunks k (int (new_at ops e) - int (old_at ops e))
      (take (new_at ops e) new @ drop (old_at ops e) old) (map (build_hunk old new ops) rs)
    = Some (Inr new)"
  using assms(1,3)
proof (induction rs arbitrary: e k)
  case Nil
  have "script_ok (drop e ops) (drop (old_at ops e) old) (drop (new_at ops e) new)"
    using script_at [of "take e ops" "drop e ops" old new e] assms(2) Nil.prems(2) by simp
  then have "drop (old_at ops e) old = drop (new_at ops e) new"
    using Nil.prems(1) script_ok_equal [THEN conjunct1, of "drop e ops"] by simp
  then show ?case by simp
next
  case (Cons r rs)
  define s t where "s = fst r" and "t = snd r"
  have st: "e \<le> s" "s \<le> t" "t \<le> length ops" "set (drop e (take s ops)) \<subseteq> {EqualOp}" "ranges_ok ops t rs"
    using Cons.prems by (simp_all add: s_def t_def)
  define A B C D where "A = take e ops" and "B = drop e (take s ops)" and "C = drop s (take t ops)"
    and "D = drop t ops"
  have AB: "take s ops = A @ B"
    unfolding A_def B_def by (rule take_split [OF st(1)])
  have ABC: "take t ops = (A @ B) @ C"
    unfolding AB [symmetric] C_def by (rule take_split [OF st(2)])
  have "ops = ((A @ B) @ C) @ D"
    unfolding ABC [symmetric] D_def by simp
  note ops = this [unfolded append_assoc] A_def [symmetric] AB ABC [unfolded append_assoc]
  have whole: "script_ok (A @ B @ C @ D) old new" by (rule subst [OF ops(1), of "\<lambda>x. script_ok x old new", OF assms(2)])
  obtain a1 a' b1 b' where 1: "old = a1 @ a'" "new = b1 @ b'" "script_ok A a1 b1" "script_ok (B @ C @ D) a' b'"
    using script_ok_split [OF whole] by blast
  obtain a2 a'' b2 b'' where 2: "a' = a2 @ a''" "b' = b2 @ b''" "script_ok B a2 b2" "script_ok (C @ D) a'' b''"
    using script_ok_split [OF 1(4)] by blast
  obtain a3 a4 b3 b4 where 3: "a'' = a3 @ a4" "b'' = b3 @ b4" "script_ok C a3 b3" "script_ok D a4 b4"
    using script_ok_split [OF 2(4)] by blast
  note ab = 1(1) [unfolded 2(1) 3(1)] 1(2) [unfolded 2(2) 3(2)] 1(3) 2(3) 3(3) 3(4)
  have eq: "a2 = b2" using script_ok_equal [OF st(4) [folded B_def] ab(4)] by simp
  have pos: "foldl advance (0, 0) A = (length a1, length b1)"
    "foldl advance (0, 0) (A @ B) = (length (a1 @ a2), length (b1 @ b2))"
    "foldl advance (0, 0) (A @ B @ C) = (length (a1 @ a2 @ a3), length (b1 @ b2 @ b3))"
    "foldl advance (0, 0) C = (length a3, length b3)"
    using script_positions [OF ab(3)] script_positions [OF ab(4)] script_positions [OF ab(5)] by simp_all
  have at: "old_at ops e = length a1" "new_at ops e = length b1"
    "old_at ops t = length (a1 @ a2 @ a3)" "new_at ops t = length (b1 @ b2 @ b3)"
    by (simp_all add: old_at_def new_at_def ops(2,4) script_positions [OF ab(3)]
        script_positions [OF ab(4)] script_positions [OF ab(5)])
  define h where "h = build_hunk old new ops r"
  have h: "old_start h = length (a1 @ a2) + 1" "old_count h = length a3"
    "hunk_lines h = hunk_body old new (length (a1 @ a2), length (b1 @ b2)) C"
    using pos by (simp_all add: h_def build_hunk_def ops(3) flip: s_def t_def C_def)
  have small: "length a1 + length a2 + length a3 < 2 ^ 61" "length b1 + length b2 + length b3 < 2 ^ 61"
    using assms(4,5) by (simp_all add: ab(1,2))
  have start: "as_usize (hunk_offset (int (length b1) - int (length a1)) h) = length (b1 @ b2)"
    using small eq by (intro hunk_offset_build [OF h(1)]) simp_all
  have body: "verify_hunk k (b1 @ b2 @ a3 @ a4) (length (b1 @ b2)) (hunk_lines h) = None
      \<and> replacement (hunk_lines h) = b3"
    using hunk_body_spec [OF ab(5), of k "b1 @ b2" a4 "a1 @ a2" a4 "b1 @ b2" b4] by (simp add: h(3) ab(1,2))
  have offset: "to_isize (int (length b1) - int (length a1) +
      to_isize (to_isize (int (length b3)) - to_isize (int (length a3))))
      = int (new_at ops t) - int (old_at ops t)"
    using small eq by (simp add: at to_isize_id)
  have "usize_add (length (b1 @ b2)) (length a3) = length (b1 @ b2 @ a3)"
    using small by (simp add: usize_add_id)
  then have "apply_hunks k (int (length b1) - int (length a1)) (b1 @ b2 @ a3 @ a4)
      (h # map (build_hunk old new ops) rs)
    = apply_hunks (Suc k) (int (new_at ops t) - int (old_at ops t)) (b1 @ b2 @ b3 @ a4)
        (map (build_hunk old new ops) rs)"
    using start body offset h(2) by simp
  moreover have "take (new_at ops t) new @ drop (old_at ops t) old = b1 @ b2 @ b3 @ a4"
    "take (new_at ops e) new @ drop (old_at ops e) old = b1 @ b2 @ a3 @ a4"
    by (simp_all add: at ab(1,2) eq)
  moreover have "apply_hunks (Suc k) (int (new_at ops t) - int (old_at ops t))
      (take (new_at ops t) new @ drop (old_at ops t) old) (map (build_hunk old new ops) rs) = Some (Inr new)"
    using st by (intro Cons.IH)
  ultimately show ?case by (simp add: at(1,2) h_def)
qed

lemma change_ranges_Nil: "change_ranges i ops = [] \<Longrightarrow> set ops \<subseteq> {EqualOp}"
  using change_ranges_cover [of _ ops i] by (force simp: in_set_conv_nth)

lemma length_ops: "length ops = kept ops + count_list ops DeleteOp + count_list ops InsertOp"
proof (induction ops)
  case (Cons op ops)
  then show ?case by (cases op) simp_all
qed simp

lemma script_length: "script_ok ops xs ys \<Longrightarrow> length ops \<le> length xs + length ys"
  using script_counts [of ops xs ys] length_ops [of ops] by simp

lemma apply_generated:
  assumes "length old + length new + context_lines cfg < 2 ^ 61"
  shows "apply_hunks 0 0 old (ops_to_hunks cfg old new (compute_edit_ops old new)) = Some (Inr new)"
proof -
  define ops where "ops = compute_edit_ops old new"
  have ok: "script_ok ops old new" unfolding ops_def compute_edit_ops_def by (rule matching_script)
  have len: "length ops \<le> length old + length new" by (rule script_length [OF ok])
  have at0: "old_at ops 0 = 0" "new_at ops 0 = 0" by (simp_all add: old_at_def new_at_def)
  show ?thesis
  proof (cases "ops = [] \<or> change_ranges 0 ops = []")
    case True
    then have "old = new" using script_ok_equal [OF _ ok] change_ranges_Nil [of 0 ops] by auto
    then show ?thesis using True unfolding ops_to_hunks_def ops_def [symmetric] by auto
  next
    case False
    then have "ops_to_hunks cfg old new ops =
        map (build_hunk old new ops) (merge_ranges (context_lines cfg) (length ops) (change_ranges 0 ops))"
      by (simp add: ops_to_hunks_def Let_def)
    moreover have "ranges_ok ops 0 (merge_ranges (context_lines cfg) (length ops) (change_ranges 0 ops))"
      using len assms by (intro ops_ranges_ok) simp
    ultimately show ?thesis
      using apply_ranges [OF _ ok, of 0 _ 0] assms by (simp add: at0 flip: ops_def)
  qed
qed

subsection \<open>Whole texts\<close>

lemma write_lines_Nil_iff [simp]: "write_lines ls = [] \<longleftrightarrow> ls = []"
  by (cases ls) simp_all

lemma split_lines_write:
  assumes "\<forall>l\<in>set ls. LF \<notin> set l"
  shows "split_lines (write_lines ls) = ls"
  using assms by (simp add: split_lines_def split_write_lines)

lemma split_lines_Nil [simp]: "split_lines [] = []"
  by (simp add: split_lines_def)

lemma join_write_lines: "ls \<noteq> [] \<Longrightarrow> join [LF] ls @ [LF] = write_lines ls"
  by (induction ls rule: induct_list012) simp_all

lemma end_line_join:
  assumes "\<forall>l\<in>set ls. LF \<notin> set l" "ls = [] \<or> last ls \<noteq> []"
  shows "end_line (join [LF] ls) = write_lines ls"
proof (cases ls rule: rev_cases)
  case Nil
  then show ?thesis by (simp add: end_line_def)
next
  case (snoc ls' l)
  then have l: "l \<noteq> []" "LF \<notin> set l" using assms by auto
  define u where "u = write_lines ls'"
  have u: "join [LF] ls = u @ l" using join_write_lines [of ls] snoc by (simp add: u_def)
  have "\<not> suffix [LF] (u @ l)"
    using l by (cases l rule: rev_cases) (auto simp: suffix_def)
  then show ?thesis using l snoc join_write_lines [of ls] \<open>\<not> suffix [LF] (u @ l)\<close> unfolding u end_line_def by simp
qed

lemma script_insert_only: "script_ok ops [] ys \<Longrightarrow> ops = replicate (length ys) InsertOp"
  by (induction ops "[] :: 'a list" ys rule: script_ok.induct) (auto simp: Suc_length_conv neq_Nil_conv)

lemma hunk_body_inserts:
  "hunk_body old (n @ new) (i, length n) (replicate (length new) InsertOp) = map Added new"
proof (induction new arbitrary: n)
  case (Cons l new)
  show ?case using Cons.IH [of "n @ [l]"] by simp
qed simp

lemma created_hunks:
  assumes "new \<noteq> []" "length new + context_lines cfg < 2 ^ 61"
  shows "ops_to_hunks cfg [] new (compute_edit_ops [] new) =
    [\<lparr>old_start = 1, old_count = 0, new_start = 1, new_count = length new, hunk_lines = map Added new\<rparr>]"
proof -
  let ?n = "length new"
  have ops: "compute_edit_ops [] new = replicate ?n InsertOp"
    unfolding compute_edit_ops_def by (rule script_insert_only [OF matching_script])
  obtain m where m: "?n = Suc m" using assms(1) by (cases new) auto
  have "takeWhile (\<lambda>op. op \<noteq> EqualOp) (replicate m InsertOp) = replicate m InsertOp"
    by (simp add: takeWhile_eq_all_conv)
  note tw = this
  have ranges: "change_ranges 0 (replicate ?n InsertOp) = [(0, ?n)]"
    by (simp add: m Let_def tw)
  have "usize_add ?n (context_lines cfg) = ?n + context_lines cfg"
    using assms(2) by (intro usize_add_id) simp
  then have merged: "merge_ranges (context_lines cfg) ?n [(0, ?n)] = [(0, ?n)]"
    by (simp add: merge_ranges_def merge_range_def)
  have "foldl advance (0, b) (replicate k InsertOp) = (0, b + k)" for k b
    by (induction k arbitrary: b) simp_all
  then have "build_hunk [] new (replicate ?n InsertOp) (0, ?n) =
      \<lparr>old_start = 1, old_count = 0, new_start = 1, new_count = ?n, hunk_lines = map Added new\<rparr>"
    using hunk_body_inserts [of "[]" "[]" new 0] by (simp add: build_hunk_def)
  then show ?thesis
    unfolding ops_to_hunks_def ops Let_def length_replicate ranges merged using assms(1) by simp
qed

lemma split_lines_Nil_iff [simp]: "split_lines s = [] \<longleftrightarrow> s = []"
proof
  assume *: "split_lines s = []"
  show "s = []"
  proof (rule ccontr)
    assume "s \<noteq> []"
    with * have "split_char LF s = [[]]"
      by (auto simp: split_lines_def Let_def split: if_splits)
        (metis append_butlast_last_id append_self_conv2 split_by_not_Nil)
    then show False using join_split_char [of LF s] \<open>s \<noteq> []\<close> by simp
  qed
qed simp

lemma added_lines_Added: "added_lines [h] = write_lines ls" if "hunk_lines h = map Added ls"
  by (simp add: added_lines_def that write_lines_def o_def)

text \<open>Applying a generated diff, for any two texts: the lines of the new text, ended by a line feed
  unless they end in one already.\<close>

lemma apply_generate_content:
  assumes "length (split_lines old) + length (split_lines new) + context_lines cfg < 2 ^ 61"
  shows "apply_diff old (generate_diff cfg p old new) =
    Some \<lparr>ar_path = p, success = True,
          new_content = Some (if old = [] \<and> new \<noteq> [] then write_lines (split_lines new)
                              else if old \<noteq> [] \<and> new = [] then []
                              else end_line (join [LF] (split_lines new))),
          ar_error = None\<rparr>"
proof -
  consider "old = []" "new \<noteq> []" | "old \<noteq> []" "new = []" | "old = [] \<longleftrightarrow> new = []" by blast
  then show ?thesis
  proof cases
    case 1
    then have "ops_to_hunks cfg [] (split_lines new) (compute_edit_ops [] (split_lines new)) =
        [\<lparr>old_start = 1, old_count = 0, new_start = 1, new_count = length (split_lines new),
          hunk_lines = map Added (split_lines new)\<rparr>]"
      using assms by (intro created_hunks) simp_all
    then show ?thesis using 1 by (simp add: apply_diff_def generate_diff_def added_lines_Added Let_def)
  next
    case 2
    then show ?thesis by (simp add: apply_diff_def generate_diff_def Let_def)
  next
    case 3
    have "apply_hunks 0 0 (split_lines old) (hunks (generate_diff cfg p old new)) = Some (Inr (split_lines new))"
      using apply_generated [OF assms] by (simp add: generate_diff_def Let_def)
    moreover have "operation (generate_diff cfg p old new) = Modify" "diff_path (generate_diff cfg p old new) = p"
      using 3 by (auto simp: generate_diff_def Let_def)
    ultimately show ?thesis using 3 by (simp add: apply_diff_def)
  qed
qed

subsection \<open>Counting\<close>

lemma count_hunk_body:
  "count_lines is_added (hunk_body old new pos ops) = count_list ops InsertOp
   \<and> count_lines is_removed (hunk_body old new pos ops) = count_list ops DeleteOp"
proof (induction ops arbitrary: pos)
  case (Cons op ops)
  obtain a b where "pos = (a, b)" by (cases pos)
  with Cons show ?case by (cases op) (simp_all add: count_lines_def)
qed (simp add: count_lines_def)

lemma count_list_equal: "set ops \<subseteq> {EqualOp} \<Longrightarrow> op \<noteq> EqualOp \<Longrightarrow> count_list ops op = 0"
  by (induction ops) auto

lemma ranges_counts:
  assumes "ranges_ok ops e rs" "op \<noteq> EqualOp"
  shows "sum_list (map (\<lambda>r. count_list (drop (fst r) (take (snd r) ops)) op) rs) = count_list (drop e ops) op"
  using assms
proof (induction rs arbitrary: e)
  case Nil
  then show ?case by (simp add: count_list_equal)
next
  case (Cons r rs)
  have st: "e \<le> fst r" "fst r \<le> snd r" "snd r \<le> length ops"
    "set (drop e (take (fst r) ops)) \<subseteq> {EqualOp}" "ranges_ok ops (snd r) rs"
    using Cons.prems(1) by simp_all
  have split: "drop e xs = drop e (take s xs) @ drop s xs" if "e \<le> s" "s \<le> length xs" for e s and xs :: "EditOp list"
  proof -
    have "drop e xs = drop e (take s xs @ drop s xs)" by simp
    then show ?thesis using that by (simp del: append_take_drop_id)
  qed
  have "drop e ops = drop e (take (fst r) ops) @ drop (fst r) (take (snd r) ops) @ drop (snd r) ops"
    using split [of e "fst r" ops] split [of "fst r" "snd r" ops] st by simp
  then show ?case
    using Cons.IH [OF st(5) assms(2)] count_list_equal [OF st(4) assms(2)] by simp
qed

lemma generate_diff_counts:
  assumes "length (split_lines old) + length (split_lines new) + context_lines cfg < 2 ^ 61"
  shows "additions (generate_diff cfg p old new) = count_list (compute_edit_ops (split_lines old) (split_lines new)) InsertOp
    \<and> deletions (generate_diff cfg p old new) = count_list (compute_edit_ops (split_lines old) (split_lines new)) DeleteOp"
proof -
  define ops where "ops = compute_edit_ops (split_lines old) (split_lines new)"
  define hs where "hs = ops_to_hunks cfg (split_lines old) (split_lines new) ops"
  have ok: "script_ok ops (split_lines old) (split_lines new)"
    unfolding ops_def compute_edit_ops_def by (rule matching_script)
  have "sum_list (map (count_lines is_added \<circ> hunk_lines) hs) = count_list ops InsertOp
      \<and> sum_list (map (count_lines is_removed \<circ> hunk_lines) hs) = count_list ops DeleteOp"
  proof (cases "ops = [] \<or> change_ranges 0 ops = []")
    case True
    then have "set ops \<subseteq> {EqualOp}" using change_ranges_Nil [of 0 ops] by auto
    moreover have "hs = []" using True by (auto simp: hs_def ops_to_hunks_def)
    ultimately show ?thesis by (simp add: count_list_equal)
  next
    case False
    define rs where "rs = merge_ranges (context_lines cfg) (length ops) (change_ranges 0 ops)"
    have "ranges_ok ops 0 rs"
      unfolding rs_def using script_length [OF ok] assms by (intro ops_ranges_ok) simp
    from ranges_counts [OF this, of InsertOp] ranges_counts [OF this, of DeleteOp]
    have "sum_list (map (\<lambda>r. count_list (drop (fst r) (take (snd r) ops)) InsertOp) rs) = count_list ops InsertOp"
      "sum_list (map (\<lambda>r. count_list (drop (fst r) (take (snd r) ops)) DeleteOp) rs) = count_list ops DeleteOp"
      by simp_all
    moreover have "hs = map (build_hunk (split_lines old) (split_lines new) ops) rs"
      using False by (simp add: hs_def rs_def ops_to_hunks_def Let_def)
    ultimately show ?thesis by (simp add: o_def build_hunk_def Let_def count_hunk_body)
  qed
  then show ?thesis by (simp add: generate_diff_def Let_def ops_def hs_def)
qed

section \<open>Properties\<close>

text \<open>C2: generating a diff and applying it gives the new text. For a new text whose lines all end in
  a line feed and whose last line is not blank, and for any old text, the diff applies to the old
  text without a mismatch or a panic, and the result is the new text, provided the lines of both texts
  and the number of context lines are together fewer than 2 ^ 61 (with more, the sums of \<open>usize\<close> would
  wrap).\<close>

theorem apply_generate:
  assumes "new = write_lines ls" "\<forall>l\<in>set ls. LF \<notin> set l" "ls = [] \<or> last ls \<noteq> []"
    and "length (split_lines old) + length ls + context_lines cfg < 2 ^ 61"
  shows "apply_diff old (generate_diff cfg p old new) =
    Some \<lparr>ar_path = p, success = True, new_content = Some new, ar_error = None\<rparr>"
proof -
  have "split_lines new = ls" using assms(1,2) by (simp add: split_lines_write)
  then show ?thesis
    using apply_generate_content [of old new cfg p] assms end_line_join [OF assms(2,3)] by simp
qed

theorem apply_generate_witness:
  "apply_diff (write_lines [''a'', ''b'']) (generate_diff default_diff_config ''f''
       (write_lines [''a'', ''b'']) (write_lines [''b'', ''c''])) =
     Some \<lparr>ar_path = ''f'', success = True, new_content = Some (write_lines [''b'', ''c'']), ar_error = None\<rparr>"
  by (rule apply_generate [OF refl])
    (simp_all add: split_lines_write default_diff_config_def del: write_lines_simps)

text \<open>A new text that ends in a blank line loses it.\<close>

lemma blank_last_line_lost:
  assumes "old \<noteq> []" "new = write_lines (ls @ [[]])" "\<forall>l\<in>set ls. LF \<notin> set l"
    and "length (split_lines old) + length ls + context_lines cfg < 2 ^ 60"
  shows "apply_diff old (generate_diff cfg p old new) =
    Some \<lparr>ar_path = p, success = True, new_content = Some (write_lines ls), ar_error = None\<rparr>"
proof -
  have ls: "split_lines new = ls @ [[]]" "new \<noteq> []"
    using assms(2,3) split_lines_write [of "ls @ [[]]"] by auto
  have "join [LF] (ls @ [[]]) = write_lines ls"
    using join_write_lines [of "ls @ [[]]"] by simp
  moreover have "end_line (write_lines ls) = write_lines ls"
    by (cases ls rule: rev_cases) (auto simp: end_line_def suffix_def)
  ultimately show ?thesis
    using apply_generate_content [of old new cfg p] assms(1,4) ls by simp
qed

text \<open>C22: a generated diff is minimal. It adds and removes together no more lines than any edit
  script between the lines of the two texts, for new texts of fewer than 2 ^ 32 lines (the
  table of the matching holds 32-bit counts), and where the lines of both texts and the context
  are together fewer than 2 ^ 61.\<close>

theorem generate_diff_minimal:
  assumes "script_ok ops (split_lines old) (split_lines new)" "length (split_lines new) < 2 ^ 32"
    and "length (split_lines old) + length (split_lines new) + context_lines cfg < 2 ^ 61"
  shows "additions (generate_diff cfg p old new) + deletions (generate_diff cfg p old new)
    \<le> count_list ops InsertOp + count_list ops DeleteOp"
proof -
  let ?best = "compute_edit_ops (split_lines old) (split_lines new)"
  have "kept ops \<le> kept ?best"
    unfolding compute_edit_ops_def using assms(1,2) by (intro matching_optimal) simp_all
  moreover have "script_ok ?best (split_lines old) (split_lines new)"
    unfolding compute_edit_ops_def by (rule matching_script)
  note script_counts [OF this] script_counts [OF assms(1)] generate_diff_counts [OF assms(3), of p]
  ultimately show ?thesis by linarith
qed

theorem generate_diff_minimal_witness:
  "additions (generate_diff default_diff_config ''f'' (write_lines [''a'', ''b'']) (write_lines [''b'', ''c'']))
   + deletions (generate_diff default_diff_config ''f'' (write_lines [''a'', ''b'']) (write_lines [''b'', ''c''])) \<le> 2"
proof -
  have "script_ok [DeleteOp, EqualOp, InsertOp] (split_lines (write_lines [''a'', ''b'']))
      (split_lines (write_lines [''b'', ''c'']))"
    by (simp add: split_lines_write del: write_lines_simps)
  from generate_diff_minimal [OF this, of default_diff_config "''f''"] show ?thesis
    by (simp add: split_lines_write default_diff_config_def del: write_lines_simps)
qed

end
