(* ===== verification/DiffPlan.thy ===== *)
theory DiffPlan
  imports DiffEngine
begin

text \<open>
  The rest of \<open>argentor-agent/src/diff_engine.rs\<close>: validating a diff against a file, plans of diffs over
  several files, and the estimate of their tokens.
\<close>

section \<open>Validating\<close>

definition issue :: "nat \<Rightarrow> string \<Rightarrow> ValidationIssue" where
  "issue k msg = \<lparr>hunk_index = k, issue_message = msg, severity = SeverityError\<rparr>"

definition mismatch :: "string \<Rightarrow> string list \<Rightarrow> nat \<Rightarrow> string \<Rightarrow> string" where
  "mismatch kind lines pos expected =
     kind @ '' mismatch at line '' @ show_nat pos @ '': expected '' @ debug_str expected @ '', got ''
       @ debug_str (if pos < length lines then lines ! pos else ''<EOF>'')"

fun check_lines :: "nat \<Rightarrow> string list \<Rightarrow> nat \<Rightarrow> DiffLine list \<Rightarrow> ValidationIssue list" where
  "check_lines k lines pos [] = []"
| "check_lines k lines pos (Context c # ls) =
     (if pos \<ge> length lines \<or> lines ! pos \<noteq> c then [issue k (mismatch ''Context'' lines pos c)] else [])
       @ check_lines k lines (pos + 1) ls"
| "check_lines k lines pos (Removed r # ls) =
     (if pos \<ge> length lines \<or> lines ! pos \<noteq> r then [issue k (mismatch ''Remove'' lines pos r)] else [])
       @ check_lines k lines (pos + 1) ls"
| "check_lines k lines pos (Added _ # ls) = check_lines k lines pos ls"

definition show_int :: "int \<Rightarrow> string" where
  "show_int i = (if i < 0 then ''-'' @ show_nat (nat (- i)) else show_nat (nat i))"

fun check_hunks :: "nat \<Rightarrow> int \<Rightarrow> string list \<Rightarrow> DiffHunk list \<Rightarrow> ValidationIssue list" where
  "check_hunks k offset lines [] = []"
| "check_hunks k offset lines (h # hs) =
     (let start = hunk_offset offset h
      in if start < 0
         then issue k (''Hunk old_start '' @ show_nat (old_start h) @ '' with offset ''
                @ show_int offset @ '' yields negative position'')
              # check_hunks (Suc k) offset lines hs
         else if usize_add (nat start) (old_count h) > length lines
         then issue k (''Hunk extends beyond file end (start='' @ show_nat (nat start) @ '', old_count=''
                @ show_nat (old_count h) @ '', file_lines='' @ show_nat (length lines) @ '')'')
              # check_hunks (Suc k) offset lines hs
         else check_lines k lines (nat start) (hunk_lines h)
              @ check_hunks (Suc k)
                  (to_isize (offset + (int (count_lines is_added (hunk_lines h))
                     - int (count_lines is_removed (hunk_lines h))))) lines hs)"

definition validate_diff :: "string \<Rightarrow> FileDiff \<Rightarrow> ValidationResult" where
  "validate_diff content d =
     (let found = check_hunks 0 0 (split_lines content) (hunks d)
      in \<lparr>valid = \<not> list_ex (\<lambda>i. severity i = SeverityError) found, issues = found\<rparr>)"

section \<open>Plans\<close>

fun line_tokens :: "DiffLine \<Rightarrow> nat" where
  "line_tokens (Context l) = str_len l + 2"
| "line_tokens (Added l) = str_len l + 2"
| "line_tokens (Removed l) = str_len l + 2"

definition estimate_tokens :: "FileDiff \<Rightarrow> nat" where
  "estimate_tokens d =
     (let chars = str_len (diff_path d) * 2 + 20
        + sum_list (map (\<lambda>h. 30 + sum_list (map line_tokens (hunk_lines h))) (hunks d))
      in (chars + 3) div 4)"

definition create_plan :: "DiffConfig \<Rightarrow> string \<Rightarrow> (string \<times> string \<times> string) list \<Rightarrow> DiffPlan" where
  "create_plan cfg description changes =
     (let ds = map (\<lambda>(p, old, new). generate_diff cfg p old new) changes
      in \<lparr>plan_description = description, diffs = ds,
          total_additions = sum_list (map additions ds),
          total_deletions = sum_list (map deletions ds),
          estimated_tokens = sum_list (map estimate_tokens ds)\<rparr>)"

fun apply_diffs :: "(string \<rightharpoonup> string) \<Rightarrow> FileDiff list \<Rightarrow> ApplyResult list option" where
  "apply_diffs contents [] = Some []"
| "apply_diffs contents (d # ds) =
     (case apply_diff (case contents (diff_path d) of Some c \<Rightarrow> c | None \<Rightarrow> []) d of
        None \<Rightarrow> None
      | Some res \<Rightarrow>
          map_option ((#) res)
            (apply_diffs
               (if success res
                then case new_content res of
                       Some c \<Rightarrow> contents(diff_path d \<mapsto> c) | None \<Rightarrow> contents
                else contents) ds))"

definition content_map :: "(string \<times> string) list \<Rightarrow> (string \<rightharpoonup> string)" where
  "content_map contents = foldl (\<lambda>m (p, c). m(p \<mapsto> c)) Map.empty contents"

definition apply_plan :: "(string \<times> string) list \<Rightarrow> DiffPlan \<Rightarrow> ApplyResult list option" where
  "apply_plan contents plan = apply_diffs (content_map contents) (diffs plan)"

section \<open>Lemmas\<close>

lemma check_lines_Nil: "check_lines k lines pos ls = [] \<Longrightarrow> verify_hunk k' lines pos ls = None"
  by (induction k lines pos ls rule: check_lines.induct) (auto split: if_splits)

lemma check_hunks_errors: "i \<in> set (check_hunks k offset lines hs) \<Longrightarrow> severity i = SeverityError"
proof (induction k offset lines hs rule: check_hunks.induct)
  case (2 k offset lines h hs)
  have "i \<in> set (check_lines k lines pos ls) \<Longrightarrow> severity i = SeverityError" for pos ls
    by (induction k lines pos ls rule: check_lines.induct) (auto simp: issue_def split: if_splits)
  with 2 show ?case by (auto simp: issue_def Let_def split: if_splits)
qed simp

lemma valid_iff: "valid (validate_diff content d) \<longleftrightarrow> check_hunks 0 0 (split_lines content) (hunks d) = []"
proof -
  have "\<forall>i\<in>set (check_hunks 0 0 (split_lines content) (hunks d)). severity i = SeverityError"
    using check_hunks_errors by blast
  then show ?thesis
    by (cases "check_hunks 0 0 (split_lines content) (hunks d)") (simp_all add: validate_diff_def list_ex_iff)
qed

lemma to_isize_range: "- (2 ^ 63) \<le> to_isize x \<and> to_isize x < 2 ^ 63"
  unfolding to_isize_def
  using signed_take_bit_int_less_exp [of 63 x] signed_take_bit_int_greater_eq_minus_exp [of 63 x] by simp

definition text_file :: "string \<Rightarrow> bool" where
  "text_file s \<longleftrightarrow> (\<exists>ls. s = write_lines ls \<and> (\<forall>l\<in>set ls. LF \<notin> set l) \<and> (ls = [] \<or> last ls \<noteq> []))"

text \<open>Changes of which each starts from what the earlier ones leave.\<close>

fun chained :: "(string \<rightharpoonup> string) \<Rightarrow> (string \<times> string \<times> string) list \<Rightarrow> bool" where
  "chained contents [] \<longleftrightarrow> True"
| "chained contents ((p, old, new) # changes) \<longleftrightarrow>
     (case contents p of Some c \<Rightarrow> c | None \<Rightarrow> []) = old \<and> chained (contents(p \<mapsto> new)) changes"

lemma generate_diff_path [simp]: "diff_path (generate_diff cfg p old new) = p"
  by (simp add: generate_diff_def Let_def)

section \<open>Properties\<close>

text \<open>Carrying out a plan. The diffs of a plan, applied in order to the files, each give the new
  text of their change, also when several changes are to one file: each then starts from what
  the one before it left. No step fails or panics.\<close>

lemma apply_created_plan:
  assumes "chained (content_map contents) changes"
    and "\<forall>(p, old, new)\<in>set changes. text_file new
           \<and> length (split_lines old) + length (split_lines new) + context_lines cfg < 2 ^ 61"
  shows "apply_plan contents (create_plan cfg description changes) =
    Some (map (\<lambda>(p, old, new). \<lparr>ar_path = p, success = True, new_content = Some new, ar_error = None\<rparr>) changes)"
proof -
  have "apply_diffs m (map (\<lambda>(p, old, new). generate_diff cfg p old new) changes) =
      Some (map (\<lambda>(p, old, new). \<lparr>ar_path = p, success = True, new_content = Some new, ar_error = None\<rparr>) changes)"
    if "chained m changes" for m
    using that assms(2)
  proof (induction changes arbitrary: m)
    case Nil
    then show ?case by simp
  next
    case (Cons c changes)
    obtain p old new where c: "c = (p, old, new)" by (cases c)
    obtain ls where ls: "new = write_lines ls" "\<forall>l\<in>set ls. LF \<notin> set l" "ls = [] \<or> last ls \<noteq> []"
      using Cons.prems(2) by (auto simp: c text_file_def)
    have "length (split_lines old) + length ls + context_lines cfg < 2 ^ 61"
      using Cons.prems(2) by (simp add: c ls(1) split_lines_write [OF ls(2)])
    then have step: "apply_diff old (generate_diff cfg p old new) =
        Some \<lparr>ar_path = p, success = True, new_content = Some new, ar_error = None\<rparr>"
      using apply_generate_content [of old new cfg p] end_line_join [OF ls(2,3)]
      by (simp add: ls(1) split_lines_write [OF ls(2)])
    have "apply_diffs (m(p \<mapsto> new)) (map (\<lambda>(p, old, new). generate_diff cfg p old new) changes) =
        Some (map (\<lambda>(p, old, new). \<lparr>ar_path = p, success = True, new_content = Some new, ar_error = None\<rparr>) changes)"
      by (rule Cons.IH) (use Cons.prems c in \<open>simp_all add: fun_upd_def\<close>)
    with step Cons.prems(1) show ?case by (simp add: c)
  qed
  from this [OF assms(1)] show ?thesis by (simp add: apply_plan_def create_plan_def Let_def)
qed

lemma apply_created_plan_witness:
  "apply_plan [(''f'', write_lines [''a''])]
     (create_plan default_diff_config ''two steps''
       [(''f'', write_lines [''a''], write_lines [''a'', ''b'']), (''f'', write_lines [''a'', ''b''], write_lines [''b''])]) =
   Some [\<lparr>ar_path = ''f'', success = True, new_content = Some (write_lines [''a'', ''b'']), ar_error = None\<rparr>,
         \<lparr>ar_path = ''f'', success = True, new_content = Some (write_lines [''b'']), ar_error = None\<rparr>]"
proof -
  have files: "text_file (write_lines [''a'', ''b''])" "text_file (write_lines [''b''])"
    unfolding text_file_def by (rule exI [of _ "[''a'', ''b'']"], simp) (rule exI [of _ "[''b'']"], simp)
  then show ?thesis
    by (subst apply_created_plan)
      (simp_all add: content_map_def split_lines_write default_diff_config_def del: write_lines_simps)
qed

text \<open>A diff of one hunk that passes validation applies. On a file it is valid for, a modification of
  one hunk is carried out without a mismatch or a panic, for any line numbers and counts below
  2 ^ 63.\<close>

lemma valid_hunk_applies:
  assumes "hunks d = [h]" "operation d = Modify" "valid (validate_diff content d)"
    and "old_count h < 2 ^ 63"
  shows "\<exists>c. apply_diff content d =
    Some \<lparr>ar_path = diff_path d, success = True, new_content = Some c, ar_error = None\<rparr>"
proof -
  define lines where "lines = split_lines content"
  define start where "start = hunk_offset 0 h"
  have "check_hunks 0 0 lines [h] = []" using assms(1,3) by (simp add: valid_iff lines_def)
  then have ok: "0 \<le> start" "usize_add (nat start) (old_count h) \<le> length lines"
    "check_lines 0 lines (nat start) (hunk_lines h) = []"
    by (auto simp: Let_def start_def split: if_splits)
  have "start < 2 ^ 63" using to_isize_range by (simp add: start_def hunk_offset_def)
  then have "as_usize start = nat start" "usize_add (nat start) (old_count h) = nat start + old_count h"
    using ok(1) assms(4) by (simp_all add: as_usize_id usize_add_id nat_less_iff)
  then show ?thesis
    using ok check_lines_Nil [OF ok(3), of 0] assms(1,2)
    by (simp add: apply_diff_def lines_def [symmetric] start_def [symmetric] Let_def)
qed

definition sample_hunk :: DiffHunk where
  "sample_hunk = \<lparr>old_start = 2, old_count = 1, new_start = 2, new_count = 0, hunk_lines = [Removed ''b'']\<rparr>"

definition sample_diff :: "DiffHunk list \<Rightarrow> FileDiff" where
  "sample_diff hs = \<lparr>diff_path = ''f'', operation = Modify, hunks = hs, additions = 0, deletions = 0\<rparr>"

lemma sample_lines: "split_lines (write_lines [''a'', ''b'']) = [''a'', ''b'']"
  by (simp add: split_lines_write del: write_lines_simps)

lemma sample_offset: "hunk_offset 0 sample_hunk = 1"
  by (simp add: hunk_offset_def sample_hunk_def to_isize_id)

lemma valid_hunk_applies_witness:
  "\<exists>c. apply_diff (write_lines [''a'', ''b'']) (sample_diff [sample_hunk]) =
     Some \<lparr>ar_path = ''f'', success = True, new_content = Some c, ar_error = None\<rparr>"
proof -
  have "valid (validate_diff (write_lines [''a'', ''b'']) (sample_diff [sample_hunk]))"
    unfolding valid_iff sample_lines
    by (simp add: sample_diff_def sample_offset Let_def) (simp add: sample_hunk_def usize_add_def)
  from valid_hunk_applies [OF _ _ this, of sample_hunk] show ?thesis
    by (simp add: sample_diff_def sample_hunk_def)
qed

text \<open>Validation moves the later hunks by what the earlier ones add, but looks at the lines of the
  unchanged file: this diff applies, and is rejected.\<close>

lemma validation_shifts_wrongly:
  "let content = write_lines [''a'', ''b''];
       d = sample_diff [\<lparr>old_start = 1, old_count = 0, new_start = 1, new_count = 1, hunk_lines = [Added ''x'']\<rparr>,
                        \<lparr>old_start = 2, old_count = 1, new_start = 3, new_count = 0, hunk_lines = [Removed ''b'']\<rparr>]
   in apply_diff content d = Some \<lparr>ar_path = ''f'', success = True,
        new_content = Some (write_lines [''x'', ''a'']), ar_error = None\<rparr>
      \<and> \<not> valid (validate_diff content d)"
  unfolding Let_def valid_iff apply_diff_def sample_lines
  by (simp add: sample_diff_def Let_def hunk_offset_def to_isize_id as_usize_id usize_add_def
      end_line_def suffix_def count_lines_def split: if_splits)

end
