(* ===== verification/DiffFormat.thy ===== *)
theory DiffFormat
  imports DiffPlan
begin

text \<open>
  The unified format of \<open>argentor-agent/src/diff_engine.rs\<close>: a diff as text, and the parser that reads
  it back.
\<close>

section \<open>Writing\<close>

definition hunk_header :: "DiffHunk \<Rightarrow> string" where
  "hunk_header h =
     ''@@ -'' @ show_nat (old_start h) @ '','' @ show_nat (old_count h) @ '' +''
       @ show_nat (new_start h) @ '','' @ show_nat (new_count h) @ '' @@''"

definition format_unified :: "FileDiff \<Rightarrow> string" where
  "format_unified d =
     (let a_path = (case operation d of Rename from_path \<Rightarrow> from_path | _ \<Rightarrow> diff_path d);
          b_path = diff_path d
      in ''--- a/'' @ a_path @ [LF] @ ''+++ b/'' @ b_path @ [LF]
         @ concat (map (\<lambda>h. hunk_header h @ [LF] @ concat (map (\<lambda>l. show_line l @ [LF]) (hunk_lines h)))
             (hunks d)))"

section \<open>Parsing\<close>

definition usize_lim :: nat where
  "usize_lim = 2 ^ 64"

definition parse_range :: "string \<Rightarrow> string \<Rightarrow> string + nat \<times> nat" where
  "parse_range s ctx =
     (case split_once (CHR '','') s of
        Some (start_s, count_s) \<Rightarrow>
          (case parse_uint usize_lim start_s of
             Inl e \<Rightarrow> Inl (''Bad start in '' @ ctx @ '': '' @ int_error_message e)
           | Inr start \<Rightarrow>
               (case parse_uint usize_lim count_s of
                  Inl e \<Rightarrow> Inl (''Bad count in '' @ ctx @ '': '' @ int_error_message e)
                | Inr count \<Rightarrow> Inr (start, count)))
      | None \<Rightarrow>
          (case parse_uint usize_lim s of
             Inl e \<Rightarrow> Inl (''Bad range in '' @ ctx @ '': '' @ int_error_message e)
           | Inr start \<Rightarrow> Inr (start, 1)))"

definition parse_hunk_header :: "string \<Rightarrow> string + nat \<times> nat \<times> nat \<times> nat" where
  "parse_hunk_header line =
     (case Option.bind (strip_prefix ''@@ '' line) (\<lambda>s. map_option (\<lambda>pos. take pos s) (find_sub '' @@'' s)) of
        None \<Rightarrow> Inl (''Invalid hunk header: '' @ line)
      | Some inner \<Rightarrow>
          let parts = split_whitespace inner
          in if length parts \<noteq> 2
             then Inl (''Expected 2 parts in hunk header, got '' @ show_nat (length parts) @ '': '' @ line)
             else case strip_prefix ''-'' (parts ! 0) of
                    None \<Rightarrow> Inl (''Missing '' @ [CHR 39, CHR 45, CHR 39] @ '' in old range: '' @ line)
                  | Some old_part \<Rightarrow>
                      (case strip_prefix ''+'' (parts ! 1) of
                         None \<Rightarrow> Inl (''Missing '' @ [CHR 39, CHR 43, CHR 39] @ '' in new range: '' @ line)
                       | Some new_part \<Rightarrow>
                           (case parse_range old_part line of
                              Inl e \<Rightarrow> Inl e
                            | Inr (os, oc) \<Rightarrow>
                                (case parse_range new_part line of
                                   Inl e \<Rightarrow> Inl e
                                 | Inr (ns, nc) \<Rightarrow> Inr (os, oc, ns, nc)))))"

fun parse_body :: "nat \<Rightarrow> string list \<Rightarrow> string + DiffLine list" where
  "parse_body i [] = Inr []"
| "parse_body i (dl # rest) =
     (let line =
        (case strip_prefix '' '' dl of
           Some ctx \<Rightarrow> Some (Context ctx)
         | None \<Rightarrow>
             (case strip_prefix ''+'' dl of
                Some add \<Rightarrow> Some (Added add)
              | None \<Rightarrow>
                  (case strip_prefix ''-'' dl of
                     Some rem \<Rightarrow> Some (Removed rem)
                   | None \<Rightarrow> if dl = [] then Some (Context []) else None)))
      in case line of
           None \<Rightarrow> Inl (''Unexpected line prefix at line '' @ show_nat i @ '': '' @ debug_str dl)
         | Some l \<Rightarrow>
             (case parse_body (i + 1) rest of Inl e \<Rightarrow> Inl e | Inr ls \<Rightarrow> Inr (l # ls)))"

definition hunk_follows :: "string \<Rightarrow> bool" where
  "hunk_follows line \<longleftrightarrow> prefix ''@@ '' line"

function parse_hunks :: "nat \<Rightarrow> string list \<Rightarrow> string + DiffHunk list" where
  "parse_hunks i [] = Inr []"
| "parse_hunks i (line # rest) =
     (if hunk_follows line
      then case parse_hunk_header line of
             Inl e \<Rightarrow> Inl e
           | Inr (os, oc, ns, nc) \<Rightarrow>
               let body = takeWhile (\<lambda>l. \<not> hunk_follows l) rest
               in case parse_body (i + 1) body of
                    Inl e \<Rightarrow> Inl e
                  | Inr ls \<Rightarrow>
                      (case parse_hunks (i + 1 + length body) (drop (length body) rest) of
                         Inl e \<Rightarrow> Inl e
                       | Inr hs \<Rightarrow>
                           Inr (\<lparr>old_start = os, old_count = oc, new_start = ns, new_count = nc,
                                  hunk_lines = ls\<rparr> # hs))
      else parse_hunks (i + 1) rest)"
  by pat_completeness auto
termination by (relation "measure (\<lambda>(i, ls). length ls)") auto

declare parse_hunks.simps(2) [simp del]

definition strip_either :: "string \<Rightarrow> string \<Rightarrow> string \<Rightarrow> string" where
  "strip_either p q s =
     (case strip_prefix p s of
        Some r \<Rightarrow> r
      | None \<Rightarrow> (case strip_prefix q s of Some r \<Rightarrow> r | None \<Rightarrow> s))"

definition parse_unified :: "string \<Rightarrow> string + FileDiff" where
  "parse_unified text =
     (let text_lines = str_lines text
      in if length text_lines < 2
         then Inl ''Diff text too short: expected at least --- and +++ lines''
         else let a_line = text_lines ! 0; b_line = text_lines ! 1
              in if \<not> prefix ''--- '' a_line
                 then Inl (''Expected '' @ [CHR 39] @ ''--- '' @ [CHR 39] @ '' prefix, got: '' @ a_line)
                 else if \<not> prefix ''+++ '' b_line
                 then Inl (''Expected '' @ [CHR 39] @ ''+++ '' @ [CHR 39] @ '' prefix, got: '' @ b_line)
                 else let a_path = strip_either ''--- a/'' ''--- '' a_line;
                          b_path = strip_either ''+++ b/'' ''+++ '' b_line;
                          oper = (if a_path = ''/dev/null'' then Create
                                  else if b_path = ''/dev/null'' then Delete
                                  else if a_path \<noteq> b_path then Rename a_path else Modify)
                      in case parse_hunks 2 (drop 2 text_lines) of
                           Inl e \<Rightarrow> Inl e
                         | Inr hs \<Rightarrow>
                             Inr \<lparr>diff_path = b_path, operation = oper, hunks = hs,
                                  additions = sum_list (map (count_lines is_added \<circ> hunk_lines) hs),
                                  deletions = sum_list (map (count_lines is_removed \<circ> hunk_lines) hs)\<rparr>)"

section \<open>Lemmas\<close>

lemma strip_prefix_append [simp]: "strip_prefix p (p @ s) = Some s"
  by (simp add: strip_prefix_def)

text \<open>What a line of the format may hold: no line feed, and no carriage return at its end.\<close>

definition plain_line :: "string \<Rightarrow> bool" where
  "plain_line s \<longleftrightarrow> LF \<notin> set s \<and> \<not> suffix [CR] s"

lemma plain_line_append: "LF \<notin> set s \<Longrightarrow> CR \<notin> set s \<Longrightarrow> plain_line t \<Longrightarrow> plain_line (s @ t)"
  by (cases t rule: rev_cases) (auto simp: plain_line_def suffix_def append_eq_append_conv2 append_eq_Cons_conv)

lemma find_header_end: "CHR ''@'' \<notin> set u \<Longrightarrow> find_sub '' @@'' (u @ '' @@'') = Some (length u)"
proof (induction u)
  case Nil
  show ?case by (simp add: find_sub.simps)
next
  case (Cons c u)
  then have "\<not> prefix '' @@'' (c # u @ '' @@'')" by (cases u) auto
  with Cons show ?case by (simp add: find_sub_Cons)
qed

lemma parse_range_show:
  assumes "m < usize_lim" "n < usize_lim"
  shows "parse_range (show_nat m @ '','' @ show_nat n) ctx = Inr (m, n)"
proof -
  have "split_once (CHR '','') (show_nat m @ '','' @ show_nat n) = Some (show_nat m, show_nat n)"
    by (simp add: split_once_Some digits_no)
  then show ?thesis using assms by (simp add: parse_range_def parse_uint_show)
qed

definition small_hunk :: "DiffHunk \<Rightarrow> bool" where
  "small_hunk h \<longleftrightarrow> old_start h < usize_lim \<and> old_count h < usize_lim
     \<and> new_start h < usize_lim \<and> new_count h < usize_lim"

lemma parse_header:
  assumes "small_hunk h"
  shows "parse_hunk_header (hunk_header h) = Inr (old_start h, old_count h, new_start h, new_count h)"
proof -
  define x where "x = ''-'' @ show_nat (old_start h) @ '','' @ show_nat (old_count h)"
  define y where "y = ''+'' @ show_nat (new_start h) @ '','' @ show_nat (new_count h)"
  have head: "hunk_header h = ''@@ '' @ ((x @ '' '' @ y) @ '' @@'')"
    by (simp add: hunk_header_def x_def y_def)
  have "CHR ''@'' \<notin> set (x @ '' '' @ y)" by (simp add: x_def y_def digits_no)
  note find = find_header_end [OF this]
  have ws: "\<forall>c\<in>set x. \<not> is_whitespace c" "\<forall>c\<in>set y. \<not> is_whitespace c"
    using digits_no_whitespace by (auto simp: x_def y_def is_whitespace_def)
  have "split_by is_whitespace (x @ CHR '' '' # y) = [x, y]"
    using ws by (simp add: split_by_first split_by_no_sep is_whitespace_def)
  then have words: "split_whitespace (x @ '' '' @ y) = [x, y]"
    by (simp add: split_whitespace_def) (simp add: x_def y_def)
  have strip: "strip_prefix ''@@ '' (hunk_header h) = Some ((x @ '' '' @ y) @ '' @@'')"
    unfolding head by (rule strip_prefix_append)
  have xy: "strip_prefix ''-'' x = Some (show_nat (old_start h) @ '','' @ show_nat (old_count h))"
    "strip_prefix ''+'' y = Some (show_nat (new_start h) @ '','' @ show_nat (new_count h))"
    unfolding x_def y_def by (rule strip_prefix_append)+
  show ?thesis
    unfolding parse_hunk_header_def strip bind.simps find option.map append_eq_conv_conj
    using assms words xy by (simp add: parse_range_show [simplified] small_hunk_def)
qed

lemma parse_body_show: "parse_body i (map show_line ls) = Inr ls"
proof (induction ls arbitrary: i)
  case (Cons l ls)
  then show ?case by (cases l) (simp_all add: strip_prefix_def)
qed simp

lemma show_line_no_header: "\<not> hunk_follows (show_line l)"
  by (cases l) (simp_all add: hunk_follows_def)

definition hunk_text :: "DiffHunk \<Rightarrow> string list" where
  "hunk_text h = hunk_header h # map show_line (hunk_lines h)"

lemma header_follows: "hunk_follows (hunk_header h)"
  by (simp add: hunk_follows_def hunk_header_def)

lemma takeWhile_body:
  "takeWhile (\<lambda>l. \<not> hunk_follows l) (map show_line ls @ concat (map hunk_text hs)) = map show_line ls"
proof (induction ls)
  case Nil
  show ?case by (cases hs) (simp_all add: hunk_text_def header_follows)
qed (simp add: show_line_no_header)

lemma parse_hunks_text: "\<forall>h\<in>set hs. small_hunk h \<Longrightarrow> parse_hunks i (concat (map hunk_text hs)) = Inr hs"
proof (induction hs arbitrary: i)
  case (Cons h hs)
  have "parse_hunks i (hunk_header h # map show_line (hunk_lines h) @ concat (map hunk_text hs)) = Inr (h # hs)"
    using Cons header_follows [of h]
    by (subst parse_hunks.simps) (simp add: parse_header takeWhile_body parse_body_show)
  then show ?case by (simp add: hunk_text_def [of h])
qed simp

definition diff_texts :: "FileDiff \<Rightarrow> string list" where
  "diff_texts d =
     (''--- a/'' @ (case operation d of Rename from_path \<Rightarrow> from_path | _ \<Rightarrow> diff_path d))
       # (''+++ b/'' @ diff_path d) # concat (map hunk_text (hunks d))"

lemma write_lines_concat: "write_lines (concat lss) = concat (map write_lines lss)"
  by (induction lss) simp_all

lemma format_unified_lines: "format_unified d = write_lines (diff_texts d)"
proof -
  have "hunk_header h @ [LF] @ concat (map (\<lambda>l. show_line l @ [LF]) (hunk_lines h)) = write_lines (hunk_text h)" for h
    by (simp add: hunk_text_def write_lines_def o_def)
  then show ?thesis
    by (simp add: format_unified_def diff_texts_def Let_def write_lines_concat o_def)
qed

lemma plain_show_line: "plain_line s \<Longrightarrow> plain_line (c # s)" if "c \<noteq> LF" "c \<noteq> CR"
  using plain_line_append [of "[c]" s] that by simp

lemma plain_header: "plain_line (hunk_header h)"
  by (simp add: plain_line_def hunk_header_def digits_no suffix_def append_eq_Cons_conv
      Cons_eq_append_conv append_eq_append_conv2)

fun line_text :: "DiffLine \<Rightarrow> string" where
  "line_text (Context l) = l" | "line_text (Added l) = l" | "line_text (Removed l) = l"

definition plain_diff :: "FileDiff \<Rightarrow> bool" where
  "plain_diff d \<longleftrightarrow> plain_line (diff_path d) \<and> diff_path d \<noteq> ''/dev/null''
     \<and> (case operation d of
          Modify \<Rightarrow> True
        | Rename old_path \<Rightarrow> plain_line old_path \<and> old_path \<noteq> ''/dev/null'' \<and> old_path \<noteq> diff_path d
        | _ \<Rightarrow> False)
     \<and> (\<forall>h\<in>set (hunks d). small_hunk h \<and> (\<forall>l\<in>set (hunk_lines h). plain_line (line_text l)))
     \<and> additions d = sum_list (map (count_lines is_added \<circ> hunk_lines) (hunks d))
     \<and> deletions d = sum_list (map (count_lines is_removed \<circ> hunk_lines) (hunks d))"

lemma plain_texts:
  assumes "plain_diff d" "s \<in> set (diff_texts d)"
  shows "plain_line s"
proof -
  have line: "plain_line (show_line l)" if "plain_line (line_text l)" for l
    using that by (cases l) (simp_all add: plain_show_line)
  have "plain_line (case operation d of Rename from_path \<Rightarrow> from_path | _ \<Rightarrow> diff_path d)"
    using assms(1) by (auto simp: plain_diff_def split: DiffOperation.splits)
  then have "plain_line (''--- a/'' @ (case operation d of Rename from_path \<Rightarrow> from_path | _ \<Rightarrow> diff_path d))"
    by (intro plain_line_append) simp_all
  moreover have "plain_line (''+++ b/'' @ diff_path d)"
    using assms(1) by (intro plain_line_append) (simp_all add: plain_diff_def)
  moreover have "plain_line s" if "h \<in> set (hunks d)" "s \<in> set (hunk_text h)" for h
    using that assms(1) line by (auto simp: hunk_text_def plain_header plain_diff_def)
  ultimately show ?thesis using assms(2) by (auto simp: diff_texts_def)
qed

lemma plain_str_lines: "\<forall>s\<in>set ls. plain_line s \<Longrightarrow> str_lines (write_lines ls) = ls"
  by (simp add: str_lines_write_lines plain_line_def strip_cr_id map_idI)

lemma strip_either_first [simp]: "strip_either p q (p @ s) = s"
  by (simp add: strip_either_def)

section \<open>Round trips\<close>

text \<open>A modification or a renaming survives the unified format, with its positions and counts, when
  paths and lines hold no line feed and do not end in a carriage return and the numbers fit in
  \<open>usize\<close>.\<close>

lemma parse_format:
  assumes "plain_diff d"
  shows "parse_unified (format_unified d) = Inr d"
proof -
  define a_path where "a_path = (case operation d of Rename from_path \<Rightarrow> from_path | _ \<Rightarrow> diff_path d)"
  have lines: "str_lines (format_unified d) =
      (''--- a/'' @ a_path) # (''+++ b/'' @ diff_path d) # concat (map hunk_text (hunks d))"
    using plain_texts [OF assms] unfolding format_unified_lines a_path_def diff_texts_def [symmetric]
    by (intro plain_str_lines) blast
  have paths: "strip_either ''--- a/'' ''--- '' (''--- a/'' @ a_path) = a_path"
    "strip_either ''+++ b/'' ''+++ '' (''+++ b/'' @ diff_path d) = diff_path d"
    by (rule strip_either_first)+
  have hs: "parse_hunks 2 (concat (map hunk_text (hunks d))) = Inr (hunks d)"
    using assms by (intro parse_hunks_text) (simp add: plain_diff_def)
  have op: "diff_path d \<noteq> ''/dev/null''" "a_path \<noteq> ''/dev/null''"
    "operation d = (if a_path \<noteq> diff_path d then Rename a_path else Modify)"
    using assms by (auto simp: plain_diff_def a_path_def split: DiffOperation.splits)
  have pre: "prefix ''--- '' (''--- a/'' @ a_path)" "prefix ''+++ '' (''+++ b/'' @ diff_path d)"
    by simp_all
  have "parse_unified (format_unified d) =
      Inr \<lparr>diff_path = diff_path d, operation = operation d, hunks = hunks d,
           additions = sum_list (map (count_lines is_added \<circ> hunk_lines) (hunks d)),
           deletions = sum_list (map (count_lines is_removed \<circ> hunk_lines) (hunks d))\<rparr>"
    unfolding parse_unified_def Let_def lines
    using pre hs op(1,2) by (simp del: append_Cons append_Nil prefix_code add: paths op(3))
  also have "\<dots> = Inr d" using assms by (simp add: plain_diff_def)
  finally show ?thesis .
qed

subsection \<open>A diff sent as text\<close>

lemma advance_bound:
  "fst (foldl advance (a, b) ops) \<le> a + length ops \<and> snd (foldl advance (a, b) ops) \<le> b + length ops"
proof (induction ops arbitrary: a b)
  case (Cons op ops)
  show ?case using Cons [of "Suc a" b] Cons [of a "Suc b"] Cons [of "Suc a" "Suc b"] by (cases op) auto
qed simp

lemma hunk_body_text:
  "l \<in> set (hunk_body old new pos ops) \<Longrightarrow> line_text l \<in> insert [] (set old \<union> set new)"
proof (induction ops arbitrary: pos)
  case (Cons op ops)
  obtain a b where "pos = (a, b)" by (cases pos)
  with Cons show ?case by (cases op) (auto simp: get_line_def)
qed simp

lemma build_hunk_small:
  assumes "length ops < 2 ^ 62"
  shows "small_hunk (build_hunk old new ops r)"
proof -
  have "length (take (fst r) ops) < 2 ^ 62" "length (drop (fst r) (take (snd r) ops)) < 2 ^ 62"
    using assms by simp_all
  then show ?thesis
    using advance_bound [of 0 0 "take (fst r) ops"] advance_bound [of 0 0 "drop (fst r) (take (snd r) ops)"]
    by (auto simp: small_hunk_def build_hunk_def Let_def usize_lim_def simp del: length_take length_drop)
qed

lemma generated_hunk:
  assumes "h \<in> set (ops_to_hunks cfg old new ops)" "length ops < 2 ^ 62"
    and "\<forall>l\<in>set old \<union> set new. plain_line l"
  shows "small_hunk h \<and> (\<forall>l\<in>set (hunk_lines h). plain_line (line_text l))"
proof -
  obtain r where h: "h = build_hunk old new ops r"
    using assms(1) by (auto simp: ops_to_hunks_def Let_def split: if_splits)
  have "plain_line (line_text l)" if "l \<in> set (hunk_lines h)" for l
    using that hunk_body_text assms(3) by (fastforce simp: h build_hunk_def Let_def plain_line_def)
  then show ?thesis using build_hunk_small [OF assms(2)] h by simp
qed

text \<open>C5: a diff can be sent as text. For a new text whose lines all end in a line feed and whose
  last line is not blank, texts without lines that end in a carriage return, a path other than /dev/null
  that has no line feed and does not end in a carriage return, and texts and context of together fewer than 2 ^ 61 lines: the unified text of
  the generated diff parses, and applying what was parsed to the old text gives the new one, also where
  the file is created or emptied (the format does not say so, and the diff comes back as a modification).\<close>

theorem sent_diff_applies:
  assumes "new = write_lines ls" "\<forall>l\<in>set ls. LF \<notin> set l" "ls = [] \<or> last ls \<noteq> []"
    and "\<forall>l\<in>set (split_lines old) \<union> set ls. plain_line l" "plain_line p" "p \<noteq> ''/dev/null''"
    and "length (split_lines old) + length ls + context_lines cfg < 2 ^ 61"
  shows "\<exists>d. parse_unified (format_unified (generate_diff cfg p old new)) = Inr d
    \<and> apply_diff old d = Some \<lparr>ar_path = p, success = True, new_content = Some new, ar_error = None\<rparr>"
proof (intro exI conjI)
  let ?d = "(generate_diff cfg p old new)\<lparr>operation := Modify\<rparr>"
  let ?ops = "compute_edit_ops (split_lines old) ls"
  have lines: "split_lines new = ls" using assms(1,2) by (simp add: split_lines_write)
  have hs: "hunks ?d = ops_to_hunks cfg (split_lines old) ls ?ops"
    by (simp add: generate_diff_def Let_def lines)
  have "length ?ops < 2 ^ 62"
    using script_length [OF matching_script [of "TYPE(32)" "split_lines old" ls]] assms(7)
    by (simp add: compute_edit_ops_def)
  then have "\<forall>h\<in>set (hunks ?d). small_hunk h \<and> (\<forall>l\<in>set (hunk_lines h). plain_line (line_text l))"
    using generated_hunk assms(4) unfolding hs by blast
  then have "plain_diff ?d"
    using assms(5,6) by (simp add: plain_diff_def) (simp add: generate_diff_def Let_def)
  moreover have "format_unified (generate_diff cfg p old new) = format_unified ?d"
    by (simp add: format_unified_def) (simp add: generate_diff_def Let_def)
  ultimately show "parse_unified (format_unified (generate_diff cfg p old new)) = Inr ?d"
    by (simp add: parse_format)
  have "apply_hunks 0 0 (split_lines old) (hunks ?d) = Some (Inr ls)"
    unfolding hs using assms(7) by (intro apply_generated)
  then show "apply_diff old ?d = Some \<lparr>ar_path = p, success = True, new_content = Some new, ar_error = None\<rparr>"
    using end_line_join [OF assms(2,3)] assms(1) by (simp add: apply_diff_def)
qed

theorem sent_diff_applies_witness:
  "\<exists>d. parse_unified (format_unified (generate_diff default_diff_config ''f'' [] (write_lines [''a'']))) = Inr d
     \<and> apply_diff [] d =
         Some \<lparr>ar_path = ''f'', success = True, new_content = Some (write_lines [''a'']), ar_error = None\<rparr>"
  by (rule sent_diff_applies [OF refl])
    (simp_all add: plain_line_def default_diff_config_def suffix_def append_eq_Cons_conv Cons_eq_append_conv)

end
