(* ===== verification/DiffTool.thy ===== *)
theory DiffTool
  imports Lcs
begin

text \<open>
  \<open>argentor-builtins/src/diff_tool.rs\<close>: the diff tool of agents. It writes unified diffs from the same
  matching as \<open>diff_engine.rs\<close>, over a table of \<open>usize\<close>, and patches a text with one without
  checking the context. JSON objects of the answers are pairs or records here; the similarity
  percentage, in floating point, and the dispatch on the call's arguments are left out. The number of
  context lines is a \<open>usize\<close> the caller chooses, and the sums with it wrap; \<open>None\<close> is the panic of a
  slice, or a loop that does not end. \<open>gap_end\<close> and \<open>hunk_texts\<close> say what the loops do when nothing
  wraps.
\<close>

section \<open>Edits\<close>

datatype ToolEdit = EqualLine string | InsertLine string | DeleteLine string

definition tool_lcs_table :: "string list \<Rightarrow> string list \<Rightarrow> 64 word list list" where
  "tool_lcs_table a b = lcs_table a b"

function backtrack_loop ::
  "string list \<Rightarrow> string list \<Rightarrow> 64 word list list \<Rightarrow> nat \<Rightarrow> nat \<Rightarrow> ToolEdit list \<Rightarrow> ToolEdit list" where
  "backtrack_loop a b table i j edits =
     (if i = 0 \<and> j = 0 then edits
      else if i > 0 \<and> j > 0 \<and> a ! (i - 1) = b ! (j - 1)
      then backtrack_loop a b table (i - 1) (j - 1) (EqualLine (a ! (i - 1)) # edits)
      else if j > 0 \<and> (i = 0 \<or> table ! i ! (j - 1) \<ge> table ! (i - 1) ! j)
      then backtrack_loop a b table i (j - 1) (InsertLine (b ! (j - 1)) # edits)
      else backtrack_loop a b table (i - 1) j (DeleteLine (a ! (i - 1)) # edits))"
  by auto
termination by (relation "measure (\<lambda>(a, b, table, i, j, edits). i + j)") auto

declare backtrack_loop.simps [simp del]

definition backtrack_edits :: "string list \<Rightarrow> string list \<Rightarrow> 64 word list list \<Rightarrow> ToolEdit list" where
  "backtrack_edits a b table = backtrack_loop a b table (length a) (length b) []"

definition compute_line_edits :: "string \<Rightarrow> string \<Rightarrow> ToolEdit list" where
  "compute_line_edits original modified =
     (let a = str_lines original; b = str_lines modified
      in backtrack_edits a b (tool_lcs_table a b))"

section \<open>Unified diffs\<close>

fun is_equal :: "ToolEdit \<Rightarrow> bool" where
  "is_equal (EqualLine _) = True" | "is_equal _ = False"

fun tagged_line :: "ToolEdit \<Rightarrow> char \<times> string" where
  "tagged_line (EqualLine s) = (CHR '' '', s)"
| "tagged_line (InsertLine s) = (CHR ''+'', s)"
| "tagged_line (DeleteLine s) = (CHR ''-'', s)"

definition unchanged :: "char \<times> string \<Rightarrow> bool" where
  "unchanged l \<longleftrightarrow> fst l = CHR '' ''"

text \<open>The end of a group of changes, as computed: the look-ahead wraps, and its slice panics when it
  then ends before it starts.\<close>

function hunk_end :: "u64 \<Rightarrow> (char \<times> string) list \<Rightarrow> nat \<Rightarrow> nat option" where
  "hunk_end ctx tagged j =
     (if j < length tagged
      then if \<not> unchanged (tagged ! j) then hunk_end ctx tagged (j + 1)
           else let lookahead = min (unat (of_nat j + 2 * ctx + 1 :: u64)) (length tagged)
                in if lookahead < j then None
                   else if list_ex (\<lambda>l. \<not> unchanged l) (drop j (take lookahead tagged))
                   then hunk_end ctx tagged (j + 1) else Some j
      else Some j)"
  by auto
termination by (relation "measure (\<lambda>(ctx, tagged, j). length tagged - j)") auto

declare hunk_end.simps [simp del]

text \<open>The same without wrapping.\<close>

function gap_end :: "nat \<Rightarrow> (char \<times> string) list \<Rightarrow> nat \<Rightarrow> nat" where
  "gap_end ctx tagged j =
     (if j < length tagged
      then if \<not> unchanged (tagged ! j) then gap_end ctx tagged (j + 1)
           else let lookahead = min (j + 2 * ctx + 1) (length tagged)
                in if list_ex (\<lambda>l. \<not> unchanged l) (drop j (take lookahead tagged))
                   then gap_end ctx tagged (j + 1) else j
      else j)"
  by auto
termination by (relation "measure (\<lambda>(ctx, tagged, j). length tagged - j)") auto

declare gap_end.simps [simp del]

lemma gap_end_bounds: "j \<le> length tagged \<Longrightarrow> j \<le> gap_end ctx tagged j \<and> gap_end ctx tagged j \<le> length tagged"
proof (induction ctx tagged j rule: gap_end.induct)
  case (1 ctx tagged j)
  then show ?case by (subst (1 2) gap_end.simps) (auto simp: Let_def)
qed

lemma gap_end_greater: "j < length tagged \<Longrightarrow> \<not> unchanged (tagged ! j) \<Longrightarrow> j < gap_end ctx tagged j"
  using gap_end_bounds [of "Suc j" tagged ctx] by (subst gap_end.simps) simp

definition count_tags :: "char \<Rightarrow> (char \<times> string) list \<Rightarrow> nat" where
  "count_tags skip tagged = length (filter (\<lambda>l. fst l \<noteq> skip) tagged)"

definition tool_header :: "(char \<times> string) list \<Rightarrow> nat \<Rightarrow> nat \<Rightarrow> string" where
  "tool_header tagged start stop =
     (let before = take start tagged; part = drop start (take stop tagged)
      in ''@@ -'' @ show_nat (1 + count_tags (CHR ''+'') before) @ '','' @ show_nat (count_tags (CHR ''+'') part)
         @ '' +'' @ show_nat (1 + count_tags (CHR ''-'') before) @ '','' @ show_nat (count_tags (CHR ''-'') part)
         @ '' @@'')"

text \<open>The lines of all hunks from position \<open>i\<close> on, as computed.\<close>

partial_function (option) hunks_from :: "u64 \<Rightarrow> (char \<times> string) list \<Rightarrow> nat \<Rightarrow> string list option" where
  "hunks_from ctx tagged i =
     (if i \<ge> length tagged then Some []
      else if unchanged (tagged ! i) then hunks_from ctx tagged (i + 1)
      else case hunk_end ctx tagged i of
             None \<Rightarrow> None
           | Some e \<Rightarrow>
               let start = i - unat ctx;
                   stop = min (unat (of_nat e + ctx :: u64)) (length tagged)
               in Option.bind (hunks_from ctx tagged stop)
                    (\<lambda>rest. Some (tool_header tagged start stop
                       # map (\<lambda>l. fst l # snd l) (drop start (take stop tagged)) @ rest)))"

text \<open>The same without wrapping.\<close>

function hunk_texts :: "nat \<Rightarrow> (char \<times> string) list \<Rightarrow> nat \<Rightarrow> string list" where
  "hunk_texts ctx tagged i =
     (if i \<ge> length tagged then []
      else if unchanged (tagged ! i) then hunk_texts ctx tagged (i + 1)
      else let start = i - ctx;
               stop = min (gap_end ctx tagged i + ctx) (length tagged)
           in tool_header tagged start stop
              # map (\<lambda>l. fst l # snd l) (drop start (take stop tagged))
              @ hunk_texts ctx tagged stop)"
  by auto
termination
proof (relation "measure (\<lambda>(ctx, tagged, i). length tagged - i)", goal_cases)
  case (3 ctx tagged i start stop)
  then show ?case
    using gap_end_greater [of i tagged ctx] gap_end_bounds [of i tagged ctx] by auto
qed auto

declare hunk_texts.simps [simp del]

definition generate_unified_diff :: "string \<Rightarrow> string \<Rightarrow> u64 \<Rightarrow> string option" where
  "generate_unified_diff original modified ctx =
     (let edits = compute_line_edits original modified
      in if list_all is_equal edits then Some []
         else map_option (\<lambda>hunks. write_lines (''--- original'' # ''+++ modified'' # hunks))
                (hunks_from ctx (map tagged_line edits) 0))"

text \<open>Below 2 ^ 64 nothing wraps.\<close>

lemma hunk_end_exact:
  "length tagged + 2 * unat ctx < 2 ^ 64 \<Longrightarrow> hunk_end ctx tagged j = Some (gap_end (unat ctx) tagged j)"
proof (induction ctx tagged j rule: hunk_end.induct)
  case (1 ctx tagged j)
  have "unat (of_nat j + 2 * ctx + 1 :: u64) = j + 2 * unat ctx + 1" if "j < length tagged"
    using that 1(3) by (simp add: unat_word_ariths unat_of_nat)
  then show ?case
    using 1 by (subst hunk_end.simps, subst gap_end.simps) (simp add: Let_def min_def)
qed

lemma hunks_from_exact:
  assumes "length tagged + 2 * unat ctx < 2 ^ 64"
  shows "hunks_from ctx tagged i = Some (hunk_texts (unat ctx) tagged i)"
proof (induction "length tagged - i" arbitrary: i rule: less_induct)
  case less
  consider "length tagged \<le> i" | "i < length tagged" "unchanged (tagged ! i)"
    | "i < length tagged" "\<not> unchanged (tagged ! i)" by linarith
  then show ?case
  proof cases
    case 1
    then show ?thesis by (subst hunks_from.simps, subst hunk_texts.simps) simp
  next
    case 2
    then have "hunks_from ctx tagged (i + 1) = Some (hunk_texts (unat ctx) tagged (i + 1))" by (intro less) simp
    then show ?thesis using 2 by (subst hunks_from.simps, subst hunk_texts.simps) simp
  next
    case 3
    let ?e = "gap_end (unat ctx) tagged i"
    define stop where "stop = min (?e + unat ctx) (length tagged)"
    have e: "i < ?e" "?e \<le> length tagged"
      using gap_end_greater [OF 3] gap_end_bounds [of i tagged] 3(1) by simp_all
    then have "unat (of_nat ?e + ctx :: u64) = ?e + unat ctx" using assms by (simp add: unat_word_ariths unat_of_nat)
    moreover have "hunks_from ctx tagged stop = Some (hunk_texts (unat ctx) tagged stop)"
      using 3 e by (intro less) (auto simp: stop_def)
    ultimately show ?thesis
      using 3 by (subst hunks_from.simps, subst hunk_texts.simps)
        (simp add: hunk_end_exact [OF assms] Let_def flip: stop_def)
  qed
qed

section \<open>Patching\<close>

definition header_start :: "string \<Rightarrow> nat" where
  "header_start part =
     (case parse_uint (2 ^ 64) (hd (split_char (CHR '','') (dropWhile (\<lambda>c. c = CHR ''-'') part))) of
        Inl _ \<Rightarrow> 1 | Inr n \<Rightarrow> n)"

text \<open>Lines pushed before what the rest of the loop pushes.\<close>

definition push_lines :: "string list \<Rightarrow> string + string list \<Rightarrow> string + string list" where
  "push_lines ls r = (case r of Inl e \<Rightarrow> Inl e | Inr out \<Rightarrow> Inr (ls @ out))"

fun patch_loop :: "string list \<Rightarrow> nat \<Rightarrow> string list \<Rightarrow> string + string list" where
  "patch_loop orig idx [] = Inr (drop idx orig)"
| "patch_loop orig idx (line # rest) =
     (if prefix ''@@'' line
      then let parts = split_whitespace line
           in if length parts < 3 then Inl (''Invalid hunk header: '' @ line)
              else let idx' = max idx (min (header_start (parts ! 1) - 1) (length orig))
                   in push_lines (drop idx (take idx' orig)) (patch_loop orig idx' rest)
      else if prefix '' '' line
      then if idx < length orig
           then push_lines [orig ! idx] (patch_loop orig (idx + 1) rest)
           else patch_loop orig idx rest
      else case strip_prefix ''+'' line of
             Some stripped \<Rightarrow> push_lines [stripped] (patch_loop orig idx rest)
           | None \<Rightarrow>
               if prefix ''-'' line then patch_loop orig (idx + 1) rest
               else patch_loop orig idx rest)"

definition apply_patch :: "string \<Rightarrow> string \<Rightarrow> string + string" where
  "apply_patch original diff_text =
     (case patch_loop (str_lines original) 0
             (dropWhile (\<lambda>line. \<not> prefix ''@@'' line) (str_lines diff_text)) of
        Inl e \<Rightarrow> Inl e
      | Inr out \<Rightarrow> Inr (join [LF] out))"

section \<open>Statistics, words and characters\<close>

record DiffStats =
  lines_added :: nat
  lines_removed :: nat
  lines_unchanged :: nat

definition count_edit :: "DiffStats \<Rightarrow> ToolEdit \<Rightarrow> DiffStats" where
  "count_edit st e =
     (case e of
        EqualLine _ \<Rightarrow> st\<lparr>lines_unchanged := lines_unchanged st + 1\<rparr>
      | InsertLine _ \<Rightarrow> st\<lparr>lines_added := lines_added st + 1\<rparr>
      | DeleteLine _ \<Rightarrow> st\<lparr>lines_removed := lines_removed st + 1\<rparr>)"

definition compute_stats :: "string \<Rightarrow> string \<Rightarrow> DiffStats" where
  "compute_stats original modified =
     foldl count_edit \<lparr>lines_added = 0, lines_removed = 0, lines_unchanged = 0\<rparr>
       (compute_line_edits original modified)"

fun show_edit :: "ToolEdit \<Rightarrow> string" where
  "show_edit (EqualLine w) = w"
| "show_edit (InsertLine w) = [CHR 123, CHR ''+''] @ w @ [CHR ''+'', CHR 125]"
| "show_edit (DeleteLine w) = ''[-'' @ w @ ''-]''"

text \<open>\<open>word_diff\<close>: the changes, and the words of the display separated by blanks; a blank is put only
  behind a display that is not empty.\<close>

definition word_diff :: "string \<Rightarrow> string \<Rightarrow> ToolEdit list \<times> string" where
  "word_diff original modified =
     (let a = split_whitespace original; b = split_whitespace modified;
          edits = backtrack_edits a b (tool_lcs_table a b)
      in (edits, foldl (\<lambda>display e. (if display \<noteq> [] then display @ '' '' else display) @ show_edit e) [] edits))"

fun same_kind :: "ToolEdit \<Rightarrow> ToolEdit \<Rightarrow> bool" where
  "same_kind (EqualLine _) (EqualLine _) = True"
| "same_kind (InsertLine _) (InsertLine _) = True"
| "same_kind (DeleteLine _) (DeleteLine _) = True"
| "same_kind _ _ = False"

fun edit_value :: "ToolEdit \<Rightarrow> string" where
  "edit_value (EqualLine s) = s" | "edit_value (InsertLine s) = s" | "edit_value (DeleteLine s) = s"

fun with_value :: "ToolEdit \<Rightarrow> string \<Rightarrow> ToolEdit" where
  "with_value (EqualLine _) s = EqualLine s"
| "with_value (InsertLine _) s = InsertLine s"
| "with_value (DeleteLine _) s = DeleteLine s"

text \<open>\<open>char_diff\<close> joins neighbours of one kind. The current kind and its buffer are one edit.\<close>

fun coalesce :: "ToolEdit option \<Rightarrow> ToolEdit list \<Rightarrow> ToolEdit list" where
  "coalesce None [] = []"
| "coalesce (Some cur) [] = (if edit_value cur \<noteq> [] then [cur] else [])"
| "coalesce None (e # edits) = coalesce (Some e) edits"
| "coalesce (Some cur) (e # edits) =
     (if same_kind cur e then coalesce (Some (with_value cur (edit_value cur @ edit_value e))) edits
      else cur # coalesce (Some e) edits)"

definition char_diff :: "string \<Rightarrow> string \<Rightarrow> ToolEdit list \<times> string" where
  "char_diff original modified =
     (let a = map (\<lambda>c. [c]) original; b = map (\<lambda>c. [c]) modified;
          changes = coalesce None (backtrack_edits a b (tool_lcs_table a b))
      in (changes, concat (map show_edit changes)))"

section \<open>The matching\<close>

fun edit_kind :: "ToolEdit \<Rightarrow> EditOp" where
  "edit_kind (EqualLine _) = EqualOp" | "edit_kind (InsertLine _) = InsertOp" | "edit_kind (DeleteLine _) = DeleteOp"

text \<open>The two sides of a list of edits.\<close>

fun old_side :: "ToolEdit list \<Rightarrow> string list" where
  "old_side [] = []"
| "old_side (EqualLine s # es) = s # old_side es"
| "old_side (DeleteLine s # es) = s # old_side es"
| "old_side (InsertLine s # es) = old_side es"

fun new_side :: "ToolEdit list \<Rightarrow> string list" where
  "new_side [] = []"
| "new_side (EqualLine s # es) = s # new_side es"
| "new_side (InsertLine s # es) = s # new_side es"
| "new_side (DeleteLine s # es) = new_side es"

lemma backtrack_loop_kinds:
  "map edit_kind (backtrack_loop a b table i j edits) = backtrack a b table i j (map edit_kind edits)"
proof (induction a b table i j edits rule: backtrack_loop.induct)
  case (1 a b table i j edits)
  then show ?case
    by (subst backtrack_loop.simps, subst backtrack.simps) (auto simp del: One_nat_def)
qed

lemma backtrack_loop_sides:
  "old_side edits = drop i a \<Longrightarrow> new_side edits = drop j b \<Longrightarrow> i \<le> length a \<Longrightarrow> j \<le> length b
     \<Longrightarrow> old_side (backtrack_loop a b table i j edits) = a \<and> new_side (backtrack_loop a b table i j edits) = b"
proof (induction a b table i j edits rule: backtrack_loop.induct)
  case (1 a b table i j edits)
  consider "i = 0" "j = 0"
    | "i > 0" "j > 0" "a ! (i - 1) = b ! (j - 1)"
    | "\<not> (i > 0 \<and> j > 0 \<and> a ! (i - 1) = b ! (j - 1))" "j > 0" "i = 0 \<or> table ! i ! (j - 1) \<ge> table ! (i - 1) ! j"
    | "\<not> (i > 0 \<and> j > 0 \<and> a ! (i - 1) = b ! (j - 1))" "i > 0" "\<not> (j > 0 \<and> (i = 0 \<or> table ! i ! (j - 1) \<ge> table ! (i - 1) ! j))"
    by blast
  then show ?case
  proof cases
    case 1
    with "1.prems" show ?thesis by (simp add: backtrack_loop.simps)
  next
    case 2
    with "1.IH"(1) "1.prems" show ?thesis
      by (subst (1 2) backtrack_loop.simps) (simp add: drop_pred)
  next
    case 3
    with "1.IH"(2) "1.prems" show ?thesis
      by (subst (1 2) backtrack_loop.simps) (auto simp: drop_pred)
  next
    case 4
    with "1.IH"(3) "1.prems" show ?thesis
      by (subst (1 2) backtrack_loop.simps) (auto simp: drop_pred)
  qed
qed

lemma backtrack_edits_sides:
  "old_side (backtrack_edits a b table) = a" "new_side (backtrack_edits a b table) = b"
  using backtrack_loop_sides [of "[]" "length a" a "length b" b table] by (simp_all add: backtrack_edits_def)

lemma backtrack_edits_kinds:
  "map edit_kind (backtrack_edits a b (tool_lcs_table a b)) = matching TYPE(64) a b"
  by (simp add: backtrack_edits_def backtrack_loop_kinds tool_lcs_table_def matching_def)

section \<open>Patching with a generated diff\<close>

definition old_lines :: "(char \<times> string) list \<Rightarrow> string list" where
  "old_lines tagged = map snd (filter (\<lambda>l. fst l \<noteq> CHR ''+'') tagged)"

definition new_lines :: "(char \<times> string) list \<Rightarrow> string list" where
  "new_lines tagged = map snd (filter (\<lambda>l. fst l \<noteq> CHR ''-'') tagged)"

lemma side_simps [simp]:
  "old_lines [] = []" "new_lines [] = []"
  "old_lines (l # ls) = (if fst l \<noteq> CHR ''+'' then snd l # old_lines ls else old_lines ls)"
  "new_lines (l # ls) = (if fst l \<noteq> CHR ''-'' then snd l # new_lines ls else new_lines ls)"
  "old_lines (ls @ ls') = old_lines ls @ old_lines ls'" "new_lines (ls @ ls') = new_lines ls @ new_lines ls'"
  by (simp_all add: old_lines_def new_lines_def)

lemma tagged_sides:
  "old_lines (map tagged_line edits) = old_side edits" "new_lines (map tagged_line edits) = new_side edits"
  by (induction edits rule: old_side.induct) simp_all

lemma unchanged_sides: "\<forall>l\<in>set ls. unchanged l \<Longrightarrow> old_lines ls = new_lines ls"
  by (induction ls) (auto simp: unchanged_def)

lemma count_tags_old: "count_tags (CHR ''+'') ls = length (old_lines ls)"
  by (simp add: count_tags_def old_lines_def)

definition line_ok :: "char \<times> string \<Rightarrow> bool" where
  "line_ok l \<longleftrightarrow> fst l \<in> {CHR '' '', CHR ''+'', CHR ''-''} \<and> LF \<notin> set (snd l)
     \<and> (fst l = CHR ''+'' \<longrightarrow> \<not> suffix [CR] (snd l))"

lemma strip_cr_Cons: "c \<noteq> CR \<Longrightarrow> \<exists>s'. strip_cr (c # s) = c # s'"
  by (cases s) (auto simp: strip_cr_def suffix_def)

lemma strip_cr_plain: "c \<noteq> CR \<Longrightarrow> \<not> suffix [CR] s \<Longrightarrow> strip_cr (c # s) = c # s"
  by (auto simp: strip_cr_def suffix_def Cons_eq_append_conv append_eq_Cons_conv)

lemma push_lines_simps [simp]: "push_lines [] r = r" "push_lines ls (Inr out) = Inr (ls @ out)"
  by (simp_all add: push_lines_def split: sum.split)

lemma push_lines_push: "push_lines ls (push_lines ls' r) = push_lines (ls @ ls') r"
  by (simp add: push_lines_def split: sum.split)

lemma patch_body:
  assumes "\<forall>l\<in>set seg. line_ok l" "orig = pre @ old_lines seg @ post"
  shows "patch_loop orig (length pre) (map strip_cr (map (\<lambda>l. fst l # snd l) seg) @ rest) =
    push_lines (new_lines seg) (patch_loop orig (length pre + length (old_lines seg)) rest)"
  using assms
proof (induction seg arbitrary: pre)
  case Nil
  then show ?case by simp
next
  case (Cons l seg)
  obtain t s where l: "l = (t, s)" by (cases l)
  have ok: "line_ok (t, s)" "\<forall>l\<in>set seg. line_ok l" using Cons.prems(1) l by auto
  consider "t = CHR '' ''" | "t = CHR ''+''" | "t = CHR ''-''" using ok(1) by (auto simp: line_ok_def)
  then show ?case
  proof cases
    case 1
    obtain s' where s': "strip_cr (t # s) = t # s'" using strip_cr_Cons [of t s] 1 by auto
    have "orig = (pre @ [s]) @ old_lines seg @ post" using Cons.prems(2) l 1 by simp
    note IH = Cons.IH [OF ok(2) this]
    have "orig ! length pre = s" "length pre < length orig" using Cons.prems(2) l 1 by simp_all
    then show ?thesis using IH s' l 1 by (simp add: push_lines_push)
  next
    case 2
    have "strip_cr (t # s) = t # s" using ok(1) 2 by (intro strip_cr_plain) (auto simp: line_ok_def)
    moreover have "orig = pre @ old_lines seg @ post" using Cons.prems(2) l 2 by simp
    ultimately show ?thesis using Cons.IH [OF ok(2)] l 2 by (simp add: push_lines_push strip_prefix_def)
  next
    case 3
    obtain s' where s': "strip_cr (t # s) = t # s'" using strip_cr_Cons [of t s] 3 by auto
    have "orig = (pre @ [s]) @ old_lines seg @ post" using Cons.prems(2) l 3 by simp
    note IH = Cons.IH [OF ok(2) this]
    then show ?thesis using s' l 3 by (simp add: push_lines_push strip_prefix_def)
  qed
qed

lemma tool_header_words:
  "split_whitespace (tool_header tagged start stop) =
     [''@@'', ''-'' @ show_nat (1 + count_tags (CHR ''+'') (take start tagged)) @ '','' @ show_nat (count_tags (CHR ''+'') (drop start (take stop tagged))),
      ''+'' @ show_nat (1 + count_tags (CHR ''-'') (take start tagged)) @ '','' @ show_nat (count_tags (CHR ''-'') (drop start (take stop tagged))), ''@@'']"
proof -
  have join4: "split_whitespace (a @ '' '' @ b @ '' '' @ c @ '' '' @ d) = [a, b, c, d]"
    if "\<forall>w\<in>{a, b, c, d}. w \<noteq> [] \<and> (\<forall>x\<in>set w. \<not> is_whitespace x)" for a b c d
    using that by (simp add: split_whitespace_def split_by_first split_by_no_sep is_whitespace_def [of "CHR '' ''"])
  show ?thesis
    unfolding tool_header_def Let_def
    using digits_no_whitespace
    by (subst join4 [symmetric]) (auto simp: is_whitespace_def Let_def)
qed

lemma header_start_show:
  assumes "n < 2 ^ 64"
  shows "header_start (''-'' @ show_nat n @ '','' @ r) = n"
proof -
  have no: "CHR ''-'' \<notin> set (show_nat n)" "\<forall>c\<in>set (show_nat n). c \<noteq> CHR '',''"
    using show_nat_range [of "CHR ''-''" n] digits_no(3) [of n] by auto
  then have "dropWhile (\<lambda>c. c = CHR ''-'') (show_nat n @ t) = show_nat n @ t" for t
    by (cases "show_nat n") auto
  moreover have "split_char (CHR '','') (show_nat n @ CHR '','' # r) = show_nat n # split_char (CHR '','') r"
    using no by (intro split_by_first) auto
  ultimately show ?thesis using parse_uint_show [OF assms] by (simp add: header_start_def)
qed

lemma header_prefix: "prefix ''@@'' (tool_header tagged start stop)"
  by (simp add: tool_header_def Let_def)

lemma strip_cr_header: "strip_cr (tool_header tagged s t) = tool_header tagged s t"
  by (simp add: strip_cr_def tool_header_def Let_def suffix_def append_eq_Cons_conv Cons_eq_append_conv
      append_eq_append_conv2)

lemma patch_header:
  assumes "length tagged < 2 ^ 63" "idx \<le> length (old_lines (take start tagged))"
    and "orig = old_lines tagged"
  shows "patch_loop orig idx (tool_header tagged start stop # rest) =
    push_lines (drop idx (old_lines (take start tagged)))
      (patch_loop orig (length (old_lines (take start tagged))) rest)"
proof -
  let ?n = "length (old_lines (take start tagged))"
  have split: "orig = old_lines (take start tagged) @ old_lines (drop start tagged)"
    using assms(3) by (simp flip: side_simps(5))
  have "?n \<le> length tagged"
    by (simp add: old_lines_def) (metis length_filter_le length_take min.bounded_iff order.trans)
  then have "header_start (split_whitespace (tool_header tagged start stop) ! 1) = 1 + ?n"
    unfolding tool_header_words using header_start_show [of "1 + ?n"] assms(1)
    by (simp add: count_tags_old)
  moreover have "?n \<le> length orig" "take ?n orig = old_lines (take start tagged)"
    by (simp_all add: split)
  ultimately show ?thesis
    using assms(2) header_prefix [of tagged start stop]
    by (simp add: tool_header_words Let_def max_def)
qed

text \<open>Behind a group of changes, twice the context and one line more are unchanged.\<close>

lemma gap_end_gap:
  "j \<le> length tagged \<Longrightarrow> gap_end ctx tagged j \<le> k \<Longrightarrow> k \<le> gap_end ctx tagged j + 2 * ctx
     \<Longrightarrow> k < length tagged \<Longrightarrow> unchanged (tagged ! k)"
proof (induction ctx tagged j rule: gap_end.induct)
  case (1 ctx tagged j)
  have j: "j < length tagged"
  proof (rule ccontr)
    assume "\<not> j < length tagged"
    then have "gap_end ctx tagged j = j" by (subst gap_end.simps) simp
    then show False using "1.prems" \<open>\<not> j < length tagged\<close> by simp
  qed
  let ?seen = "drop j (take (min (j + 2 * ctx + 1) (length tagged)) tagged)"
  consider "\<not> unchanged (tagged ! j)" | "unchanged (tagged ! j)" "list_ex (\<lambda>l. \<not> unchanged l) ?seen"
    | "unchanged (tagged ! j)" "\<not> list_ex (\<lambda>l. \<not> unchanged l) ?seen" by blast
  then show ?case
  proof cases
    case 1
    then have "gap_end ctx tagged j = gap_end ctx tagged (j + 1)" using j by (subst gap_end.simps) simp
    then show ?thesis using "1.IH"(1) [OF j 1] "1.prems" j by simp
  next
    case 2
    then have "gap_end ctx tagged j = gap_end ctx tagged (j + 1)"
      using j by (subst gap_end.simps) (simp add: Let_def)
    then show ?thesis using "1.IH"(2) [OF j _ refl 2(2)] 2(1) "1.prems" j by simp
  next
    case 3
    then have e: "gap_end ctx tagged j = j" using j by (subst gap_end.simps) (simp add: Let_def)
    have "k - j < length ?seen" "?seen ! (k - j) = tagged ! k"
      using "1.prems"(2-4) e j by auto
    then have "tagged ! k \<in> set ?seen" by (metis nth_mem)
    with 3(2) show ?thesis by (auto simp: list_ex_iff)
  qed
qed

lemma unchanged_part:
  assumes "\<And>k. e \<le> k \<Longrightarrow> k < s \<Longrightarrow> unchanged (tagged ! k)" "s \<le> length tagged"
  shows "old_lines (drop e (take s tagged)) = new_lines (drop e (take s tagged))"
proof (intro unchanged_sides ballI)
  fix l
  assume "l \<in> set (drop e (take s tagged))"
  then obtain n where "n < s - e" "l = tagged ! (e + n)"
    using assms(2) by (auto simp: in_set_conv_nth)
  then show "unchanged l" using assms(1) [of "e + n"] by simp
qed

lemma split_part:
  assumes "e \<le> s"
  shows "drop e xs = drop e (take s xs) @ drop s xs"
proof -
  have "drop e xs = drop e (take s xs @ drop s xs)" by simp
  then show ?thesis using assms by (cases "s \<le> length xs") (simp_all del: append_take_drop_id)
qed

lemma patch_hunks:
  assumes "length tagged < 2 ^ 63" "\<forall>l\<in>set tagged. line_ok l" "orig = old_lines tagged"
  shows "e \<le> i \<Longrightarrow> i \<le> length tagged \<Longrightarrow> (\<And>k. e \<le> k \<Longrightarrow> k < i \<Longrightarrow> unchanged (tagged ! k))
    \<Longrightarrow> e = 0 \<or> (\<forall>k<length tagged. e \<le> k \<and> k \<le> e + ctx \<longrightarrow> unchanged (tagged ! k))
    \<Longrightarrow> patch_loop orig (length (old_lines (take e tagged))) (map strip_cr (hunk_texts ctx tagged i))
      = Inr (new_lines (drop e tagged))"
proof (induction "length tagged - i" arbitrary: i e rule: less_induct)
  case less
  have split: "orig = old_lines (take n tagged) @ old_lines (drop n tagged)" for n
    using assms(3) by (simp flip: side_simps(5))
  consider "i = length tagged" | "i < length tagged" "unchanged (tagged ! i)"
    | "i < length tagged" "\<not> unchanged (tagged ! i)" using less.prems(2) by linarith
  then show ?case
  proof cases
    case 1
    have "old_lines (drop e tagged) = new_lines (drop e tagged)"
      using unchanged_part [of e "length tagged" tagged] less.prems(3) by (simp add: 1)
    then show ?thesis using 1 split [of e] by (subst hunk_texts.simps) simp
  next
    case 2
    have "patch_loop orig (length (old_lines (take e tagged))) (map strip_cr (hunk_texts ctx tagged (i + 1)))
        = Inr (new_lines (drop e tagged))"
    proof (rule less.hyps)
      show "unchanged (tagged ! k)" if "e \<le> k" "k < i + 1" for k
        using that less.prems(3) 2 by (cases "k = i") auto
    qed (use less.prems 2 in auto)
    then show ?thesis using 2 by (subst hunk_texts.simps) simp
  next
    case 3
    define s t where "s = i - ctx" and "t = min (gap_end ctx tagged i + ctx) (length tagged)"
    have t: "i < t" "t \<le> length tagged" "gap_end ctx tagged i \<le> length tagged"
      using gap_end_greater [OF 3, of ctx] gap_end_bounds [of i tagged ctx] 3 by (auto simp: t_def)
    have es: "e \<le> s"
    proof (rule ccontr)
      assume "\<not> e \<le> s"
      then have "e \<noteq> 0" "i \<le> e + ctx" by (auto simp: s_def)
      then have "unchanged (tagged ! i)" using less.prems(1,4) 3 by auto
      then show False using 3 by simp
    qed
    have st: "s \<le> t" "s \<le> i" using t by (auto simp: s_def)
    let ?seg = "drop s (take t tagged)"
    have eqs: "old_lines (drop e (take s tagged)) = new_lines (drop e (take s tagged))"
      using less.prems(3) st t by (intro unchanged_part) auto
    have parts: "take s tagged = take e tagged @ drop e (take s tagged)"
      "take t tagged = take s tagged @ ?seg" "tagged = take t tagged @ drop t tagged"
      using es st append_take_drop_id [of e "take s tagged"] append_take_drop_id [of s "take t tagged"]
      by (simp_all add: min_absorb1)
    have old_s: "old_lines (take s tagged) = old_lines (take e tagged) @ old_lines (drop e (take s tagged))"
      by (subst parts(1)) simp
    have old_t: "old_lines (take t tagged) = old_lines (take s tagged) @ old_lines ?seg"
      by (subst parts(2)) simp
    have header: "strip_cr (tool_header tagged s t) = tool_header tagged s t" by (rule strip_cr_header)
    have rest: "patch_loop orig (length (old_lines (take t tagged))) (map strip_cr (hunk_texts ctx tagged t))
        = Inr (new_lines (drop t tagged))"
    proof (rule less.hyps)
      show "t = 0 \<or> (\<forall>k<length tagged. t \<le> k \<and> k \<le> t + ctx \<longrightarrow> unchanged (tagged ! k))"
        using gap_end_gap [of i tagged ctx] 3 by (auto simp: t_def min_def split: if_splits)
    qed (use t in auto)
    have "orig = old_lines (take s tagged) @ old_lines ?seg @ old_lines (drop t tagged)"
      using split [of t] old_t by simp
    moreover have "\<forall>l\<in>set ?seg. line_ok l" using assms(2) by (auto dest: in_set_dropD in_set_takeD)
    ultimately have body: "patch_loop orig (length (old_lines (take s tagged)))
        (map strip_cr (map (\<lambda>l. fst l # snd l) ?seg) @ map strip_cr (hunk_texts ctx tagged t))
      = Inr (new_lines ?seg @ new_lines (drop t tagged))"
      using patch_body [of ?seg orig "old_lines (take s tagged)" "old_lines (drop t tagged)"] rest old_t by simp
    have new: "new_lines (drop e tagged) = new_lines (drop e (take s tagged)) @ new_lines ?seg @ new_lines (drop t tagged)"
      by (simp flip: side_simps(6) add: split_part [OF es, of tagged] split_part [OF st(1), of tagged])
    have "hunk_texts ctx tagged i = tool_header tagged s t # map (\<lambda>l. fst l # snd l) ?seg @ hunk_texts ctx tagged t"
      using 3 by (subst hunk_texts.simps) (simp add: Let_def s_def t_def)
    then show ?thesis
      using patch_header [OF assms(1) _ assms(3), of "length (old_lines (take e tagged))" s t] body header
      by (simp add: old_s eqs new)
  qed
qed

lemma hunk_texts_head: "hunk_texts ctx tagged i = [] \<or> prefix ''@@'' (hd (hunk_texts ctx tagged i))"
proof (induction ctx tagged i rule: hunk_texts.induct)
  case (1 ctx tagged i)
  then show ?case by (subst (1 2) hunk_texts.simps) (auto simp: Let_def header_prefix)
qed

lemma hunk_texts_no_LF:
  "\<forall>l\<in>set tagged. line_ok l \<Longrightarrow> s \<in> set (hunk_texts ctx tagged i) \<Longrightarrow> LF \<notin> set s"
proof (induction ctx tagged i rule: hunk_texts.induct)
  case (1 ctx tagged i)
  show ?case
  proof (cases "i \<ge> length tagged \<or> unchanged (tagged ! i)")
    case True
    then show ?thesis using 1 by (subst (asm) hunk_texts.simps) (auto split: if_splits)
  next
    case False
    define start stop where "start = i - ctx" and "stop = min (gap_end ctx tagged i + ctx) (length tagged)"
    have "hunk_texts ctx tagged i = tool_header tagged start stop
        # map (\<lambda>l. fst l # snd l) (drop start (take stop tagged)) @ hunk_texts ctx tagged stop"
      using False by (subst hunk_texts.simps) (simp add: Let_def start_def stop_def)
    then consider "s = tool_header tagged start stop"
      | l where "l \<in> set (drop start (take stop tagged))" "s = fst l # snd l"
      | "s \<in> set (hunk_texts ctx tagged stop)"
      using "1.prems"(2) by auto
    then show ?thesis
    proof cases
      case 1
      then show ?thesis by (simp add: tool_header_def Let_def digits_no)
    next
      case 2
      then have "line_ok l" using "1.prems"(1) by (auto dest: in_set_dropD in_set_takeD)
      then show ?thesis using 2 by (auto simp: line_ok_def)
    next
      case 3
      then show ?thesis using "1.IH"(2) [of start stop] False "1.prems"(1) by (simp add: start_def stop_def)
    qed
  qed
qed

lemma length_edits: "length edits \<le> length (old_side edits) + length (new_side edits)"
  by (induction edits rule: old_side.induct) auto

lemma edits_line_ok:
  assumes "\<forall>s\<in>set (old_side edits) \<union> set (new_side edits). LF \<notin> set s"
    and "\<forall>s\<in>set (new_side edits). \<not> suffix [CR] s"
  shows "\<forall>l\<in>set (map tagged_line edits). line_ok l"
  using assms by (induction edits rule: old_side.induct) (auto simp: line_ok_def)

lemma equal_sides: "list_all is_equal edits \<Longrightarrow> old_side edits = new_side edits"
  by (induction edits rule: old_side.induct) auto

lemma coalesce_sides:
  "concat (old_side (coalesce (Some cur) edits)) = concat (old_side (cur # edits))
   \<and> concat (new_side (coalesce (Some cur) edits)) = concat (new_side (cur # edits))"
proof (induction edits arbitrary: cur)
  case Nil
  show ?case by (cases cur) simp_all
next
  case (Cons e edits)
  then show ?case by (cases cur; cases e; simp)
qed

lemma same_kind_with_value [simp]: "same_kind (with_value e s) e' = same_kind e e'"
  by (cases e; cases e') simp_all

lemma coalesce_kinds:
  "successively (\<lambda>x y. \<not> same_kind x y) (coalesce (Some cur) edits)
   \<and> (coalesce (Some cur) edits \<noteq> [] \<longrightarrow> same_kind cur (hd (coalesce (Some cur) edits)))"
proof (induction edits arbitrary: cur)
  case Nil
  show ?case by (cases cur) simp_all
next
  case (Cons e edits)
  have refl: "same_kind x x" for x by (cases x) simp_all
  have trans: "same_kind x y \<Longrightarrow> same_kind z y \<Longrightarrow> same_kind x z" for x y z
    by (cases x; cases y; cases z; simp)
  show ?case
  proof (cases "same_kind cur e")
    case True
    then show ?thesis using Cons.IH [of "with_value cur (edit_value cur @ edit_value e)"] by simp
  next
    case False
    then show ?thesis using Cons.IH [of e] refl [of cur] trans [of cur "hd (coalesce (Some e) edits)" e]
      by (cases "coalesce (Some e) edits") auto
  qed
qed

section \<open>Properties\<close>

text \<open>C29: patching undoes diffing. A diff is generated, and patching the text with it gives the lines of
  the modified text, when no line of the modified text ends in a carriage return and the lines of both
  texts and twice the number of context lines are together fewer than 2 ^ 63; the final line feed is not
  kept.\<close>

theorem patch_generated:
  assumes "\<forall>l\<in>set (str_lines modified). \<not> suffix [CR] l"
    and "length (str_lines original) + length (str_lines modified) + 2 * unat ctx < 2 ^ 63"
  shows "\<exists>diff_text. generate_unified_diff original modified ctx = Some diff_text
    \<and> apply_patch original diff_text = Inr (join [LF] (str_lines modified))"
proof -
  define edits where "edits = compute_line_edits original modified"
  define tagged where "tagged = map tagged_line edits"
  have sides: "old_side edits = str_lines original" "new_side edits = str_lines modified"
    by (simp_all add: edits_def compute_line_edits_def Let_def backtrack_edits_sides)
  show ?thesis
  proof (cases "list_all is_equal edits")
    case True
    then have "str_lines original = str_lines modified" using equal_sides [of edits] sides by simp
    then show ?thesis using True
      by (simp add: generate_unified_diff_def edits_def [symmetric] apply_patch_def str_lines_def)
  next
    case False
    let ?hs = "hunk_texts (unat ctx) tagged 0"
    have ok: "\<forall>l\<in>set tagged. line_ok l"
      unfolding tagged_def using sides assms(1) str_lines_no_LF by (intro edits_line_ok) auto
    have len: "length tagged + 2 * unat ctx < 2 ^ 63" using length_edits [of edits] sides assms(2) by (simp add: tagged_def)
    then have hunks: "hunks_from ctx tagged 0 = Some ?hs" by (intro hunks_from_exact) simp
    have "length tagged < 2 ^ 63" using len by simp
    then have loop: "patch_loop (str_lines original) 0 (map strip_cr ?hs) = Inr (str_lines modified)"
      using patch_hunks [OF _ ok, of "str_lines original" 0 0 "unat ctx"] sides
      by (simp add: tagged_def tagged_sides)
    have "\<forall>l\<in>set (''--- original'' # ''+++ modified'' # ?hs). LF \<notin> set l"
      using hunk_texts_no_LF [OF ok] by auto
    then have lines: "str_lines (write_lines (''--- original'' # ''+++ modified'' # ?hs)) =
        strip_cr ''--- original'' # strip_cr ''+++ modified'' # map strip_cr ?hs"
      by (subst str_lines_write_lines) simp_all
    have "dropWhile (\<lambda>line. \<not> prefix ''@@'' line)
        (strip_cr ''--- original'' # strip_cr ''+++ modified'' # map strip_cr ?hs) = map strip_cr ?hs"
    proof (cases ?hs)
      case (Cons h hs)
      then have "prefix ''@@'' h" using hunk_texts_head [of "unat ctx" tagged 0] by simp
      then have "prefix ''@@'' (strip_cr h)"
        by (cases h; cases "tl h") (auto simp: strip_cr_def suffix_def)
      then show ?thesis using Cons by (simp add: strip_cr_def suffix_def Cons_eq_append_conv append_eq_Cons_conv)
    qed (simp add: strip_cr_def suffix_def Cons_eq_append_conv append_eq_Cons_conv)
    then show ?thesis
      using False loop lines hunks
      by (simp add: generate_unified_diff_def edits_def [symmetric] tagged_def [symmetric] apply_patch_def Let_def
          del: write_lines_simps)
  qed
qed

theorem patch_generated_witness:
  "\<exists>d. generate_unified_diff (''a'' @ [LF] @ ''b'' @ [LF]) (''b'' @ [LF] @ ''c'' @ [LF]) 1 = Some d
    \<and> apply_patch (''a'' @ [LF] @ ''b'' @ [LF]) d = Inr (''b'' @ [LF] @ ''c'')"
proof -
  have "str_lines (''b'' @ [LF] @ ''c'' @ [LF]) = [''b'', ''c'']" "str_lines (''a'' @ [LF] @ ''b'' @ [LF]) = [''a'', ''b'']"
    by (simp_all add: str_lines_def strip_cr_def suffix_def)
  then show ?thesis
    using patch_generated [of "''b'' @ [LF] @ ''c'' @ [LF]" "''a'' @ [LF] @ ''b'' @ [LF]" 1]
    by (simp add: suffix_def append_eq_Cons_conv Cons_eq_append_conv)
qed

text \<open>A huge number of context lines wraps: the slice of the look-ahead panics.\<close>

lemma huge_context_panics:
  "generate_unified_diff (''a'' @ [LF] @ ''b'' @ [LF]) (''c'' @ [LF] @ ''b'' @ [LF]) (- 1) = None"
proof -
  have edits: "map tagged_line (compute_line_edits (''a'' @ [LF] @ ''b'' @ [LF]) (''c'' @ [LF] @ ''b'' @ [LF]))
      = [(CHR ''-'', ''a''), (CHR ''+'', ''c''), (CHR '' '', ''b'')]"
    "list_all is_equal (compute_line_edits (''a'' @ [LF] @ ''b'' @ [LF]) (''c'' @ [LF] @ ''b'' @ [LF])) = False"
    by code_simp+
  have "hunk_end (- 1) [(CHR ''-'', ''a''), (CHR ''+'', ''c''), (CHR '' '', ''b'')] 0 = None"
    by (simp add: hunk_end.simps unchanged_def)
  then show ?thesis
    unfolding generate_unified_diff_def Let_def edits by (subst hunks_from.simps) (simp add: unchanged_def)
qed

text \<open>The character diff shows both texts. The pieces that are not insertions make up the
  original, those that are not deletions the modified text, and no two neighbours are of one
  kind.\<close>

theorem char_diff_pieces:
  "let changes = fst (char_diff original modified)
   in concat (old_side changes) = original \<and> concat (new_side changes) = modified
      \<and> successively (\<lambda>x y. \<not> same_kind x y) changes"
proof -
  define edits where "edits = backtrack_edits (map (\<lambda>c. [c]) original) (map (\<lambda>c. [c]) modified)
    (tool_lcs_table (map (\<lambda>c. [c]) original) (map (\<lambda>c. [c]) modified))"
  have sides: "old_side edits = map (\<lambda>c. [c]) original" "new_side edits = map (\<lambda>c. [c]) modified"
    by (simp_all add: edits_def backtrack_edits_sides)
  have single: "concat (map (\<lambda>c. [c]) s) = s" for s :: string by (induction s) simp_all
  have "fst (char_diff original modified) = coalesce None edits"
    by (simp add: char_diff_def Let_def edits_def)
  then show ?thesis
    using coalesce_sides coalesce_kinds sides single [of original] single [of modified]
    by (cases edits) (simp_all add: Let_def)
qed

end
