(* ===== verification/A2AProtocol.thy ===== *)
theory A2AProtocol
  imports RustStd Interfaces
begin

text \<open>
  \<open>argentor-a2a/src/protocol.rs\<close>: the agent card, tasks with their messages, artifacts and history,
  requests and responses of the agent-to-agent protocol. A JSON value is of a type \<open>'j\<close> the model
  does not look into. Fresh identifiers and the clock are inputs.
\<close>

section \<open>Agent card\<close>

record AgentProvider =
  organization :: string
  provider_url :: "string option"

record AgentCapabilities =
  streaming :: bool
  push_notifications :: bool
  state_transition_history :: bool

record AgentSkill =
  skill_id :: string
  skill_name :: string
  skill_description :: string
  skill_tags :: "string list"
  skill_examples :: "string list"

record AuthScheme =
  scheme :: string
  service_url :: "string option"

record AuthenticationInfo =
  schemes :: "AuthScheme list"

record AgentCard =
  card_name :: string
  card_description :: string
  card_url :: string
  card_version :: string
  provider :: "AgentProvider option"
  capabilities :: AgentCapabilities
  skills :: "AgentSkill list"
  default_input_modes :: "string list"
  default_output_modes :: "string list"
  authentication :: "AuthenticationInfo option"

section \<open>Tasks\<close>

datatype A2AStatus = Submitted | Working | InputRequired | Completed | Failed | Canceled

record TaskStatusEvent =
  event_status :: A2AStatus
  event_timestamp :: nat
  event_message :: "string option"

datatype A2ARole = UserRole | AgentRole

record FileContent =
  file_name :: "string option"
  mime_type :: "string option"
  file_bytes :: "string option"
  file_uri :: "string option"

datatype 'j MessagePart = TextPart string | FilePart FileContent | DataPart 'j

record 'j TaskMessage =
  msg_role :: A2ARole
  msg_parts :: "'j MessagePart list"
  msg_metadata :: "string \<rightharpoonup> 'j"

record 'j TaskArtifact =
  artifact_id :: string
  artifact_name :: "string option"
  artifact_description :: "string option"
  artifact_parts :: "'j MessagePart list"
  artifact_metadata :: "string \<rightharpoonup> 'j"

record 'j A2ATask =
  a2a_id :: string
  session_id :: "string option"
  status :: A2AStatus
  messages :: "'j TaskMessage list"
  artifacts :: "'j TaskArtifact list"
  metadata :: "string \<rightharpoonup> 'j"
  history :: "TaskStatusEvent list"
  created_at :: "nat option"
  updated_at :: "nat option"

definition a2a_task_new :: "nat \<Rightarrow> string \<Rightarrow> 'j TaskMessage \<Rightarrow> 'j A2ATask" where
  "a2a_task_new now uuid message =
     \<lparr>a2a_id = uuid, session_id = None, status = Submitted, messages = [message], artifacts = [],
      metadata = Map.empty,
      history = [\<lparr>event_status = Submitted, event_timestamp = now, event_message = None\<rparr>],
      created_at = Some now, updated_at = Some now\<rparr>"

definition transition_to ::
  "nat \<Rightarrow> A2AStatus \<Rightarrow> string option \<Rightarrow> 'j A2ATask \<Rightarrow> 'j A2ATask" where
  "transition_to now st description t =
     t\<lparr>history := history t @ [\<lparr>event_status = st, event_timestamp = now, event_message = description\<rparr>],
       status := st, updated_at := Some now\<rparr>"

definition task_add_message :: "nat \<Rightarrow> 'j TaskMessage \<Rightarrow> 'j A2ATask \<Rightarrow> 'j A2ATask" where
  "task_add_message now message t = t\<lparr>messages := messages t @ [message], updated_at := Some now\<rparr>"

definition task_add_artifact :: "nat \<Rightarrow> 'j TaskArtifact \<Rightarrow> 'j A2ATask \<Rightarrow> 'j A2ATask" where
  "task_add_artifact now artifact t = t\<lparr>artifacts := artifacts t @ [artifact], updated_at := Some now\<rparr>"

definition task_is_terminal :: "'j A2ATask \<Rightarrow> bool" where
  "task_is_terminal t \<longleftrightarrow> status t \<in> {Completed, Failed, Canceled}"

definition user_text :: "string \<Rightarrow> 'j TaskMessage" where
  "user_text text = \<lparr>msg_role = UserRole, msg_parts = [TextPart text], msg_metadata = Map.empty\<rparr>"

definition agent_text :: "string \<Rightarrow> 'j TaskMessage" where
  "agent_text text = \<lparr>msg_role = AgentRole, msg_parts = [TextPart text], msg_metadata = Map.empty\<rparr>"

definition artifact_text :: "string \<Rightarrow> string \<Rightarrow> string \<Rightarrow> 'j TaskArtifact" where
  "artifact_text uuid name text =
     \<lparr>artifact_id = uuid, artifact_name = Some name, artifact_description = None,
      artifact_parts = [TextPart text], artifact_metadata = Map.empty\<rparr>"

section \<open>Requests and responses\<close>

record 'p JsonRpcEnvelope =
  env_jsonrpc :: string
  env_id :: "'p option"
  env_method :: string

record 'j A2AError =
  error_code :: int
  error_message :: string
  error_data :: "'j option"

record 'j A2AResponse =
  resp_jsonrpc :: string
  resp_id :: "'j option"
  resp_result :: "'j option"
  resp_error :: "'j A2AError option"

definition JSONRPC_INVALID_REQUEST :: int where "JSONRPC_INVALID_REQUEST = -32600"
definition JSONRPC_METHOD_NOT_FOUND :: int where "JSONRPC_METHOD_NOT_FOUND = -32601"
definition A2A_TASK_NOT_FOUND :: int where "A2A_TASK_NOT_FOUND = -32001"
definition A2A_TASK_TERMINAL :: int where "A2A_TASK_TERMINAL = -32002"

definition response_success :: "'j option \<Rightarrow> 'j \<Rightarrow> 'j A2AResponse" where
  "response_success i res = \<lparr>resp_jsonrpc = ''2.0'', resp_id = i, resp_result = Some res, resp_error = None\<rparr>"

definition response_error :: "'j option \<Rightarrow> int \<Rightarrow> string \<Rightarrow> 'j A2AResponse" where
  "response_error i code message =
     \<lparr>resp_jsonrpc = ''2.0'', resp_id = i, resp_result = None,
      resp_error = Some \<lparr>error_code = code, error_message = message, error_data = None\<rparr>\<rparr>"

definition method_not_found :: "'j option \<Rightarrow> string \<Rightarrow> 'j A2AResponse" where
  "method_not_found i method = response_error i (-32601) (''Method not found: '' @ method)"

definition invalid_params :: "'j option \<Rightarrow> string \<Rightarrow> 'j A2AResponse" where
  "invalid_params i detail = response_error i (-32602) (''Invalid params: '' @ detail)"

definition internal_error :: "'j option \<Rightarrow> string \<Rightarrow> 'j A2AResponse" where
  "internal_error i detail = response_error i (-32603) (''Internal error: '' @ detail)"

definition task_not_found :: "'j option \<Rightarrow> string \<Rightarrow> 'j A2AResponse" where
  "task_not_found i task_id = response_error i (-32001) (''Task not found: '' @ task_id)"

section \<open>Streaming events\<close>

datatype 'j TaskStreamEvent =
    StatusUpdate string A2AStatus "string option"
  | ArtifactEvent string "'j TaskArtifact"
  | MessageEvent string "'j TaskMessage"

section \<open>Well-formed tasks\<close>

text \<open>The history starts with the submission and ends with the present status; there is a message.\<close>

definition task_ok :: "'j A2ATask \<Rightarrow> bool" where
  "task_ok t \<longleftrightarrow> history t \<noteq> [] \<and> event_status (hd (history t)) = Submitted
     \<and> event_status (last (history t)) = status t \<and> messages t \<noteq> []"

named_theorems task_oks \<open>operations on tasks keep them well-formed\<close>

lemma task_ok_new [task_oks]: "task_ok (a2a_task_new now uuid message)"
  by (simp add: task_ok_def a2a_task_new_def)

lemma task_ok_fields [task_oks]: "task_ok t \<Longrightarrow> task_ok (t\<lparr>session_id := sid, metadata := md\<rparr>)"
  by (simp add: task_ok_def)

lemma task_ok_transition [task_oks]: "task_ok t \<Longrightarrow> task_ok (transition_to now st description t)"
  by (simp add: task_ok_def transition_to_def)

lemma task_ok_message [task_oks]: "task_ok t \<Longrightarrow> task_ok (task_add_message now message t)"
  by (simp add: task_ok_def task_add_message_def)

lemma task_ok_artifact [task_oks]: "task_ok t \<Longrightarrow> task_ok (task_add_artifact now artifact t)"
  by (simp add: task_ok_def task_add_artifact_def)

lemma task_id_simps [simp]:
  "a2a_id (transition_to now st description t) = a2a_id t"
  "a2a_id (task_add_message now message t) = a2a_id t"
  "a2a_id (a2a_task_new now uuid message) = uuid"
  "status (transition_to now st description t) = st"
  "status (task_add_message now message t) = status t"
  by (simp_all add: transition_to_def task_add_message_def a2a_task_new_def)

end
