(* ===== verification/A2AServer.thy ===== *)
theory A2AServer
  imports A2AProtocol
begin

text \<open>
  \<open>argentor-a2a/src/server.rs\<close>: the JSON-RPC handlers over the store of tasks. Of the \<open>params\<close> object
  the model has what the code extracts from it; writing answers as JSON is a parameter. A request to
  work on a task takes the lock of the store three times: \<open>send_read\<close> looks up the task, \<open>store_task\<close>
  stores it as working, the handler's outcome is an input, and \<open>send_finish\<close> stores the result. Other
  requests may come in between any two of these. HTTP routing and the server-sent-events transport
  are left out.
\<close>

section \<open>Requests\<close>

text \<open>\<open>message\<close> is absent, malformed (with the parser's error), or a message.\<close>

record 'j Params =
  p_message :: "(string + 'j TaskMessage) option"
  p_id :: "string option"
  p_session_id :: "string option"
  p_metadata :: "(string \<rightharpoonup> 'j) option"

text \<open>\<open>serde_json::to_value\<close> on tasks, lists of tasks and the card.\<close>

record 'j Codec =
  enc_task :: "'j A2ATask \<Rightarrow> string + 'j"
  enc_tasks :: "'j A2ATask list \<Rightarrow> string + 'j"
  enc_card :: "AgentCard \<Rightarrow> string + 'j"

record 'j A2AServerState =
  agent_card :: AgentCard
  tasks :: "string \<rightharpoonup> 'j A2ATask"

definition encoded :: "'j option \<Rightarrow> string + 'j \<Rightarrow> 'j A2AResponse" where
  "encoded i res =
     (case res of
        Inr val \<Rightarrow> response_success i val
      | Inl e \<Rightarrow> internal_error i (''Serialization error: '' @ e))"

definition terminal_error :: "'j option \<Rightarrow> string \<Rightarrow> string \<Rightarrow> 'j A2AResponse" where
  "terminal_error i task_id rest = response_error i A2A_TASK_TERMINAL (''Task '' @ task_id @ rest)"

section \<open>Sending\<close>

text \<open>Creating the task, or resuming an existing one, from the parameters.\<close>

definition prepare_task ::
  "nat \<Rightarrow> string \<Rightarrow> 'j A2AServerState \<Rightarrow> 'j option \<Rightarrow> 'j Params \<Rightarrow> 'j TaskMessage
     \<Rightarrow> 'j A2AResponse + 'j A2ATask" where
  "prepare_task now uuid st i params message =
     (case p_id params of
        Some existing_id \<Rightarrow>
          (case tasks st existing_id of
             Some existing \<Rightarrow>
               if task_is_terminal existing
               then Inl (terminal_error i existing_id '' is in terminal state'')
               else Inr (task_add_message now message existing)
           | None \<Rightarrow> Inl (task_not_found i existing_id))
      | None \<Rightarrow>
          Inr ((a2a_task_new now uuid message)
               \<lparr>session_id := p_session_id params,
                metadata := (case p_metadata params of Some m \<Rightarrow> m | None \<Rightarrow> Map.empty)\<rparr>))"

definition store_task :: "'j A2ATask \<Rightarrow> 'j A2AServerState \<Rightarrow> 'j A2AServerState" where
  "store_task t st = st\<lparr>tasks := (tasks st)(a2a_id t \<mapsto> t)\<rparr>"

text \<open>\<open>handle_send_task\<close> up to the section that stores the task: the store is only read.\<close>

definition send_read ::
  "nat \<Rightarrow> nat \<Rightarrow> string \<Rightarrow> 'j A2AServerState \<Rightarrow> 'j option \<Rightarrow> 'j Params option
     \<Rightarrow> 'j A2AResponse + 'j A2ATask" where
  "send_read now now' uuid st i params =
     (case params of
        None \<Rightarrow> Inl (invalid_params i ''Missing params for tasks/send'')
      | Some params \<Rightarrow>
          (case p_message params of
             None \<Rightarrow> Inl (invalid_params i (''Missing '' @ [CHR 39] @ ''message'' @ [CHR 39] @ '' in params''))
           | Some (Inl e) \<Rightarrow> Inl (invalid_params i (''Invalid message format: '' @ e))
           | Some (Inr message) \<Rightarrow>
               (case prepare_task now uuid st i params message of
                  Inl resp \<Rightarrow> Inl resp
                | Inr t \<Rightarrow> Inr (transition_to now' Working (Some ''Handler invoked'') t))))"

text \<open>A failed task gets a last message; \<open>now\<close> and \<open>now'\<close> are the times of the transition and of the
  message.\<close>

definition fail_task :: "nat \<Rightarrow> nat \<Rightarrow> string \<Rightarrow> 'j A2ATask \<Rightarrow> 'j A2ATask" where
  "fail_task now now' err t =
     task_add_message now' (agent_text (''Error: '' @ err)) (transition_to now Failed (Some err) t)"

definition send_finish ::
  "'j Codec \<Rightarrow> nat \<Rightarrow> nat \<Rightarrow> 'j A2AServerState \<Rightarrow> 'j option \<Rightarrow> 'j A2ATask \<Rightarrow> string + 'j A2ATask
     \<Rightarrow> 'j A2AResponse \<times> 'j A2AServerState" where
  "send_finish codec now now' st i t outcome =
     (case outcome of
        Inr updated \<Rightarrow> (encoded i (enc_task codec updated), store_task updated st)
      | Inl err \<Rightarrow>
          let t = fail_task now now' err t
          in (encoded i (enc_task codec t), store_task t st))"

section \<open>The other methods\<close>

definition get_id :: "'j Params option \<Rightarrow> string option" where
  "get_id params = Option.bind params p_id"

definition handle_get_task ::
  "'j Codec \<Rightarrow> 'j A2AServerState \<Rightarrow> 'j option \<Rightarrow> 'j Params option \<Rightarrow> 'j A2AResponse" where
  "handle_get_task codec st i params =
     (case get_id params of
        None \<Rightarrow> invalid_params i (''Missing '' @ [CHR 39] @ ''id'' @ [CHR 39] @ '' in params for tasks/get'')
      | Some task_id \<Rightarrow>
          (case tasks st task_id of
             Some t \<Rightarrow> encoded i (enc_task codec t)
           | None \<Rightarrow> task_not_found i task_id))"

definition handle_cancel_task ::
  "'j Codec \<Rightarrow> nat \<Rightarrow> 'j A2AServerState \<Rightarrow> 'j option \<Rightarrow> 'j Params option
     \<Rightarrow> 'j A2AResponse \<times> 'j A2AServerState" where
  "handle_cancel_task codec now st i params =
     (case get_id params of
        None \<Rightarrow>
          (invalid_params i (''Missing '' @ [CHR 39] @ ''id'' @ [CHR 39] @ '' in params for tasks/cancel''), st)
      | Some task_id \<Rightarrow>
          (case tasks st task_id of
             None \<Rightarrow> (task_not_found i task_id, st)
           | Some t \<Rightarrow>
               if task_is_terminal t
               then (terminal_error i task_id '' is already in terminal state'', st)
               else let t = transition_to now Canceled (Some ''Canceled by caller'') t
                    in (encoded i (enc_task codec t), st\<lparr>tasks := (tasks st)(task_id \<mapsto> t)\<rparr>)))"

text \<open>\<open>order\<close> is the order in which the map yields its keys.\<close>

definition handle_list_tasks ::
  "'j Codec \<Rightarrow> string list \<Rightarrow> 'j A2AServerState \<Rightarrow> 'j option \<Rightarrow> 'j Params option \<Rightarrow> 'j A2AResponse" where
  "handle_list_tasks codec order st i params =
     (let session_filter = Option.bind params p_session_id;
          all_tasks = List.map_filter (tasks st) order
      in encoded i (enc_tasks codec
           (filter (\<lambda>t. case session_filter of Some sid \<Rightarrow> session_id t = Some sid | None \<Rightarrow> True) all_tasks)))"

definition handle_get_agent_card :: "'j Codec \<Rightarrow> 'j A2AServerState \<Rightarrow> 'j option \<Rightarrow> 'j A2AResponse" where
  "handle_get_agent_card codec st i = encoded i (enc_card codec (agent_card st))"

section \<open>Streaming\<close>

datatype HttpStatus = HTTP_OK | BAD_REQUEST | NOT_FOUND

text \<open>\<open>sse_handler\<close> up to the section that stores the task: a refusal with its HTTP status, or the
  working task.\<close>

definition sse_read ::
  "nat \<Rightarrow> nat \<Rightarrow> string \<Rightarrow> 'j A2AServerState \<Rightarrow> 'j JsonRpcEnvelope \<Rightarrow> 'j Params option
     \<Rightarrow> (HttpStatus \<times> 'j A2AResponse) + 'j A2ATask" where
  "sse_read now now' uuid st env params =
     (let i = env_id env
      in if env_jsonrpc env \<noteq> ''2.0''
         then Inl (BAD_REQUEST, response_error i JSONRPC_INVALID_REQUEST
                 ''Invalid JSON-RPC version, expected 2.0'')
         else if env_method env \<noteq> ''tasks/sendSubscribe''
         then Inl (BAD_REQUEST, response_error i JSONRPC_METHOD_NOT_FOUND
                 (''SSE endpoint only supports tasks/sendSubscribe, got: '' @ env_method env))
         else case params of
                None \<Rightarrow> Inl (BAD_REQUEST, invalid_params i ''Missing params for tasks/sendSubscribe'')
              | Some params \<Rightarrow>
                  (case p_message params of
                     None \<Rightarrow>
                       Inl (BAD_REQUEST, invalid_params i
                          (''Missing '' @ [CHR 39] @ ''message'' @ [CHR 39] @ '' in params''))
                   | Some (Inl e) \<Rightarrow>
                       Inl (BAD_REQUEST, invalid_params i (''Invalid message format: '' @ e))
                   | Some (Inr message) \<Rightarrow>
                       (case prepare_task now uuid st i params message of
                          Inl resp \<Rightarrow>
                            Inl (case resp_error resp of
                                    Some e \<Rightarrow> if error_code e = A2A_TASK_NOT_FOUND then NOT_FOUND else BAD_REQUEST
                                  | None \<Rightarrow> BAD_REQUEST, resp)
                        | Inr t \<Rightarrow> Inr (transition_to now' Working (Some ''Streaming handler invoked'') t))))"

text \<open>\<open>run_non_streaming_with_events\<close> and the end of \<open>build_sse_stream\<close>: the outcome as a task, the
  events sent, the store.\<close>

definition non_streaming_result :: "nat \<Rightarrow> nat \<Rightarrow> 'j A2ATask \<Rightarrow> string + 'j A2ATask \<Rightarrow> 'j A2ATask" where
  "non_streaming_result now now' t outcome =
     (case outcome of Inr updated \<Rightarrow> updated | Inl err \<Rightarrow> fail_task now now' err t)"

definition sse_finish ::
  "nat \<Rightarrow> nat \<Rightarrow> 'j A2AServerState \<Rightarrow> 'j A2ATask \<Rightarrow> string + 'j A2ATask
     \<Rightarrow> 'j TaskStreamEvent list \<times> 'j A2AServerState" where
  "sse_finish now now' st t outcome =
     (let updated = non_streaming_result now now' t outcome
      in ([StatusUpdate (a2a_id t) Working (Some ''Processing task''),
           StatusUpdate (a2a_id updated) (status updated) (Some ''Task completed'')],
          store_task updated st))"

text \<open>\<open>run_streaming_handler\<close>, after a handler that streams: its own events come in between.\<close>

definition streaming_finish ::
  "'j A2AServerState \<Rightarrow> 'j A2ATask \<Rightarrow> 'j TaskStreamEvent list \<Rightarrow> string + 'j A2ATask
     \<Rightarrow> 'j TaskStreamEvent list \<times> 'j A2AServerState" where
  "streaming_finish st t sent outcome =
     (let first = StatusUpdate (a2a_id t) Working (Some ''Streaming processing started'')
      in case outcome of
           Inr updated \<Rightarrow>
             (first # sent @ [StatusUpdate (a2a_id updated) (status updated) (Some ''Task completed'')],
              store_task updated st)
         | Inl err \<Rightarrow> (first # sent @ [StatusUpdate (a2a_id t) Failed (Some (''Error: '' @ err))], st))"

text \<open>The type of the event sent to the client.\<close>

fun event_type :: "'j TaskStreamEvent \<Rightarrow> string" where
  "event_type (StatusUpdate _ st _) =
     (if st \<in> {Completed, Failed, Canceled} then ''final'' else ''status_update'')"
| "event_type (ArtifactEvent _ _) = ''artifact''"
| "event_type (MessageEvent _ _) = ''message''"

section \<open>Dispatch\<close>

text \<open>\<open>jsonrpc_handler\<close>: an answer at once, or a task that is still to be stored and handled.\<close>

definition jsonrpc_handler ::
  "'j Codec \<Rightarrow> nat \<Rightarrow> nat \<Rightarrow> string \<Rightarrow> string list \<Rightarrow> 'j A2AServerState \<Rightarrow> 'j JsonRpcEnvelope
     \<Rightarrow> 'j Params option \<Rightarrow> ('j A2AResponse + 'j A2ATask) \<times> 'j A2AServerState" where
  "jsonrpc_handler codec now now' uuid order st env params =
     (let i = env_id env
      in if env_jsonrpc env \<noteq> ''2.0''
         then (Inl (response_error i JSONRPC_INVALID_REQUEST ''Invalid JSON-RPC version, expected 2.0''), st)
         else if env_method env = ''tasks/send'' then (send_read now now' uuid st i params, st)
         else if env_method env = ''tasks/get'' then (Inl (handle_get_task codec st i params), st)
         else if env_method env = ''tasks/cancel''
         then (let (resp, st') = handle_cancel_task codec now st i params in (Inl resp, st'))
         else if env_method env = ''tasks/list'' then (Inl (handle_list_tasks codec order st i params), st)
         else if env_method env = ''agent/card'' then (Inl (handle_get_agent_card codec st i), st)
         else (Inl (method_not_found i (env_method env)), st))"

section \<open>Histories of the server\<close>

text \<open>The server with the tasks that were read and are not stored yet, and the tasks its handler is
  working on. The handler is a function of the task and of
  whatever else decides its outcome (a choice).\<close>

record 'j Server =
  srv :: "'j A2AServerState"
  pending :: "'j A2ATask list"
  running :: "'j A2ATask list"

type_synonym 'j handler = "nat \<Rightarrow> 'j A2ATask \<Rightarrow> string + 'j A2ATask"

datatype 'j server_event =
    Request nat nat string "string list" "'j JsonRpcEnvelope" "'j Params option"
  | Subscribe nat nat string "'j JsonRpcEnvelope" "'j Params option"
  | Store nat
  | SendDone nat nat nat nat
  | StreamDone nat nat nat nat

fun event_uuid :: "'j server_event \<Rightarrow> string option" where
  "event_uuid (Request _ _ uuid _ _ _) = Some uuid"
| "event_uuid (Subscribe _ _ uuid _ _) = Some uuid"
| "event_uuid _ = None"

definition begin_task :: "'j Server \<Rightarrow> 'e + 'j A2ATask \<Rightarrow> 'j A2AServerState \<Rightarrow> 'j Server" where
  "begin_task sv res st =
     (case res of
        Inl _ \<Rightarrow> sv\<lparr>srv := st\<rparr>
      | Inr t \<Rightarrow> sv\<lparr>srv := st, pending := pending sv @ [t]\<rparr>)"

definition without :: "nat \<Rightarrow> 'a list \<Rightarrow> 'a list" where
  "without k xs = take k xs @ drop (Suc k) xs"

definition start_task :: "'j Server \<Rightarrow> nat \<Rightarrow> 'j Server" where
  "start_task sv k =
     (if k < length (pending sv)
      then sv\<lparr>srv := store_task (pending sv ! k) (srv sv), pending := without k (pending sv),
              running := running sv @ [pending sv ! k]\<rparr>
      else sv)"

definition end_task ::
  "'j Server \<Rightarrow> nat \<Rightarrow> ('j A2AServerState \<Rightarrow> 'j A2ATask \<Rightarrow> 'j A2AServerState) \<Rightarrow> 'j Server" where
  "end_task sv k f =
     (if k < length (running sv)
      then sv\<lparr>srv := f (srv sv) (running sv ! k), running := without k (running sv)\<rparr>
      else sv)"

fun server_step :: "'j Codec \<Rightarrow> 'j handler \<Rightarrow> 'j Server \<Rightarrow> 'j server_event \<Rightarrow> 'j Server" where
  "server_step codec h sv (Request now now' uuid order env params) =
     (let (res, st) = jsonrpc_handler codec now now' uuid order (srv sv) env params
      in begin_task sv res st)"
| "server_step codec h sv (Subscribe now now' uuid env params) =
     begin_task sv (sse_read now now' uuid (srv sv) env params) (srv sv)"
| "server_step codec h sv (Store k) = start_task sv k"
| "server_step codec h sv (SendDone k choice now now') =
     end_task sv k (\<lambda>st t. snd (send_finish codec now now' st None t (h choice t)))"
| "server_step codec h sv (StreamDone k choice now now') =
     end_task sv k (\<lambda>st t. snd (sse_finish now now' st t (h choice t)))"

definition server_new :: "AgentCard \<Rightarrow> 'j Server" where
  "server_new ac = \<lparr>srv = \<lparr>agent_card = ac, tasks = Map.empty\<rparr>, pending = [], running = []\<rparr>"

text \<open>What the trait documents of a handler: it returns the task it was given, updated.\<close>

definition keeps_task :: "'j handler \<Rightarrow> bool" where
  "keeps_task h \<longleftrightarrow> (\<forall>c t u. h c t = Inr u \<longrightarrow> a2a_id u = a2a_id t \<and> (task_ok t \<longrightarrow> task_ok u))"

definition well_stored :: "'j handler \<Rightarrow> 'j Server \<Rightarrow> bool" where
  "well_stored h sv \<longleftrightarrow> (keeps_task h \<longrightarrow>
     (\<forall>k t. tasks (srv sv) k = Some t \<longrightarrow> a2a_id t = k \<and> task_ok t) \<and> (\<forall>t\<in>set (pending sv @ running sv). task_ok t))"

section \<open>Lemmas\<close>

text \<open>What a request may prepare: a new task, or one in the store that is not finished.\<close>

definition prepared :: "'j A2AServerState \<Rightarrow> string \<Rightarrow> 'j A2ATask \<Rightarrow> bool" where
  "prepared st uuid t \<longleftrightarrow>
     (a2a_id t = uuid \<and> task_ok t)
     \<or> (\<exists>k old. tasks st k = Some old \<and> \<not> task_is_terminal old \<and> a2a_id t = a2a_id old
          \<and> (task_ok old \<longrightarrow> task_ok t))"

lemma set_without: "set (without k xs) \<subseteq> set xs"
  by (auto simp: without_def dest: in_set_takeD in_set_dropD)

lemma prepare_task_cases:
  assumes "prepare_task now uuid st i params message = Inr t"
  shows "(a2a_id t = uuid \<and> task_ok t)
    \<or> (\<exists>k old. tasks st k = Some old \<and> \<not> task_is_terminal old \<and> t = task_add_message now message old)"
  using assms
  by (auto simp: prepare_task_def task_ok_fields task_ok_new split: option.splits if_splits)

lemma prepared_prepare:
  assumes "prepare_task now uuid st i params message = Inr t"
  shows "prepared st uuid (transition_to now' Working d t)"
  using prepare_task_cases [OF assms]
proof (elim disjE exE conjE)
  fix k old
  assume "tasks st k = Some old" "\<not> task_is_terminal old" "t = task_add_message now message old"
  then show ?thesis
    unfolding prepared_def by (intro disjI2 exI [of _ k] exI [of _ old]) (simp_all add: task_oks)
qed (simp add: prepared_def task_oks)

lemma send_read_prepared: "send_read now now' uuid st i params = Inr t \<Longrightarrow> prepared st uuid t"
  by (auto simp: send_read_def prepared_prepare split: option.splits sum.splits)

lemma sse_read_prepared: "sse_read now now' uuid st env params = Inr t \<Longrightarrow> prepared st uuid t"
  by (auto simp: sse_read_def Let_def prepared_prepare split: option.splits sum.splits if_splits)

text \<open>A request that is answered at once leaves the store alone, but for a cancellation.\<close>

lemma cancel_store:
  "snd (handle_cancel_task codec now st i params) = st
   \<or> (\<exists>k t. tasks st k = Some t \<and> \<not> task_is_terminal t \<and> snd (handle_cancel_task codec now st i params) =
        st\<lparr>tasks := (tasks st)(k \<mapsto> transition_to now Canceled (Some ''Canceled by caller'') t)\<rparr>)"
  by (auto simp: handle_cancel_task_def Let_def split: option.split)

lemma jsonrpc_answered:
  assumes "jsonrpc_handler codec now now' uuid order st env params = (Inl r, st')"
  shows "st' = st \<or> (\<exists>k t. tasks st k = Some t \<and> \<not> task_is_terminal t
    \<and> st' = st\<lparr>tasks := (tasks st)(k \<mapsto> transition_to now Canceled (Some ''Canceled by caller'') t)\<rparr>)"
  using assms cancel_store [of codec now st "env_id env" params]
  by (auto simp: jsonrpc_handler_def Let_def split: if_splits prod.splits)

lemma jsonrpc_prepared:
  "jsonrpc_handler codec now now' uuid order st env params = (Inr t, st') \<Longrightarrow> st' = st \<and> prepared st uuid t"
  by (auto simp: jsonrpc_handler_def Let_def send_read_prepared split: if_splits prod.splits)

text \<open>The end of a task stores a task under the identifier of the one the handler got.\<close>

definition finishes :: "'j A2AServerState \<Rightarrow> 'j A2ATask \<Rightarrow> 'j A2AServerState \<Rightarrow> bool" where
  "finishes st t st' \<longleftrightarrow> (\<exists>u. st' = store_task u st \<and> a2a_id u = a2a_id t \<and> (task_ok t \<longrightarrow> task_ok u))"

lemma finishes_send: "keeps_task h \<Longrightarrow> finishes st t (snd (send_finish codec now now' st i t (h c t)))"
  by (cases "h c t")
    (auto simp: finishes_def send_finish_def Let_def fail_task_def keeps_task_def intro!: exI task_oks)

lemma finishes_sse: "keeps_task h \<Longrightarrow> finishes st t (snd (sse_finish now now' st t (h c t)))"
  by (cases "h c t")
    (auto simp: finishes_def sse_finish_def non_streaming_result_def Let_def fail_task_def keeps_task_def
      intro!: exI task_oks)

text \<open>One step of the server, in these terms.\<close>

lemma server_step_cases:
  assumes "keeps_task h"
  obtains (same) "server_step codec h sv e = sv"
  | (cancelled) k t now where "tasks (srv sv) k = Some t" "\<not> task_is_terminal t"
      "server_step codec h sv e =
        sv\<lparr>srv := (srv sv)\<lparr>tasks := (tasks (srv sv))(k \<mapsto> transition_to now Canceled (Some ''Canceled by caller'') t)\<rparr>\<rparr>"
  | (read) uuid t where "event_uuid e = Some uuid" "prepared (srv sv) uuid t"
      "server_step codec h sv e = sv\<lparr>pending := pending sv @ [t]\<rparr>"
  | (stored) k where "k < length (pending sv)"
      "server_step codec h sv e = sv\<lparr>srv := store_task (pending sv ! k) (srv sv),
        pending := without k (pending sv), running := running sv @ [pending sv ! k]\<rparr>"
  | (finished) k st where "k < length (running sv)" "finishes (srv sv) (running sv ! k) st"
      "server_step codec h sv e = sv\<lparr>srv := st, running := without k (running sv)\<rparr>"
proof (cases e)
  case (Request now now' uuid order env params)
  obtain res st where r: "jsonrpc_handler codec now now' uuid order (srv sv) env params = (res, st)" by fastforce
  show ?thesis
  proof (cases res)
    case (Inl resp)
    from jsonrpc_answered [OF r [unfolded Inl]] show ?thesis
    proof (elim disjE exE conjE)
      assume "st = srv sv"
      then show ?thesis using r by (intro same) (simp add: Request Inl begin_task_def)
    next
      fix k t
      assume kt: "tasks (srv sv) k = Some t" "\<not> task_is_terminal t"
        "st = srv sv\<lparr>tasks := (tasks (srv sv))(k \<mapsto> transition_to now Canceled (Some ''Canceled by caller'') t)\<rparr>"
      show ?thesis by (rule cancelled [OF kt(1,2)]) (use r kt(3) in \<open>simp add: Request Inl begin_task_def\<close>)
    qed
  next
    case (Inr t)
    show ?thesis
      by (rule read [of uuid t]) (use r jsonrpc_prepared [OF r [unfolded Inr]] in \<open>simp_all add: Request Inr begin_task_def\<close>)
  qed
next
  case (Subscribe now now' uuid env params)
  show ?thesis
  proof (cases "sse_read now now' uuid (srv sv) env params")
    case (Inl resp)
    show ?thesis by (rule same) (simp add: Subscribe Inl begin_task_def)
  next
    case (Inr t)
    show ?thesis
      by (rule read [of uuid t]) (simp_all add: Subscribe Inr begin_task_def sse_read_prepared [OF Inr])
  qed
next
  case (Store k)
  show ?thesis
  proof (cases "k < length (pending sv)")
    case True
    show ?thesis by (rule stored [OF True]) (simp add: Store True start_task_def)
  qed (rule same, simp add: Store start_task_def)
next
  case (SendDone k choice now now')
  show ?thesis
  proof (cases "k < length (running sv)")
    case True
    show ?thesis
      by (rule finished [OF True finishes_send [OF assms]]) (simp add: SendDone True end_task_def)
  qed (rule same, simp add: SendDone end_task_def)
next
  case (StreamDone k choice now now')
  show ?thesis
  proof (cases "k < length (running sv)")
    case True
    show ?thesis
      by (rule finished [OF True finishes_sse [OF assms]]) (simp add: StreamDone True end_task_def)
  qed (rule same, simp add: StreamDone end_task_def)
qed

lemma well_stored_step:
  assumes "well_stored h sv"
  shows "well_stored h (server_step codec h sv e)"
proof (cases "keeps_task h")
  case True
  then have ok: "\<And>k t. tasks (srv sv) k = Some t \<Longrightarrow> a2a_id t = k \<and> task_ok t"
    "\<And>t. t \<in> set (pending sv) \<union> set (running sv) \<Longrightarrow> task_ok t"
    using assms by (auto simp: well_stored_def)
  show ?thesis
  proof (rule server_step_cases [OF True, of codec sv e], goal_cases same cancelled read stored finished)
    case same
    then show ?thesis using assms by simp
  next
    case (cancelled k t now)
    then show ?thesis using ok by (auto simp: well_stored_def intro: task_oks)
  next
    case (read uuid t)
    have "task_ok t" using read(2) ok by (auto simp: prepared_def)
    then show ?thesis using ok read(3) by (auto simp: well_stored_def)
  next
    case (stored k)
    have "task_ok (pending sv ! k)" using ok(2) stored(1) by simp
    then show ?thesis using ok stored(2) set_without [of k "pending sv"]
      by (auto simp: well_stored_def store_task_def split: if_splits)
  next
    case (finished k st)
    have "task_ok (running sv ! k)" using ok(2) finished(1) by simp
    then show ?thesis using ok finished(2,3) set_without [of k "running sv"]
      by (auto simp: well_stored_def finishes_def store_task_def split: if_splits)
  qed
qed (simp add: well_stored_def)

interpretation server: state_machine "server_step codec h" "well_stored h" for codec h
  by unfold_locales (rule well_stored_step)

lemma server_run: "well_stored h (foldl (server_step codec h) (server_new ac) es)"
  by (rule server.run_inv) (simp add: well_stored_def server_new_def)

section \<open>Properties\<close>

text \<open>C34: the store keeps its shape. After any requests, with the handler finishing in any order, every
  stored task is under its own identifier, has a message, and has a history that begins with the
  submission and ends with its status, provided the handler returns the task it was given with
  such a history.\<close>

theorem stored_tasks_ok:
  assumes "keeps_task h" "tasks (srv (foldl (server_step codec h) (server_new ac) es)) k = Some t"
  shows "a2a_id t = k \<and> messages t \<noteq> [] \<and> event_status (hd (history t)) = Submitted
    \<and> event_status (last (history t)) = status t"
  using server_run [of h codec ac es] assms by (auto simp: well_stored_def task_ok_def)

definition sample_codec :: "string Codec" where
  "sample_codec = \<lparr>enc_task = (\<lambda>t. Inr (a2a_id t)), enc_tasks = (\<lambda>_. Inr []), enc_card = (\<lambda>_. Inr [])\<rparr>"

definition completing :: "string handler" where
  "completing c t = Inr (transition_to c Completed None t)"

definition sample_card :: AgentCard where
  "sample_card = \<lparr>card_name = ''agent'', card_description = [], card_url = [], card_version = ''1'', provider = None,
     capabilities = \<lparr>streaming = False, push_notifications = False, state_transition_history = True\<rparr>,
     skills = [], default_input_modes = [], default_output_modes = [], authentication = None\<rparr>"

definition send_request :: "string \<Rightarrow> string option \<Rightarrow> string server_event" where
  "send_request uuid i =
     Request 1 2 uuid [] \<lparr>env_jsonrpc = ''2.0'', env_id = None, env_method = ''tasks/send''\<rparr>
       (Some \<lparr>p_message = Some (Inr (user_text ''hi'')), p_id = i, p_session_id = None, p_metadata = None\<rparr>)"

lemma completing_keeps: "keeps_task completing"
  by (auto simp: keeps_task_def completing_def intro: task_oks)

definition sample_run :: "string Server" where
  "sample_run = foldl (server_step sample_codec completing) (server_new sample_card)
     [send_request ''t1'' None, Store 0, SendDone 0 3 4 5]"

lemma sample_run_eval:
  "\<exists>t. tasks (srv sample_run) ''t1'' = Some t \<and> status t = Completed \<and> pending sample_run = [] \<and> running sample_run = []"
  by (simp add: sample_run_def send_request_def jsonrpc_handler_def send_read_def prepare_task_def Let_def
      begin_task_def start_task_def end_task_def without_def send_finish_def completing_def store_task_def server_new_def)

theorem stored_tasks_ok_witness:
  "\<exists>t. tasks (srv sample_run) ''t1'' = Some t \<and> status t = Completed \<and> event_status (last (history t)) = Completed"
  using sample_run_eval stored_tasks_ok [OF completing_keeps, of sample_codec sample_card
      "[send_request ''t1'' None, Store 0, SendDone 0 3 4 5]" "''t1''"]
  by (auto simp: sample_run_def)

text \<open>C26: a finished task stays finished. Once a task has completed, failed or been cancelled, and no
  request that looked it up before is still to store it or has its handler working on it, no requests
  and no handler of another task change it: it is stored as it was, provided handlers return the task
  they were given and new identifiers are fresh. The look-up, the storing and the result are separate
  steps, in any interleaving.\<close>

theorem terminal_is_final:
  assumes "keeps_task h" "sv = foldl (server_step codec h) (server_new ac) es"
    and "tasks (srv sv) k = Some t" "task_is_terminal t" "\<forall>r\<in>set (pending sv @ running sv). a2a_id r \<noteq> k"
    and "\<forall>e\<in>set later. event_uuid e \<noteq> Some k"
  shows "tasks (srv (foldl (server_step codec h) sv later)) k = Some t"
proof -
  have "tasks (srv (foldl (server_step codec h) sv later)) k = Some t
      \<and> (\<forall>r\<in>set (pending (foldl (server_step codec h) sv later) @ running (foldl (server_step codec h) sv later)). a2a_id r \<noteq> k)"
    using assms(6)
  proof (induction later rule: rev_induct)
    case Nil
    then show ?case using assms by simp
  next
    case (snoc e later)
    define s where "s = foldl (server_step codec h) sv later"
    have IH: "tasks (srv s) k = Some t" "\<forall>r\<in>set (pending s) \<union> set (running s). a2a_id r \<noteq> k"
      using snoc by (simp_all add: s_def)
    have "well_stored h s"
      unfolding s_def assms(2) by (intro server.run_inv server_run)
    then have ids: "\<And>k' t'. tasks (srv s) k' = Some t' \<Longrightarrow> a2a_id t' = k'"
      using assms(1) by (auto simp: well_stored_def)
    have "tasks (srv (server_step codec h s e)) k = Some t
        \<and> (\<forall>r\<in>set (pending (server_step codec h s e)) \<union> set (running (server_step codec h s e)). a2a_id r \<noteq> k)"
    proof (rule server_step_cases [OF assms(1), of codec s e], goal_cases same cancelled read stored finished)
      case (cancelled k' t' now)
      then show ?thesis using IH assms(4) by auto
    next
      case (read uuid t')
      have "a2a_id t' \<noteq> k"
        using read(1,2) snoc.prems IH(1) assms(4) ids by (auto simp: prepared_def)
      then show ?thesis using IH read(3) by auto
    next
      case (stored j)
      have "a2a_id (pending s ! j) \<noteq> k" using IH(2) stored(1) by simp
      then show ?thesis using IH stored(2) set_without [of j "pending s"] by (auto simp: store_task_def)
    next
      case (finished j st)
      have "a2a_id (running s ! j) \<noteq> k" using IH(2) finished(1) by simp
      then show ?thesis using IH finished(2,3) set_without [of j "running s"]
        by (auto simp: finishes_def store_task_def)
    qed (use IH in simp)
    then show ?case by (simp add: s_def)
  qed
  then show ?thesis by simp
qed

theorem terminal_is_final_witness:
  "\<exists>t. status t = Completed \<and> tasks (srv (foldl (server_step sample_codec completing) sample_run
       [send_request ''t2'' (Some ''t1''), send_request ''t3'' None, Store 0])) ''t1'' = Some t"
proof -
  obtain t where t: "tasks (srv sample_run) ''t1'' = Some t" "status t = Completed" "pending sample_run = []"
      "running sample_run = []"
    using sample_run_eval by blast
  have "task_is_terminal t" using t(2) by (simp add: task_is_terminal_def)
  from terminal_is_final [OF completing_keeps sample_run_def t(1) this,
      of "[send_request ''t2'' (Some ''t1''), send_request ''t3'' None, Store 0]"] t(2-4)
  show ?thesis by (auto simp: send_request_def)
qed

text \<open>A cancellation between the look-up and the storing is undone: the task that the caller was told is
  cancelled is stored as working.\<close>

lemma cancelled_task_resumed:
  assumes "tasks st k = Some old" "a2a_id old = k" "\<not> task_is_terminal old" "p_id params = Some k"
    and "p_message params = Some (Inr message)"
  shows "\<exists>t. send_read now now' uuid st i (Some params) = Inr t
    \<and> (let st' = snd (handle_cancel_task codec n st i' (Some params))
       in map_option status (tasks st' k) = Some Canceled
          \<and> map_option status (tasks (store_task t st') k) = Some Working)"
  using assms
  by (simp add: send_read_def prepare_task_def handle_cancel_task_def get_id_def Let_def store_task_def)

text \<open>While a handler works, a cancellation does not last: the handler's result is stored over it, and
  nothing of the cancellation is left, not even in the history.\<close>

lemma cancellation_overwritten:
  assumes "tasks st (a2a_id t) = Some t'" "\<not> task_is_terminal t'" "p_id params = Some (a2a_id t)"
    and "a2a_id u = a2a_id t"
  shows "let st' = snd (handle_cancel_task codec now st i (Some params))
    in map_option status (tasks st' (a2a_id t)) = Some Canceled
       \<and> tasks (snd (send_finish codec n n' st' i t (Inr u))) (a2a_id t) = Some u"
  using assms by (simp add: handle_cancel_task_def get_id_def Let_def send_finish_def store_task_def)

text \<open>A streaming handler that fails leaves its task working.\<close>

lemma streaming_failure_not_stored: "snd (streaming_finish st t sent (Inl err)) = st"
  by (simp add: streaming_finish_def Let_def)

end
