(* ===== verification/Semver.thy ===== *)
theory Semver
  imports RustText "HOL-Library.Product_Lexorder" "HOL-Library.Multiset"
begin

text \<open>
  \<open>argentor-builtins/src/semver_tool.rs\<close>: parsing, printing, comparing and bumping semantic versions,
  ranges, and the operations of the tool on the arguments it reads from a call. An argument that
  is absent or not a string is \<open>None\<close>; the fields of the answers are those of the JSON objects.
\<close>

section \<open>Versions\<close>

record Semver =
  major :: u64
  minor :: u64
  patch :: u64
  prerelease :: "string option"
  build :: "string option"

definition u64_lim :: nat where
  "u64_lim = 2 ^ 64"

definition quote_str :: "string \<Rightarrow> string" where
  "quote_str s = [CHR 39] @ s @ [CHR 39]"

definition parse_part :: "string \<Rightarrow> string \<Rightarrow> string + u64" where
  "parse_part what s =
     (case parse_uint u64_lim s of
        Inl _ \<Rightarrow> Inl (''Invalid '' @ what @ '' version: '' @ quote_str s)
      | Inr n \<Rightarrow> Inr (of_nat n))"

text \<open>\<open>version.trim().strip_prefix('v').unwrap_or(version)\<close>: the text is trimmed only behind a \<open>v\<close>.\<close>

definition strip_v :: "string \<Rightarrow> string" where
  "strip_v version = (case strip_prefix ''v'' (trim version) of Some r \<Rightarrow> r | None \<Rightarrow> version)"

definition split_off :: "char \<Rightarrow> string \<Rightarrow> string \<times> string option" where
  "split_off c s = (case split_once c s of Some (a, b) \<Rightarrow> (a, Some b) | None \<Rightarrow> (s, None))"

definition parse_semver :: "string \<Rightarrow> string + Semver" where
  "parse_semver version =
     (let (version, build_part) = split_off (CHR ''+'') (strip_v version);
          (version, pre_part) = split_off (CHR ''-'') version;
          parts = split_char (CHR ''.'') version
      in if length parts \<noteq> 3
         then Inl (''Invalid semver: expected 3 numeric parts (X.Y.Z), got '' @ quote_str version)
         else case parse_part ''major'' (parts ! 0) of
                Inl e \<Rightarrow> Inl e
              | Inr a \<Rightarrow>
                  (case parse_part ''minor'' (parts ! 1) of
                     Inl e \<Rightarrow> Inl e
                   | Inr b \<Rightarrow>
                       (case parse_part ''patch'' (parts ! 2) of
                          Inl e \<Rightarrow> Inl e
                        | Inr c \<Rightarrow>
                            Inr \<lparr>major = a, minor = b, patch = c, prerelease = pre_part,
                                 build = build_part\<rparr>)))"

definition show_core :: "Semver \<Rightarrow> string" where
  "show_core v = show_nat (unat (major v)) @ ''.'' @ show_nat (unat (minor v)) @ ''.'' @ show_nat (unat (patch v))"

definition to_string_clean :: "Semver \<Rightarrow> string" where
  "to_string_clean v =
     show_core v
     @ (case prerelease v of Some pre \<Rightarrow> ''-'' @ pre | None \<Rightarrow> [])
     @ (case build v of Some b \<Rightarrow> ''+'' @ b | None \<Rightarrow> [])"

definition cmp_prerelease :: "string option \<Rightarrow> string option \<Rightarrow> Ordering" where
  "cmp_prerelease p q =
     (case (p, q) of
        (None, None) \<Rightarrow> Equal
      | (Some _, None) \<Rightarrow> Less
      | (None, Some _) \<Rightarrow> Greater
      | (Some a, Some b) \<Rightarrow> ord_cmp a b)"

definition cmp_version :: "Semver \<Rightarrow> Semver \<Rightarrow> Ordering" where
  "cmp_version a b =
     then_cmp (then_cmp (then_cmp (ord_cmp (major a) (major b)) (ord_cmp (minor a) (minor b)))
       (ord_cmp (patch a) (patch b))) (cmp_prerelease (prerelease a) (prerelease b))"

definition bump :: "Semver \<Rightarrow> string \<Rightarrow> string + Semver" where
  "bump v bump_type =
     (if bump_type = ''major''
      then Inr \<lparr>major = major v + 1, minor = 0, patch = 0, prerelease = None, build = None\<rparr>
      else if bump_type = ''minor''
      then Inr \<lparr>major = major v, minor = minor v + 1, patch = 0, prerelease = None, build = None\<rparr>
      else if bump_type = ''patch''
      then Inr \<lparr>major = major v, minor = minor v, patch = patch v + 1, prerelease = None, build = None\<rparr>
      else Inl (''Unknown bump type: '' @ quote_str bump_type @ ''. Use major, minor, or patch.''))"

section \<open>Ranges\<close>

definition with_version :: "string \<Rightarrow> (Semver \<Rightarrow> bool) \<Rightarrow> string + bool" where
  "with_version s f = (case parse_semver s of Inl e \<Rightarrow> Inl e | Inr v \<Rightarrow> Inr (f v))"

definition satisfies_range :: "Semver \<Rightarrow> string \<Rightarrow> string + bool" where
  "satisfies_range v range0 =
     (let range = trim range0
      in case strip_prefix ''^'' range of
           Some rest \<Rightarrow>
             with_version rest (\<lambda>base.
               if major v \<noteq> major base then False
               else if major base = 0
               then if minor v \<noteq> minor base then False else cmp_version v base \<noteq> Less
               else cmp_version v base \<noteq> Less)
         | None \<Rightarrow>
      case strip_prefix ''~'' range of
           Some rest \<Rightarrow>
             with_version rest (\<lambda>base.
               if major v \<noteq> major base \<or> minor v \<noteq> minor base then False else patch v \<ge> patch base)
         | None \<Rightarrow>
      case strip_prefix ''>='' range of
           Some ver \<Rightarrow> with_version (trim ver) (\<lambda>target. cmp_version v target \<noteq> Less)
         | None \<Rightarrow>
      case strip_prefix ''<='' range of
           Some ver \<Rightarrow> with_version (trim ver) (\<lambda>target. cmp_version v target \<noteq> Greater)
         | None \<Rightarrow>
      case strip_prefix ''>'' range of
           Some ver \<Rightarrow> with_version (trim ver) (\<lambda>target. cmp_version v target = Greater)
         | None \<Rightarrow>
      case strip_prefix ''<'' range of
           Some ver \<Rightarrow> with_version (trim ver) (\<lambda>target. cmp_version v target = Less)
         | None \<Rightarrow>
      case strip_prefix ''='' range of
           Some ver \<Rightarrow> with_version (trim ver) (\<lambda>target. cmp_version v target = Equal)
         | None \<Rightarrow> with_version range (\<lambda>target. cmp_version v target = Equal))"

section \<open>The operations of the tool\<close>

text \<open>\<open>versions\<close>: the elements of the array, of which those that are not strings are passed over.\<close>

record SemverArgs =
  arg_operation :: "string option"
  arg_version :: "string option"
  arg_version_a :: "string option"
  arg_version_b :: "string option"
  arg_bump_type :: "string option"
  arg_versions :: "string option list option"
  arg_range :: "string option"

datatype SemverAnswer =
    Parsed Semver string
  | Validated bool string
  | Compared string string string bool
  | Bumped string string string
  | Sorted "string list"
  | Satisfies string string bool
  | MaxVersion string
  | MinVersion string

definition missing :: "string \<Rightarrow> string" where
  "missing name = ''Missing required parameter: '' @ quote_str name"

definition required :: "string \<Rightarrow> 'a option \<Rightarrow> ('a \<Rightarrow> string + 'b) \<Rightarrow> string + 'b" where
  "required name x f = (case x of None \<Rightarrow> Inl (missing name) | Some a \<Rightarrow> f a)"

definition parsed_as :: "string \<Rightarrow> string \<Rightarrow> (Semver \<Rightarrow> string + 'b) \<Rightarrow> string + 'b" where
  "parsed_as before s f = (case parse_semver s of Inl e \<Rightarrow> Inl (before @ e) | Inr v \<Rightarrow> f v)"

definition invalid_version :: "string \<Rightarrow> string \<Rightarrow> string" where
  "invalid_version s e = ''Invalid version '' @ quote_str s @ '': '' @ e"

fun parse_all :: "string list \<Rightarrow> string + (string \<times> Semver) list" where
  "parse_all [] = Inr []"
| "parse_all (s # ss) =
     (case parse_semver s of
        Inl e \<Rightarrow> Inl (invalid_version s e)
      | Inr v \<Rightarrow> (case parse_all ss of Inl e \<Rightarrow> Inl e | Inr vs \<Rightarrow> Inr ((s, v) # vs)))"

text \<open>The loop of \<open>max\<close> and of \<open>min\<close>: a later version replaces the best so far when it compares as
  \<open>better\<close>.\<close>

fun best_version :: "Ordering \<Rightarrow> (string \<times> Semver) option \<Rightarrow> string list \<Rightarrow> string + (string \<times> Semver) option" where
  "best_version better best [] = Inr best"
| "best_version better best (s # ss) =
     (case parse_semver s of
        Inl e \<Rightarrow> Inl (invalid_version s e)
      | Inr v \<Rightarrow>
          best_version better
            (case best of
               Some b \<Rightarrow> if cmp_version v (snd b) = better then Some (s, v) else best
             | None \<Rightarrow> Some (s, v)) ss)"

definition extreme_version ::
  "Ordering \<Rightarrow> (string \<Rightarrow> SemverAnswer) \<Rightarrow> string option list \<Rightarrow> string + SemverAnswer" where
  "extreme_version better answer vs =
     (let ss = List.map_filter id vs
      in if ss = [] then Inl ''Versions array is empty''
         else case best_version better None ss of
                Inl e \<Rightarrow> Inl e
              | Inr None \<Rightarrow> Inl ''No valid versions found''
              | Inr (Some b) \<Rightarrow> Inr (answer (fst b)))"

definition ordering_name :: "Ordering \<Rightarrow> string" where
  "ordering_name o' = (case o' of Less \<Rightarrow> ''less'' | Equal \<Rightarrow> ''equal'' | Greater \<Rightarrow> ''greater'')"

definition semver_execute :: "SemverArgs \<Rightarrow> string + SemverAnswer" where
  "semver_execute args =
     required ''operation'' (arg_operation args) (\<lambda>operation.
       if operation = ''parse''
       then required ''version'' (arg_version args) (\<lambda>s.
              parsed_as [] s (\<lambda>v. Inr (Parsed v (to_string_clean v))))
       else if operation = ''validate''
       then required ''version'' (arg_version args) (\<lambda>s. Inr (Validated (\<not> isl (parse_semver s)) s))
       else if operation = ''compare''
       then required ''version_a'' (arg_version_a args) (\<lambda>sa.
              required ''version_b'' (arg_version_b args) (\<lambda>sb.
                parsed_as ''version_a: '' sa (\<lambda>a. parsed_as ''version_b: '' sb (\<lambda>b.
                  Inr (Compared sa sb (ordering_name (cmp_version a b)) (cmp_version a b = Greater))))))
       else if operation = ''bump''
       then required ''version'' (arg_version args) (\<lambda>s.
              required ''bump_type'' (arg_bump_type args) (\<lambda>bt.
                parsed_as [] s (\<lambda>v.
                  case bump v bt of Inl e \<Rightarrow> Inl e | Inr b \<Rightarrow> Inr (Bumped s (to_string_clean b) bt))))
       else if operation = ''sort''
       then required ''versions'' (arg_versions args) (\<lambda>vs.
              case parse_all (List.map_filter id vs) of
                Inl e \<Rightarrow> Inl e
              | Inr parsed \<Rightarrow> Inr (Sorted (map fst (sort_by (\<lambda>a b. cmp_version (snd a) (snd b)) parsed))))
       else if operation = ''satisfies''
       then required ''version'' (arg_version args) (\<lambda>s.
              required ''range'' (arg_range args) (\<lambda>r.
                parsed_as [] s (\<lambda>v.
                  case satisfies_range v r of Inl e \<Rightarrow> Inl e | Inr b \<Rightarrow> Inr (Satisfies s r b))))
       else if operation = ''max''
       then required ''versions'' (arg_versions args) (extreme_version Greater MaxVersion)
       else if operation = ''min''
       then required ''versions'' (arg_versions args) (extreme_version Less MinVersion)
       else Inl (''Unknown operation: '' @ quote_str operation
              @ ''. Supported: parse, validate, compare, bump, sort, satisfies, max, min''))"

section \<open>Precedence\<close>

text \<open>The order the comparison follows: a release is above all its prereleases.\<close>

datatype Precedence = Prerelease string | Release

fun precedence :: "string option \<Rightarrow> Precedence" where
  "precedence (Some s) = Prerelease s" | "precedence None = Release"

instantiation Precedence :: linorder
begin

fun less_eq_Precedence :: "Precedence \<Rightarrow> Precedence \<Rightarrow> bool" where
  "Prerelease s \<le> Prerelease t \<longleftrightarrow> s \<le> t"
| "Prerelease s \<le> Release \<longleftrightarrow> True"
| "Release \<le> Prerelease t \<longleftrightarrow> False"
| "Release \<le> Release \<longleftrightarrow> True"

definition less_Precedence :: "Precedence \<Rightarrow> Precedence \<Rightarrow> bool" where
  "less_Precedence p q \<longleftrightarrow> p \<le> q \<and> \<not> q \<le> p"

instance
proof
  fix p q r :: Precedence
  show "p < q \<longleftrightarrow> p \<le> q \<and> \<not> q \<le> p" by (rule less_Precedence_def)
  show "p \<le> p" by (cases p) simp_all
  show "p \<le> q \<Longrightarrow> q \<le> r \<Longrightarrow> p \<le> r" by (cases p; cases q; cases r) auto
  show "p \<le> q \<Longrightarrow> q \<le> p \<Longrightarrow> p = q" by (cases p; cases q) auto
  show "p \<le> q \<or> q \<le> p" by (cases p; cases q) auto
qed

end

definition version_key :: "Semver \<Rightarrow> u64 \<times> u64 \<times> u64 \<times> Precedence" where
  "version_key v = (major v, minor v, patch v, precedence (prerelease v))"

lemma cmp_prerelease_key: "cmp_prerelease p q = ord_cmp (precedence p) (precedence q)"
  by (cases p; cases q) (auto simp: cmp_prerelease_def ord_cmp_def less_Precedence_def)

lemma cmp_version_key: "cmp_version a b = ord_cmp (version_key a) (version_key b)"
  by (auto simp: cmp_version_def cmp_prerelease_key version_key_def ord_cmp_def less_prod_def' split: if_splits)

lemma cmp_version_iff:
  "cmp_version a b = Greater \<longleftrightarrow> version_key b < version_key a"
  "cmp_version a b = Less \<longleftrightarrow> version_key a < version_key b"
  "cmp_version a b = Equal \<longleftrightarrow> version_key a = version_key b"
  by (auto simp: cmp_version_key ord_cmp_def)

text \<open>A bumped version is above the one it came from, unless the counter it bumps is at its last
  value and wraps (which it does where overflow is not checked).\<close>

lemma bump_greater:
  assumes "bump v t = Inr w"
    and "t = ''major'' \<Longrightarrow> major v \<noteq> - 1" "t = ''minor'' \<Longrightarrow> minor v \<noteq> - 1" "t = ''patch'' \<Longrightarrow> patch v \<noteq> - 1"
  shows "cmp_version w v = Greater"
proof -
  have up: "x < x + 1" if "x \<noteq> - 1" for x :: u64
  proof -
    have "x < - 1" using that by (simp add: order.not_eq_order_implies_strict)
    then have "Suc (unat x) < 2 ^ 64" by (simp add: word_less_nat_alt unsigned_minus_1_eq_mask mask_eq_exp_minus_1)
    then show ?thesis by (simp add: word_less_nat_alt unat_word_ariths)
  qed
  show ?thesis
    using assms up by (auto simp: bump_def cmp_version_iff version_key_def less_prod_def' split: if_splits)
qed

section \<open>The text of a version\<close>

lemmas semver_eval =
  parse_semver_def strip_v_def trim_def strip_prefix_def split_off_def parse_part_def parse_uint_def
  u64_lim_def to_digit_def is_whitespace_def Let_def

lemma parse_samples:
  "parse_semver ''v1.02.3-rc.1+b''
     = Inr \<lparr>major = 1, minor = 2, patch = 3, prerelease = Some ''rc.1'', build = Some ''b''\<rparr>"
  "parse_semver ''1.2.0'' = Inr \<lparr>major = 1, minor = 2, patch = 0, prerelease = None, build = None\<rparr>"
  "parse_semver ''v1.2.0'' = Inr \<lparr>major = 1, minor = 2, patch = 0, prerelease = None, build = None\<rparr>"
  "parse_semver ''1.2.0-rc'' = Inr \<lparr>major = 1, minor = 2, patch = 0, prerelease = Some ''rc'', build = None\<rparr>"
  "parse_semver ''0.9.9'' = Inr \<lparr>major = 0, minor = 9, patch = 9, prerelease = None, build = None\<rparr>"
  by (simp_all add: semver_eval)

definition version_of :: "string \<Rightarrow> Semver" where
  "version_of s = projr (parse_semver s)"

lemma split_off_app: "c \<notin> set a \<Longrightarrow> split_off c (a @ (case r of None \<Rightarrow> [] | Some b \<Rightarrow> c # b)) = (a, r)"
proof (cases r)
  case None
  assume "c \<notin> set a"
  then have "split_once c a = None" by (simp add: split_once_None)
  then show ?thesis using None by (simp add: split_off_def)
next
  case (Some b)
  assume "c \<notin> set a"
  then have "split_once c (a @ c # b) = Some (a, b)" by (simp add: split_once_Some)
  then show ?thesis using Some by (simp add: split_off_def)
qed

lemma split_off_fst: "split_off c s = (a, r) \<Longrightarrow> c \<notin> set a"
  by (auto simp: split_off_def split_once_None split_once_Some split: option.splits prod.splits)

lemma split_off_subset: "split_off c s = (a, r) \<Longrightarrow> set a \<subseteq> set s \<and> (\<forall>b. r = Some b \<longrightarrow> set b \<subseteq> set s)"
  by (auto simp: split_off_def split_once_Some split: option.splits prod.splits)

lemma digits_no_sep: "CHR ''.'' \<notin> set (show_nat n)" "CHR ''-'' \<notin> set (show_nat n)" "CHR ''+'' \<notin> set (show_nat n)"
  "CHR ''v'' \<notin> set (show_nat n)"
  using show_nat_range [of _ n] by fastforce+

lemma split_core: "split_char (CHR ''.'') (show_core v)
  = [show_nat (unat (major v)), show_nat (unat (minor v)), show_nat (unat (patch v))]"
proof -
  have no: "\<forall>c\<in>set (show_nat n). c \<noteq> CHR ''.''" for n using digits_no_sep(1) by metis
  show ?thesis
    by (simp add: show_core_def split_by_first [OF no] split_by_no_sep [OF no])
qed

lemma parse_part_show: "parse_part w (show_nat (unat n)) = Inr (n :: u64)"
proof -
  have "unat n < u64_lim" using unsigned_less [of n] by (simp add: u64_lim_def)
  then show ?thesis by (simp add: parse_part_def parse_uint_show)
qed

lemma core_no_sep: "CHR ''-'' \<notin> set (show_core v)" "CHR ''+'' \<notin> set (show_core v)"
  by (simp_all add: show_core_def digits_no_sep)

lemma to_string_clean_text:
  "to_string_clean v = (show_core v @ (case prerelease v of None \<Rightarrow> [] | Some p \<Rightarrow> CHR ''-'' # p))
     @ (case build v of None \<Rightarrow> [] | Some b \<Rightarrow> CHR ''+'' # b)"
  by (cases "prerelease v"; cases "build v") (simp_all add: to_string_clean_def)

lemma strip_v_clean: "strip_v (to_string_clean v) = to_string_clean v"
proof -
  obtain d ds where d: "show_nat (unat (major v)) = d # ds"
    by (cases "show_nat (unat (major v))") simp_all
  have dv: "d \<noteq> CHR ''v''" using digits_no_sep(4) [of "unat (major v)"] by (auto simp: d)
  have "\<not> is_whitespace d" using digits_no_whitespace [of d "unat (major v)"] by (simp add: d)
  moreover obtain u where u: "to_string_clean v = d # u"
    by (simp add: to_string_clean_def show_core_def d)
  ultimately obtain r where "trim (to_string_clean v) = d # r"
    using dropWhile_rev_mid [of is_whitespace d "[]" u] by (auto simp: trim_def)
  then show ?thesis using dv by (simp add: strip_v_def strip_prefix_def)
qed

lemma parse_clean:
  assumes "\<forall>p. prerelease v = Some p \<longrightarrow> CHR ''+'' \<notin> set p"
  shows "parse_semver (to_string_clean v) = Inr v"
proof -
  have "CHR ''+'' \<notin> set (show_core v @ (case prerelease v of None \<Rightarrow> [] | Some p \<Rightarrow> CHR ''-'' # p))"
    using assms core_no_sep(2) by (auto split: option.splits)
  note plus = split_off_app [OF this, of "build v"]
  note minus = split_off_app [OF core_no_sep(1), of v "prerelease v"]
  show ?thesis
    unfolding parse_semver_def to_string_clean_text strip_v_clean [unfolded to_string_clean_text] plus Let_def split_beta fst_conv snd_conv minus
    by (simp add: split_core parse_part_show)
qed

lemma parse_no_plus:
  assumes "parse_semver s = Inr v" shows "\<forall>p. prerelease v = Some p \<longrightarrow> CHR ''+'' \<notin> set p"
proof -
  obtain a b where ab: "split_off (CHR ''+'') (strip_v s) = (a, b)" by fastforce
  obtain c p where cp: "split_off (CHR ''-'') a = (c, p)" by fastforce
  have "CHR ''+'' \<notin> set a" using split_off_fst [OF ab] .
  then have "\<forall>q. p = Some q \<longrightarrow> CHR ''+'' \<notin> set q" using split_off_subset [OF cp] by blast
  then show ?thesis
    using assms by (auto simp: parse_semver_def ab cp Let_def split: sum.splits if_splits)
qed

text \<open>Normalising a version is idempotent. The text the tool prints for a version it has read is read
  as that same version, build metadata included; and exactly the versions whose prerelease has no
  plus sign are read back from their text.\<close>

lemma normalized_text_roundtrip:
  "(parse_semver s = Inr v \<longrightarrow> parse_semver (to_string_clean v) = Inr v)
   \<and> (parse_semver (to_string_clean w) = Inr w \<longleftrightarrow> (\<forall>p. prerelease w = Some p \<longrightarrow> CHR ''+'' \<notin> set p))"
  using parse_clean parse_no_plus by blast

lemma normalized_text_roundtrip_witness:
  "parse_semver (to_string_clean (version_of ''v1.02.3-rc.1+b'')) = Inr (version_of ''v1.02.3-rc.1+b'')
   \<and> to_string_clean (version_of ''v1.02.3-rc.1+b'') = ''1.2.3-rc.1+b''"
proof -
  have "to_string_clean (version_of ''v1.02.3-rc.1+b'') = ''1.2.3-rc.1+b''"
    by (simp add: version_of_def parse_samples to_string_clean_def show_core_def show_nat_def
        show_radix.simps digit_char_def char_of_def bit_Suc_0_iff)
  with normalized_text_roundtrip [of "''v1.02.3-rc.1+b''" "version_of ''v1.02.3-rc.1+b''"] show ?thesis
    by (simp add: version_of_def parse_samples)
qed

section \<open>Sorting and extreme versions\<close>

definition text_key :: "string \<Rightarrow> u64 \<times> u64 \<times> u64 \<times> Precedence" where
  "text_key s = version_key (version_of s)"

lemma sort_by_sort_key:
  "sort_by (\<lambda>a b. cmp_version (f a) (f b)) xs = sort_key (\<lambda>a. version_key (f a)) xs"
  by (rule sort_by_key) (simp add: cmp_version_iff)

lemma parse_all_Inr:
  "parse_all ss = Inr ps \<longleftrightarrow> (\<forall>s\<in>set ss. \<not> isl (parse_semver s)) \<and> ps = map (\<lambda>s. (s, version_of s)) ss"
proof (induction ss arbitrary: ps)
  case (Cons s ss)
  show ?case
  proof (cases "parse_semver s")
    case (Inr v)
    then show ?thesis using Cons.IH by (cases "parse_all ss") (auto simp: version_of_def)
  qed simp
qed auto

text \<open>The error names the first version that does not parse.\<close>

definition first_bad :: "string list \<Rightarrow> string \<Rightarrow> bool" where
  "first_bad ss e \<longleftrightarrow> (\<exists>us s e' ws. ss = us @ s # ws \<and> (\<forall>u\<in>set us. \<not> isl (parse_semver u))
     \<and> parse_semver s = Inl e' \<and> e = invalid_version s e')"

lemma first_bad_here: "parse_semver s = Inl e' \<Longrightarrow> first_bad (s # ss) (invalid_version s e')"
  unfolding first_bad_def by (intro exI [of _ "[]"] exI [of _ s] exI) auto

lemma first_bad_later: "parse_semver s = Inr v \<Longrightarrow> first_bad ss e \<Longrightarrow> first_bad (s # ss) e"
  unfolding first_bad_def
proof (elim exE conjE, goal_cases)
  case (1 us t e' ws)
  then show ?case by (intro exI [of _ "s # us"] exI [of _ t] exI [of _ e'] exI [of _ ws]) auto
qed

lemma parse_all_Inl: "parse_all ss = Inl e \<Longrightarrow> first_bad ss e"
  by (induction ss arbitrary: e) (auto intro: first_bad_here first_bad_later split: sum.splits)

lemma map_fst_sort_key:
  "map fst (sort_key (\<lambda>p. version_key (snd p)) (map (\<lambda>s. (s, version_of s)) ss)) = sort_key text_key ss"
proof -
  have *: "insort_key (\<lambda>p. version_key (snd p)) (s, version_of s) (map (\<lambda>s. (s, version_of s)) ts)
      = map (\<lambda>s. (s, version_of s)) (insort_key text_key s ts)" for s ts
    by (induction ts) (auto simp: text_key_def)
  have "sort_key (\<lambda>p. version_key (snd p)) (map (\<lambda>s. (s, version_of s)) ss)
      = map (\<lambda>s. (s, version_of s)) (sort_key text_key ss)"
    by (induction ss) (simp_all add: *)
  then show ?thesis by (simp add: comp_def)
qed

text \<open>The sorting operation answers with the versions it was given, each as often, in the order
  of their precedence, those of the same precedence in the order given; it fails exactly on a
  version that does not parse, and names the first.\<close>

lemma sort_answer:
  assumes "arg_operation args = Some ''sort''" "arg_versions args = Some vs"
  shows "case semver_execute args of
      Inr (Sorted out) \<Rightarrow> (\<forall>s\<in>set out. \<not> isl (parse_semver s)) \<and> mset out = mset (List.map_filter id vs)
        \<and> sorted (map text_key out)
        \<and> (\<forall>k. filter (\<lambda>s. text_key s = k) out = filter (\<lambda>s. text_key s = k) (List.map_filter id vs))
    | Inr _ \<Rightarrow> False
    | Inl e \<Rightarrow> first_bad (List.map_filter id vs) e"
proof (cases "parse_all (List.map_filter id vs)")
  case (Inl e)
  then show ?thesis using assms parse_all_Inl [OF Inl] by (simp add: semver_execute_def required_def)
next
  case (Inr ps)
  then have ok: "\<forall>s\<in>set (List.map_filter id vs). \<not> isl (parse_semver s)"
    and ps: "ps = map (\<lambda>s. (s, version_of s)) (List.map_filter id vs)"
    by (simp_all add: parse_all_Inr)
  have "semver_execute args = Inr (Sorted (sort_key text_key (List.map_filter id vs)))"
    using assms Inr by (simp add: semver_execute_def required_def sort_by_sort_key ps map_fst_sort_key)
  then show ?thesis using ok by (simp add: sort_key_stable)
qed

definition no_args :: SemverArgs where
  "no_args = \<lparr>arg_operation = None, arg_version = None, arg_version_a = None, arg_version_b = None,
     arg_bump_type = None, arg_versions = None, arg_range = None\<rparr>"

definition sample_args :: "string \<Rightarrow> SemverArgs" where
  "sample_args op = no_args\<lparr>arg_operation := Some op,
     arg_versions := Some [Some ''1.2.0'', Some ''1.2.0-rc'', None, Some ''0.9.9'', Some ''v1.2.0'']\<rparr>"

lemma sort_answer_witness:
  "\<exists>out. semver_execute (sample_args ''sort'') = Inr (Sorted out) \<and> sorted (map text_key out)
     \<and> out = [''0.9.9'', ''1.2.0-rc'', ''1.2.0'', ''v1.2.0'']"
proof -
  have e: "semver_execute (sample_args ''sort'') = Inr (Sorted [''0.9.9'', ''1.2.0-rc'', ''1.2.0'', ''v1.2.0''])"
    by (simp add: semver_execute_def required_def sample_args_def no_args_def parse_samples sort_by_def
        cmp_version_def ord_cmp_def cmp_prerelease_def List.map_filter_simps)
  have "arg_operation (sample_args ''sort'') = Some ''sort''" by (simp add: sample_args_def)
  from sort_answer [OF this, unfolded e] show ?thesis using e by (simp add: sample_args_def)
qed

lemma best_version_spec:
  "(\<exists>s\<in>set ss. isl (parse_semver s)) \<Longrightarrow> \<exists>e. best_version better best ss = Inl e \<and> first_bad ss e"
proof (induction ss arbitrary: best)
  case (Cons s ss)
  show ?case
  proof (cases "parse_semver s")
    case (Inr v)
    then obtain best' where "best_version better best (s # ss) = best_version better best' ss" by simp
    moreover obtain e where "best_version better best' ss = Inl e" "first_bad ss e"
      using Cons.IH [of best'] Cons.prems Inr by auto
    ultimately show ?thesis using first_bad_later [OF Inr] by auto
  qed (auto intro: first_bad_here)
qed simp

definition is_better :: "Ordering \<Rightarrow> string \<Rightarrow> string \<Rightarrow> bool" where
  "is_better better s t \<longleftrightarrow> cmp_version (version_of s) (version_of t) = better"

definition first_best :: "Ordering \<Rightarrow> string list \<Rightarrow> string \<Rightarrow> bool" where
  "first_best better ss s \<longleftrightarrow> (\<exists>us ws. ss = us @ s # ws \<and> (\<forall>u\<in>set us. is_better better s u)
     \<and> (\<forall>w\<in>set ws. \<not> is_better better w s))"

lemma first_bestI:
  "\<forall>u\<in>set us. is_better better s u \<Longrightarrow> \<forall>w\<in>set ws. \<not> is_better better w s \<Longrightarrow> first_best better (us @ s # ws) s"
  unfolding first_best_def by blast

lemma is_better_trans:
  assumes "better \<noteq> Equal"
  shows "is_better better a b \<Longrightarrow> is_better better b c \<Longrightarrow> is_better better a c"
    "is_better better a b \<Longrightarrow> \<not> is_better better c b \<Longrightarrow> is_better better a c"
  using assms by (cases better; auto simp: is_better_def cmp_version_iff)+

lemma best_version_run:
  assumes "better \<noteq> Equal" "\<forall>s\<in>set ss. \<not> isl (parse_semver s)" "first_best better before b"
  shows "\<exists>r. best_version better (Some (b, version_of b)) ss = Inr (Some (r, version_of r))
    \<and> first_best better (before @ ss) r"
  using assms(2,3)
proof (induction ss arbitrary: before b)
  case (Cons s ss)
  obtain v where v: "parse_semver s = Inr v" "version_of s = v"
    using Cons.prems(1) by (cases "parse_semver s") (auto simp: version_of_def)
  obtain us ws where b: "before = us @ b # ws" "\<forall>u\<in>set us. is_better better b u" "\<forall>w\<in>set ws. \<not> is_better better w b"
    using Cons.prems(2) by (auto simp: first_best_def)
  show ?case
  proof (cases "is_better better s b")
    case True
    have "is_better better s u" if "u \<in> set before" for u
    proof -
      have "u \<in> set us \<or> u = b \<or> u \<in> set ws" using that unfolding b(1) by auto
      then show ?thesis
        using True b(2,3) is_better_trans [OF assms(1), of s b u] by blast
    qed
    then have "first_best better (before @ [s]) s" by (intro first_bestI) simp_all
    from Cons.IH [OF _ this] True Cons.prems(1) show ?thesis by (auto simp: v is_better_def)
  next
    case False
    then have "\<forall>w\<in>set (ws @ [s]). \<not> is_better better w b" using b(3) by simp
    then have "first_best better (before @ [s]) b"
      using first_bestI [OF b(2), of "ws @ [s]"] by (simp add: b(1))
    from Cons.IH [OF _ this] False Cons.prems(1) show ?thesis by (auto simp: v is_better_def)
  qed
qed simp

lemma extreme_version_spec:
  assumes "better \<noteq> Equal"
  shows "case extreme_version better answer vs of
      Inr a \<Rightarrow> \<exists>s. a = answer s \<and> first_best better (List.map_filter id vs) s
        \<and> (\<forall>s\<in>set (List.map_filter id vs). \<not> isl (parse_semver s))
    | Inl e \<Rightarrow> List.map_filter id vs = [] \<or> first_bad (List.map_filter id vs) e"
proof (cases "List.map_filter id vs")
  case Nil
  then show ?thesis by (simp add: extreme_version_def)
next
  case (Cons s ss)
  show ?thesis
  proof (cases "\<exists>t\<in>set (s # ss). isl (parse_semver t)")
    case True
    from best_version_spec [OF this, of better None] show ?thesis
      by (auto simp: extreme_version_def Cons simp del: best_version.simps)
  next
    case False
    then obtain v where v: "parse_semver s = Inr v" "version_of s = v"
      by (cases "parse_semver s") (auto simp: version_of_def)
    have "first_best better [s] s" using first_bestI [of "[]" better s "[]"] by simp
    from best_version_run [OF assms _ this, of ss] False v show ?thesis
      by (auto simp: extreme_version_def Cons)
  qed
qed

text \<open>The answer of the maximum (minimum) operation is the first of the given versions that no other
  exceeds (undercuts): it is above (below) every version before it, and none after it is above
  (below) it. It is an error exactly when there is no version, or one does not parse, and then the
  first such is named.\<close>

lemma extreme_answer:
  assumes "arg_versions args = Some vs"
    and "arg_operation args = Some ''max'' \<and> better = Greater \<and> answer = MaxVersion
      \<or> arg_operation args = Some ''min'' \<and> better = Less \<and> answer = MinVersion"
  shows "case semver_execute args of
      Inr a \<Rightarrow> \<exists>s us ws. a = answer s \<and> List.map_filter id vs = us @ s # ws
        \<and> (\<forall>u\<in>set us. cmp_version (version_of s) (version_of u) = better)
        \<and> (\<forall>w\<in>set ws. cmp_version (version_of w) (version_of s) \<noteq> better)
        \<and> (\<forall>t\<in>set (List.map_filter id vs). \<not> isl (parse_semver t))
    | Inl e \<Rightarrow> List.map_filter id vs = [] \<or> first_bad (List.map_filter id vs) e"
proof -
  have "semver_execute args = extreme_version better answer vs" "better \<noteq> Equal"
    using assms by (auto simp: semver_execute_def required_def)
  then show ?thesis using extreme_version_spec [of better vs answer]
    by (fastforce simp: first_best_def is_better_def split: sum.splits)
qed

lemma extreme_answer_witness:
  "semver_execute (sample_args ''max'') = Inr (MaxVersion ''1.2.0'')
   \<and> (\<exists>us ws. List.map_filter id (the (arg_versions (sample_args ''max''))) = us @ ''1.2.0'' # ws
        \<and> (\<forall>w\<in>set ws. cmp_version (version_of w) (version_of ''1.2.0'') \<noteq> Greater))"
proof -
  have e: "semver_execute (sample_args ''max'') = Inr (MaxVersion ''1.2.0'')"
    by (simp add: semver_execute_def required_def sample_args_def no_args_def parse_samples extreme_version_def
        cmp_version_def ord_cmp_def cmp_prerelease_def List.map_filter_simps)
  have a: "arg_versions (sample_args ''max'') = Some (the (arg_versions (sample_args ''max'')))"
    "arg_operation (sample_args ''max'') = Some ''max''"
    by (simp_all add: sample_args_def)
  from extreme_answer [OF a(1), of Greater MaxVersion] a(2) e show ?thesis by auto
qed

text \<open>What the comparison and the ranges do where the specification of semantic versions differs:
  prereleases are compared as texts, a tilde range ignores the prerelease, a text is trimmed only
  in front of a \<open>v\<close>.\<close>

lemma semver_differs:
  "cmp_version (version_of ''1.0.0-alpha.10'') (version_of ''1.0.0-alpha.9'') = Less"
  "satisfies_range (version_of ''1.2.3-alpha'') ''~1.2.3'' = Inr True"
  "isl (parse_semver '' 1.2.3'')" "\<not> isl (parse_semver '' v1.2.3'')"
  by (simp_all add: semver_eval version_of_def cmp_version_def ord_cmp_def cmp_prerelease_def satisfies_range_def
      with_version_def)

end
