(* ===== verification/KnowledgeGraph.thy ===== *)
theory KnowledgeGraph
  imports RustText CoreTypes Interfaces
begin

text \<open>
  \<open>argentor-memory/src/knowledge_graph.rs\<close>, the store: entities, relationships and the four indexes
  kept beside them. A value of a property is of the type \<open>'v\<close> and a confidence or weight of the type
  \<open>'f\<close>, for they are only stored. Where a \<open>HashMap\<close> is iterated the order of its keys is an argument.
\<close>

section \<open>Entities and relationships\<close>

datatype EntityType =
    Person | Organization | Concept | Tool | File | Location | Event | Fact | Custom string

datatype RelationType =
    IsA | HasProperty | RelatedTo | DependsOn | CreatedBy | Contains | WorksWith | Mentions | UsedTool
  | ProducedOutput | CustomRelation string

fun show_entity_type :: "EntityType \<Rightarrow> string" where
  "show_entity_type Person = ''Person''"
| "show_entity_type Organization = ''Organization''"
| "show_entity_type Concept = ''Concept''"
| "show_entity_type Tool = ''Tool''"
| "show_entity_type File = ''File''"
| "show_entity_type Location = ''Location''"
| "show_entity_type Event = ''Event''"
| "show_entity_type Fact = ''Fact''"
| "show_entity_type (Custom s) = ''Custom('' @ s @ '')''"

fun show_relation_type :: "RelationType \<Rightarrow> string" where
  "show_relation_type IsA = ''IsA''"
| "show_relation_type HasProperty = ''HasProperty''"
| "show_relation_type RelatedTo = ''RelatedTo''"
| "show_relation_type DependsOn = ''DependsOn''"
| "show_relation_type CreatedBy = ''CreatedBy''"
| "show_relation_type Contains = ''Contains''"
| "show_relation_type WorksWith = ''WorksWith''"
| "show_relation_type Mentions = ''Mentions''"
| "show_relation_type UsedTool = ''UsedTool''"
| "show_relation_type ProducedOutput = ''ProducedOutput''"
| "show_relation_type (CustomRelation s) = ''Custom('' @ s @ '')''"

record ('v, 'f) Entity =
  entity_id :: string
  entity_name :: string
  entity_type :: EntityType
  properties :: "string \<rightharpoonup> 'v"
  created_at :: int
  updated_at :: int
  confidence :: 'f
  origin :: string

record ('v, 'f) Relationship =
  relationship_id :: string
  from_entity :: string
  to_entity :: string
  relation_type :: RelationType
  edge_properties :: "string \<rightharpoonup> 'v"
  weight :: 'f
  edge_created_at :: int
  edge_origin :: string

record ('v, 'f) KnowledgeGraph =
  entities :: "string \<rightharpoonup> ('v, 'f) Entity"
  relationships :: "('v, 'f) Relationship list"
  entity_by_name :: "string \<rightharpoonup> string list"
  entity_by_type :: "EntityType \<rightharpoonup> string list"
  relations_from :: "string \<rightharpoonup> nat list"
  relations_to :: "string \<rightharpoonup> nat list"

definition graph_new :: "('v, 'f) KnowledgeGraph" where
  "graph_new =
     \<lparr>entities = Map.empty, relationships = [], entity_by_name = Map.empty, entity_by_type = Map.empty,
      relations_from = Map.empty, relations_to = Map.empty\<rparr>"

section \<open>Indexes\<close>

text \<open>Removing an identifier from one entry, and the entry when it is empty.\<close>

definition drop_index :: "('k \<rightharpoonup> 'i list) \<Rightarrow> 'k \<Rightarrow> 'i \<Rightarrow> ('k \<rightharpoonup> 'i list)" where
  "drop_index m k i =
     (case m k of
        Some ids \<Rightarrow>
          let ids' = filter (\<lambda>j. j \<noteq> i) ids
          in if ids' = [] then m(k := None) else m(k \<mapsto> ids')
      | None \<Rightarrow> m)"

definition index_relationship ::
  "nat \<Rightarrow> ('v, 'f) Relationship \<Rightarrow> ('v, 'f) KnowledgeGraph \<Rightarrow> ('v, 'f) KnowledgeGraph" where
  "index_relationship idx rel g =
     g\<lparr>relations_from := push_index (relations_from g) (from_entity rel) idx,
       relations_to := push_index (relations_to g) (to_entity rel) idx\<rparr>"

definition rebuild_relation_indexes :: "('v, 'f) KnowledgeGraph \<Rightarrow> ('v, 'f) KnowledgeGraph" where
  "rebuild_relation_indexes g =
     foldl (\<lambda>g (idx, rel). index_relationship idx rel g)
       (g\<lparr>relations_from := Map.empty, relations_to := Map.empty\<rparr>) (enumerate 0 (relationships g))"

section \<open>Entities\<close>

text \<open>\<open>uuid\<close> is the identifier used when the entity has none.\<close>

definition add_entity ::
  "string \<Rightarrow> ('v, 'f) Entity \<Rightarrow> ('v, 'f) KnowledgeGraph \<Rightarrow> string \<times> ('v, 'f) KnowledgeGraph" where
  "add_entity uuid entity g =
     (let entity = (if entity_id entity = [] then entity\<lparr>entity_id := uuid\<rparr> else entity);
          i = entity_id entity
      in (i, g\<lparr>entity_by_name := push_index (entity_by_name g) (to_lowercase (entity_name entity)) i,
               entity_by_type := push_index (entity_by_type g) (entity_type entity) i,
               entities := (entities g)(i \<mapsto> entity)\<rparr>))"

definition get_entity :: "('v, 'f) KnowledgeGraph \<Rightarrow> string \<Rightarrow> ('v, 'f) Entity option" where
  "get_entity g i = entities g i"

definition entities_of :: "('v, 'f) KnowledgeGraph \<Rightarrow> string list option \<Rightarrow> ('v, 'f) Entity list" where
  "entities_of g ids = List.map_filter (entities g) (case ids of Some ids \<Rightarrow> ids | None \<Rightarrow> [])"

text \<open>\<open>order\<close> is the order of the keys of the name index.\<close>

definition find_entities :: "string list \<Rightarrow> ('v, 'f) KnowledgeGraph \<Rightarrow> string \<Rightarrow> ('v, 'f) Entity list" where
  "find_entities order g name =
     concat (map (\<lambda>k. entities_of g (entity_by_name g k))
       (filter (\<lambda>k. str_contains k (to_lowercase name)) order))"

definition find_by_type :: "('v, 'f) KnowledgeGraph \<Rightarrow> EntityType \<Rightarrow> ('v, 'f) Entity list" where
  "find_by_type g ty = entities_of g (entity_by_type g ty)"

definition update_entity ::
  "int \<Rightarrow> string \<Rightarrow> (string \<rightharpoonup> 'v) \<Rightarrow> ('v, 'f) KnowledgeGraph \<Rightarrow> bool \<times> ('v, 'f) KnowledgeGraph" where
  "update_entity now i props g =
     (case entities g i of
        Some entity \<Rightarrow>
          (True, g\<lparr>entities := (entities g)(i \<mapsto> entity\<lparr>properties := properties entity ++ props, updated_at := now\<rparr>)\<rparr>)
      | None \<Rightarrow> (False, g))"

text \<open>Taking an entity out of the map and of its two indexes.\<close>

definition forget_entity ::
  "string \<Rightarrow> ('v, 'f) Entity \<Rightarrow> ('v, 'f) KnowledgeGraph \<Rightarrow> ('v, 'f) KnowledgeGraph" where
  "forget_entity i entity g =
     g\<lparr>entities := (entities g)(i := None),
       entity_by_name := drop_index (entity_by_name g) (to_lowercase (entity_name entity)) i,
       entity_by_type := drop_index (entity_by_type g) (entity_type entity) i\<rparr>"

definition remove_entity :: "string \<Rightarrow> ('v, 'f) KnowledgeGraph \<Rightarrow> bool \<times> ('v, 'f) KnowledgeGraph" where
  "remove_entity i g =
     (case entities g i of
        None \<Rightarrow> (False, g)
      | Some entity \<Rightarrow>
          let g = forget_entity i entity g;
              g = g\<lparr>relationships := filter (\<lambda>r. from_entity r \<noteq> i \<and> to_entity r \<noteq> i) (relationships g)\<rparr>
          in (True, rebuild_relation_indexes g))"

section \<open>Relationships\<close>

definition add_relationship ::
  "string \<Rightarrow> ('v, 'f) Relationship \<Rightarrow> ('v, 'f) KnowledgeGraph \<Rightarrow> string \<times> ('v, 'f) KnowledgeGraph" where
  "add_relationship uuid rel g =
     (let rel = (if relationship_id rel = [] then rel\<lparr>relationship_id := uuid\<rparr> else rel);
          g = index_relationship (length (relationships g)) rel g
      in (relationship_id rel, g\<lparr>relationships := relationships g @ [rel]\<rparr>))"

definition related :: "('v, 'f) KnowledgeGraph \<Rightarrow> nat list option \<Rightarrow> ('v, 'f) Relationship list" where
  "related g idxs =
     List.map_filter (\<lambda>i. if i < length (relationships g) then Some (relationships g ! i) else None)
       (case idxs of Some idxs \<Rightarrow> idxs | None \<Rightarrow> [])"

definition get_relationships_from :: "('v, 'f) KnowledgeGraph \<Rightarrow> string \<Rightarrow> ('v, 'f) Relationship list" where
  "get_relationships_from g i = related g (relations_from g i)"

definition get_relationships_to :: "('v, 'f) KnowledgeGraph \<Rightarrow> string \<Rightarrow> ('v, 'f) Relationship list" where
  "get_relationships_to g i = related g (relations_to g i)"

definition find_relationships ::
  "string option \<Rightarrow> string option \<Rightarrow> RelationType option \<Rightarrow> ('v, 'f) KnowledgeGraph
     \<Rightarrow> ('v, 'f) Relationship list" where
  "find_relationships from to rel_type g =
     filter (\<lambda>r. (case from of None \<Rightarrow> True | Some f \<Rightarrow> from_entity r = f)
         \<and> (case to of None \<Rightarrow> True | Some t \<Rightarrow> to_entity r = t)
         \<and> (case rel_type of None \<Rightarrow> True | Some rt \<Rightarrow> relation_type r = rt)) (relationships g)"

definition remove_relationship :: "string \<Rightarrow> ('v, 'f) KnowledgeGraph \<Rightarrow> bool \<times> ('v, 'f) KnowledgeGraph" where
  "remove_relationship i g =
     (let rs = filter (\<lambda>r. relationship_id r \<noteq> i) (relationships g);
          g' = g\<lparr>relationships := rs\<rparr>
      in if length rs < length (relationships g) then (True, rebuild_relation_indexes g') else (False, g'))"

section \<open>Merging\<close>

definition redirect :: "string \<Rightarrow> string \<Rightarrow> ('v, 'f) Relationship \<Rightarrow> ('v, 'f) Relationship" where
  "redirect source_id target_id rel =
     (let rel = (if from_entity rel = source_id then rel\<lparr>from_entity := target_id\<rparr> else rel)
      in if to_entity rel = source_id then rel\<lparr>to_entity := target_id\<rparr> else rel)"

definition not_found :: "string \<Rightarrow> string \<Rightarrow> ArgentorError" where
  "not_found what i = Agent (what @ '' entity '' @ [CHR 39] @ i @ [CHR 39] @ '' not found'')"

definition merge_entity ::
  "int \<Rightarrow> string \<Rightarrow> string \<Rightarrow> ('v, 'f) KnowledgeGraph \<Rightarrow> (ArgentorError + unit) \<times> ('v, 'f) KnowledgeGraph" where
  "merge_entity now source_id target_id g =
     (if source_id = target_id then (Inl (Agent ''Cannot merge an entity with itself''), g)
      else case entities g source_id of
             None \<Rightarrow> (Inl (not_found ''Source'' source_id), g)
           | Some source \<Rightarrow>
               (case entities g target_id of
                  None \<Rightarrow> (Inl (not_found ''Target'' target_id), g)
                | Some target \<Rightarrow>
                    let target = target\<lparr>properties := properties source ++ properties target, updated_at := now\<rparr>;
                        g = g\<lparr>entities := (entities g)(target_id \<mapsto> target),
                              relationships := filter (\<lambda>r. \<not> (from_entity r = to_entity r \<and> from_entity r = target_id))
                                (map (redirect source_id target_id) (relationships g))\<rparr>
                    in (Inr (), rebuild_relation_indexes (forget_entity source_id source g))))"

section \<open>Extraction from text\<close>

text \<open>The matches of the regular expressions in the text, in their order, are inputs; so are the
  properties made of a match. \<open>uuids\<close> gives the identifier of the n-th entity created.\<close>

record ('v, 'f) Extraction =
  x_key :: string
  x_name :: string
  x_type :: EntityType
  x_properties :: "string \<rightharpoonup> 'v"
  x_confidence :: 'f

record TextMatches =
  emails :: "string list"
  urls :: "string list"
  mentions :: "string list"
  hashtags :: "string list"
  filepaths :: "string list"
  cap_phrases :: "string list"

definition first_split :: "char \<Rightarrow> string \<Rightarrow> string" where
  "first_split c s = hd (split_char c s)"

definition last_split :: "char \<Rightarrow> string \<Rightarrow> string" where
  "last_split c s = last (split_char c s)"

definition candidates_of ::
  "(string \<Rightarrow> 'v) \<Rightarrow> (nat \<Rightarrow> 'f) \<Rightarrow> TextMatches \<Rightarrow> ('v, 'f) Extraction list" where
  "candidates_of str hundredths m =
     map (\<lambda>e. \<lparr>x_key = e, x_name = first_split (CHR ''@'') e, x_type = Person,
            x_properties = [''email'' \<mapsto> str e], x_confidence = hundredths 80\<rparr>) (emails m)
   @ map (\<lambda>u. \<lparr>x_key = u, x_name = u, x_type = Custom ''Url'',
            x_properties = [''url'' \<mapsto> str u], x_confidence = hundredths 90\<rparr>) (urls m)
   @ map (\<lambda>u. \<lparr>x_key = CHR ''@'' # u, x_name = u, x_type = Person,
            x_properties = [''mention'' \<mapsto> str (CHR ''@'' # u)], x_confidence = hundredths 70\<rparr>) (mentions m)
   @ map (\<lambda>t. \<lparr>x_key = CHR ''#'' # t, x_name = t, x_type = Concept,
            x_properties = [''hashtag'' \<mapsto> str (CHR ''#'' # t)], x_confidence = hundredths 80\<rparr>) (hashtags m)
   @ map (\<lambda>p. \<lparr>x_key = p, x_name = last_split (CHR ''/'') p, x_type = File,
            x_properties = [''path'' \<mapsto> str p], x_confidence = hundredths 85\<rparr>) (filepaths m)
   @ map (\<lambda>p. \<lparr>x_key = p, x_name = p, x_type = Person, x_properties = Map.empty,
            x_confidence = hundredths 50\<rparr>) (cap_phrases m)"

definition extracted :: "int \<Rightarrow> string \<Rightarrow> ('v, 'f) Extraction \<Rightarrow> ('v, 'f) Entity" where
  "extracted now source x =
     \<lparr>entity_id = [], entity_name = x_name x, entity_type = x_type x, properties = x_properties x,
      created_at = now, updated_at = now, confidence = x_confidence x, origin = source\<rparr>"

fun extract_loop ::
  "int \<Rightarrow> string \<Rightarrow> (nat \<Rightarrow> string) \<Rightarrow> string set \<Rightarrow> string list
     \<Rightarrow> ('v, 'f) KnowledgeGraph \<Rightarrow> ('v, 'f) Extraction list \<Rightarrow> string list \<times> ('v, 'f) KnowledgeGraph" where
  "extract_loop now source uuids seen ids g [] = (ids, g)"
| "extract_loop now source uuids seen ids g (x # xs) =
     (if x_key x \<in> seen then extract_loop now source uuids seen ids g xs
      else let (i, g) = add_entity (uuids (length ids)) (extracted now source x) g
           in extract_loop now source uuids (insert (x_key x) seen) (ids @ [i]) g xs)"

text \<open>\<open>hundredths\<close> makes the constant confidences, \<open>str\<close> a JSON string.\<close>

definition extract_entities_from_text ::
  "int \<Rightarrow> (nat \<Rightarrow> string) \<Rightarrow> (string \<Rightarrow> 'v) \<Rightarrow> (nat \<Rightarrow> 'f) \<Rightarrow> (string \<Rightarrow> TextMatches) \<Rightarrow> string
     \<Rightarrow> string \<Rightarrow> ('v, 'f) KnowledgeGraph \<Rightarrow> string list \<times> ('v, 'f) KnowledgeGraph" where
  "extract_entities_from_text now uuids str hundredths find_iter txt source g =
     extract_loop now source uuids {} [] g (candidates_of str hundredths (find_iter txt))"

section \<open>Summary and persistence\<close>

definition tally :: "('k \<rightharpoonup> nat) \<Rightarrow> 'k \<Rightarrow> ('k \<rightharpoonup> nat)" where
  "tally m k = m(k \<mapsto> (case m k of Some n \<Rightarrow> n | None \<Rightarrow> 0) + 1)"

record GraphSummary =
  entity_count :: nat
  relationship_count :: nat
  entity_types :: "string \<rightharpoonup> nat"
  relationship_types :: "string \<rightharpoonup> nat"
  most_connected :: "(string \<times> nat) list"

definition connection_count :: "('v, 'f) KnowledgeGraph \<Rightarrow> string \<rightharpoonup> nat" where
  "connection_count g =
     foldl (\<lambda>m r. tally (tally m (from_entity r)) (to_entity r)) Map.empty (relationships g)"

text \<open>\<open>ids\<close> and \<open>counted\<close> are the orders of the keys of the entities and of the counts.\<close>

definition summarize :: "string list \<Rightarrow> string list \<Rightarrow> ('v, 'f) KnowledgeGraph \<Rightarrow> GraphSummary" where
  "summarize ids counted g =
     \<lparr>entity_count = length (List.map_filter (entities g) ids),
      relationship_count = length (relationships g),
      entity_types = foldl (\<lambda>m e. tally m (show_entity_type (entity_type e))) Map.empty (List.map_filter (entities g) ids),
      relationship_types = foldl (\<lambda>m r. tally m (show_relation_type (relation_type r))) Map.empty (relationships g),
      most_connected =
        take 10 (sort_key (\<lambda>e. - int (snd e))
          (List.map_filter (\<lambda>i. case (connection_count g i, entities g i) of
               (Some n, Some e) \<Rightarrow> Some (entity_name e, n) | _ \<Rightarrow> None) counted))\<rparr>"

record ('v, 'f) SerializableGraph =
  saved_entities :: "('v, 'f) Entity list"
  saved_relationships :: "('v, 'f) Relationship list"

text \<open>What \<open>save\<close> writes and what \<open>load\<close> makes of it; \<open>ids\<close> is the order of the keys.\<close>

definition to_serializable :: "string list \<Rightarrow> ('v, 'f) KnowledgeGraph \<Rightarrow> ('v, 'f) SerializableGraph" where
  "to_serializable ids g =
     \<lparr>saved_entities = List.map_filter (entities g) ids, saved_relationships = relationships g\<rparr>"

definition from_serializable ::
  "(nat \<Rightarrow> string) \<Rightarrow> ('v, 'f) SerializableGraph \<Rightarrow> ('v, 'f) KnowledgeGraph" where
  "from_serializable uuids sg =
     foldl (\<lambda>g (n, r). snd (add_relationship (uuids (length (saved_entities sg) + n)) r g))
       (foldl (\<lambda>g (n, e). snd (add_entity (uuids n) e g)) graph_new (enumerate 0 (saved_entities sg)))
       (enumerate 0 (saved_relationships sg))"

section \<open>What the indexes hold\<close>

lemma listed_drop [simp]:
  "listed (drop_index m k i) k' = (if k' = k then filter (\<lambda>j. j \<noteq> i) (listed m k) else listed m k')"
  by (auto simp: listed_def drop_index_def Let_def filter_empty_conv split: option.split)

text \<open>An index by position: the places of the relationships with a given end, or no entry.\<close>

definition positions :: "('r \<Rightarrow> 'k) \<Rightarrow> 'r list \<Rightarrow> 'k \<Rightarrow> nat list" where
  "positions f rs k = filter (\<lambda>i. f (rs ! i) = k) [0..<length rs]"

definition index_of :: "('r \<Rightarrow> 'k) \<Rightarrow> 'r list \<Rightarrow> 'k \<rightharpoonup> nat list" where
  "index_of f rs k = (if positions f rs k = [] then None else Some (positions f rs k))"

lemma positions_snoc:
  "positions f (rs @ [r]) k = positions f rs k @ (if f r = k then [length rs] else [])"
proof -
  have "filter (\<lambda>i. f ((rs @ [r]) ! i) = k) [0..<length rs] = filter (\<lambda>i. f (rs ! i) = k) [0..<length rs]"
    by (rule filter_cong) (auto simp: nth_append)
  then show ?thesis by (simp add: positions_def)
qed

lemma index_of_snoc: "index_of f (rs @ [r]) = push_index (index_of f rs) (f r) (length rs)"
  by (rule ext) (simp add: index_of_def positions_snoc push_index_def)

lemma index_of_Nil: "index_of f [] = Map.empty"
  by (rule ext) (simp add: index_of_def positions_def)

definition relations_ok :: "('v, 'f) KnowledgeGraph \<Rightarrow> bool" where
  "relations_ok g \<longleftrightarrow> relations_from g = index_of from_entity (relationships g)
     \<and> relations_to g = index_of to_entity (relationships g)"

lemma rebuild_fold:
  "foldl (\<lambda>g (idx, rel). index_relationship idx rel g)
     (g\<lparr>relations_from := Map.empty, relations_to := Map.empty\<rparr>) (enumerate 0 rs)
   = g\<lparr>relations_from := index_of from_entity rs, relations_to := index_of to_entity rs\<rparr>"
  by (induction rs rule: rev_induct) (simp_all add: index_of_Nil enumerate_append_eq index_relationship_def index_of_snoc)

lemma rebuild_eq:
  "rebuild_relation_indexes g =
     g\<lparr>relations_from := index_of from_entity (relationships g), relations_to := index_of to_entity (relationships g)\<rparr>"
  by (simp add: rebuild_relation_indexes_def rebuild_fold)

lemma map_filter_cong: "\<forall>x\<in>set xs. f x = h x \<Longrightarrow> List.map_filter f xs = List.map_filter h xs"
  by (induction xs) (auto simp: List.map_filter_simps split: option.splits)

lemma map_filter_append: "List.map_filter f (xs @ ys) = List.map_filter f xs @ List.map_filter f ys"
  by (simp add: List.map_filter_def)

lemma related_index: "related g (index_of f (relationships g) k) = filter (\<lambda>r. f r = k) (relationships g)"
proof -
  have *: "List.map_filter (\<lambda>i. if i < length rs then Some (rs ! i) else None) (positions f rs k)
      = filter (\<lambda>r. f r = k) rs" for rs
  proof (induction rs rule: rev_induct)
    case Nil
    show ?case by (simp add: positions_def)
  next
    case (snoc r rs)
    have "List.map_filter (\<lambda>i. if i < length (rs @ [r]) then Some ((rs @ [r]) ! i) else None) (positions f rs k)
        = List.map_filter (\<lambda>i. if i < length rs then Some (rs ! i) else None) (positions f rs k)"
      by (rule map_filter_cong) (simp add: positions_def nth_append)
    then show ?case using snoc by (simp add: positions_snoc map_filter_append List.map_filter_simps)
  qed
  show ?thesis using * [of "relationships g"]
    by (cases "positions f (relationships g) k = []") (simp_all add: related_def index_of_def List.map_filter_simps)
qed

text \<open>An index by key: each entity is listed under its key, or exactly the entities of the key are
  listed, each once.\<close>

definition covers :: "('k \<rightharpoonup> string list) \<Rightarrow> (('v, 'f) Entity \<Rightarrow> 'k) \<Rightarrow> (string \<rightharpoonup> ('v, 'f) Entity) \<Rightarrow> bool" where
  "covers m key ents \<longleftrightarrow> (\<forall>i e. ents i = Some e \<longrightarrow> i \<in> set (listed m (key e)))"

definition lists :: "('k \<rightharpoonup> string list) \<Rightarrow> (('v, 'f) Entity \<Rightarrow> 'k) \<Rightarrow> (string \<rightharpoonup> ('v, 'f) Entity) \<Rightarrow> bool" where
  "lists m key ents \<longleftrightarrow>
     (\<forall>k. distinct (listed m k) \<and> set (listed m k) = {i. \<exists>e. ents i = Some e \<and> key e = k})"

named_theorems index_laws \<open>how the operations change an index\<close>

lemma covers_add [index_laws]:
  "covers m key ents \<Longrightarrow> key e = k \<Longrightarrow> covers (push_index m k i) key (ents(i \<mapsto> e))"
  unfolding covers_def by (simp, metis)

lemma covers_drop [index_laws]: "covers m key ents \<Longrightarrow> covers (drop_index m k i) key (ents(i := None))"
  by (auto simp: covers_def)

lemma covers_update [index_laws]:
  "covers m key ents \<Longrightarrow> ents i = Some e \<Longrightarrow> key e' = key e \<Longrightarrow> covers m key (ents(i \<mapsto> e'))"
  by (auto simp: covers_def)

lemma lists_add [index_laws]:
  "lists m key ents \<Longrightarrow> ents i = None \<Longrightarrow> key e = k \<Longrightarrow> lists (push_index m k i) key (ents(i \<mapsto> e))"
  by (auto simp: lists_def)

lemma lists_drop [index_laws]:
  "lists m key ents \<Longrightarrow> ents i = Some e \<Longrightarrow> key e = k \<Longrightarrow> lists (drop_index m k i) key (ents(i := None))"
  by (auto simp: lists_def)

lemma lists_update [index_laws]:
  "lists m key ents \<Longrightarrow> ents i = Some e \<Longrightarrow> key e' = key e \<Longrightarrow> lists m key (ents(i \<mapsto> e'))"
  by (auto simp: lists_def)

lemma entities_of_lists:
  assumes "lists m key (entities g)" "\<forall>i e. entities g i = Some e \<longrightarrow> entity_id e = i"
  shows "distinct (map entity_id (entities_of g (m k)))"
    "set (entities_of g (m k)) = {e. entities g (entity_id e) = Some e \<and> key e = k}"
proof -
  have e: "entities_of g (m k) = List.map_filter (entities g) (listed m k)"
    by (simp add: entities_of_def listed_def)
  have "map entity_id (List.map_filter (entities g) is) = is" if "set is \<subseteq> dom (entities g)" for "is"
    using that assms(2) by (induction "is") (auto simp: List.map_filter_simps)
  moreover have "set (listed m k) \<subseteq> dom (entities g)" "distinct (listed m k)"
    using assms(1) by (auto simp: lists_def)
  ultimately show "distinct (map entity_id (entities_of g (m k)))" by (simp add: e)
  show "set (entities_of g (m k)) = {e. entities g (entity_id e) = Some e \<and> key e = k}"
  proof -
    have "x \<in> set (List.map_filter (entities g) is) \<longleftrightarrow> (\<exists>i\<in>set is. entities g i = Some x)" for x "is"
      by (induction "is") (auto simp: List.map_filter_simps split: option.splits)
    then show ?thesis using assms unfolding e lists_def by (auto; metis)
  qed
qed

section \<open>Histories\<close>

datatype ('v, 'f) graph_event =
    AddEntity string "('v, 'f) Entity"
  | UpdateEntity int string "string \<rightharpoonup> 'v"
  | RemoveEntity string
  | AddRelationship string "('v, 'f) Relationship"
  | RemoveRelationship string
  | MergeEntity int string string
  | ExtractEntities int string "nat \<Rightarrow> string" "('v, 'f) Extraction list"

fun graph_step :: "('v, 'f) KnowledgeGraph \<Rightarrow> ('v, 'f) graph_event \<Rightarrow> ('v, 'f) KnowledgeGraph" where
  "graph_step g (AddEntity uuid e) = snd (add_entity uuid e g)"
| "graph_step g (UpdateEntity now i props) = snd (update_entity now i props g)"
| "graph_step g (RemoveEntity i) = snd (remove_entity i g)"
| "graph_step g (AddRelationship uuid r) = snd (add_relationship uuid r g)"
| "graph_step g (RemoveRelationship i) = snd (remove_relationship i g)"
| "graph_step g (MergeEntity now s t) = snd (merge_entity now s t g)"
| "graph_step g (ExtractEntities now source uuids xs) = snd (extract_loop now source uuids {} [] g xs)"

text \<open>The invariant of every history: the positional indexes are exact, entities are stored under
  their identifiers, and listed under their name and type.\<close>

definition indexed :: "('v, 'f) KnowledgeGraph \<Rightarrow> bool" where
  "indexed g \<longleftrightarrow> relations_ok g
     \<and> (\<forall>i e. entities g i = Some e \<longrightarrow> entity_id e = i)
     \<and> covers (entity_by_name g) (\<lambda>e. to_lowercase (entity_name e)) (entities g)
     \<and> covers (entity_by_type g) entity_type (entities g)"

text \<open>While no identifier is added twice, the indexes by name and type are exact too.\<close>

definition exact :: "('v, 'f) KnowledgeGraph \<Rightarrow> bool" where
  "exact g \<longleftrightarrow> indexed g \<and> lists (entity_by_name g) (\<lambda>e. to_lowercase (entity_name e)) (entities g)
     \<and> lists (entity_by_type g) entity_type (entities g)"

lemma exact_indexed: "exact g \<Longrightarrow> indexed g"
  by (simp add: exact_def)

lemma relations_ok_rebuild [simp]: "relations_ok (rebuild_relation_indexes g)"
  by (simp add: rebuild_eq relations_ok_def)

lemma rebuild_fields [simp]:
  "entities (rebuild_relation_indexes g) = entities g"
  "relationships (rebuild_relation_indexes g) = relationships g"
  "entity_by_name (rebuild_relation_indexes g) = entity_by_name g"
  "entity_by_type (rebuild_relation_indexes g) = entity_by_type g"
  by (simp_all add: rebuild_eq)

lemma relations_ok_add: "relations_ok g \<Longrightarrow> relations_ok (snd (add_relationship uuid r g))"
  by (simp add: relations_ok_def add_relationship_def Let_def index_relationship_def index_of_snoc)

lemma relations_ok_same:
  "relations_ok g \<Longrightarrow> relationships g' = relationships g \<Longrightarrow> relations_from g' = relations_from g
     \<Longrightarrow> relations_to g' = relations_to g \<Longrightarrow> relations_ok g'"
  by (simp add: relations_ok_def)

lemma indexed_new: "exact graph_new"
  by (simp add: exact_def indexed_def relations_ok_def graph_new_def index_of_Nil covers_def lists_def)

lemma indexed_add: "indexed g \<Longrightarrow> indexed (snd (add_entity uuid e g))"
  by (auto simp: indexed_def add_entity_def Let_def intro: index_laws elim: relations_ok_same)

lemma exact_add:
  "exact g \<Longrightarrow> entities g (if entity_id e = [] then uuid else entity_id e) = None
     \<Longrightarrow> exact (snd (add_entity uuid e g))"
  using indexed_add [of g uuid e]
  by (auto simp: exact_def add_entity_def Let_def intro: index_laws split: if_splits)

lemma indexed_update: "indexed g \<Longrightarrow> indexed (snd (update_entity now i props g))"
  by (auto simp: indexed_def update_entity_def intro: index_laws elim: relations_ok_same split: option.split)

lemma indexed_rebuild_forget:
  assumes "indexed g" "entities g i = Some e"
  shows "indexed (rebuild_relation_indexes (forget_entity i e g\<lparr>relationships := rs\<rparr>))"
  unfolding indexed_def
  by (intro conjI) (use assms in \<open>auto simp: indexed_def forget_entity_def intro: index_laws split: if_splits\<close>)

lemma exact_rebuild_forget:
  assumes "exact g" "entities g i = Some e"
  shows "exact (rebuild_relation_indexes (forget_entity i e g\<lparr>relationships := rs\<rparr>))"
  unfolding exact_def
  by (intro conjI indexed_rebuild_forget)
    (use assms in \<open>auto simp: exact_def forget_entity_def intro: index_laws\<close>)

lemma exact_update: "exact g \<Longrightarrow> exact (snd (update_entity now i props g))"
  using indexed_update [of g now i props]
  by (auto simp: exact_def update_entity_def intro: index_laws split: option.split)

lemma remove_entity_eq:
  "snd (remove_entity i g) = (case entities g i of
     None \<Rightarrow> g
   | Some e \<Rightarrow> rebuild_relation_indexes (forget_entity i e g
       \<lparr>relationships := filter (\<lambda>r. from_entity r \<noteq> i \<and> to_entity r \<noteq> i) (relationships g)\<rparr>))"
  by (simp add: remove_entity_def Let_def forget_entity_def split: option.split)

lemma remove_relationship_indexed:
  "indexed g \<Longrightarrow> indexed (snd (remove_relationship i g))" "exact g \<Longrightarrow> exact (snd (remove_relationship i g))"
proof -
  define rs where "rs = filter (\<lambda>r. relationship_id r \<noteq> i) (relationships g)"
  have same: "snd (remove_relationship i g) = g" if "\<not> length rs < length (relationships g)"
  proof -
    have "\<forall>r\<in>set (relationships g). relationship_id r \<noteq> i"
      using that length_filter_less [of _ "relationships g" "\<lambda>r. relationship_id r \<noteq> i"]
      unfolding rs_def by blast
    then have "filter (\<lambda>r. relationship_id r \<noteq> i) (relationships g) = relationships g"
      by (simp add: filter_id_conv)
    then show ?thesis by (simp add: remove_relationship_def Let_def)
  qed
  have new: "snd (remove_relationship i g) = rebuild_relation_indexes (g\<lparr>relationships := rs\<rparr>)"
    if "length rs < length (relationships g)"
    using that by (simp add: remove_relationship_def Let_def rs_def)
  have ix: "indexed (rebuild_relation_indexes (g\<lparr>relationships := rs\<rparr>))" if "indexed g"
    using that by (simp add: indexed_def)
  show "indexed g \<Longrightarrow> indexed (snd (remove_relationship i g))"
    by (cases "length rs < length (relationships g)") (simp_all add: same new ix)
  show "exact g \<Longrightarrow> exact (snd (remove_relationship i g))"
    by (cases "length rs < length (relationships g)") (simp_all add: same new ix exact_def)
qed

text \<open>A merge is an update of the target and then the removal of the source.\<close>

definition merged_target :: "int \<Rightarrow> ('v, 'f) Entity \<Rightarrow> ('v, 'f) Entity \<Rightarrow> ('v, 'f) Entity" where
  "merged_target now source target = target\<lparr>properties := properties source ++ properties target, updated_at := now\<rparr>"

lemma merge_entity_eq:
  assumes "s \<noteq> t" "entities g s = Some source" "entities g t = Some target"
  shows "snd (merge_entity now s t g) = rebuild_relation_indexes
     (forget_entity s source (g\<lparr>entities := (entities g)(t \<mapsto> merged_target now source target)\<rparr>)
       \<lparr>relationships := filter (\<lambda>r. \<not> (from_entity r = to_entity r \<and> from_entity r = t))
          (map (redirect s t) (relationships g))\<rparr>)"
proof -
  let ?ents = "(entities g)(t \<mapsto> merged_target now source target)"
    and ?rs = "filter (\<lambda>r. \<not> (from_entity r = to_entity r \<and> from_entity r = t)) (map (redirect s t) (relationships g))"
  have "snd (merge_entity now s t g)
      = rebuild_relation_indexes (forget_entity s source (g\<lparr>entities := ?ents, relationships := ?rs\<rparr>))"
    using assms by (simp only: merge_entity_def Let_def merged_target_def if_False option.case snd_conv)
  also have "forget_entity s source (g\<lparr>entities := ?ents, relationships := ?rs\<rparr>)
      = forget_entity s source (g\<lparr>entities := ?ents\<rparr>)\<lparr>relationships := ?rs\<rparr>"
    by (simp add: forget_entity_def)
  finally show ?thesis .
qed

lemma merge_entity_error:
  "s = t \<or> entities g s = None \<or> entities g t = None \<Longrightarrow> snd (merge_entity now s t g) = g"
  by (auto simp: merge_entity_def split: option.split)

lemma indexed_entities:
  "indexed g \<Longrightarrow> entities g t = Some e \<Longrightarrow> entity_id e' = t \<Longrightarrow> entity_name e' = entity_name e
     \<Longrightarrow> entity_type e' = entity_type e \<Longrightarrow> indexed (g\<lparr>entities := (entities g)(t \<mapsto> e')\<rparr>)"
  by (auto simp: indexed_def intro: index_laws elim: relations_ok_same)

lemma exact_entities:
  "exact g \<Longrightarrow> entities g t = Some e \<Longrightarrow> entity_id e' = t \<Longrightarrow> entity_name e' = entity_name e
     \<Longrightarrow> entity_type e' = entity_type e \<Longrightarrow> exact (g\<lparr>entities := (entities g)(t \<mapsto> e')\<rparr>)"
  using indexed_entities [of g t e e'] by (auto simp: exact_def intro: index_laws)

lemma merge_indexed:
  "indexed g \<Longrightarrow> indexed (snd (merge_entity now s t g))" "exact g \<Longrightarrow> exact (snd (merge_entity now s t g))"
proof -
  consider "s = t \<or> entities g s = None \<or> entities g t = None"
    | source target where "s \<noteq> t" "entities g s = Some source" "entities g t = Some target"
    by (cases "entities g s"; cases "entities g t") auto
  then have "(indexed g \<longrightarrow> indexed (snd (merge_entity now s t g))) \<and> (exact g \<longrightarrow> exact (snd (merge_entity now s t g)))"
  proof cases
    case 2
    define g' where "g' = g\<lparr>entities := (entities g)(t \<mapsto> merged_target now source target)\<rparr>"
    have src: "entities g' s = Some source" using 2 by (simp add: g'_def)
    have tid: "entity_id (merged_target now source target) = t" if "indexed g"
      using that 2(3) by (auto simp: indexed_def merged_target_def)
    then have "indexed g'" if "indexed g"
      unfolding g'_def using that by (intro indexed_entities [OF that 2(3)]) (simp_all add: merged_target_def)
    moreover have "exact g'" if "exact g"
      unfolding g'_def using that tid
      by (intro exact_entities [OF that 2(3)]) (simp_all add: merged_target_def exact_def)
    ultimately show ?thesis using indexed_rebuild_forget [OF _ src] exact_rebuild_forget [OF _ src]
      by (simp add: merge_entity_eq [OF 2] g'_def [symmetric])
  qed (simp add: merge_entity_error)
  then show "indexed g \<Longrightarrow> indexed (snd (merge_entity now s t g))"
    "exact g \<Longrightarrow> exact (snd (merge_entity now s t g))" by auto
qed

lemma indexed_extract: "indexed g \<Longrightarrow> indexed (snd (extract_loop now source uuids seen ids g xs))"
proof (induction now source uuids seen ids g xs rule: extract_loop.induct)
  case (2 now source uuids seen ids g x xs)
  obtain i g' where a: "add_entity (uuids (length ids)) (extracted now source x) g = (i, g')" by fastforce
  have "indexed g'" using indexed_add [OF 2(3), of "uuids (length ids)" "extracted now source x"] by (simp add: a)
  then show ?case using 2 by (simp add: a)
qed simp

lemma graph_step_indexed: "indexed g \<Longrightarrow> indexed (graph_step g e)"
proof (cases e)
  case (AddRelationship uuid r)
  assume g: "indexed g"
  have "relations_ok (snd (add_relationship uuid r g))" using g by (intro relations_ok_add) (simp add: indexed_def)
  then show ?thesis using g AddRelationship
    by (simp add: indexed_def add_relationship_def Let_def index_relationship_def)
qed (auto simp: indexed_add indexed_update remove_entity_eq indexed_rebuild_forget remove_relationship_indexed
    merge_indexed indexed_extract split: option.split)

interpretation knowledge: state_machine graph_step indexed
  by unfold_locales (rule graph_step_indexed)

lemma graph_run: "indexed (foldl graph_step graph_new es)"
  by (rule knowledge.run_inv) (rule exact_indexed [OF indexed_new])

section \<open>Fresh identifiers\<close>

definition new_id :: "string \<Rightarrow> ('v, 'f) Entity \<Rightarrow> string" where
  "new_id uuid e = (if entity_id e = [] then uuid else entity_id e)"

fun fresh_event :: "('v, 'f) KnowledgeGraph \<Rightarrow> ('v, 'f) graph_event \<Rightarrow> bool" where
  "fresh_event g (AddEntity uuid e) \<longleftrightarrow> entities g (new_id uuid e) = None"
| "fresh_event g (ExtractEntities now source uuids xs) \<longleftrightarrow>
     distinct (map uuids [0..<length xs]) \<and> (\<forall>n<length xs. entities g (uuids n) = None)"
| "fresh_event g _ \<longleftrightarrow> True"

fun fresh_run :: "('v, 'f) KnowledgeGraph \<Rightarrow> ('v, 'f) graph_event list \<Rightarrow> bool" where
  "fresh_run g [] \<longleftrightarrow> True"
| "fresh_run g (e # es) \<longleftrightarrow> fresh_event g e \<and> fresh_run (graph_step g e) es"

lemma add_entity_entities:
  "\<exists>e'. entities (snd (add_entity uuid e g)) = (entities g)(new_id uuid e \<mapsto> e')"
  by (rule exI [of _ "if entity_id e = [] then e\<lparr>entity_id := uuid\<rparr> else e"])
    (simp add: add_entity_def Let_def new_id_def)

lemma exact_add_relationship: "exact g \<Longrightarrow> exact (snd (add_relationship uuid r g))"
  using relations_ok_add [of g uuid r]
  by (simp add: exact_def indexed_def add_relationship_def Let_def index_relationship_def)

lemma exact_extract:
  assumes "exact g" "inj_on uuids {length ids..<length ids + length xs}"
    and "\<forall>n\<in>{length ids..<length ids + length xs}. entities g (uuids n) = None"
  shows "exact (snd (extract_loop now source uuids seen ids g xs))"
  using assms
proof (induction now source uuids seen ids g xs rule: extract_loop.induct)
  case (2 now source uuids seen ids g x xs)
  let ?i = "length ids"
  have more: "{?i..<?i + length xs} \<subseteq> {?i..<?i + length (x # xs)}" by auto
  show ?case
  proof (cases "x_key x \<in> seen")
    case True
    have "exact (snd (extract_loop now source uuids seen ids g xs))"
      by (rule 2(1) [OF True 2(3) inj_on_subset [OF 2(4) more]]) (use 2(5) in simp)
    then show ?thesis using True by simp
  next
    case False
    define g' where "g' = snd (add_entity (uuids ?i) (extracted now source x) g)"
    have add: "add_entity (uuids ?i) (extracted now source x) g = (uuids ?i, g')"
      by (simp add: g'_def add_entity_def extracted_def Let_def)
    have i: "entities g (uuids ?i) = None" using 2(5) by simp
    have "exact g'" unfolding g'_def using 2(3) i by (intro exact_add) (simp_all add: extracted_def)
    moreover obtain e' where e': "entities g' = (entities g)(uuids ?i \<mapsto> e')"
      using add_entity_entities [of "uuids ?i" "extracted now source x" g]
      by (auto simp: g'_def new_id_def extracted_def)
    moreover have "uuids n \<noteq> uuids ?i" if "n \<in> {Suc ?i..<Suc ?i + length xs}" for n
      using inj_onD [OF 2(4), of n ?i] that by auto
    moreover have "inj_on uuids {Suc ?i..<Suc ?i + length xs}" by (rule inj_on_subset [OF 2(4)]) auto
    ultimately have "exact (snd (extract_loop now source uuids (insert (x_key x) seen) (ids @ [uuids ?i]) g' xs))"
      using 2(5) by (intro 2(2) [OF False add [symmetric] refl]) simp_all
    then show ?thesis using False by (simp add: add)
  qed
qed simp

lemma exact_step: "exact g \<Longrightarrow> fresh_event g e \<Longrightarrow> exact (graph_step g e)"
proof (cases e)
  case (ExtractEntities now source uuids xs)
  assume "exact g" "fresh_event g e"
  then show ?thesis
    using ExtractEntities exact_extract [of g uuids "[]" xs] by (simp add: distinct_map atLeast0LessThan)
qed (auto simp: exact_add exact_update remove_entity_eq exact_rebuild_forget remove_relationship_indexed
    merge_indexed exact_add_relationship new_id_def split: option.split if_splits)

lemma exact_run: "exact g \<Longrightarrow> fresh_run g es \<Longrightarrow> exact (foldl graph_step g es)"
  by (induction es arbitrary: g) (auto intro: exact_step)

lemma find_entities_exact:
  assumes "exact g" "distinct order" "set order = dom (entity_by_name g)"
  shows "distinct (map entity_id (find_entities order g q))"
    "set (find_entities order g q) =
       {e. entities g (entity_id e) = Some e \<and> str_contains (to_lowercase (entity_name e)) (to_lowercase q)}"
proof -
  let ?key = "\<lambda>e. to_lowercase (entity_name e)"
  have l: "lists (entity_by_name g) ?key (entities g)" and ids: "\<forall>i e. entities g i = Some e \<longrightarrow> entity_id e = i"
    using assms(1) by (auto simp: exact_def indexed_def)
  note of_key = entities_of_lists [OF l ids]
  have "distinct (map entity_id (concat (map (\<lambda>k. entities_of g (entity_by_name g k)) ks)))" if "distinct ks" for ks
    using that
  proof (induction ks)
    case (Cons k ks)
    have "entity_id e \<noteq> entity_id e'"
      if "e \<in> set (entities_of g (entity_by_name g k))" "e' \<in> set (entities_of g (entity_by_name g k'))" "k' \<in> set ks"
      for e e' k'
    proof
      assume same: "entity_id e = entity_id e'"
      have e: "entities g (entity_id e) = Some e" "?key e = k" using that(1) unfolding of_key(2) by blast+
      have e': "entities g (entity_id e') = Some e'" "?key e' = k'" using that(2) unfolding of_key(2) by blast+
      have "Some e = Some e'" using e(1) e'(1) by (simp only: same)
      then have "k = k'" using e(2) e'(2) by simp
      then show False using that(3) Cons.prems by simp
    qed
    then have "entity_id ` set (entities_of g (entity_by_name g k))
        \<inter> entity_id ` set (concat (map (\<lambda>k. entities_of g (entity_by_name g k)) ks)) = {}"
      by fastforce
    then show ?case using Cons of_key(1) [of k] by simp
  qed simp
  then show "distinct (map entity_id (find_entities order g q))"
    unfolding find_entities_def by (simp add: assms(2))
  have "?key e \<in> set order" if "entities g (entity_id e) = Some e" for e
  proof -
    have "entity_id e \<in> set (listed (entity_by_name g) (?key e))" using l that by (auto simp: lists_def)
    then show ?thesis unfolding assms(3) by (cases "entity_by_name g (?key e)") (auto simp: listed_def)
  qed
  then show "set (find_entities order g q) =
      {e. entities g (entity_id e) = Some e \<and> str_contains (?key e) (to_lowercase q)}"
    unfolding find_entities_def by (auto simp: of_key(2))
qed

section \<open>A small graph\<close>

definition sample_entity :: "string \<Rightarrow> EntityType \<Rightarrow> (string, nat) Entity" where
  "sample_entity i ty =
     \<lparr>entity_id = i, entity_name = i, entity_type = ty, properties = [''key'' \<mapsto> i], created_at = 0,
      updated_at = 0, confidence = 1, origin = ''user''\<rparr>"

definition sample_relationship :: "string \<Rightarrow> string \<Rightarrow> string \<Rightarrow> (string, nat) Relationship" where
  "sample_relationship i x y =
     \<lparr>relationship_id = i, from_entity = x, to_entity = y, relation_type = RelatedTo, edge_properties = Map.empty,
      weight = 1, edge_created_at = 0, edge_origin = ''user''\<rparr>"

definition sample_events :: "(string, nat) graph_event list" where
  "sample_events =
     [AddEntity ''u'' (sample_entity ''a'' Person), AddEntity ''u'' (sample_entity ''b'' Tool),
      AddEntity ''u'' (sample_entity ''c'' Person), AddRelationship ''u'' (sample_relationship ''r'' ''a'' ''b''),
      AddRelationship ''u'' (sample_relationship ''s'' ''c'' ''b'')]"

definition sample_graph :: "(string, nat) KnowledgeGraph" where
  "sample_graph = foldl graph_step graph_new sample_events"

lemmas graph_eval =
  sample_graph_def sample_events_def sample_entity_def sample_relationship_def graph_new_def add_entity_def
  add_relationship_def index_relationship_def push_index_def Let_def

lemma lower_samples: "to_lowercase ''a'' = ''a''" "to_lowercase ''b'' = ''b''" "to_lowercase ''c'' = ''c''"
  by (simp_all add: to_lowercase_def lower_char_def Let_def)

lemma sample_entities:
  "entities sample_graph = [''a'' \<mapsto> sample_entity ''a'' Person, ''b'' \<mapsto> sample_entity ''b'' Tool,
     ''c'' \<mapsto> sample_entity ''c'' Person]"
  by (simp add: graph_eval)

lemma sample_relationships:
  "relationships sample_graph = [sample_relationship ''r'' ''a'' ''b'', sample_relationship ''s'' ''c'' ''b'']"
  by (simp add: graph_eval)

lemma sample_names: "dom (entity_by_name sample_graph) = {''a'', ''b'', ''c''}"
  by (auto simp: graph_eval lower_samples)

lemma sample_fresh: "fresh_run graph_new sample_events"
  by (simp add: graph_eval new_id_def)

section \<open>Lookups\<close>

text \<open>C17: lookups through the indexes are exact. In the graph that any sequence of operations leaves,
  as long as no identifier is added that is in use, a search by type or by part of a name finds the
  entities that match, each once, and the relationships from or to an entity are found in the order
  in which they were added.\<close>

theorem lookups_exact:
  assumes "g = foldl graph_step graph_new es" "fresh_run graph_new es"
    and "distinct order" "set order = dom (entity_by_name g)"
  shows "distinct (map entity_id (find_by_type g ty))
    \<and> set (find_by_type g ty) = {e. entities g (entity_id e) = Some e \<and> entity_type e = ty}
    \<and> distinct (map entity_id (find_entities order g q))
    \<and> set (find_entities order g q) =
       {e. entities g (entity_id e) = Some e \<and> str_contains (to_lowercase (entity_name e)) (to_lowercase q)}
    \<and> get_relationships_from g i = filter (\<lambda>r. from_entity r = i) (relationships g)
    \<and> get_relationships_to g i = filter (\<lambda>r. to_entity r = i) (relationships g)"
proof -
  have ex: "exact g" using exact_run [OF indexed_new assms(2)] assms(1) by simp
  then have l: "lists (entity_by_type g) entity_type (entities g)" and r: "relations_ok g"
    and ids: "\<forall>i e. entities g i = Some e \<longrightarrow> entity_id e = i"
    by (auto simp: exact_def indexed_def)
  show ?thesis
    using entities_of_lists [OF l ids] find_entities_exact [OF ex assms(3,4), of q] r
    by (simp add: find_by_type_def get_relationships_from_def get_relationships_to_def relations_ok_def related_index)
qed

theorem lookups_exact_witness:
  "set (find_by_type sample_graph Person) = {sample_entity ''a'' Person, sample_entity ''c'' Person}
   \<and> get_relationships_to sample_graph ''b''
     = [sample_relationship ''r'' ''a'' ''b'', sample_relationship ''s'' ''c'' ''b'']"
proof -
  note l = lookups_exact [OF sample_graph_def sample_fresh, of "[''a'', ''b'', ''c'']" Person "''a''" "''b''"]
  have "{e. entities sample_graph (entity_id e) = Some e \<and> entity_type e = Person}
      = {sample_entity ''a'' Person, sample_entity ''c'' Person}"
    by (auto simp: sample_entities sample_entity_def split: if_splits)
  moreover have "filter (\<lambda>r. to_entity r = ''b'') (relationships sample_graph)
      = [sample_relationship ''r'' ''a'' ''b'', sample_relationship ''s'' ''c'' ''b'']"
    by (simp add: sample_relationships sample_relationship_def)
  ultimately show ?thesis using l by (simp add: sample_names)
qed

section \<open>Saving and loading\<close>

lemma load_entities:
  assumes "distinct (map entity_id L)" "\<forall>e\<in>set L. entity_id e \<noteq> []"
  shows "exact (foldl (\<lambda>g (n, e). snd (add_entity (uuids n) e g)) graph_new (enumerate 0 L))
    \<and> entities (foldl (\<lambda>g (n, e). snd (add_entity (uuids n) e g)) graph_new (enumerate 0 L))
        = map_of (map (\<lambda>e. (entity_id e, e)) L)
    \<and> relationships (foldl (\<lambda>g (n, e). snd (add_entity (uuids n) e g)) graph_new (enumerate 0 L)) = []"
  using assms
proof (induction L rule: rev_induct)
  case Nil
  show ?case using indexed_new by (simp add: graph_new_def)
next
  case (snoc e L)
  define g where "g = foldl (\<lambda>g (n, e). snd (add_entity (uuids n) e g)) graph_new (enumerate 0 L)"
  have g: "exact g" "entities g = map_of (map (\<lambda>e. (entity_id e, e)) L)" "relationships g = []"
    using snoc by (simp_all add: g_def)
  have e: "entity_id e \<noteq> []" "map_of (map (\<lambda>e. (entity_id e, e)) L) (entity_id e) = None"
    using snoc.prems by (auto simp: map_of_eq_None_iff)
  have "map_of (map (\<lambda>e. (entity_id e, e)) L @ [(entity_id e, e)])
      = (map_of (map (\<lambda>e. (entity_id e, e)) L))(entity_id e \<mapsto> e)"
    using e(2) by (auto simp: map_add_def split: option.splits)
  moreover have "foldl (\<lambda>g (n, e). snd (add_entity (uuids n) e g)) graph_new (enumerate 0 (L @ [e]))
      = snd (add_entity (uuids (length L)) e g)"
    by (simp add: enumerate_append_eq g_def)
  ultimately show ?case
    using exact_add [OF g(1), of e "uuids (length L)"] e g(2,3) by (simp add: add_entity_def Let_def)
qed

lemma load_relationships:
  assumes "exact g" "relationships g = []" "\<forall>r\<in>set rs. relationship_id r \<noteq> []"
  shows "exact (foldl (\<lambda>g (n, r). snd (add_relationship (uuids n) r g)) g (enumerate 0 rs))
    \<and> entities (foldl (\<lambda>g (n, r). snd (add_relationship (uuids n) r g)) g (enumerate 0 rs)) = entities g
    \<and> relationships (foldl (\<lambda>g (n, r). snd (add_relationship (uuids n) r g)) g (enumerate 0 rs)) = rs"
  using assms(3)
proof (induction rs rule: rev_induct)
  case Nil
  show ?case using assms by simp
next
  case (snoc r rs)
  define h where "h = foldl (\<lambda>g (n, r). snd (add_relationship (uuids n) r g)) g (enumerate 0 rs)"
  have "foldl (\<lambda>g (n, r). snd (add_relationship (uuids n) r g)) g (enumerate 0 (rs @ [r]))
      = snd (add_relationship (uuids (length rs)) r h)"
    by (simp add: enumerate_append_eq h_def)
  moreover have "exact h" "entities h = entities g" "relationships h = rs"
    using snoc by (simp_all add: h_def)
  ultimately show ?case
    using exact_add_relationship [of h "uuids (length rs)" r] snoc.prems
    by (simp add: add_relationship_def Let_def index_relationship_def)
qed

lemma restrict_dom: "m |` dom m = m"
  by (rule ext) (simp add: restrict_map_def domIff)

lemma map_filter_keys:
  assumes "\<forall>i e. m i = Some e \<longrightarrow> entity_id e = i" "set ids \<subseteq> dom m"
  shows "map entity_id (List.map_filter m ids) = ids" "map_of (map (\<lambda>e. (entity_id e, e)) (List.map_filter m ids)) = m |` set ids"
  using assms(2)
proof (induction ids)
  case (Cons i ids)
  case 1
  show ?case using Cons(1) 1 assms(1) by (auto simp: List.map_filter_simps)
  case 2
  show ?case using Cons(2) 2 assms(1) by (auto simp: List.map_filter_simps restrict_map_insert)
qed (simp_all add: List.map_filter_simps)

text \<open>Saving and loading. A graph that any sequence of operations leaves is loaded with the same
  entities, relationships and positional indexes, whatever the order in which the entities were
  written, and with exact indexes by name and type, when no identifier is empty.\<close>

lemma save_load_graph:
  assumes "g = foldl graph_step graph_new es" "distinct ids" "set ids = dom (entities g)"
    and "entities g [] = None" "\<forall>r\<in>set (relationships g). relationship_id r \<noteq> []"
  shows "entities (from_serializable uuids (to_serializable ids g)) = entities g
    \<and> relationships (from_serializable uuids (to_serializable ids g)) = relationships g
    \<and> relations_from (from_serializable uuids (to_serializable ids g)) = relations_from g
    \<and> relations_to (from_serializable uuids (to_serializable ids g)) = relations_to g
    \<and> exact (from_serializable uuids (to_serializable ids g))"
proof -
  have ix: "indexed g" unfolding assms(1) by (rule graph_run)
  then have keys: "\<forall>i e. entities g i = Some e \<longrightarrow> entity_id e = i" by (simp add: indexed_def)
  note L = map_filter_keys [OF keys, of ids]
  have "entity_id e \<noteq> []" if "e \<in> set (List.map_filter (entities g) ids)" for e
  proof -
    have "entity_id e \<in> set ids" using that L(1) assms(3) by (metis image_eqI list.set_map order_refl)
    then show ?thesis using assms(3,4) by auto
  qed
  then have le: "exact (foldl (\<lambda>g (n, e). snd (add_entity (uuids n) e g)) graph_new (enumerate 0 (List.map_filter (entities g) ids)))"
    "entities (foldl (\<lambda>g (n, e). snd (add_entity (uuids n) e g)) graph_new (enumerate 0 (List.map_filter (entities g) ids))) = entities g"
    "relationships (foldl (\<lambda>g (n, e). snd (add_entity (uuids n) e g)) graph_new (enumerate 0 (List.map_filter (entities g) ids))) = []"
    using load_entities [of "List.map_filter (entities g) ids" uuids] L assms(2,3) by (simp_all add: restrict_dom)
  define h where "h = from_serializable uuids (to_serializable ids g)"
  have h: "exact h" "entities h = entities g" "relationships h = relationships g"
    using load_relationships [OF le(1,3) assms(5), of "\<lambda>n. uuids (length (List.map_filter (entities g) ids) + n)"]
    by (simp_all add: h_def from_serializable_def to_serializable_def le(2))
  then have "relations_ok h" by (simp add: exact_def indexed_def)
  then show ?thesis using h ix unfolding h_def by (simp add: indexed_def relations_ok_def)
qed

lemma save_load_graph_witness:
  "entities (from_serializable (\<lambda>_. ''u'') (to_serializable [''c'', ''a'', ''b''] sample_graph)) ''c''
     = Some (sample_entity ''c'' Person)
   \<and> relationships (from_serializable (\<lambda>_. ''u'') (to_serializable [''c'', ''a'', ''b''] sample_graph))
     = [sample_relationship ''r'' ''a'' ''b'', sample_relationship ''s'' ''c'' ''b'']"
proof -
  have "set [''c'', ''a'', ''b''] = dom (entities sample_graph)" by (auto simp: sample_entities)
  from save_load_graph [OF sample_graph_def _ this, of "\<lambda>_. ''u''"] show ?thesis
    by (simp add: sample_entities sample_relationships) (simp add: sample_relationship_def)
qed

text \<open>An entity added again under its identifier is listed twice by type, and is still found by its
  old name.\<close>

lemma added_twice:
  "let g = foldl graph_step sample_graph [AddEntity ''u'' ((sample_entity ''a'' Person)\<lparr>entity_name := ''b''\<rparr>)]
   in map entity_id (find_by_type g Person) = [''a'', ''c'', ''a'']
     \<and> map entity_name (find_entities [''a''] g ''a'') = [''b'']"
  by (simp add: graph_eval lower_samples find_by_type_def find_entities_def entities_of_def str_contains_def
      List.map_filter_simps)

end
