(* ===== verification/GraphSearch.thy ===== *)
theory GraphSearch
  imports RustStd
begin

text \<open>
  Breadth-first search over an adjacency function: walks, the vertices within a number of steps,
  and the invariant of a queue that holds the vertices of one distance and then those of the
  next. The traversals of \<open>KnowledgeGraph\<close> are verified against it.
\<close>

section \<open>Walks\<close>

text \<open>A walk is a list of vertices, all but the first of them allowed by \<open>ok\<close>.\<close>

fun walk :: "('a \<Rightarrow> 'a list) \<Rightarrow> ('a \<Rightarrow> bool) \<Rightarrow> 'a list \<Rightarrow> bool" where
  "walk adj ok [] \<longleftrightarrow> False"
| "walk adj ok [x] \<longleftrightarrow> True"
| "walk adj ok (x # y # p) \<longleftrightarrow> y \<in> set (adj x) \<and> ok y \<and> walk adj ok (y # p)"

lemma walk_snoc: "walk adj ok (p @ [x]) \<Longrightarrow> y \<in> set (adj x) \<Longrightarrow> ok y \<Longrightarrow> walk adj ok (p @ [x, y])"
  by (induction adj ok p rule: walk.induct) (auto split: list.splits)

lemma walk_append: "walk adj ok (p @ [x]) \<Longrightarrow> walk adj ok (x # q) \<Longrightarrow> walk adj ok (p @ x # q)"
  by (induction adj ok p rule: walk.induct) auto

lemma walk_butlast: "walk adj ok (p @ [x, y]) \<Longrightarrow> walk adj ok (p @ [x]) \<and> y \<in> set (adj x) \<and> ok y"
proof (induction p)
  case (Cons a p)
  then show ?case by (cases p) auto
qed simp

lemma walk_iff:
  "walk adj ok p \<longleftrightarrow> p \<noteq> [] \<and> successively (\<lambda>x y. y \<in> set (adj x)) p \<and> (\<forall>y\<in>set (tl p). ok y)"
  by (induction adj ok p rule: walk.induct) auto

primrec within :: "('a \<Rightarrow> 'a list) \<Rightarrow> ('a \<Rightarrow> bool) \<Rightarrow> 'a \<Rightarrow> nat \<Rightarrow> 'a set" where
  "within adj ok r 0 = {r}"
| "within adj ok r (Suc n) = within adj ok r n \<union> {y. ok y \<and> (\<exists>x\<in>within adj ok r n. y \<in> set (adj x))}"

lemma within_mono: "m \<le> n \<Longrightarrow> within adj ok r m \<subseteq> within adj ok r n"
  by (rule lift_Suc_mono_le [of "within adj ok r"]) auto

lemma within_walk: "y \<in> within adj ok r n \<longleftrightarrow> (\<exists>p. walk adj ok p \<and> hd p = r \<and> last p = y \<and> length p \<le> Suc n)"
proof (induction n arbitrary: y)
  case 0
  have "\<exists>x. p = [x]" if "walk adj ok p" "length p \<le> Suc 0" for p
    using that by (cases "(adj, ok, p)" rule: walk.cases) auto
  then show ?case by (fastforce intro: exI [of _ "[r]"])
next
  case (Suc n)
  show ?case
  proof
    assume "y \<in> within adj ok r (Suc n)"
    then consider "y \<in> within adj ok r n" | x where "x \<in> within adj ok r n" "y \<in> set (adj x)" "ok y" by auto
    then show "\<exists>p. walk adj ok p \<and> hd p = r \<and> last p = y \<and> length p \<le> Suc (Suc n)"
    proof cases
      case 1
      then show ?thesis using Suc.IH [of y] le_SucI by blast
    next
      case 2
      then obtain p where p: "walk adj ok p" "hd p = r" "last p = x" "length p \<le> Suc n"
        using Suc.IH [of x] by blast
      then have "p \<noteq> []" by auto
      then obtain q where q: "p = q @ [x]" using p(3) by (metis append_butlast_last_id)
      have "walk adj ok (p @ [y])" using walk_snoc [of adj ok q x y] p(1) 2 by (simp add: q)
      then show ?thesis using p \<open>p \<noteq> []\<close> by (intro exI [of _ "p @ [y]"]) auto
    qed
  next
    assume "\<exists>p. walk adj ok p \<and> hd p = r \<and> last p = y \<and> length p \<le> Suc (Suc n)"
    then obtain p where p: "walk adj ok p" "hd p = r" "last p = y" "length p \<le> Suc (Suc n)" by blast
    show "y \<in> within adj ok r (Suc n)"
    proof (cases "length p \<le> Suc n")
      case True
      then show ?thesis using Suc.IH [of y] p by auto
    next
      case False
      then have len: "length p = Suc (Suc n)" using p(4) by simp
      obtain q x z where q: "p = q @ [x, z]"
      proof -
        from len obtain p1 z where 1: "p = p1 @ [z]" "length p1 = Suc n" by (metis length_Suc_conv_rev)
        from 1(2) obtain q x where "p1 = q @ [x]" by (metis length_Suc_conv_rev)
        then show ?thesis using 1(1) by (intro that [of q x z]) simp
      qed
      have *: "walk adj ok (q @ [x])" "y \<in> set (adj x)" "ok y"
        using walk_butlast [of adj ok q x z] p(1,3) by (auto simp: q)
      have "hd (q @ [x]) = r" using p(2) by (cases q) (auto simp: q)
      then have "x \<in> within adj ok r n"
        using Suc.IH [of x] *(1) len by (auto simp: q intro!: exI [of _ "q @ [x]"])
      then show ?thesis using *(2,3) by auto
    qed
  qed
qed

text \<open>A set that holds the root and the allowed neighbours of its elements holds every walk from it.\<close>

lemma within_closed:
  assumes "r \<in> D" "\<And>x y. x \<in> D \<Longrightarrow> y \<in> set (adj x) \<Longrightarrow> ok y \<Longrightarrow> y \<in> D"
  shows "within adj ok r n \<subseteq> D"
  by (induction n) (use assms in auto)

section \<open>The queue of a breadth-first search\<close>

text \<open>
  The search has discovered \<open>D\<close> and marked \<open>V\<close> (which may hold vertices that are not allowed). Its
  queue is \<open>as\<close>, vertices at distance \<open>d\<close> that are still to be expanded, and then \<open>bs\<close>, vertices
  discovered at distance \<open>d + 1\<close>.
\<close>

definition levels ::
  "('a \<Rightarrow> 'a list) \<Rightarrow> ('a \<Rightarrow> bool) \<Rightarrow> 'a \<Rightarrow> nat \<Rightarrow> 'a set \<Rightarrow> 'a list \<Rightarrow> 'a list \<Rightarrow> 'a set \<Rightarrow> bool" where
  "levels adj ok r d V as bs D \<longleftrightarrow>
     (\<forall>v. ok v \<or> v = r \<longrightarrow> (v \<in> V \<longleftrightarrow> v \<in> D))
     \<and> within adj ok r d \<subseteq> D \<and> set as \<subseteq> within adj ok r d \<and> D = within adj ok r d \<union> set bs
     \<and> set bs \<subseteq> within adj ok r (Suc d)
     \<and> (\<forall>x\<in>within adj ok r d. x \<notin> set as \<longrightarrow> (\<forall>y\<in>set (adj x). ok y \<longrightarrow> y \<in> D))"

lemma levels_init: "levels adj ok r 0 {r} [r] [] {r}"
  by (auto simp: levels_def)

lemma levels_expand:
  assumes "levels adj ok r d V (a # as) bs D" "set ns = {y \<in> set (adj a). ok y \<and> y \<notin> V}"
    "V \<union> {y \<in> set (adj a). ok y} \<subseteq> V'" "V' \<subseteq> V \<union> set (adj a)"
  shows "levels adj ok r d V' as (bs @ ns) (D \<union> set ns)"
proof -
  have a: "a \<in> within adj ok r d" using assms(1) by (simp add: levels_def)
  have r: "r \<in> D" using assms(1) within_mono [of 0 d adj ok r] by (auto simp: levels_def)
  have marks: "v \<in> V \<longleftrightarrow> v \<in> D" if "ok v \<or> v = r" for v using assms(1) that by (auto simp: levels_def)
  have new: "set ns \<subseteq> within adj ok r (Suc d)" using a assms(2) by auto
  have "v \<in> V' \<longleftrightarrow> v \<in> D \<union> set ns" if v: "ok v \<or> v = r" for v
    using marks [OF v] assms(2-4) v r marks [of r] by blast
  moreover have "y \<in> D \<union> set ns" if "x \<in> within adj ok r d" "x \<notin> set as" "y \<in> set (adj x)" "ok y" for x y
    using that assms(1,2) marks [of y] by (cases "x = a") (auto simp: levels_def)
  ultimately show ?thesis using assms(1) new unfolding levels_def by auto
qed

lemma levels_shift:
  assumes "levels adj ok r d V [] bs D" shows "levels adj ok r (Suc d) V bs [] D"
proof -
  have D: "D = within adj ok r (Suc d)"
    using assms unfolding levels_def by auto
  have "y \<in> within adj ok r (Suc (Suc d))" if "x \<in> within adj ok r (Suc d)" "y \<in> set (adj x)" "ok y" for x y
    using that by auto
  moreover have "\<forall>y\<in>set (adj x). ok y \<longrightarrow> y \<in> D" if "x \<in> within adj ok r (Suc d)" "x \<notin> set bs" for x
  proof -
    have "x \<in> within adj ok r d" using that assms by (auto simp: levels_def)
    then show ?thesis using assms by (auto simp: levels_def)
  qed
  ultimately show ?thesis using assms unfolding levels_def D by auto
qed

lemma levels_stop: "levels adj ok r d V as [] D \<Longrightarrow> D = within adj ok r d"
  by (auto simp: levels_def)

lemma levels_done:
  assumes "levels adj ok r d V [] [] D" shows "within adj ok r n \<subseteq> D"
proof (rule within_closed)
  show "r \<in> D" using assms within_mono [of 0 d adj ok r] by (auto simp: levels_def)
  show "y \<in> D" if "x \<in> D" "y \<in> set (adj x)" "ok y" for x y
    using assms that by (auto simp: levels_def)
qed

text \<open>The neighbours a search adds to its queue: each at its first occurrence, if it is not marked.\<close>

fun fresh :: "('a \<Rightarrow> bool) \<Rightarrow> 'a set \<Rightarrow> 'a list \<Rightarrow> 'a list" where
  "fresh ok V [] = []"
| "fresh ok V (n # ns) =
     (if n \<in> V then fresh ok V ns
      else if ok n then n # fresh ok (insert n V) ns else fresh ok (insert n V) ns)"

lemma set_fresh: "set (fresh ok V ns) = {y \<in> set ns. ok y \<and> y \<notin> V}"
  by (induction ok V ns rule: fresh.induct) auto

lemma distinct_fresh: "distinct (fresh ok V ns)"
  by (induction ok V ns rule: fresh.induct) (auto simp: set_fresh)

lemma levels_visit:
  "levels adj ok r d V (a # as) bs D
     \<Longrightarrow> levels adj ok r d (V \<union> set (adj a)) as (bs @ fresh ok V (adj a)) (D \<union> set (fresh ok V (adj a)))"
  by (rule levels_expand) (auto simp: set_fresh)

text \<open>Whenever the queue is not empty it can be read with a first vertex at the current distance.\<close>

lemma levels_head:
  assumes "levels adj ok r d V as bs D" "as @ bs \<noteq> []"
  obtains a as' bs' d' where "levels adj ok r d' V (a # as') bs' D" "as @ bs = a # as' @ bs'"
    "map (\<lambda>v. (v, d)) as @ map (\<lambda>v. (v, Suc d)) bs
      = (a, d') # map (\<lambda>v. (v, d')) as' @ map (\<lambda>v. (v, Suc d')) bs'"
    "d' = d \<or> d' = Suc d \<and> bs \<noteq> [] \<and> bs' = []" "bs = [] \<longrightarrow> bs' = []"
proof (cases as)
  case Nil
  with assms levels_shift obtain b bs1 where b: "bs = b # bs1" "levels adj ok r (Suc d) V (b # bs1) [] D"
    by (cases bs) (auto intro: levels_shift)
  show ?thesis by (rule that [OF b(2)]) (simp_all add: Nil b(1))
next
  case (Cons a as1)
  then show ?thesis using that [of d a as1 bs] assms(1) by simp
qed

text \<open>Symmetric adjacency: walks turn around.\<close>

locale undirected =
  fixes adj :: "'a \<Rightarrow> 'a list"
  assumes sym: "y \<in> set (adj x) \<longleftrightarrow> x \<in> set (adj y)"
begin

lemma walk_rev: "walk adj ok p \<Longrightarrow> ok (hd p) \<Longrightarrow> walk adj ok (rev p)"
proof (induction p)
  case (Cons x p)
  show ?case
  proof (cases p)
    case (Cons y q)
    then have "walk adj ok (rev q @ [y])" "x \<in> set (adj y)" "ok x"
      using Cons.prems Cons.IH sym [of x y] by auto
    then show ?thesis using walk_snoc [of adj ok "rev q" y x] Cons by simp
  qed simp
qed simp

lemma within_sym:
  assumes "ok x" "y \<in> within adj ok x n" shows "x \<in> within adj ok y n"
proof -
  obtain p where p: "walk adj ok p" "hd p = x" "last p = y" "length p \<le> Suc n"
    using assms(2) by (auto simp: within_walk)
  then have "walk adj ok (rev p)" "p \<noteq> []" using walk_rev [of ok p] assms(1) by auto
  then show ?thesis using p unfolding within_walk by (intro exI [of _ "rev p"]) (simp add: hd_rev last_rev)
qed

end

end
