(* ===== verification/GraphQueries.thy ===== *)
theory GraphQueries
  imports KnowledgeGraph GraphSearch
begin

text \<open>
  \<open>argentor-memory/src/knowledge_graph.rs\<close>, the traversals: the neighbours of an entity up to a depth,
  a shortest path, the connected component, and the context text. Each loop over a queue is a
  recursion whose measure is twice the number of unmarked ends of relationships plus the length of
  the queue.
\<close>

section \<open>The traversals\<close>

definition adjacent_ids :: "('v, 'f) KnowledgeGraph \<Rightarrow> string \<Rightarrow> string list" where
  "adjacent_ids g i =
     map to_entity (get_relationships_from g i) @ map from_entity (get_relationships_to g i)"

definition ends :: "('v, 'f) KnowledgeGraph \<Rightarrow> string set" where
  "ends g = from_entity ` set (relationships g) \<union> to_entity ` set (relationships g)"

lemma finite_ends [simp]: "finite (ends g)"
  by (simp add: ends_def)

lemma set_related: "set (related g idxs) \<subseteq> set (relationships g)"
  by (auto simp: related_def List.map_filter_def split: if_splits)

lemma adjacent_ends: "set (adjacent_ids g i) \<subseteq> ends g"
  using set_related unfolding adjacent_ids_def get_relationships_from_def get_relationships_to_def ends_def
  by fastforce

definition known :: "('v, 'f) KnowledgeGraph \<Rightarrow> string \<Rightarrow> bool" where
  "known g i \<longleftrightarrow> entities g i \<noteq> None"

text \<open>One pass of the inner loops of \<open>neighbors\<close>: outgoing edges and then incoming ones.\<close>

definition visit_at ::
  "('v, 'f) KnowledgeGraph \<Rightarrow> nat \<Rightarrow> string set \<times> (string \<times> nat) list \<times> ('v, 'f) Entity list \<Rightarrow> string
     \<Rightarrow> string set \<times> (string \<times> nat) list \<times> ('v, 'f) Entity list" where
  "visit_at g d st neighbor =
     (let (visited, queue, result) = st
      in if neighbor \<in> visited then st
         else case entities g neighbor of
                Some entity \<Rightarrow> (insert neighbor visited, queue @ [(neighbor, d + 1)], result @ [entity])
              | None \<Rightarrow> (insert neighbor visited, queue, result))"

lemma foldl_visit_at:
  "foldl (visit_at g d) (visited, queue, result) ns =
     (visited \<union> set ns, queue @ map (\<lambda>n. (n, d + 1)) (fresh (known g) visited ns),
      result @ map (\<lambda>n. the (entities g n)) (fresh (known g) visited ns))"
  by (induction ns arbitrary: visited queue result) (auto simp: visit_at_def known_def)

lemma length_fresh_le:
  assumes "set ns \<subseteq> ends g"
  shows "length (fresh ok V ns) + card (ends g - (V \<union> set ns)) \<le> card (ends g - V)"
proof -
  have "length (fresh ok V ns) = card (set (fresh ok V ns))"
    by (simp add: distinct_card [OF distinct_fresh])
  also have "\<dots> \<le> card (set ns - V)" by (rule card_mono) (auto simp: set_fresh)
  also have "\<dots> + card (ends g - (V \<union> set ns)) = card (ends g - V)"
    using assms by (subst card_Un_disjoint [symmetric]) (auto intro: arg_cong [where f = card])
  finally show ?thesis by simp
qed

function neighbors_loop ::
  "('v, 'f) KnowledgeGraph \<Rightarrow> nat \<Rightarrow> string set \<Rightarrow> (string \<times> nat) list \<Rightarrow> ('v, 'f) Entity list
     \<Rightarrow> ('v, 'f) Entity list" where
  "neighbors_loop g depth visited [] result = result"
| "neighbors_loop g depth visited ((current, d) # queue) result =
     (if d \<ge> depth then neighbors_loop g depth visited queue result
      else case foldl (visit_at g d) (visited, queue, result) (adjacent_ids g current) of
             (visited, queue, result) \<Rightarrow> neighbors_loop g depth visited queue result)"
  by pat_completeness auto
termination
proof (relation "measure (\<lambda>(g, depth, visited, queue, result). 2 * card (ends g - visited) + length queue)",
    goal_cases)
  case (3 g depth visited current d queue result visited' rest queue' result')
  then show ?case
    using length_fresh_le [OF adjacent_ends [of g current], of "known g" visited]
    by (auto simp: foldl_visit_at)
qed auto

definition neighbors :: "('v, 'f) KnowledgeGraph \<Rightarrow> string \<Rightarrow> nat \<Rightarrow> ('v, 'f) Entity list" where
  "neighbors g i depth =
     (if entities g i = None then [] else neighbors_loop g depth {i} [(i, 0)] [])"

text \<open>The inner loop of \<open>shortest_path\<close> returns as soon as it meets the goal.\<close>

fun extend_path ::
  "string \<Rightarrow> string list \<Rightarrow> string set \<Rightarrow> string list list \<Rightarrow> string list
     \<Rightarrow> string list + (string set \<times> string list list)" where
  "extend_path to path visited queue [] = Inr (visited, queue)"
| "extend_path to path visited queue (neighbor # ns) =
     (if neighbor = to then Inl (path @ [neighbor])
      else if neighbor \<in> visited then extend_path to path visited queue ns
      else extend_path to path (insert neighbor visited) (queue @ [path @ [neighbor]]) ns)"

lemma extend_path_eq:
  "extend_path to path visited queue ns =
     (if to \<in> set ns then Inl (path @ [to])
      else Inr (visited \<union> set ns, queue @ map (\<lambda>n. path @ [n]) (fresh (\<lambda>_. True) visited ns)))"
  by (induction to path visited queue ns rule: extend_path.induct) auto

function path_search ::
  "('v, 'f) KnowledgeGraph \<Rightarrow> string \<Rightarrow> string set \<Rightarrow> string list list \<Rightarrow> string list option" where
  "path_search g to visited [] = None"
| "path_search g to visited (path # queue) =
     (if path = [] then path_search g to visited queue
      else case extend_path to path visited queue (adjacent_ids g (last path)) of
             Inl full \<Rightarrow> Some full
           | Inr (visited, queue) \<Rightarrow> path_search g to visited queue)"
  by pat_completeness auto
termination
proof (relation "measure (\<lambda>(g, to, visited, queue). 2 * card (ends g - visited) + length queue)", goal_cases)
  case (3 g to visited path queue p visited' queue')
  then show ?case
    using length_fresh_le [OF adjacent_ends [of g "last path"], of "\<lambda>_. True" visited]
    by (auto simp: extend_path_eq split: if_splits)
qed auto

definition shortest_path :: "('v, 'f) KnowledgeGraph \<Rightarrow> string \<Rightarrow> string \<Rightarrow> string list option" where
  "shortest_path g from to =
     (if from = to then Some [from]
      else if entities g from = None \<or> entities g to = None then None
      else path_search g to {from} [[from]])"

definition visit ::
  "('v, 'f) KnowledgeGraph \<Rightarrow> string set \<times> string list \<times> ('v, 'f) Entity list \<Rightarrow> string
     \<Rightarrow> string set \<times> string list \<times> ('v, 'f) Entity list" where
  "visit g st neighbor =
     (let (visited, queue, result) = st
      in if neighbor \<in> visited then st
         else case entities g neighbor of
                Some entity \<Rightarrow> (insert neighbor visited, queue @ [neighbor], result @ [entity])
              | None \<Rightarrow> (insert neighbor visited, queue, result))"

lemma foldl_visit:
  "foldl (visit g) (visited, queue, result) ns =
     (visited \<union> set ns, queue @ fresh (known g) visited ns,
      result @ map (\<lambda>n. the (entities g n)) (fresh (known g) visited ns))"
  by (induction ns arbitrary: visited queue result) (auto simp: visit_def known_def)

function component_loop ::
  "('v, 'f) KnowledgeGraph \<Rightarrow> string set \<Rightarrow> string list \<Rightarrow> ('v, 'f) Entity list \<Rightarrow> ('v, 'f) Entity list" where
  "component_loop g visited [] result = result"
| "component_loop g visited (current # queue) result =
     (case foldl (visit g) (visited, queue, result) (adjacent_ids g current) of
        (visited, queue, result) \<Rightarrow> component_loop g visited queue result)"
  by pat_completeness auto
termination
proof (relation "measure (\<lambda>(g, visited, queue, result). 2 * card (ends g - visited) + length queue)", goal_cases)
  case (2 g visited current queue result visited' rest queue' result')
  then show ?case
    using length_fresh_le [OF adjacent_ends [of g current], of "known g" visited]
    by (auto simp: foldl_visit)
qed auto

definition connected_component :: "('v, 'f) KnowledgeGraph \<Rightarrow> string \<Rightarrow> ('v, 'f) Entity list" where
  "connected_component g i =
     (case entities g i of None \<Rightarrow> [] | Some e \<Rightarrow> component_loop g {i} [i] [e])"

section \<open>The traversals are breadth-first searches\<close>

definition linked :: "('v, 'f) KnowledgeGraph \<Rightarrow> string \<Rightarrow> string \<Rightarrow> bool" where
  "linked g x y \<longleftrightarrow> (\<exists>r\<in>set (relationships g). (from_entity r, to_entity r) \<in> {(x, y), (y, x)})"

lemma set_adjacent: "relations_ok g \<Longrightarrow> set (adjacent_ids g x) = {y. linked g x y}"
  unfolding adjacent_ids_def get_relationships_from_def get_relationships_to_def relations_ok_def
  by (fastforce simp: related_index linked_def)

text \<open>The entities a search has put into its result, by their identifiers.\<close>

definition found :: "('v, 'f) KnowledgeGraph \<Rightarrow> string list \<Rightarrow> ('v, 'f) Entity list" where
  "found g ids = map (\<lambda>i. the (entities g i)) ids"

lemma found_append: "found g (ks @ js) = found g ks @ found g js"
  by (simp add: found_def)

lemma found_ids:
  assumes "indexed g" "\<forall>i\<in>set ks. known g i" shows "map entity_id (found g ks) = ks"
proof -
  have "entity_id (the (entities g i)) = i" if "i \<in> set ks" for i
    using assms that by (force simp: indexed_def known_def)
  then show ?thesis by (simp add: found_def map_idI)
qed

lemma found_member:
  assumes "indexed g" "\<forall>j\<in>set ks. known g j"
  shows "e \<in> set (found g ks) \<longleftrightarrow> entities g (entity_id e) = Some e \<and> entity_id e \<in> set ks"
proof
  assume "e \<in> set (found g ks)"
  then obtain j where j: "j \<in> set ks" "e = the (entities g j)" by (auto simp: found_def)
  then have "entities g j = Some e" using assms(2) by (auto simp: known_def)
  moreover from this have "entity_id e = j" using assms(1) by (simp add: indexed_def)
  ultimately show "entities g (entity_id e) = Some e \<and> entity_id e \<in> set ks" using j(1) by simp
next
  assume "entities g (entity_id e) = Some e \<and> entity_id e \<in> set ks"
  then show "e \<in> set (found g ks)" by (force simp: found_def)
qed

lemma neighbors_skip: "\<forall>(v, d)\<in>set queue. d \<ge> depth \<Longrightarrow> neighbors_loop g depth visited queue result = result"
  by (induction g depth visited queue result rule: neighbors_loop.induct) auto

lemma neighbors_loop_found:
  assumes "levels (adjacent_ids g) (known g) r d V as bs D" "d \<le> depth" "bs \<noteq> [] \<longrightarrow> d < depth"
    and "queue = map (\<lambda>v. (v, d)) as @ map (\<lambda>v. (v, Suc d)) bs"
    and "result = found g ks" "distinct ks" "set ks = D - {r}" "\<forall>i\<in>set ks. known g i"
  shows "\<exists>js. neighbors_loop g depth V queue result = found g js \<and> distinct js
    \<and> set js = within (adjacent_ids g) (known g) r depth - {r} \<and> (\<forall>i\<in>set js. known g i)"
  using assms
proof (induction g depth V queue result arbitrary: d as bs D ks rule: neighbors_loop.induct)
  case (1 g depth V result)
  then have nil: "as = []" "bs = []" by auto
  note lv = 1(1) [unfolded nil]
  have a: "D = within (adjacent_ids g) (known g) r d" by (rule levels_stop [OF lv])
  have "D = within (adjacent_ids g) (known g) r depth"
  proof
    show "D \<subseteq> within (adjacent_ids g) (known g) r depth" unfolding a by (rule within_mono [OF 1(2)])
    show "within (adjacent_ids g) (known g) r depth \<subseteq> D" by (rule levels_done [OF lv])
  qed
  then have "set ks = within (adjacent_ids g) (known g) r depth - {r}" using 1(7) by (rule subst)
  moreover have "neighbors_loop g depth V [] result = found g ks" using 1(5) by simp
  ultimately show ?case using 1(6,8) by blast
next
  case (2 g depth V c dc queue result)
  have "as @ bs \<noteq> []" using 2(6) by auto
  then obtain a as' bs' d' where h: "levels (adjacent_ids g) (known g) r d' V (a # as') bs' D"
    "map (\<lambda>v. (v, d)) as @ map (\<lambda>v. (v, Suc d)) bs
      = (a, d') # map (\<lambda>v. (v, d')) as' @ map (\<lambda>v. (v, Suc d')) bs'"
    "d' = d \<or> d' = Suc d \<and> bs \<noteq> [] \<and> bs' = []" "bs = [] \<longrightarrow> bs' = []"
    by (rule levels_head [OF 2(3)]) blast
  have c: "c = a" "dc = d'" "queue = map (\<lambda>v. (v, d')) as' @ map (\<lambda>v. (v, Suc d')) bs'"
    using 2(6) h(2) by auto
  have d': "d' \<le> depth" "bs' \<noteq> [] \<longrightarrow> d' < depth" using h(3,4) 2(4,5) by auto
  show ?case
  proof (cases "d' \<ge> depth")
    case True
    then have "d' = depth" "bs' = []" using d' by auto
    with h(1) have "levels (adjacent_ids g) (known g) r depth V (a # as') [] D" by simp
    from levels_stop [OF this] have "set ks = within (adjacent_ids g) (known g) r depth - {r}" using 2(9) by simp
    moreover have "neighbors_loop g depth V ((c, dc) # queue) result = found g ks"
      using True 2(7) by (subst neighbors_skip) (auto simp: c)
    ultimately show ?thesis using 2(8,10) by blast
  next
    case False
    define ns where "ns = fresh (known g) V (adjacent_ids g a)"
    have lv: "levels (adjacent_ids g) (known g) r d' (V \<union> set (adjacent_ids g a)) as' (bs' @ ns) (D \<union> set ns)"
      using levels_visit [OF h(1)] by (simp add: ns_def)
    have "r \<in> V" using h(1) within_mono [of 0 d' "adjacent_ids g" "known g" r] by (auto simp: levels_def)
    then have r: "r \<notin> set ns" by (simp add: ns_def set_fresh)
    have new: "set ns \<inter> D = {}" "\<forall>i\<in>set ns. known g i"
      using h(1) by (auto simp: ns_def set_fresh levels_def)
    have e: "foldl (visit_at g dc) (V, queue, result) (adjacent_ids g c)
        = (V \<union> set (adjacent_ids g a), queue @ map (\<lambda>n. (n, Suc d')) ns, result @ found g ns)"
      by (simp add: foldl_visit_at c ns_def found_def)
    have "\<exists>js. neighbors_loop g depth (V \<union> set (adjacent_ids g a)) (queue @ map (\<lambda>n. (n, Suc d')) ns)
        (result @ found g ns) = found g js \<and> distinct js
        \<and> set js = within (adjacent_ids g) (known g) r depth - {r} \<and> (\<forall>i\<in>set js. known g i)"
    proof (rule 2(2) [OF _ e [symmetric] refl lv])
      show "distinct (ks @ ns)" using 2(8,9) new(1) by (auto simp: ns_def distinct_fresh)
      show "set (ks @ ns) = D \<union> set ns - {r}" using 2(9) r by auto
    qed (use d' False c 2(7,10) new in \<open>auto simp: found_append\<close>)
    then show ?thesis using False by (simp add: c foldl_visit_at ns_def found_def)
  qed
qed

lemma path_search_found:
  assumes "levels (adjacent_ids g) (\<lambda>_. True) r d V as bs D" "to \<notin> D"
    and "queue = ps @ qs" "map last ps = as" "map last qs = bs"
    and "\<forall>p\<in>set ps. walk (adjacent_ids g) (\<lambda>_. True) p \<and> hd p = r \<and> length p = Suc d"
    and "\<forall>p\<in>set qs. walk (adjacent_ids g) (\<lambda>_. True) p \<and> hd p = r \<and> length p = Suc (Suc d)"
  shows "case path_search g to V queue of
      None \<Rightarrow> \<forall>n. to \<notin> within (adjacent_ids g) (\<lambda>_. True) r n
    | Some p \<Rightarrow> walk (adjacent_ids g) (\<lambda>_. True) p \<and> hd p = r \<and> last p = to
        \<and> (\<forall>n. to \<in> within (adjacent_ids g) (\<lambda>_. True) r n \<longrightarrow> length p \<le> Suc n)"
  using assms
proof (induction g to V queue arbitrary: d as bs D ps qs rule: path_search.induct)
  case (1 g to V)
  then show ?case using levels_done [of "adjacent_ids g" "\<lambda>_. True" r d V D] by auto
next
  case (2 g to V path queue)
  obtain as' bs' d' ps' qs' where h: "levels (adjacent_ids g) (\<lambda>_. True) r d' V (last path # as') bs' D"
    "queue = ps' @ qs'" "map last ps' = as'" "map last qs' = bs'"
    "\<forall>p\<in>set (path # ps'). walk (adjacent_ids g) (\<lambda>_. True) p \<and> hd p = r \<and> length p = Suc d'"
    "\<forall>p\<in>set qs'. walk (adjacent_ids g) (\<lambda>_. True) p \<and> hd p = r \<and> length p = Suc (Suc d')"
  proof (cases ps)
    case Nil
    then have q: "qs = path # queue" "as = []" using 2(5,6) by auto
    have "levels (adjacent_ids g) (\<lambda>_. True) r (Suc d) V (last path # map last queue) [] D"
      using levels_shift [of "adjacent_ids g" "\<lambda>_. True" r d V bs D] 2(3,7) q by simp
    then show ?thesis using that [of "Suc d" "map last queue" "[]" queue "[]"] 2(9) q by simp
  next
    case (Cons p ps1)
    then show ?thesis using that [of d "map last ps1" bs ps1 qs] 2(3,5-9) by auto
  qed
  have path: "walk (adjacent_ids g) (\<lambda>_. True) path" "hd path = r" "length path = Suc d'" using h(5) by auto
  then have ne: "path \<noteq> []" by auto
  define a where "a = last path"
  obtain p0 where p0: "path = p0 @ [a]" using ne append_butlast_last_id unfolding a_def by metis
  have step: "walk (adjacent_ids g) (\<lambda>_. True) (path @ [n])" if "n \<in> set (adjacent_ids g a)" for n
    using walk_snoc [of "adjacent_ids g" "\<lambda>_. True" p0 a n] path(1) that by (simp add: p0)
  show ?case
  proof (cases "to \<in> set (adjacent_ids g a)")
    case True
    have far: "to \<notin> within (adjacent_ids g) (\<lambda>_. True) r d'" using h(1) 2(4) by (auto simp: levels_def)
    have "length (path @ [to]) \<le> Suc n" if "to \<in> within (adjacent_ids g) (\<lambda>_. True) r n" for n
    proof -
      have "\<not> n \<le> d'" using that far within_mono [of n d' "adjacent_ids g" "\<lambda>_. True" r] by blast
      then show ?thesis using path(3) by simp
    qed
    then show ?thesis
      using True ne step [OF True] path(2) by (simp add: extend_path_eq a_def [symmetric])
  next
    case False
    define ns where "ns = fresh (\<lambda>_. True) V (adjacent_ids g a)"
    have lv: "levels (adjacent_ids g) (\<lambda>_. True) r d' (V \<union> set (adjacent_ids g a)) as' (bs' @ ns) (D \<union> set ns)"
      using levels_visit [OF h(1)] by (simp add: ns_def a_def)
    have e: "extend_path to path V queue (adjacent_ids g (last path))
        = Inr (V \<union> set (adjacent_ids g a), queue @ map (\<lambda>n. path @ [n]) ns)"
      using False by (simp add: extend_path_eq ns_def a_def)
    have "to \<notin> D \<union> set ns" using 2(4) False by (simp add: ns_def set_fresh)
    moreover have "hd (path @ [n]) = r" for n using ne path(2) by simp
    ultimately have "case path_search g to (V \<union> set (adjacent_ids g a)) (queue @ map (\<lambda>n. path @ [n]) ns) of
        None \<Rightarrow> \<forall>n. to \<notin> within (adjacent_ids g) (\<lambda>_. True) r n
      | Some p \<Rightarrow> walk (adjacent_ids g) (\<lambda>_. True) p \<and> hd p = r \<and> last p = to
          \<and> (\<forall>n. to \<in> within (adjacent_ids g) (\<lambda>_. True) r n \<longrightarrow> length p \<le> Suc n)"
      using lv h step path(3)
      by (intro 2(2) [OF ne e refl, where d = d' and as = as' and bs = "bs' @ ns" and D = "D \<union> set ns"
            and ps = ps' and qs = "qs' @ map (\<lambda>n. path @ [n]) ns"])
        (auto simp: ns_def set_fresh comp_def)
    then show ?thesis using ne e by simp
  qed
qed

lemma component_loop_found:
  assumes "levels (adjacent_ids g) (known g) r d V as bs D" "queue = as @ bs"
    and "result = found g ks" "distinct ks" "set ks = D" "\<forall>i\<in>set ks. known g i"
  shows "\<exists>js. component_loop g V queue result = found g js \<and> distinct js
    \<and> set js = (\<Union>n. within (adjacent_ids g) (known g) r n) \<and> (\<forall>i\<in>set js. known g i)"
  using assms
proof (induction g V queue result arbitrary: d as bs D ks rule: component_loop.induct)
  case (1 g V result)
  then have nil: "as = []" "bs = []" by auto
  note lv = 1(1) [unfolded nil]
  have "D = within (adjacent_ids g) (known g) r d" by (rule levels_stop [OF lv])
  moreover have "within (adjacent_ids g) (known g) r n \<subseteq> D" for n by (rule levels_done [OF lv])
  ultimately have "D = (\<Union>n. within (adjacent_ids g) (known g) r n)" by blast
  then have "set ks = (\<Union>n. within (adjacent_ids g) (known g) r n)" using 1(5) by simp
  moreover have "component_loop g V [] result = found g ks" using 1(3) by simp
  ultimately show ?case using 1(4,6) by blast
next
  case (2 g V c queue result)
  have "as @ bs \<noteq> []" using 2(3) by auto
  then obtain a as' bs' d' where h: "levels (adjacent_ids g) (known g) r d' V (a # as') bs' D"
    "as @ bs = a # as' @ bs'"
    by (rule levels_head [OF 2(2)]) blast
  have c: "c = a" "queue = as' @ bs'" using 2(3) h(2) by auto
  define ns where "ns = fresh (known g) V (adjacent_ids g a)"
  have lv: "levels (adjacent_ids g) (known g) r d' (V \<union> set (adjacent_ids g a)) as' (bs' @ ns) (D \<union> set ns)"
    using levels_visit [OF h(1)] by (simp add: ns_def)
  have new: "set ns \<inter> D = {}" "\<forall>i\<in>set ns. known g i"
    using h(1) by (auto simp: ns_def set_fresh levels_def)
  have e: "foldl (visit g) (V, queue, result) (adjacent_ids g c)
      = (V \<union> set (adjacent_ids g a), queue @ ns, result @ found g ns)"
    by (simp add: foldl_visit c ns_def found_def)
  have "\<exists>js. component_loop g (V \<union> set (adjacent_ids g a)) (queue @ ns) (result @ found g ns) = found g js \<and> distinct js
      \<and> set js = (\<Union>n. within (adjacent_ids g) (known g) r n) \<and> (\<forall>i\<in>set js. known g i)"
  proof (rule 2(1) [OF e [symmetric] refl lv])
    show "distinct (ks @ ns)" using 2(5,6) new(1) by (auto simp: ns_def distinct_fresh)
  qed (use c 2(4,6,7) new in \<open>auto simp: found_append\<close>)
  then show ?case by (simp add: c foldl_visit ns_def found_def)
qed

section \<open>Context text and counts\<close>

text \<open>\<open>show_value\<close> is the display of a JSON value; \<open>order\<close> the order of the keys of the properties.\<close>

definition named :: "('v, 'f) KnowledgeGraph \<Rightarrow> string \<Rightarrow> string" where
  "named g i =
     (case entities g i of
        Some e \<Rightarrow> entity_name e @ '' ('' @ show_entity_type (entity_type e) @ '')''
      | None \<Rightarrow> i)"

definition neighbor_line :: "('v, 'f) KnowledgeGraph \<Rightarrow> ('v, 'f) Entity \<Rightarrow> ('v, 'f) Relationship \<Rightarrow> string" where
  "neighbor_line g neighbor rel =
     ''    '' @ entity_name neighbor @ '' -> '' @ show_relation_type (relation_type rel) @ '' -> ''
       @ (case entities g (to_entity rel) of Some e \<Rightarrow> entity_name e | None \<Rightarrow> ''?'') @ [LF]"

definition relationship_lines :: "('v, 'f) KnowledgeGraph \<Rightarrow> string \<Rightarrow> string" where
  "relationship_lines g i =
     concat (map (\<lambda>r. ''    -> '' @ show_relation_type (relation_type r) @ '' -> '' @ named g (to_entity r) @ [LF])
       (get_relationships_from g i))
     @ concat (map (\<lambda>r. ''    <- '' @ show_relation_type (relation_type r) @ '' <- '' @ named g (from_entity r) @ [LF])
       (get_relationships_to g i))"

definition to_context_string ::
  "('v \<Rightarrow> string) \<Rightarrow> string list \<Rightarrow> ('v, 'f) KnowledgeGraph \<Rightarrow> string \<Rightarrow> nat \<Rightarrow> string" where
  "to_context_string show_value order g i depth =
     (case entities g i of
        None \<Rightarrow> ''Entity '' @ [CHR 39] @ i @ [CHR 39] @ '' not found.''
      | Some entity \<Rightarrow>
          ''Entity: '' @ named g i @ [LF]
          @ (let props = List.map_filter (\<lambda>k. map_option (\<lambda>v. k @ ''='' @ show_value v) (properties entity k)) order
             in if props = [] then [] else ''  Properties: '' @ join '', '' props @ [LF])
          @ (if get_relationships_from g i = [] \<and> get_relationships_to g i = [] then []
             else ''  Relationships:'' @ [LF] @ relationship_lines g i)
          @ (if depth > 1
             then let ns = neighbors g i depth
                  in if ns = [] then []
                     else ''  Neighbors (depth '' @ show_nat depth @ ''):'' @ [LF]
                       @ concat (map (\<lambda>n. concat (map (neighbor_line g n)
                           (filter (\<lambda>r. to_entity r \<noteq> i) (get_relationships_from g (entity_id n))))) ns)
             else []))"

section \<open>Properties of the traversals\<close>

text \<open>A chain of relationships, followed in either direction, from one identifier to another.\<close>

definition chain :: "('v, 'f) KnowledgeGraph \<Rightarrow> string list \<Rightarrow> string \<Rightarrow> string \<Rightarrow> bool" where
  "chain g p x y \<longleftrightarrow> p \<noteq> [] \<and> successively (linked g) p \<and> hd p = x \<and> last p = y"

lemma linked_sym: "linked g x y \<longleftrightarrow> linked g y x"
  by (auto simp: linked_def)

lemma run_relations: "relations_ok (foldl graph_step graph_new es)"
  using graph_run [of es] by (simp add: indexed_def)

lemma run_adjacent: "y \<in> set (adjacent_ids (foldl graph_step graph_new es) x) \<longleftrightarrow> linked (foldl graph_step graph_new es) x y"
  using set_adjacent [OF run_relations, of es x] by blast

interpretation graph: undirected "adjacent_ids (foldl graph_step graph_new es)" for es
  by unfold_locales (simp add: run_adjacent linked_sym)

lemma walk_chain:
  "walk (adjacent_ids (foldl graph_step graph_new es)) ok p \<and> hd p = x \<and> last p = y
     \<longleftrightarrow> chain (foldl graph_step graph_new es) p x y \<and> (\<forall>v\<in>set (tl p). ok v)"
  by (auto simp: walk_iff run_adjacent chain_def)

lemma within_chain:
  "y \<in> within (adjacent_ids (foldl graph_step graph_new es)) ok x n
     \<longleftrightarrow> (\<exists>p. chain (foldl graph_step graph_new es) p x y \<and> (\<forall>v\<in>set (tl p). ok v) \<and> length p \<le> Suc n)"
  unfolding within_walk using walk_chain [of es ok _ x y] by blast

lemma sample_linked:
  "linked sample_graph x y \<longleftrightarrow> (x, y) \<in> {(''a'', ''b''), (''b'', ''a''), (''c'', ''b''), (''b'', ''c'')}"
  by (auto simp: linked_def sample_relationships sample_relationship_def)

lemma sample_chain: "chain sample_graph [''a'', ''b'', ''c''] ''a'' ''c''"
  by (simp add: chain_def sample_linked)

text \<open>C6: the path found is a shortest one. In the graph that any sequence of operations leaves, the
  search between two identifiers answers with a chain of relationships that joins them and than
  which none is shorter, and it answers with nothing only when one of them is not an entity or no
  chain joins them.\<close>

theorem shortest_path_exact:
  assumes "g = foldl graph_step graph_new es"
  shows "case shortest_path g a b of
      Some p \<Rightarrow> chain g p a b \<and> (\<forall>q. chain g q a b \<longrightarrow> length p \<le> length q)
    | None \<Rightarrow> a \<noteq> b \<and> (entities g a = None \<or> entities g b = None \<or> (\<nexists>p. chain g p a b))"
proof -
  have short: "chain g [a] a a" "chain g q x y \<Longrightarrow> Suc 0 \<le> length q" for q x y
    by (auto simp: chain_def Suc_le_eq)
  have "case path_search g b {a} [[a]] of
      None \<Rightarrow> \<forall>n. b \<notin> within (adjacent_ids g) (\<lambda>_. True) a n
    | Some p \<Rightarrow> walk (adjacent_ids g) (\<lambda>_. True) p \<and> hd p = a \<and> last p = b
        \<and> (\<forall>n. b \<in> within (adjacent_ids g) (\<lambda>_. True) a n \<longrightarrow> length p \<le> Suc n)" if "a \<noteq> b"
    by (rule path_search_found [OF levels_init, where ps = "[[a]]" and qs = "[]"]) (use that in auto)
  moreover have "b \<in> within (adjacent_ids g) (\<lambda>_. True) a (length q - 1) \<and> Suc (length q - 1) = length q"
    if "chain g q a b" for q
    using that short(2) [OF that] unfolding assms within_chain by (auto intro!: exI [of _ q])
  ultimately show ?thesis
    using walk_chain [of es "\<lambda>_. True"] short unfolding assms
    by (auto simp: shortest_path_def split: option.splits; metis)
qed

theorem shortest_path_exact_witness:
  "\<exists>p. shortest_path sample_graph ''a'' ''c'' = Some p \<and> chain sample_graph p ''a'' ''c'' \<and> length p \<le> 3"
  using shortest_path_exact [OF sample_graph_def, of "''a''" "''c''"] sample_chain
  by (fastforce simp: sample_entities split: option.splits)

text \<open>The neighbourhood is exact. In the graph that any sequence of operations leaves, the
  neighbours of an entity up to a depth are, each once, the other entities that a chain of at most
  that many relationships joins to it, all of whose members are entities.\<close>

lemma neighbors_exact:
  assumes "g = foldl graph_step graph_new es" "entities g i \<noteq> None"
  shows "distinct (map entity_id (neighbors g i n))
    \<and> (\<forall>e. e \<in> set (neighbors g i n) \<longleftrightarrow> entities g (entity_id e) = Some e \<and> entity_id e \<noteq> i
         \<and> (\<exists>p. chain g p i (entity_id e) \<and> length p \<le> n + 1 \<and> (\<forall>v\<in>set p. entities g v \<noteq> None)))"
proof -
  have ix: "indexed g" unfolding assms(1) by (rule graph_run)
  have e: "neighbors g i n = neighbors_loop g n {i} [(i, 0)] []"
    unfolding neighbors_def using assms(2) by (rule if_not_P)
  have "\<exists>js. neighbors_loop g n {i} [(i, 0)] [] = found g js \<and> distinct js
      \<and> set js = within (adjacent_ids g) (known g) i n - {i} \<and> (\<forall>j\<in>set js. known g j)"
    by (rule neighbors_loop_found [OF levels_init, where ks = "[]"]) (simp_all add: found_def)
  then obtain js where js: "neighbors g i n = found g js" "distinct js"
    "set js = within (adjacent_ids g) (known g) i n - {i}" "\<forall>j\<in>set js. known g j"
    unfolding e by blast
  have ids: "map entity_id (neighbors g i n) = js" using found_ids [OF ix js(4)] by (simp add: js(1))
  have "e \<in> set (found g js) \<longleftrightarrow> entities g (entity_id e) = Some e \<and> entity_id e \<in> set js" for e
    by (rule found_member [OF ix js(4)])
  moreover
  have "(\<forall>v\<in>set (tl p). known g v) \<longleftrightarrow> (\<forall>v\<in>set p. entities g v \<noteq> None)" if "chain g p i y" for p y
    using that assms(2) by (cases p) (auto simp: chain_def known_def)
  then have "y \<in> within (adjacent_ids g) (known g) i n
      \<longleftrightarrow> (\<exists>p. chain g p i y \<and> length p \<le> n + 1 \<and> (\<forall>v\<in>set p. entities g v \<noteq> None))" for y
    using within_chain [of y es "known g" i n] unfolding assms(1) [symmetric] by auto
  ultimately show ?thesis using js(2,3) ids by (auto simp: js(1))
qed

lemma neighbors_exact_witness:
  "sample_entity ''c'' Person \<in> set (neighbors sample_graph ''a'' 2)"
proof -
  have "entities sample_graph ''a'' \<noteq> None" by (simp add: sample_entities)
  from neighbors_exact [OF sample_graph_def this, of 2] sample_chain show ?thesis
    by (auto simp: sample_entities sample_entity_def intro!: exI [of _ "[''a'', ''b'', ''c'']"])
qed

text \<open>The components partition the entities. In the graph that any sequence of operations leaves,
  the component of an entity is, each once, the entities joined to it by a chain of entities, and
  every entity of it has the same component.\<close>

lemma component_exact:
  assumes "g = foldl graph_step graph_new es" "entities g i \<noteq> None"
  shows "distinct (map entity_id (connected_component g i))
    \<and> (\<forall>e. e \<in> set (connected_component g i) \<longleftrightarrow> entities g (entity_id e) = Some e
         \<and> (\<exists>p. chain g p i (entity_id e) \<and> (\<forall>v\<in>set p. entities g v \<noteq> None)))
    \<and> (\<forall>e\<in>set (connected_component g i). set (connected_component g (entity_id e)) = set (connected_component g i))"
proof -
  have ix: "indexed g" unfolding assms(1) by (rule graph_run)
  define joined where "joined x y \<longleftrightarrow> (\<exists>n. y \<in> within (adjacent_ids g) (known g) x n)" for x y
  have joined_chain: "joined x y \<longleftrightarrow> (\<exists>p. chain g p x y \<and> (\<forall>v\<in>set p. known g v))" if "known g x" for x y
  proof -
    have "joined x y \<longleftrightarrow> (\<exists>p. chain g p x y \<and> (\<forall>v\<in>set (tl p). known g v))"
      unfolding joined_def assms(1) within_chain by (auto intro: le_SucI)
    moreover have "(\<forall>v\<in>set (tl p). known g v) \<longleftrightarrow> (\<forall>v\<in>set p. known g v)" if "chain g p x y" for p
      using that \<open>known g x\<close> by (cases p) (auto simp: chain_def)
    ultimately show ?thesis by blast
  qed
  have comp: "distinct (map entity_id (connected_component g x))
      \<and> (\<forall>e. e \<in> set (connected_component g x) \<longleftrightarrow> entities g (entity_id e) = Some e \<and> joined x (entity_id e))"
    if x: "known g x" for x
  proof -
    obtain e where "entities g x = Some e" using x by (auto simp: known_def)
    then have e: "connected_component g x = component_loop g {x} [x] (found g [x])"
      unfolding connected_component_def found_def by (simp del: component_loop.simps)
    have "\<exists>js. component_loop g {x} [x] (found g [x]) = found g js \<and> distinct js
        \<and> set js = (\<Union>n. within (adjacent_ids g) (known g) x n) \<and> (\<forall>j\<in>set js. known g j)"
      by (rule component_loop_found [OF levels_init, where ks = "[x]"]) (simp_all add: x)
    then obtain js where js: "connected_component g x = found g js" "distinct js"
      "set js = (\<Union>n. within (adjacent_ids g) (known g) x n)" "\<forall>j\<in>set js. known g j"
      unfolding e by blast
    have "map entity_id (connected_component g x) = js" using found_ids [OF ix js(4)] by (simp add: js(1))
    moreover have "e \<in> set (found g js) \<longleftrightarrow> entities g (entity_id e) = Some e \<and> entity_id e \<in> set js" for e
      by (rule found_member [OF ix js(4)])
    ultimately show ?thesis using js(2,3) by (auto simp: js(1) joined_def)
  qed
  have i: "known g i" using assms(2) by (simp add: known_def)
  have sym: "joined y x" if "joined x y" "known g x" for x y
    using that graph.within_sym [of "known g" x y es] unfolding joined_def assms(1) [symmetric] by blast
  have trans: "joined x z" if xy: "joined x y" and yz: "joined y z" and k: "known g x" "known g y" for x y z
  proof -
    obtain p q where p: "chain g p x y" "\<forall>v\<in>set p. known g v" and q: "chain g q y z" "\<forall>v\<in>set q. known g v"
      using xy yz k by (auto simp: joined_chain)
    from q(1) obtain q' where q': "q = y # q'" by (cases q) (auto simp: chain_def)
    have "chain g (p @ q') x z"
    proof (cases q')
      case Nil
      then show ?thesis using p q by (simp add: q' chain_def)
    next
      case (Cons w q2)
      then show ?thesis using p(1) q(1) by (auto simp: q' chain_def successively_append_iff)
    qed
    moreover have "\<forall>v\<in>set (p @ q'). known g v" using p(2) q(2) by (auto simp: q')
    ultimately show ?thesis using k(1) joined_chain [of x z] by blast
  qed
  have "set (connected_component g (entity_id e)) = set (connected_component g i)"
    if "e \<in> set (connected_component g i)" for e
  proof -
    have e: "joined i (entity_id e)" "known g (entity_id e)" using that comp [OF i] by (auto simp: known_def)
    have inv: "joined (entity_id e) i" by (rule sym [OF e(1) i])
    have "joined i x \<longleftrightarrow> joined (entity_id e) x" for x
      using trans [OF e(1) _ i e(2)] trans [OF inv _ e(2) i] by blast
    then show ?thesis using comp [OF i] comp [OF e(2)] by blast
  qed
  then show ?thesis using comp [OF i] joined_chain [OF i] by (auto simp: known_def)
qed

lemma component_exact_witness:
  "set (connected_component sample_graph ''c'') = set (connected_component sample_graph ''a'')"
proof -
  have "entities sample_graph ''a'' \<noteq> None" by (simp add: sample_entities)
  note c = component_exact [OF sample_graph_def this]
  have "sample_entity ''c'' Person \<in> set (connected_component sample_graph ''a'')"
    using c sample_chain by (auto simp: sample_entities sample_entity_def intro!: exI [of _ "[''a'', ''b'', ''c'']"])
  moreover have "entity_id (sample_entity ''c'' Person) = ''c''" by (simp add: sample_entity_def)
  ultimately show ?thesis using c by metis
qed

section \<open>Merging\<close>

text \<open>Merging. When a merge succeeds the source is gone, every other entity but the target is as it
  was, the target has its properties and those of the source under keys it lacked, and two
  entities are linked exactly when they were linked with the target in the place of the source,
  except for a link of the target with itself.\<close>

lemma merge_exact:
  assumes "fst (merge_entity now s t g) = Inr ()" "g' = snd (merge_entity now s t g)"
  shows "entities g' s = None \<and> (\<forall>i. i \<noteq> s \<and> i \<noteq> t \<longrightarrow> entities g' i = entities g i)
    \<and> (\<exists>source target. entities g s = Some source \<and> entities g t = Some target
        \<and> map_option properties (entities g' t) = Some (properties source ++ properties target))
    \<and> (\<forall>x y. linked g' x y \<longleftrightarrow> (\<exists>u v. linked g u v \<and> x = (if u = s then t else u)
        \<and> y = (if v = s then t else v) \<and> \<not> (x = t \<and> y = t)))"
proof -
  obtain source target where st: "s \<noteq> t" "entities g s = Some source" "entities g t = Some target"
    using assms(1) by (auto simp: merge_entity_def split: if_splits option.splits)
  have g': "g' = rebuild_relation_indexes
     (forget_entity s source (g\<lparr>entities := (entities g)(t \<mapsto> merged_target now source target)\<rparr>)
       \<lparr>relationships := filter (\<lambda>r. \<not> (from_entity r = to_entity r \<and> from_entity r = t))
          (map (redirect s t) (relationships g))\<rparr>)"
    unfolding assms(2) by (rule merge_entity_eq [OF st])
  have ends: "from_entity (redirect s t r) = (if from_entity r = s then t else from_entity r)"
    "to_entity (redirect s t r) = (if to_entity r = s then t else to_entity r)" for r :: "('a, 'b) Relationship"
    by (simp_all add: redirect_def Let_def)
  have rels: "relationships g' = filter (\<lambda>r. \<not> (from_entity r = to_entity r \<and> from_entity r = t))
      (map (redirect s t) (relationships g))"
    by (simp add: g')
  have links: "linked g' x y \<longleftrightarrow> (\<exists>u v. linked g u v \<and> x = (if u = s then t else u)
      \<and> y = (if v = s then t else v) \<and> \<not> (x = t \<and> y = t))" for x y
  proof
    assume "linked g' x y"
    then obtain r where r: "r \<in> set (relationships g)"
      "(x, y) = (from_entity (redirect s t r), to_entity (redirect s t r))
       \<or> (y, x) = (from_entity (redirect s t r), to_entity (redirect s t r))"
      "\<not> (from_entity (redirect s t r) = to_entity (redirect s t r) \<and> from_entity (redirect s t r) = t)"
      unfolding linked_def rels by auto
    have "linked g (from_entity r) (to_entity r)" "linked g (to_entity r) (from_entity r)"
      using r(1) by (auto simp: linked_def)
    moreover have "\<not> (x = t \<and> y = t)" using r(2,3) by auto
    moreover have "x = (if from_entity r = s then t else from_entity r) \<and> y = (if to_entity r = s then t else to_entity r)
        \<or> x = (if to_entity r = s then t else to_entity r) \<and> y = (if from_entity r = s then t else from_entity r)"
      using r(2) unfolding ends by blast
    ultimately show "\<exists>u v. linked g u v \<and> x = (if u = s then t else u) \<and> y = (if v = s then t else v) \<and> \<not> (x = t \<and> y = t)"
      by blast
  next
    assume "\<exists>u v. linked g u v \<and> x = (if u = s then t else u) \<and> y = (if v = s then t else v) \<and> \<not> (x = t \<and> y = t)"
    then obtain r where r: "r \<in> set (relationships g)" "\<not> (x = t \<and> y = t)"
      "(x, y) = (from_entity (redirect s t r), to_entity (redirect s t r))
       \<or> (y, x) = (from_entity (redirect s t r), to_entity (redirect s t r))"
      unfolding linked_def ends by auto
    then have "redirect s t r \<in> set (relationships g')" unfolding rels by auto
    then show "linked g' x y" using r(3) unfolding linked_def by (intro bexI) auto
  qed
  have e: "entities g' = (entities g)(t \<mapsto> merged_target now source target, s := None)"
    by (simp add: g' forget_entity_def)
  show ?thesis
  proof (intro conjI)
    show "\<exists>source target. entities g s = Some source \<and> entities g t = Some target
        \<and> map_option properties (entities g' t) = Some (properties source ++ properties target)"
      using st by (simp add: e merged_target_def)
    show "\<forall>x y. linked g' x y \<longleftrightarrow> (\<exists>u v. linked g u v \<and> x = (if u = s then t else u)
        \<and> y = (if v = s then t else v) \<and> \<not> (x = t \<and> y = t))"
      by (intro allI links)
  qed (simp_all add: e)
qed

lemma merge_exact_witness:
  "linked (snd (merge_entity 1 ''b'' ''a'' sample_graph)) ''a'' ''c''
   \<and> \<not> linked (snd (merge_entity 1 ''b'' ''a'' sample_graph)) ''a'' ''a''
   \<and> entities (snd (merge_entity 1 ''b'' ''a'' sample_graph)) ''b'' = None"
proof -
  have "fst (merge_entity 1 ''b'' ''a'' sample_graph) = Inr ()"
    by (simp add: merge_entity_def sample_entities Let_def)
  note m = merge_exact [OF this refl]
  have link: "linked (snd (merge_entity 1 ''b'' ''a'' sample_graph)) x y \<longleftrightarrow>
      (\<exists>u v. linked sample_graph u v \<and> x = (if u = ''b'' then ''a'' else u)
        \<and> y = (if v = ''b'' then ''a'' else v) \<and> \<not> (x = ''a'' \<and> y = ''a''))" for x y
    using m by blast
  show ?thesis
  proof (intro conjI)
    show "linked (snd (merge_entity 1 ''b'' ''a'' sample_graph)) ''a'' ''c''"
      unfolding link by (rule exI [of _ "''b''"], rule exI [of _ "''c''"]) (simp add: sample_linked)
    show "\<not> linked (snd (merge_entity 1 ''b'' ''a'' sample_graph)) ''a'' ''a''"
      unfolding link by simp
    show "entities (snd (merge_entity 1 ''b'' ''a'' sample_graph)) ''b'' = None"
      using m by (rule conjunct1)
  qed
qed

text \<open>Relationships may name identifiers that are not entities; a shortest path then leads through one,
  although its ends are in different components.\<close>

definition dangling_graph :: "(string, nat) KnowledgeGraph" where
  "dangling_graph = foldl graph_step graph_new
     [AddEntity ''u'' (sample_entity ''a'' Person), AddEntity ''u'' (sample_entity ''b'' Tool),
      AddRelationship ''u'' (sample_relationship ''r'' ''a'' ''x''), AddRelationship ''u'' (sample_relationship ''s'' ''x'' ''b'')]"

lemma dangling_path:
  "shortest_path dangling_graph ''a'' ''b'' = Some [''a'', ''x'', ''b'']"
  "map entity_id (connected_component dangling_graph ''a'') = [''a'']"
  by (simp_all add: dangling_graph_def graph_eval shortest_path_def connected_component_def adjacent_ids_def
      get_relationships_from_def get_relationships_to_def related_def List.map_filter_simps visit_def)

end
