(* ===== verification/WorkflowTypes.thy ===== *)
theory WorkflowTypes
  imports RustStd
begin

text \<open>
  The types of \<open>argentor-orchestrator/src/workflow.rs\<close>: what starts a workflow, its steps, and
  the state of a run. A \<open>serde_json::Value\<close> is of type \<open>'v\<close> and an \<open>f64\<close> of type \<open>'f\<close>: the
  functions of them that the crate calls are the fields of \<open>value_api\<close>, arguments of the model.
\<close>

datatype 'f WorkflowTrigger =
    Manual
  | Webhook string
  | Schedule string
  | Threshold string string 'f

datatype StepType =
    AgentTask string string
  | HttpCall string string "string option"
  | Condition string string string
  | Delay u64
  | Notification string string
  | AssignToHuman string string

datatype 'f StepCondition =
    Always
  | IfPreviousSucceeded
  | IfFieldEquals string string
  | IfScoreAbove string 'f
  | Expression string

datatype FailureAction = Abort | Skip | Retry u32 | GoTo string

record 'f WorkflowStepDef =
  sdef_id :: string
  sdef_name :: string
  step_type :: StepType
  run_condition :: "'f StepCondition option"
  on_failure :: FailureAction
  sdef_timeout_seconds :: "u64 option"

record 'f WorkflowDefinition =
  workflow_def_id :: string
  workflow_name :: string
  workflow_description :: string
  workflow_trigger :: "'f WorkflowTrigger"
  workflow_steps :: "'f WorkflowStepDef list"
  workflow_timeout_seconds :: "u64 option"

datatype RunStatus = Pending | Running | Completed | Failed | Paused | TimedOut

datatype StepStatus = StepCompleted | StepFailed | StepSkipped | StepTimedOut

record 'v StepResult =
  result_step_id :: string
  result_status :: StepStatus
  step_output :: 'v
  duration_ms :: u64
  step_error :: "string option"

record 'v WorkflowRun =
  run_id :: string
  run_workflow_id :: string
  run_status :: RunStatus
  current_step_index :: nat
  trigger_data :: 'v
  step_results :: "'v StepResult list"
  run_created_at :: int
  run_updated_at :: int

section \<open>JSON values and floating-point numbers\<close>

text \<open>
  How \<open>Value\<close> matches: a string, a number (as it prints), a truth value, or another value (as it
  prints). \<open>json_get\<close> is \<open>Value::get\<close> at a key; \<open>as_f64\<close>, \<open>parse_f64\<close> and the comparison are those
  of \<open>f64\<close>. The other fields build values as \<open>json!\<close> does.
\<close>

datatype ValueMatch = IsString string | IsNumber string | IsBool bool | IsOther string

record ('v, 'f) value_api =
  value_match :: "'v \<Rightarrow> ValueMatch"
  json_get :: "'v \<Rightarrow> string \<Rightarrow> 'v option"
  as_f64 :: "'v \<Rightarrow> 'f option"
  parse_f64 :: "string \<Rightarrow> 'f option"
  f64_less :: "'f \<Rightarrow> 'f \<Rightarrow> bool"
  json_object :: "(string \<times> 'v) list \<Rightarrow> 'v"
  json_string :: "string \<Rightarrow> 'v"
  json_uint :: "nat \<Rightarrow> 'v"
  json_bool :: "bool \<Rightarrow> 'v"
  json_null :: 'v

definition as_str :: "('v, 'f) value_api \<Rightarrow> 'v \<Rightarrow> string option" where
  "as_str js v = (case value_match js v of IsString s \<Rightarrow> Some s | _ \<Rightarrow> None)"

end
