(* ===== verification/Kahn.thy ===== *)
theory Kahn
  imports RustStd "HOL-Library.Multiset"
begin

text \<open>
  Kahn's algorithm as the workflow compiler runs it, twice: counts of open dependencies, a list of
  ready nodes that is popped at its end, and a rule by which a node that becomes ready is put into
  the list. The contract of that rule is the locale \<open>kahn_queue\<close>; under it the run ends, no count
  goes below zero, and what is not put out is what a cycle leads to.
\<close>

section \<open>The loop\<close>

text \<open>One dependency of \<open>next\<close> is met. A count of 0 would go below zero: \<open>None\<close>.\<close>

definition release_one ::
  "('a \<Rightarrow> 'a list \<Rightarrow> 'a list) \<Rightarrow> 'a \<Rightarrow> ('a \<rightharpoonup> nat) \<times> 'a list \<Rightarrow> (('a \<rightharpoonup> nat) \<times> 'a list) option" where
  "release_one ins next st =
     (let (in_degree, queue) = st
      in case in_degree next of
           None \<Rightarrow> Some st
         | Some deg \<Rightarrow>
             if deg = 0 then None
             else Some (in_degree(next \<mapsto> deg - 1), if deg - 1 = 0 then ins next queue else queue))"

fun release_all ::
  "('a \<Rightarrow> 'a list \<Rightarrow> 'a list) \<Rightarrow> 'a list \<Rightarrow> ('a \<rightharpoonup> nat) \<times> 'a list \<Rightarrow> (('a \<rightharpoonup> nat) \<times> 'a list) option" where
  "release_all ins [] st = Some st"
| "release_all ins (n # ns) st =
     (case release_one ins n st of None \<Rightarrow> None | Some st \<Rightarrow> release_all ins ns st)"

text \<open>The nodes put out, in order, and the counts left. The fuel bounds the number of nodes popped.\<close>

fun kahn_loop ::
  "('a \<Rightarrow> 'a list \<Rightarrow> 'a list) \<Rightarrow> ('a list \<Rightarrow> 'a list) \<Rightarrow> ('a \<rightharpoonup> 'a list) \<Rightarrow> nat \<Rightarrow> ('a \<rightharpoonup> nat) \<Rightarrow> 'a list
     \<Rightarrow> 'a list \<Rightarrow> ('a list \<times> ('a \<rightharpoonup> nat)) option" where
  "kahn_loop ins arrange dependents fuel in_degree queue out =
     (if queue = [] then Some (out, in_degree)
      else case fuel of
             0 \<Rightarrow> None
           | Suc fuel \<Rightarrow>
               (case release_all ins (arrange (listed dependents (last queue))) (in_degree, butlast queue) of
                  None \<Rightarrow> None
                | Some (in_degree, queue') \<Rightarrow>
                    kahn_loop ins arrange dependents fuel in_degree queue' (out @ [last queue])))"

declare kahn_loop.simps [simp del]

section \<open>Edges and counts\<close>

text \<open>The edges, with repetition; how many into a node come from nodes not yet put out.\<close>

definition open_edges :: "('a \<times> 'a) list \<Rightarrow> 'a set \<Rightarrow> 'a \<Rightarrow> nat" where
  "open_edges E P v = length (filter (\<lambda>e. snd e = v \<and> fst e \<notin> P) E)"

definition targets :: "('a \<times> 'a) list \<Rightarrow> 'a \<Rightarrow> 'a list" where
  "targets E u = map snd (filter (\<lambda>e. fst e = u) E)"

lemma open_edges_insert:
  "u \<notin> P \<Longrightarrow> open_edges E P v = open_edges E (insert u P) v + count_list (targets E u) v"
  by (induction E) (auto simp: open_edges_def targets_def)

lemma open_edges_zero: "open_edges E P v = 0 \<longleftrightarrow> (\<forall>u. (u, v) \<in> set E \<longrightarrow> u \<in> P)"
  by (auto simp: open_edges_def filter_empty_conv)

text \<open>Every node comes after the sources of its edges.\<close>

definition topological :: "('a \<times> 'a) list \<Rightarrow> 'a list \<Rightarrow> bool" where
  "topological E out \<longleftrightarrow> (\<forall>i<length out. \<forall>u. (u, out ! i) \<in> set E \<longrightarrow> u \<in> set (take i out))"

lemma topological_Nil [simp]: "topological E []"
  by (simp add: topological_def)

lemma topological_snoc:
  "topological E out \<Longrightarrow> \<forall>u. (u, v) \<in> set E \<longrightarrow> u \<in> set out \<Longrightarrow> topological E (out @ [v])"
  by (auto simp: topological_def nth_append less_Suc_eq)

lemma topological_pred: "topological E out \<Longrightarrow> (u, v) \<in> set E \<Longrightarrow> v \<in> set out \<Longrightarrow> u \<in> set out"
  unfolding topological_def in_set_conv_nth [of v] by (blast dest: in_set_takeD)

lemma topological_not_cyclic:
  assumes "topological E out" "distinct out" "(v, v) \<in> (set E)\<^sup>+"
  shows "v \<notin> set out"
proof
  assume "v \<in> set out"
  then obtain j where j: "j < length out" "v = out ! j" by (auto simp: in_set_conv_nth)
  have less: "\<exists>i<j. u = out ! i" if "(u, w) \<in> (set E)\<^sup>+" "w = out ! j" "j < length out" for u w j
    using that
  proof (induction arbitrary: j rule: trancl_induct)
    case (base w)
    then have "u \<in> set (take j out)" using assms(1) by (simp add: topological_def)
    then show ?case using base(3) by (auto simp: in_set_conv_nth)
  next
    case (step w x)
    then have "w \<in> set (take j out)" using assms(1) by (simp add: topological_def)
    then obtain k where k: "k < j" "w = out ! k" using step(5) by (auto simp: in_set_conv_nth)
    then obtain i where "i < k" "u = out ! i" using step(3) [of k] step(5) by auto
    then show ?case using k(1) by (intro exI [of _ i]) simp
  qed
  from less [OF assms(3) j(2,1)] obtain i where "i < j" "out ! i = out ! j" using j(2) by auto
  then show False using assms(2) j(1) by (simp add: nth_eq_iff_index_eq)
qed

text \<open>The state of a run: \<open>P\<close> is the set of nodes put out.\<close>

definition run_ok :: "('a \<times> 'a) list \<Rightarrow> 'a set \<Rightarrow> ('a \<rightharpoonup> nat) \<Rightarrow> 'a list \<Rightarrow> 'a list \<Rightarrow> bool" where
  "run_ok E ids in_degree queue out \<longleftrightarrow>
     distinct (out @ queue) \<and> set (out @ queue) \<subseteq> ids \<and> topological E out
     \<and> in_degree = (\<lambda>v. if v \<in> ids then Some (open_edges E (set out) v) else None)
     \<and> (\<forall>v\<in>ids. open_edges E (set out) v = 0 \<longleftrightarrow> v \<in> set (out @ queue))"

section \<open>Releasing dependents\<close>

locale kahn_queue =
  fixes ins :: "'a \<Rightarrow> 'a list \<Rightarrow> 'a list"
    and arrange :: "'a list \<Rightarrow> 'a list"
  assumes mset_ins: "mset (ins x q) = add_mset x (mset q)"
    and mset_arrange: "mset (arrange xs) = mset xs"
begin

lemma set_ins: "set (ins x q) = insert x (set q)" and distinct_ins: "distinct (ins x q) \<longleftrightarrow> x \<notin> set q \<and> distinct q"
  using mset_ins [of x q] by (metis set_mset_mset set_mset_add_mset_insert)
    (metis mset_ins distinct.simps(2) mset.simps(2) mset_eq_imp_distinct_iff)

lemma count_arrange: "count_list (arrange xs) v = count_list xs v" and set_arrange: "set (arrange xs) = set xs"
  by (metis count_mset mset_arrange) (metis mset_arrange set_mset_mset)

lemma release_all_spec:
  assumes "in_degree = (\<lambda>v. if v \<in> ids then Some (f v) else None)" "set ns \<subseteq> ids"
    and "\<forall>v. count_list ns v \<le> f v" "distinct queue" "\<forall>v\<in>set queue. f v = 0"
  shows "\<exists>queue'. release_all ins ns (in_degree, queue) =
      Some (\<lambda>v. if v \<in> ids then Some (f v - count_list ns v) else None, queue')
    \<and> distinct queue' \<and> set queue' = set queue \<union> {v \<in> set ns. f v = count_list ns v}"
  using assms
proof (induction ns arbitrary: in_degree queue f)
  case Nil
  have "release_all ins [] (in_degree, queue) = Some (\<lambda>v. if v \<in> ids then Some (f v - count_list [] v) else None, queue)"
    by (simp add: Nil.prems(1) fun_eq_iff)
  then show ?case using Nil.prems(4) by (intro exI [of _ queue]) simp
next
  case (Cons n ns)
  have n: "n \<in> ids" "Suc (count_list ns n) \<le> f n" using Cons.prems(2) spec [OF Cons.prems(3), of n] by auto
  define g where "g = f(n := f n - 1)"
  define queue1 where "queue1 = (if f n - 1 = 0 then ins n queue else queue)"
  have step: "release_one ins n (in_degree, queue) = Some (\<lambda>v. if v \<in> ids then Some (g v) else None, queue1)"
    using n by (auto simp: release_one_def Cons.prems(1) g_def queue1_def fun_eq_iff)
  have nq: "n \<notin> set queue" using Cons.prems(5) n(2) by auto
  have le: "\<forall>v. count_list ns v \<le> g v"
  proof
    fix v show "count_list ns v \<le> g v" using spec [OF Cons.prems(3), of v] by (auto simp: g_def split: if_splits)
  qed
  have q1: "distinct queue1" "\<forall>v\<in>set queue1. g v = 0"
    using Cons.prems(4,5) nq by (auto simp: queue1_def g_def set_ins distinct_ins)
  obtain queue' where q': "release_all ins ns (\<lambda>v. if v \<in> ids then Some (g v) else None, queue1) =
      Some (\<lambda>v. if v \<in> ids then Some (g v - count_list ns v) else None, queue')"
    "distinct queue'" "set queue' = set queue1 \<union> {v \<in> set ns. g v = count_list ns v}"
    using Cons.IH [OF refl _ le q1] Cons.prems(2) by auto
  have "(\<lambda>v. if v \<in> ids then Some (g v - count_list ns v) else None)
      = (\<lambda>v. if v \<in> ids then Some (f v - count_list (n # ns) v) else None)"
    by (auto simp: g_def fun_eq_iff)
  moreover have "set queue' = set queue \<union> {v \<in> set (n # ns). f v = count_list (n # ns) v}"
  proof -
    have "n \<notin> set ns" if "f n - 1 = 0"
    proof -
      have "count_list ns n = 0" using that n(2) by linarith
      then show ?thesis by (simp add: count_list_0_iff)
    qed
    moreover have "f n = Suc (count_list ns n) \<longleftrightarrow> g n = count_list ns n" using n(2) by (auto simp: g_def)
    ultimately show ?thesis
      unfolding q'(3) queue1_def using n(2)
      by (auto simp: set_ins g_def count_list_0_iff split: if_splits)
  qed
  ultimately show ?case using q'(1,2) by (simp add: step)
qed

section \<open>The run\<close>

lemma run_step:
  assumes "run_ok E ids in_degree queue out" "queue \<noteq> []" "listed dependents (last queue) = targets E (last queue)"
    and "snd ` set E \<subseteq> ids"
  shows "\<exists>in_degree' queue'. release_all ins (arrange (listed dependents (last queue))) (in_degree, butlast queue)
      = Some (in_degree', queue') \<and> run_ok E ids in_degree' queue' (out @ [last queue])"
proof -
  obtain q u where q: "queue = q @ [u]" using assms(2) by (metis append_butlast_last_id)
  define ns where "ns = arrange (targets E u)"
  define f where "f = open_edges E (set out)"
  have ok: "distinct (out @ q @ [u])" "set out \<union> set q \<union> {u} \<subseteq> ids" "topological E out"
    "in_degree = (\<lambda>v. if v \<in> ids then Some (f v) else None)"
    "\<forall>v\<in>ids. f v = 0 \<longleftrightarrow> v \<in> set out \<union> set q \<union> {u}"
    using assms(1) by (auto simp: run_ok_def q f_def)
  have cnt: "f v = open_edges E (set (out @ [u])) v + count_list ns v" for v
    using open_edges_insert [of u "set out" E v] ok(1) by (simp add: f_def ns_def count_arrange insert_commute)
  have sub: "set ns \<subseteq> ids" using assms(4) by (auto simp: ns_def set_arrange targets_def)
  obtain queue' where r: "release_all ins ns (in_degree, q) =
      Some (\<lambda>v. if v \<in> ids then Some (f v - count_list ns v) else None, queue')"
    "distinct queue'" "set queue' = set q \<union> {v \<in> set ns. f v = count_list ns v}"
  proof -
    have "\<forall>v. count_list ns v \<le> f v" using cnt by simp
    moreover have "distinct q" using ok(1) by simp
    moreover have "\<forall>v\<in>set q. f v = 0" using ok(2,5) by blast
    ultimately show thesis using release_all_spec [OF ok(4) sub] that by blast
  qed
  have deg: "f v - count_list ns v = open_edges E (set (out @ [u])) v" for v using cnt [of v] by simp
  have pos: "0 < count_list ns v" if "v \<in> set ns" for v using that by (simp add: count_list_0_iff flip: neq0_conv)
  have fresh: "v \<notin> set out \<union> {u} \<union> set q" if "v \<in> set ns" "f v = count_list ns v" for v
  proof -
    have "f v \<noteq> 0" using pos [OF that(1)] that(2) by simp
    moreover have "v \<in> ids" using sub that(1) by blast
    ultimately show ?thesis using bspec [OF ok(5), of v] by auto
  qed
  have "run_ok E ids (\<lambda>v. if v \<in> ids then Some (f v - count_list ns v) else None) queue' (out @ [u])"
    unfolding run_ok_def
  proof (intro conjI)
    show "distinct ((out @ [u]) @ queue')" using ok(1) r(2,3) fresh by auto
    show "set ((out @ [u]) @ queue') \<subseteq> ids" using ok(2) r(3) sub by auto
    show "topological E (out @ [u])"
      using ok(2,3,5) by (intro topological_snoc) (auto simp: f_def open_edges_zero)
    show "(\<lambda>v. if v \<in> ids then Some (f v - count_list ns v) else None)
        = (\<lambda>v. if v \<in> ids then Some (open_edges E (set (out @ [u])) v) else None)"
      using deg by presburger
    show "\<forall>v\<in>ids. open_edges E (set (out @ [u])) v = 0 \<longleftrightarrow> v \<in> set ((out @ [u]) @ queue')"
    proof
      fix v assume v: "v \<in> ids"
      have "v \<in> set ns" if "f v \<noteq> 0" "f v = count_list ns v"
        using that by (metis count_list_0_iff)
      then show "open_edges E (set (out @ [u])) v = 0 \<longleftrightarrow> v \<in> set ((out @ [u]) @ queue')"
        using cnt [of v] ok(5) v r(3) by auto
    qed
  qed
  then show ?thesis using r(1) assms(3) by (auto simp: q ns_def)
qed

lemma kahn_run:
  assumes "run_ok E ids in_degree queue out" "\<forall>u. listed dependents u = targets E u" "snd ` set E \<subseteq> ids" "finite ids"
    and "card ids \<le> fuel + length out"
  shows "\<exists>out' in_degree'. kahn_loop ins arrange dependents fuel in_degree queue out = Some (out', in_degree')
    \<and> run_ok E ids in_degree' [] out'"
  using assms(1,5)
proof (induction fuel arbitrary: in_degree queue out)
  case 0
  have "length (out @ queue) \<le> card ids"
    using 0(1) assms(4) by (metis card_mono distinct_card run_ok_def)
  then have "length queue = 0" using 0(2) unfolding length_append by linarith
  then have "queue = []" by (simp only: length_0_conv)
  then show ?case using 0(1) by (simp add: kahn_loop.simps)
next
  case (Suc fuel)
  show ?case
  proof (cases "queue = []")
    case True
    then show ?thesis using Suc.prems(1) by (simp add: kahn_loop.simps)
  next
    case False
    from run_step [OF Suc.prems(1) this _ assms(3), of dependents] assms(2)
    obtain in_degree' queue' where r: "release_all ins (arrange (listed dependents (last queue))) (in_degree, butlast queue)
      = Some (in_degree', queue')" "run_ok E ids in_degree' queue' (out @ [last queue])" by blast
    show ?thesis using Suc.IH [OF r(2)] Suc.prems(2) False r(1)
      by (subst kahn_loop.simps) simp
  qed
qed

lemma run_start:
  assumes "distinct queue" "set queue = {v \<in> ids. open_edges E {} v = 0}"
    "in_degree = (\<lambda>v. if v \<in> ids then Some (open_edges E {} v) else None)"
  shows "run_ok E ids in_degree queue []"
  using assms by (auto simp: run_ok_def)

end

text \<open>The nodes that are not put out are those that a cycle leads to, and their counts are positive.\<close>

definition after_cycle :: "('a \<times> 'a) set \<Rightarrow> 'a \<Rightarrow> bool" where
  "after_cycle R v \<longleftrightarrow> (\<exists>u. (u, u) \<in> R\<^sup>+ \<and> (u, v) \<in> R\<^sup>*)"

lemma left_out_cyclic:
  assumes "topological E out" "distinct out" "set out \<subseteq> ids" "finite ids" "fst ` set E \<subseteq> ids"
    and "\<forall>v\<in>ids. open_edges E (set out) v = 0 \<longleftrightarrow> v \<in> set out" "v \<in> ids"
  shows "v \<notin> set out \<longleftrightarrow> after_cycle (set E) v"
  unfolding after_cycle_def
proof
  assume v: "v \<notin> set out"
  let ?R = "ids - set out"
  have pred: "\<exists>u\<in>?R. (u, w) \<in> set E" if "w \<in> ?R" for w
    using that assms(5,6) open_edges_zero [of E "set out" w] by force
  show "\<exists>u. (u, u) \<in> (set E)\<^sup>+ \<and> (u, v) \<in> (set E)\<^sup>*"
  proof (rule ccontr)
    assume no: "\<not> ?thesis"
    let ?A = "{w. (w, v) \<in> (set E)\<^sup>*}"
    let ?r = "Restr (set E) ?A"
    have "acyclic ?r"
    proof (rule acyclicI, intro allI notI)
      fix u assume u: "(u, u) \<in> ?r\<^sup>+"
      have "(u, u) \<in> (set E)\<^sup>+" using u by (rule trancl_mono) auto
      moreover have "(u, v) \<in> (set E)\<^sup>*" using u by (induction rule: trancl_induct) auto
      ultimately show False using no by blast
    qed
    then have "wf ?r" by (intro finite_acyclic_wf) auto
    moreover have "v \<in> ?R \<inter> ?A" using v assms(7) by simp
    ultimately obtain w where w: "w \<in> ?R \<inter> ?A" "\<And>u. (u, w) \<in> ?r \<Longrightarrow> u \<notin> ?R \<inter> ?A"
      by (meson wfE_min)
    obtain u where "u \<in> ?R" "(u, w) \<in> set E" using pred w(1) by blast
    moreover from this have "u \<in> ?A" using w(1) by (auto intro: converse_rtrancl_into_rtrancl)
    ultimately show False using w by blast
  qed
next
  assume "\<exists>u. (u, u) \<in> (set E)\<^sup>+ \<and> (u, v) \<in> (set E)\<^sup>*"
  then obtain u where u: "(u, u) \<in> (set E)\<^sup>+" "(u, v) \<in> (set E)\<^sup>*" by blast
  show "v \<notin> set out"
  proof
    assume "v \<in> set out"
    with u(2) have "u \<in> set out"
      by (induction rule: converse_rtrancl_induct) (auto intro: topological_pred [OF assms(1)])
    then show False using topological_not_cyclic [OF assms(1,2) u(1)] by simp
  qed
qed

end
