(* ===== verification/WorkflowDsl.thy ===== *)
theory WorkflowDsl
  imports WorkflowTypes Kahn CoreTypes "HOL-Library.Char_ord" "HOL-Library.List_Lexorder"
begin

text \<open>
  \<open>argentor-orchestrator/src/workflow_dsl.rs\<close>: a workflow file as parsed, the findings of its
  validation, and its compilation into the definition the engine of \<open>workflow.rs\<close> runs. The TOML
  parser is not modelled; the environment is an argument. The order in which a \<open>HashMap\<close> yields
  its keys is an argument too, one per map.
\<close>

section \<open>The workflow file\<close>

record WorkflowMeta =
  meta_name :: string
  meta_description :: "string option"
  meta_version :: "string option"
  meta_author :: "string option"
  meta_tags :: "string list option"
  meta_max_retries :: "u32 option"
  meta_timeout_seconds :: "u64 option"

record StepToml =
  step_id :: string
  step_name :: string
  step_kind :: string
  role :: "string option"
  prompt :: "string option"
  tools :: "string list option"
  model :: "string option"
  url :: "string option"
  http_method :: "string option"
  headers :: "(string \<rightharpoonup> string) option"
  body :: "string option"
  condition :: "string option"
  on_true :: "string option"
  on_false :: "string option"
  delay_seconds :: "u64 option"
  notify_channel :: "string option"
  message :: "string option"
  team :: "string option"
  depends_on :: "string list option"
  timeout_seconds :: "u64 option"
  retry :: "u32 option"
  failure_text :: "string option"
  run_if :: "string option"

record TriggerConfig =
  cron :: "string option"
  webhook :: "bool option"
  on_event :: "string option"

record WorkflowToml =
  workflow :: WorkflowMeta
  steps :: "StepToml list"
  triggers :: "TriggerConfig option"
  variables :: "(string \<rightharpoonup> string) option"

record TemplateContext =
  ctx_input :: string
  step_outputs :: "string \<rightharpoonup> string"
  ctx_variables :: "string \<rightharpoonup> string"

datatype ValidationSeverity = Error | Warning

record ValidationError =
  error_step_id :: "string option"
  error_message :: string
  severity :: ValidationSeverity

definition quote_name :: "string \<Rightarrow> string" where
  "quote_name s = CHR 39 # s @ [CHR 39]"

definition show_validation_error :: "ValidationError \<Rightarrow> string" where
  "show_validation_error e =
     (let pre = (case severity e of Error \<Rightarrow> ''ERROR'' | Warning \<Rightarrow> ''WARNING'')
      in case error_step_id e of
           Some i \<Rightarrow> ''['' @ pre @ ''] step '' @ quote_name i @ '': '' @ error_message e
         | None \<Rightarrow> ''['' @ pre @ ''] '' @ error_message e)"

section \<open>Validation\<close>

definition step_error_at :: "StepToml \<Rightarrow> string \<Rightarrow> ValidationError" where
  "step_error_at s msg = \<lparr>error_step_id = Some (step_id s), error_message = msg, severity = Error\<rparr>"

definition require :: "StepToml \<Rightarrow> 'a option \<Rightarrow> string \<Rightarrow> ValidationError list" where
  "require s field msg = (if field = None then [step_error_at s msg] else [])"

definition requires :: "string \<Rightarrow> string \<Rightarrow> string" where
  "requires kind field = kind @ '' step requires '' @ quote_name field @ '' field''"

definition check_target :: "StepToml \<Rightarrow> string set \<Rightarrow> string option \<Rightarrow> string \<Rightarrow> ValidationError list" where
  "check_target s ids target field =
     (case target of
        Some t \<Rightarrow> if t \<notin> ids then [step_error_at s (field @ '' references unknown step '' @ quote_name t)] else []
      | None \<Rightarrow> [])"

definition check_kind :: "string set \<Rightarrow> StepToml \<Rightarrow> ValidationError list" where
  "check_kind ids s =
     (if step_kind s = ''agent'' then
        require s (role s) (requires ''agent'' ''role'') @ require s (prompt s) (requires ''agent'' ''prompt'')
      else if step_kind s = ''http'' then require s (url s) (requires ''http'' ''url'')
      else if step_kind s = ''condition'' then
        require s (condition s) (requires ''condition'' ''condition'')
        @ require s (on_true s) (requires ''condition'' ''on_true'')
        @ require s (on_false s) (requires ''condition'' ''on_false'')
        @ check_target s ids (on_true s) ''on_true''
        @ check_target s ids (on_false s) ''on_false''
      else if step_kind s = ''delay'' then require s (delay_seconds s) (requires ''delay'' ''delay_seconds'')
      else if step_kind s = ''notification'' then
        require s (notify_channel s) (requires ''notification'' ''channel'')
        @ require s (message s) (requires ''notification'' ''message'')
      else if step_kind s = ''assign_human'' then
        require s (team s) (requires ''assign_human'' ''team'')
        @ require s (message s) (requires ''assign_human'' ''message'')
      else [step_error_at s (''unknown step type '' @ quote_name (step_kind s))])"

definition check_dep :: "string set \<Rightarrow> StepToml \<Rightarrow> string \<Rightarrow> ValidationError list" where
  "check_dep ids s dep =
     (if dep \<notin> ids then [step_error_at s (''depends_on references unknown step '' @ quote_name dep)] else [])
     @ (if dep = step_id s then [step_error_at s ''step depends on itself''] else [])"

definition check_deps :: "string set \<Rightarrow> StepToml \<Rightarrow> ValidationError list" where
  "check_deps ids s = (case depends_on s of Some deps \<Rightarrow> concat (map (check_dep ids s) deps) | None \<Rightarrow> [])"

definition check_failure :: "string set \<Rightarrow> StepToml \<Rightarrow> ValidationError list" where
  "check_failure ids s =
     (case failure_text s of
        None \<Rightarrow> []
      | Some target \<Rightarrow>
          if target \<in> {''skip'', ''abort'', ''retry''} then []
          else if target \<notin> ids
          then [step_error_at s (''on_failure value '' @ quote_name target
                 @ '' is neither a known action (skip/abort/retry) nor a valid step id'')]
          else [])"

definition check_timeout :: "StepToml \<Rightarrow> ValidationError list" where
  "check_timeout s =
     (case timeout_seconds s of
        Some t \<Rightarrow>
          if 3600 < t
          then [\<lparr>error_step_id = Some (step_id s),
                 error_message = ''timeout_seconds ('' @ show_nat (unat t) @ ''s) exceeds 1 hour'', severity = Warning\<rparr>]
          else []
      | None \<Rightarrow> [])"

definition check_step :: "string set \<Rightarrow> StepToml \<Rightarrow> ValidationError list" where
  "check_step ids s = check_kind ids s @ check_deps ids s @ check_failure ids s @ check_timeout s"

fun duplicate_ids :: "string set \<Rightarrow> StepToml list \<Rightarrow> ValidationError list" where
  "duplicate_ids seen [] = []"
| "duplicate_ids seen (s # ss) =
     (if step_id s \<in> seen then [step_error_at s (''duplicate step id '' @ quote_name (step_id s))] else [])
     @ duplicate_ids (insert (step_id s) seen) ss"

section \<open>The dependency graph\<close>

definition add_dep ::
  "string set \<Rightarrow> string \<Rightarrow> (string \<rightharpoonup> nat) \<times> (string \<rightharpoonup> string list) \<Rightarrow> string
     \<Rightarrow> (string \<rightharpoonup> nat) \<times> (string \<rightharpoonup> string list)" where
  "add_dep ids i g dep =
     (let (in_degree, dependents) = g
      in if dep \<in> ids
         then (in_degree(i \<mapsto> (case in_degree i of Some d \<Rightarrow> d | None \<Rightarrow> 0) + 1), push_index dependents dep i)
         else g)"

definition add_step ::
  "string set \<Rightarrow> (string \<rightharpoonup> nat) \<times> (string \<rightharpoonup> string list) \<Rightarrow> StepToml
     \<Rightarrow> (string \<rightharpoonup> nat) \<times> (string \<rightharpoonup> string list)" where
  "add_step ids g s =
     (let (in_degree, dependents) = g;
          in_degree = (case in_degree (step_id s) of Some _ \<Rightarrow> in_degree | None \<Rightarrow> in_degree(step_id s \<mapsto> 0))
      in case depends_on s of
           Some deps \<Rightarrow> foldl (add_dep ids (step_id s)) (in_degree, dependents) deps
         | None \<Rightarrow> (in_degree, dependents))"

definition dependency_graph :: "StepToml list \<Rightarrow> (string \<rightharpoonup> nat) \<times> (string \<rightharpoonup> string list)" where
  "dependency_graph ss = foldl (add_step (set (map step_id ss))) (Map.empty, Map.empty) ss"

definition cycle_error :: "string list \<Rightarrow> ValidationError" where
  "cycle_error names =
     \<lparr>error_step_id = None,
      error_message = ''circular dependency detected among steps: ['' @ join '', '' names @ '']'',
      severity = Error\<rparr>"

text \<open>\<open>keys\<close>: the order in which \<open>in_degree\<close> yields its keys. A count below zero is \<open>None\<close>.\<close>

definition detect_cycles :: "string list \<Rightarrow> StepToml list \<Rightarrow> ValidationError list option" where
  "detect_cycles keys ss =
     (let (in_degree, dependents) = dependency_graph ss;
          queue = filter (\<lambda>i. in_degree i = Some 0) keys
      in case kahn_loop (\<lambda>next queue. queue @ [next]) (\<lambda>nexts. nexts) dependents (length keys) in_degree queue [] of
           None \<Rightarrow> None
         | Some (visited, in_degree) \<Rightarrow>
             if length visited < length (remdups (map step_id ss))
             then Some [cycle_error (filter (\<lambda>i. case in_degree i of Some deg \<Rightarrow> 0 < deg | None \<Rightarrow> False) keys)]
             else Some [])"

text \<open>\<open>pp\<close> is \<open>partition_point\<close>: its result on a slice that is not partitioned is unspecified.\<close>

definition insert_sorted :: "((string \<Rightarrow> bool) \<Rightarrow> string list \<Rightarrow> nat) \<Rightarrow> string \<Rightarrow> string list \<Rightarrow> string list" where
  "insert_sorted pp next queue = (let pos = pp (\<lambda>x. next \<le> x) queue in take pos queue @ [next] @ drop pos queue)"

definition topological_sort ::
  "((string \<Rightarrow> bool) \<Rightarrow> string list \<Rightarrow> nat) \<Rightarrow> string list \<Rightarrow> StepToml list \<Rightarrow> string list option" where
  "topological_sort pp keys ss =
     (let (in_degree, dependents) = dependency_graph ss;
          queue = sort (filter (\<lambda>i. in_degree i = Some 0) keys)
      in map_option fst (kahn_loop (insert_sorted pp) sort dependents (length keys) in_degree queue []))"

definition validate :: "string list \<Rightarrow> WorkflowToml \<Rightarrow> ValidationError list option" where
  "validate keys t =
     (if steps t = [] then Some [\<lparr>error_step_id = None, error_message = ''workflow has no steps'', severity = Error\<rparr>]
      else
        let ids = set (map step_id (steps t));
            errors = duplicate_ids {} (steps t) @ concat (map (check_step ids) (steps t))
        in map_option (\<lambda>cycles. errors @ cycles) (detect_cycles keys (steps t)))"

section \<open>Compilation\<close>

definition compile_trigger :: "TriggerConfig option \<Rightarrow> 'f WorkflowTrigger" where
  "compile_trigger trigger =
     (case trigger of
        None \<Rightarrow> Manual
      | Some tc \<Rightarrow>
          (case cron tc of
             Some cron_expr \<Rightarrow> Schedule cron_expr
           | None \<Rightarrow>
               (case on_event tc of
                  Some event \<Rightarrow> Webhook event
                | None \<Rightarrow> if webhook tc = Some True then Webhook ''webhook'' else Manual)))"

definition unwrap_or_default :: "string option \<Rightarrow> string" where
  "unwrap_or_default x = (case x of Some s \<Rightarrow> s | None \<Rightarrow> [])"

definition compile_kind :: "StepToml \<Rightarrow> ArgentorError + StepType" where
  "compile_kind s =
     (if step_kind s = ''agent'' then Inr (AgentTask (unwrap_or_default (role s)) (unwrap_or_default (prompt s)))
      else if step_kind s = ''http'' then
        Inr (HttpCall (case http_method s of Some m \<Rightarrow> m | None \<Rightarrow> ''POST'') (unwrap_or_default (url s)) (body s))
      else if step_kind s = ''condition'' then
        Inr (Condition (unwrap_or_default (condition s)) (unwrap_or_default (on_true s)) (unwrap_or_default (on_false s)))
      else if step_kind s = ''delay'' then Inr (Delay (case delay_seconds s of Some d \<Rightarrow> d | None \<Rightarrow> 0))
      else if step_kind s = ''notification'' then
        Inr (Notification (unwrap_or_default (notify_channel s)) (unwrap_or_default (message s)))
      else if step_kind s = ''assign_human'' then
        Inr (AssignToHuman (unwrap_or_default (team s)) (unwrap_or_default (message s)))
      else Inl (Config (''unknown step type '' @ quote_name (step_kind s))))"

definition compile_failure :: "StepToml \<Rightarrow> FailureAction" where
  "compile_failure s =
     (case failure_text s of
        None \<Rightarrow> Abort
      | Some action \<Rightarrow>
          if action = ''skip'' then Skip
          else if action = ''abort'' then Abort
          else if action = ''retry'' then Retry (case retry s of Some n \<Rightarrow> n | None \<Rightarrow> 3)
          else GoTo action)"

definition compile_run_if :: "StepToml \<Rightarrow> 'f StepCondition option" where
  "compile_run_if s =
     map_option (\<lambda>expr. if expr = ''previous_succeeded'' then IfPreviousSucceeded else Expression expr) (run_if s)"

definition compile_step :: "StepToml \<Rightarrow> ArgentorError + 'f WorkflowStepDef" where
  "compile_step s =
     (case compile_kind s of
        Inl e \<Rightarrow> Inl e
      | Inr st \<Rightarrow>
          Inr \<lparr>sdef_id = step_id s, sdef_name = step_name s, step_type = st, run_condition = compile_run_if s,
               on_failure = compile_failure s, sdef_timeout_seconds = timeout_seconds s\<rparr>)"

fun compile_steps :: "StepToml list \<Rightarrow> ArgentorError + 'f WorkflowStepDef list" where
  "compile_steps [] = Inr []"
| "compile_steps (s # ss) =
     (case compile_step s of
        Inl e \<Rightarrow> Inl e
      | Inr d \<Rightarrow> (case compile_steps ss of Inl e \<Rightarrow> Inl e | Inr ds \<Rightarrow> Inr (d # ds)))"

text \<open>
  \<open>keys\<close> and \<open>keys'\<close> order the maps of \<open>detect_cycles\<close> and \<open>topological_sort\<close>. \<open>step_map\<close> keeps the
  last step under each identifier.
\<close>

definition compile ::
  "((string \<Rightarrow> bool) \<Rightarrow> string list \<Rightarrow> nat) \<Rightarrow> string list \<Rightarrow> string list \<Rightarrow> WorkflowToml
     \<Rightarrow> (ArgentorError + 'f WorkflowDefinition) option" where
  "compile pp keys keys' t =
     (case validate keys t of
        None \<Rightarrow> None
      | Some findings \<Rightarrow>
          (case filter (\<lambda>e. severity e = Error) findings of
             first # _ \<Rightarrow> Some (Inl (Config (''workflow validation failed: '' @ show_validation_error first)))
           | [] \<Rightarrow>
               (case compile_steps (steps t) of
                  Inl e \<Rightarrow> Some (Inl e)
                | Inr ds \<Rightarrow>
                    (case topological_sort pp keys' (steps t) of
                       None \<Rightarrow> None
                     | Some ordered \<Rightarrow>
                         let step_map = map_of (rev (map (\<lambda>d. (sdef_id d, d)) ds))
                         in Some (Inr
                              \<lparr>workflow_def_id = meta_name (workflow t), workflow_name = meta_name (workflow t),
                               workflow_description = unwrap_or_default (meta_description (workflow t)),
                               workflow_trigger = compile_trigger (triggers t),
                               workflow_steps = List.map_filter step_map ordered,
                               workflow_timeout_seconds = meta_timeout_seconds (workflow t)\<rparr>)))))"

section \<open>Templates\<close>

definition strip_suffix :: "string \<Rightarrow> string \<Rightarrow> string option" where
  "strip_suffix p s = map_option rev (strip_prefix (rev p) (rev s))"

text \<open>\<open>env\<close>: \<open>std::env::var\<close>, \<open>None\<close> when the variable is not set or not Unicode.\<close>

definition resolve_placeholder :: "(string \<Rightarrow> string option) \<Rightarrow> string \<Rightarrow> TemplateContext \<Rightarrow> string" where
  "resolve_placeholder env key ctx =
     (if key = ''input'' then ctx_input ctx
      else case Option.bind (strip_prefix ''steps.'' key) (strip_suffix ''.output'') of
        Some i \<Rightarrow> unwrap_or_default (step_outputs ctx i)
      | None \<Rightarrow>
          (case strip_prefix ''env.'' key of
             Some var_name \<Rightarrow> unwrap_or_default (env var_name)
           | None \<Rightarrow>
               (case (case strip_prefix ''variables.'' key of Some k \<Rightarrow> Some k | None \<Rightarrow> strip_prefix ''var.'' key) of
                  Some var_key \<Rightarrow> unwrap_or_default (ctx_variables ctx var_key)
                | None \<Rightarrow> [])))"

abbreviation open_braces :: string where "open_braces \<equiv> ''{{''"
abbreviation close_braces :: string where "close_braces \<equiv> ''}}''"

function resolve_loop :: "(string \<Rightarrow> string option) \<Rightarrow> TemplateContext \<Rightarrow> string \<Rightarrow> string \<Rightarrow> string" where
  "resolve_loop env ctx result remaining =
     (case find_sub open_braces remaining of
        None \<Rightarrow> result @ remaining
      | Some start \<Rightarrow>
          let after_open = drop (start + 2) remaining
          in case find_sub close_braces after_open of
               None \<Rightarrow> result @ take start remaining @ drop start remaining
             | Some fin \<Rightarrow>
                 resolve_loop env ctx
                   (result @ take start remaining @ resolve_placeholder env (trim (take fin after_open)) ctx)
                   (drop (fin + 2) after_open))"
  by pat_completeness auto
termination
  by (relation "measure (\<lambda>(_, _, _, remaining). length remaining)") (auto dest: find_sub_Some_le)

declare resolve_loop.simps [simp del]

definition resolve_template :: "(string \<Rightarrow> string option) \<Rightarrow> string \<Rightarrow> TemplateContext \<Rightarrow> string" where
  "resolve_template env template ctx = resolve_loop env ctx [] template"

text \<open>Text and placeholder keys in turn, then a last text.\<close>

definition template_of :: "(string \<times> string) list \<Rightarrow> string \<Rightarrow> string" where
  "template_of segs tail = concat (map (\<lambda>(t, k). t @ open_braces @ k @ close_braces) segs) @ tail"

definition plain_segments :: "(string \<times> string) list \<Rightarrow> string \<Rightarrow> bool" where
  "plain_segments segs tail \<longleftrightarrow>
     (\<forall>(t, k)\<in>set segs. \<not> sublist open_braces (t @ ''{'') \<and> \<not> sublist close_braces (k @ ''}''))
     \<and> \<not> sublist open_braces tail"

lemma find_double: "\<not> sublist [c, c] (t @ [c]) \<Longrightarrow> find_sub [c, c] (t @ c # c # r) = Some (length t)"
proof (induction t)
  case Nil
  show ?case by (simp add: find_sub_Cons)
next
  case (Cons x t)
  then show ?case by (cases t) (auto simp: sublist_Cons_right find_sub_Cons)
qed

lemma resolve_loop_template:
  "plain_segments segs tail \<Longrightarrow> resolve_loop env ctx result (template_of segs tail)
     = result @ concat (map (\<lambda>(t, k). t @ resolve_placeholder env (trim k) ctx) segs) @ tail"
proof (induction segs arbitrary: result)
  case Nil
  then have "find_sub open_braces tail = None" by (simp add: plain_segments_def find_sub_None_iff)
  then show ?case by (subst resolve_loop.simps) (simp add: template_of_def)
next
  case (Cons seg segs)
  obtain t k where seg: "seg = (t, k)" by force
  let ?rest = "template_of segs tail"
  have plain: "\<not> sublist open_braces (t @ ''{'')" "\<not> sublist close_braces (k @ ''}'')" "plain_segments segs tail"
    using Cons.prems by (auto simp: plain_segments_def seg)
  have "template_of (seg # segs) tail = t @ open_braces @ k @ close_braces @ ?rest"
    by (simp add: template_of_def seg)
  moreover have "find_sub open_braces (t @ open_braces @ k @ close_braces @ ?rest) = Some (length t)"
    using find_double [OF plain(1)] by simp
  moreover have "find_sub close_braces (k @ close_braces @ ?rest) = Some (length k)"
    using find_double [OF plain(2)] by simp
  ultimately show ?case
    by (subst resolve_loop.simps) (simp add: seg Cons.IH [OF plain(3)])
qed

text \<open>
  A template is resolved in one pass. Each text between placeholders is kept, each placeholder
  gives the value of its trimmed key, and braces inside a value are never taken for a placeholder.
\<close>

lemma resolve_template_once:
  assumes "plain_segments segs tail"
  shows "resolve_template env (template_of segs tail) ctx
    = concat (map (\<lambda>(t, k). t @ resolve_placeholder env (trim k) ctx) segs) @ tail"
  using resolve_loop_template [OF assms, of env ctx "[]"] by (simp add: resolve_template_def)

section \<open>The graph that is built\<close>

definition deps :: "StepToml \<Rightarrow> string list" where
  "deps s = (case depends_on s of Some ds \<Rightarrow> ds | None \<Rightarrow> [])"

definition step_edges :: "string set \<Rightarrow> StepToml \<Rightarrow> (string \<times> string) list" where
  "step_edges ids s = map (\<lambda>d. (d, step_id s)) (filter (\<lambda>d. d \<in> ids) (deps s))"

text \<open>An edge from each declared dependency to the step that names it.\<close>

definition depends_edges :: "StepToml list \<Rightarrow> (string \<times> string) list" where
  "depends_edges ss = concat (map (step_edges (set (map step_id ss))) ss)"

definition graph_of :: "string set \<Rightarrow> (string \<times> string) list \<Rightarrow> (string \<rightharpoonup> nat) \<times> (string \<rightharpoonup> string list) \<Rightarrow> bool" where
  "graph_of I E g \<longleftrightarrow>
     fst g = (\<lambda>v. if v \<in> I then Some (open_edges E {} v) else None)
     \<and> (\<forall>u. listed (snd g) u = targets E u) \<and> snd ` set E \<subseteq> I"

lemma open_edges_snoc: "open_edges (E @ [(u, w)]) {} v = open_edges E {} v + (if v = w then 1 else 0)"
  by (simp add: open_edges_def)

lemma targets_append: "targets (E @ F) u = targets E u @ targets F u"
  by (simp add: targets_def)

lemma add_dep_graph:
  assumes "graph_of I E g" "i \<in> I"
  shows "graph_of I (E @ (if d \<in> ids then [(d, i)] else [])) (add_dep ids i g d)"
proof (cases "d \<in> ids")
  case True
  then show ?thesis using assms
    by (auto simp: graph_of_def add_dep_def case_prod_beta open_edges_snoc targets_append targets_def [of "[_]"] fun_eq_iff)
next
  case False
  then show ?thesis using assms by (simp add: add_dep_def case_prod_beta)
qed

lemma add_deps_graph:
  "graph_of I E g \<Longrightarrow> i \<in> I
     \<Longrightarrow> graph_of I (E @ map (\<lambda>d. (d, i)) (filter (\<lambda>d. d \<in> ids) ds)) (foldl (add_dep ids i) g ds)"
proof (induction ds arbitrary: E g)
  case Nil
  then show ?case by simp
next
  case (Cons d ds)
  show ?case using Cons.IH [OF add_dep_graph [OF Cons.prems, of d ids] Cons.prems(2)] by (cases "d \<in> ids") simp_all
qed

lemma add_step_graph:
  assumes "graph_of I E g"
  shows "graph_of (insert (step_id s) I) (E @ step_edges ids s) (add_step ids g s)"
proof -
  let ?m = "case fst g (step_id s) of Some _ \<Rightarrow> fst g | None \<Rightarrow> (fst g)(step_id s \<mapsto> 0)"
  have none: "open_edges E {} v = 0" if "v \<notin> I" for v
    using assms that by (auto simp: graph_of_def open_edges_zero)
  have "graph_of (insert (step_id s) I) E (?m, snd g)"
    using assms none [of "step_id s"] by (auto simp: graph_of_def fun_eq_iff)
  from add_deps_graph [OF this, of "step_id s" ids "deps s"]
  have "graph_of (insert (step_id s) I) (E @ step_edges ids s) (foldl (add_dep ids (step_id s)) (?m, snd g) (deps s))"
    by (simp add: step_edges_def)
  moreover have "add_step ids g s = foldl (add_dep ids (step_id s)) (?m, snd g) (deps s)"
    by (simp add: add_step_def case_prod_beta deps_def split: option.split)
  ultimately show ?thesis by (simp only:)
qed

lemma add_steps_graph:
  "graph_of I E g \<Longrightarrow> graph_of (set (map step_id ss) \<union> I) (E @ concat (map (step_edges ids) ss)) (foldl (add_step ids) g ss)"
proof (induction ss arbitrary: I E g)
  case Nil
  then show ?case by simp
next
  case (Cons s ss)
  show ?case using Cons.IH [OF add_step_graph [OF Cons.prems, of s ids]] by simp
qed

lemma dependency_graph_spec: "graph_of (set (map step_id ss)) (depends_edges ss) (dependency_graph ss)"
proof -
  have "graph_of {} [] (Map.empty, Map.empty)"
    by (simp add: graph_of_def targets_def)
  from add_steps_graph [OF this, of ss "set (map step_id ss)"] show ?thesis
    by (simp add: dependency_graph_def depends_edges_def)
qed

lemma depends_edges_ids: "fst ` set (depends_edges ss) \<subseteq> set (map step_id ss)" "snd ` set (depends_edges ss) \<subseteq> set (map step_id ss)"
  by (auto simp: depends_edges_def step_edges_def)

section \<open>Both runs of Kahn's algorithm\<close>

interpretation stack: kahn_queue "\<lambda>next queue. queue @ [next]" "\<lambda>nexts. nexts"
  by unfold_locales simp_all

interpretation sorted_queue: kahn_queue "insert_sorted pp" sort for pp
proof unfold_locales
  fix x q show "mset (insert_sorted pp x q) = add_mset x (mset q)"
    by (simp add: insert_sorted_def Let_def) (metis append_take_drop_id mset_append)
qed simp

text \<open>The order in which a map yields its keys.\<close>

definition keys_of :: "string list \<Rightarrow> StepToml list \<Rightarrow> bool" where
  "keys_of keys ss \<longleftrightarrow> distinct keys \<and> set keys = set (map step_id ss)"

lemma keys_of_card: "keys_of keys ss \<Longrightarrow> card (set (map step_id ss)) = length keys"
  by (metis distinct_card keys_of_def)

lemma graph_start:
  assumes "keys_of keys ss" "dependency_graph ss = (in_degree, dependents)"
  shows "in_degree = (\<lambda>v. if v \<in> set (map step_id ss) then Some (open_edges (depends_edges ss) {} v) else None)"
    and "\<forall>u. listed dependents u = targets (depends_edges ss) u"
    and "set (filter (\<lambda>i. in_degree i = Some 0) keys) = {v \<in> set (map step_id ss). open_edges (depends_edges ss) {} v = 0}"
  using dependency_graph_spec [of ss] assms by (auto simp: graph_of_def keys_of_def)

lemma detect_run:
  assumes "keys_of keys ss" "dependency_graph ss = (in_degree, dependents)"
  obtains out in_degree' where
    "kahn_loop (\<lambda>next queue. queue @ [next]) (\<lambda>nexts. nexts) dependents (length keys) in_degree
       (filter (\<lambda>i. in_degree i = Some 0) keys) [] = Some (out, in_degree')"
    "run_ok (depends_edges ss) (set (map step_id ss)) in_degree' [] out"
proof -
  have "distinct (filter (\<lambda>i. in_degree i = Some 0) keys)" using assms(1) by (simp add: keys_of_def)
  from stack.run_start [OF this graph_start(3,1) [OF assms]]
  have "run_ok (depends_edges ss) (set (map step_id ss)) in_degree (filter (\<lambda>i. in_degree i = Some 0) keys) []" .
  from stack.kahn_run [OF this graph_start(2) [OF assms] depends_edges_ids(2)] keys_of_card [OF assms(1)] that
  show thesis by fastforce
qed

lemma sort_run:
  assumes "keys_of keys ss"
  obtains out in_degree' where "topological_sort pp keys ss = Some out"
    "run_ok (depends_edges ss) (set (map step_id ss)) in_degree' [] out"
proof -
  obtain in_degree dependents where g: "dependency_graph ss = (in_degree, dependents)" by (metis surj_pair)
  let ?q = "filter (\<lambda>i. in_degree i = Some 0) keys"
  have "distinct (sort ?q)" "set (sort ?q) = {v \<in> set (map step_id ss). open_edges (depends_edges ss) {} v = 0}"
    using assms graph_start(3) [OF assms g] by (simp_all add: keys_of_def)
  from stack.run_start [OF this graph_start(1) [OF assms g]]
  have "run_ok (depends_edges ss) (set (map step_id ss)) in_degree (sort ?q) []" .
  from sorted_queue.kahn_run [OF this graph_start(2) [OF assms g] depends_edges_ids(2), of "length keys" pp]
  obtain out in_degree' where
    "kahn_loop (insert_sorted pp) sort dependents (length keys) in_degree (sort ?q) [] = Some (out, in_degree')"
    "run_ok (depends_edges ss) (set (map step_id ss)) in_degree' [] out"
    using keys_of_card [OF assms] by auto
  then show thesis using that by (simp add: topological_sort_def g)
qed

lemma run_end:
  assumes "run_ok (depends_edges ss) (set (map step_id ss)) in_degree [] out" "v \<in> set (map step_id ss)"
  shows "v \<notin> set out \<longleftrightarrow> after_cycle (set (depends_edges ss)) v"
proof (rule left_out_cyclic)
  show "\<forall>v\<in>set (map step_id ss). open_edges (depends_edges ss) (set out) v = 0 \<longleftrightarrow> v \<in> set out"
    using assms(1) by (simp add: run_ok_def)
  show "topological (depends_edges ss) out" "distinct out" "set out \<subseteq> set (map step_id ss)"
    using assms(1) by (simp_all add: run_ok_def)
qed (rule depends_edges_ids(1) assms(2) finite_set)+

lemma cycle_ids: "(u, u) \<in> (set (depends_edges ss))\<^sup>+ \<Longrightarrow> u \<in> set (map step_id ss)"
  by (drule tranclD, elim exE conjE) (rule subsetD [OF depends_edges_ids(1)], erule image_eqI [rotated], simp)

lemma run_end_all:
  assumes "run_ok (depends_edges ss) (set (map step_id ss)) in_degree [] out"
  shows "set out = set (map step_id ss) \<longleftrightarrow> acyclic (set (depends_edges ss))"
proof
  assume "set out = set (map step_id ss)"
  then show "acyclic (set (depends_edges ss))"
    using run_end [OF assms] cycle_ids unfolding acyclic_def after_cycle_def by blast
next
  assume "acyclic (set (depends_edges ss))"
  then have "v \<in> set out" if "v \<in> set (map step_id ss)" for v
    using run_end [OF assms that] by (auto simp: acyclic_def after_cycle_def)
  moreover have "set out \<subseteq> set (map step_id ss)" using assms by (simp add: run_ok_def)
  ultimately show "set out = set (map step_id ss)" by blast
qed

lemma detect_cycles_spec:
  assumes "keys_of keys ss"
  shows "detect_cycles keys ss = Some
    (if acyclic (set (depends_edges ss)) then []
     else [cycle_error (filter (after_cycle (set (depends_edges ss))) keys)])"
proof -
  obtain in_degree dependents where g: "dependency_graph ss = (in_degree, dependents)" by (metis surj_pair)
  from detect_run [OF assms g] obtain out in_degree' where r:
    "kahn_loop (\<lambda>next queue. queue @ [next]) (\<lambda>nexts. nexts) dependents (length keys) in_degree
       (filter (\<lambda>i. in_degree i = Some 0) keys) [] = Some (out, in_degree')"
    "run_ok (depends_edges ss) (set (map step_id ss)) in_degree' [] out" .
  have out: "distinct out" "set out \<subseteq> set (map step_id ss)" using r(2) by (simp_all add: run_ok_def)
  have "length out < length (remdups (map step_id ss)) \<longleftrightarrow> set out \<noteq> set (map step_id ss)"
    unfolding length_remdups_card_conv distinct_card [OF out(1), symmetric]
    using out(2) by (metis card_subset_eq finite_set nat_less_le card_mono)
  then have count: "length out < length (remdups (map step_id ss)) \<longleftrightarrow> \<not> acyclic (set (depends_edges ss))"
    using run_end_all [OF r(2)] by blast
  have "filter (\<lambda>i. case in_degree' i of Some deg \<Rightarrow> 0 < deg | None \<Rightarrow> False) keys
      = filter (after_cycle (set (depends_edges ss))) keys"
  proof (rule filter_cong [OF refl])
    fix v assume "v \<in> set keys"
    then have v: "v \<in> set (map step_id ss)" using assms by (simp add: keys_of_def)
    have "in_degree' v = Some (open_edges (depends_edges ss) (set out) v)"
      "open_edges (depends_edges ss) (set out) v = 0 \<longleftrightarrow> v \<in> set out"
      using r(2) v unfolding run_ok_def by auto
    then show "(case in_degree' v of Some deg \<Rightarrow> 0 < deg | None \<Rightarrow> False)
      = after_cycle (set (depends_edges ss)) v"
      unfolding run_end [OF r(2) v, symmetric] by auto
  qed
  then show ?thesis by (simp add: detect_cycles_def g r(1) count del: set_map)
qed

section \<open>Workflows that compile\<close>

text \<open>The fields a step needs for its kind, with branches to steps of the workflow.\<close>

definition kind_ok :: "string set \<Rightarrow> StepToml \<Rightarrow> bool" where
  "kind_ok ids s \<longleftrightarrow>
     step_kind s = ''agent'' \<and> role s \<noteq> None \<and> prompt s \<noteq> None
     \<or> step_kind s = ''http'' \<and> url s \<noteq> None
     \<or> step_kind s = ''condition'' \<and> condition s \<noteq> None \<and> on_true s \<in> Some ` ids \<and> on_false s \<in> Some ` ids
     \<or> step_kind s = ''delay'' \<and> delay_seconds s \<noteq> None
     \<or> step_kind s = ''notification'' \<and> notify_channel s \<noteq> None \<and> message s \<noteq> None
     \<or> step_kind s = ''assign_human'' \<and> team s \<noteq> None \<and> message s \<noteq> None"

definition step_ok :: "string set \<Rightarrow> StepToml \<Rightarrow> bool" where
  "step_ok ids s \<longleftrightarrow>
     kind_ok ids s \<and> set (deps s) \<subseteq> ids - {step_id s}
     \<and> (\<forall>a. failure_text s = Some a \<longrightarrow> a \<in> {''skip'', ''abort'', ''retry''} \<union> ids)"

definition well_formed :: "WorkflowToml \<Rightarrow> bool" where
  "well_formed t \<longleftrightarrow>
     steps t \<noteq> [] \<and> distinct (map step_id (steps t))
     \<and> (\<forall>s\<in>set (steps t). step_ok (set (map step_id (steps t))) s)
     \<and> acyclic (set (depends_edges (steps t)))"

definition errors_of :: "ValidationError list \<Rightarrow> ValidationError list" where
  "errors_of es = filter (\<lambda>e. severity e = Error) es"

lemma errors_of_simps [simp]:
  "errors_of [] = []" "errors_of (es @ fs) = errors_of es @ errors_of fs"
  "errors_of (if b then es else fs) = (if b then errors_of es else errors_of fs)"
  "errors_of (step_error_at s m # es) = step_error_at s m # errors_of es"
  by (simp_all add: errors_of_def step_error_at_def)

lemma errors_of_concat: "errors_of (concat (map f ss)) = [] \<longleftrightarrow> (\<forall>s\<in>set ss. errors_of (f s) = [])"
  by (induction ss) auto

lemma duplicate_ids_errors: "errors_of (duplicate_ids seen ss) = [] \<longleftrightarrow> distinct (map step_id ss) \<and> seen \<inter> set (map step_id ss) = {}"
  by (induction ss arbitrary: seen) auto

lemma require_errors [simp]: "errors_of (require s x m) = [] \<longleftrightarrow> x \<noteq> None"
  by (simp add: require_def)

lemma check_target_errors [simp]: "errors_of (check_target s ids x f) = [] \<longleftrightarrow> (\<forall>t. x = Some t \<longrightarrow> t \<in> ids)"
  by (simp add: check_target_def split: option.split)

lemma check_kind_errors: "errors_of (check_kind ids s) = [] \<longleftrightarrow> kind_ok ids s"
  by (auto simp: check_kind_def kind_ok_def image_iff)

lemma check_deps_errors: "errors_of (check_deps ids s) = [] \<longleftrightarrow> set (deps s) \<subseteq> ids - {step_id s}"
  by (auto simp: check_deps_def deps_def errors_of_concat check_dep_def split: option.split)

lemma check_failure_errors:
  "errors_of (check_failure ids s) = [] \<longleftrightarrow> (\<forall>a. failure_text s = Some a \<longrightarrow> a \<in> {''skip'', ''abort'', ''retry''} \<union> ids)"
  by (auto simp: check_failure_def split: option.split)

lemma check_timeout_errors [simp]: "errors_of (check_timeout s) = []"
  by (simp add: check_timeout_def errors_of_def split: option.split)

lemma check_step_errors: "errors_of (check_step ids s) = [] \<longleftrightarrow> step_ok ids s"
  by (auto simp: check_step_def step_ok_def check_kind_errors check_deps_errors check_failure_errors)

lemma validate_errors:
  assumes "keys_of keys (steps t)"
  obtains findings where "validate keys t = Some findings" "errors_of findings = [] \<longleftrightarrow> well_formed t"
proof (cases "steps t = []")
  case True
  then show thesis by (intro that) (auto simp: validate_def errors_of_def well_formed_def)
next
  case False
  let ?ids = "set (map step_id (steps t))"
  obtain cycles where c: "detect_cycles keys (steps t) = Some cycles"
    "errors_of cycles = [] \<longleftrightarrow> acyclic (set (depends_edges (steps t)))"
    using detect_cycles_spec [OF assms] by (auto simp: errors_of_def cycle_error_def)
  let ?fs = "duplicate_ids {} (steps t) @ concat (map (check_step ?ids) (steps t)) @ cycles"
  have "validate keys t = Some ?fs"
    using False by (simp add: validate_def c(1))
  moreover have "errors_of ?fs = [] \<longleftrightarrow> well_formed t"
    using False by (simp add: well_formed_def c(2) duplicate_ids_errors errors_of_concat check_step_errors del: set_map)
  ultimately show thesis by (rule that)
qed

lemma compile_kind_total: "kind_ok ids s \<Longrightarrow> \<exists>k. compile_kind s = Inr k"
  by (auto simp: kind_ok_def compile_kind_def)

lemma compile_step_total: "step_ok ids s \<Longrightarrow> \<exists>d. compile_step s = Inr d \<and> sdef_id d = step_id s"
  using compile_kind_total [of ids s] by (auto simp: step_ok_def compile_step_def)

lemma compile_steps_total:
  "\<forall>s\<in>set ss. \<exists>d. (compile_step s :: ArgentorError + 'f WorkflowStepDef) = Inr d \<and> sdef_id d = step_id s
     \<Longrightarrow> \<exists>ds. compile_steps ss = Inr ds \<and> map (Inr :: 'f WorkflowStepDef \<Rightarrow> ArgentorError + _) ds = map compile_step ss
         \<and> map sdef_id ds = map step_id ss"
  by (induction ss) fastforce+

lemma compile_steps_inr: "compile_steps ss = Inr ds \<Longrightarrow> map compile_step ss = map Inr ds"
  by (induction ss arbitrary: ds) (auto split: sum.splits)

section \<open>What the compiler promises\<close>

text \<open>The compiled steps are the workflow's, each after the steps it depends on.\<close>

definition ordered_for :: "StepToml list \<Rightarrow> 'f WorkflowStepDef list \<Rightarrow> bool" where
  "ordered_for ss ds \<longleftrightarrow>
     mset (map Inr ds) = mset (map compile_step ss)
     \<and> (\<forall>j<length ds. \<forall>s\<in>set ss. step_id s = sdef_id (ds ! j)
          \<longrightarrow> set (deps s) \<subseteq> set (map sdef_id (take j ds)))"

lemma edge_of_dep: "s \<in> set ss \<Longrightarrow> d \<in> set (deps s) \<Longrightarrow> d \<in> set (map step_id ss) \<Longrightarrow> (d, step_id s) \<in> set (depends_edges ss)"
  by (auto simp: depends_edges_def step_edges_def)

lemma map_filter_of:
  "\<forall>i\<in>set out. \<exists>d. m i = Some d \<and> f d = i \<Longrightarrow> map f (List.map_filter m out) = out \<and> (\<forall>d\<in>set (List.map_filter m out). m (f d) = Some d)"
  by (induction out) (auto simp: map_filter_simps)

lemma reorder:
  assumes "distinct (map sdef_id ds)" "distinct out" "set out = set (map sdef_id ds)"
  defines "step_map \<equiv> map_of (rev (map (\<lambda>d. (sdef_id d, d)) ds))"
  shows "mset (List.map_filter step_map out) = mset ds" "map sdef_id (List.map_filter step_map out) = out"
proof -
  have dist: "distinct (map fst (rev (map (\<lambda>d. (sdef_id d, d)) ds)))"
    using assms(1) by (simp add: o_def flip: rev_map)
  have some: "step_map i = Some d \<longleftrightarrow> d \<in> set ds \<and> i = sdef_id d" for i d
    unfolding step_map_def using map_of_eq_Some_iff [OF dist, of i d] by auto
  have all: "\<forall>i\<in>set out. \<exists>d. step_map i = Some d \<and> sdef_id d = i"
    using assms(3) by (auto simp: some)
  note mf = map_filter_of [OF all]
  show ids: "map sdef_id (List.map_filter step_map out) = out" using mf by (rule conjunct1)
  have "distinct (List.map_filter step_map out)"
    by (metis assms(2) distinct_map ids)
  moreover have "distinct ds" using assms(1) by (simp only: distinct_map)
  moreover have "set (List.map_filter step_map out) = set ds"
  proof (intro equalityI subsetI)
    fix d assume "d \<in> set (List.map_filter step_map out)"
    then show "d \<in> set ds" using mf some by blast
  next
    fix d assume d: "d \<in> set ds"
    then have "sdef_id d \<in> set (map sdef_id (List.map_filter step_map out))" using assms(3) by (simp add: ids)
    then obtain e where e: "e \<in> set (List.map_filter step_map out)" "sdef_id e = sdef_id d" by auto
    then have "step_map (sdef_id d) = Some e" using mf by metis
    moreover have "step_map (sdef_id d) = Some d" using d by (simp add: some)
    ultimately show "d \<in> set (List.map_filter step_map out)" using e(1) by simp
  qed
  ultimately show "mset (List.map_filter step_map out) = mset ds" by (simp add: set_eq_iff_mset_eq_distinct)
qed

lemma topological_deps:
  assumes "topological (depends_edges ss) (map sdef_id ds)" "j < length ds" "s \<in> set ss" "step_id s = sdef_id (ds ! j)"
    and "set (deps s) \<subseteq> set (map step_id ss)"
  shows "set (deps s) \<subseteq> set (map sdef_id (take j ds))"
proof
  fix d assume "d \<in> set (deps s)"
  then have "(d, map sdef_id ds ! j) \<in> set (depends_edges ss)"
    using edge_of_dep [OF assms(3)] assms(2,4,5) by auto
  then show "d \<in> set (map sdef_id (take j ds))"
    using assms(1,2) unfolding topological_def by (auto simp: take_map)
qed

lemma compile_well_formed:
  assumes "keys_of keys (steps t)" "keys_of keys' (steps t)" "well_formed t"
  shows "\<exists>d. compile pp keys keys' t = Some (Inr (d :: 'f WorkflowDefinition)) \<and> ordered_for (steps t) (workflow_steps d)"
proof -
  let ?ids = "set (map step_id (steps t))"
  obtain findings where v: "validate keys t = Some findings" "errors_of findings = []"
    using validate_errors [OF assms(1)] assms(3) by metis
  have ok: "\<forall>s\<in>set (steps t). step_ok ?ids s" "distinct (map step_id (steps t))"
    "acyclic (set (depends_edges (steps t)))" using assms(3) by (simp_all add: well_formed_def)
  have "\<forall>s\<in>set (steps t). \<exists>d. (compile_step s :: ArgentorError + 'f WorkflowStepDef) = Inr d \<and> sdef_id d = step_id s"
    using ok(1) compile_step_total by blast
  from compile_steps_total [OF this] obtain ds :: "'f WorkflowStepDef list" where ds:
    "compile_steps (steps t) = Inr ds" "map Inr ds = (map compile_step (steps t) :: (ArgentorError + _) list)"
    "map sdef_id ds = map step_id (steps t)" by blast
  from sort_run [OF assms(2)] obtain out in_degree' where out: "topological_sort pp keys' (steps t) = Some out"
    "run_ok (depends_edges (steps t)) ?ids in_degree' [] out" .
  have topo: "distinct out" "topological (depends_edges (steps t)) out" "set out = ?ids"
    using out(2) run_end_all [OF out(2)] ok(3) by (simp_all add: run_ok_def del: set_map)
  define os where "os = List.map_filter (map_of (rev (map (\<lambda>d. (sdef_id d, d)) ds))) out"
  have os: "mset os = mset ds" "map sdef_id os = out"
    using reorder [of ds out] ok(2) topo ds(3) by (simp_all add: os_def del: set_map)
  have "mset (map Inr os) = (mset (map compile_step (steps t)) :: (ArgentorError + 'f WorkflowStepDef) multiset)"
    using os(1) ds(2) by (metis mset_map)
  moreover have "set (deps s) \<subseteq> set (map sdef_id (take j os))"
    if "j < length os" "s \<in> set (steps t)" "step_id s = sdef_id (os ! j)" for j s
    using that ok(1) by (intro topological_deps [of "steps t"]) (auto simp: os(2) topo(2) step_ok_def)
  ultimately have "ordered_for (steps t) os" by (simp add: ordered_for_def del: set_map)
  then show ?thesis using v ds(1) out(1) by (simp add: compile_def errors_of_def os_def)
qed

lemma compile_ill_formed:
  assumes "keys_of keys (steps t)" "\<not> well_formed t"
  shows "\<exists>e. compile pp keys keys' t = Some (Inl (Config e) :: _ + 'f WorkflowDefinition)"
proof -
  obtain findings where v: "validate keys t = Some findings" "errors_of findings \<noteq> []"
    using validate_errors [OF assms(1)] assms(2) by metis
  then show ?thesis by (auto simp: compile_def errors_of_def neq_Nil_conv)
qed

lemma compile_result:
  assumes "keys_of keys (steps t)" "keys_of keys' (steps t)"
    and "compile pp keys keys' t = Some (Inr (d :: 'f WorkflowDefinition))"
  shows "well_formed t \<and> ordered_for (steps t) (workflow_steps d)"
proof -
  have wf: "well_formed t"
    using compile_ill_formed [OF assms(1), of pp keys', where 'f = 'f] assms(3) by (cases "well_formed t") auto
  from compile_well_formed [OF assms(1,2) this, of pp, where 'f = 'f] assms(3) wf show ?thesis by auto
qed

text \<open>
  C4: the compiler accepts exactly the well-formed workflows, which are those with a step, with
  distinct identifiers, with the fields each kind needs, with dependencies, branches and failure
  targets among the steps, and without a dependency cycle; its steps are then the declared ones,
  each once as \<open>compile_step\<close> translates it and after all the steps it depends on. Any other
  workflow is a configuration error. This holds for any order in which the hash maps yield their
  keys and any result of \<open>partition_point\<close>; no count goes below zero.
\<close>

theorem compile_exact:
  assumes "keys_of keys (steps t)" "keys_of keys' (steps t)"
  shows "case compile pp keys keys' t :: (ArgentorError + 'f WorkflowDefinition) option of
      None \<Rightarrow> False
    | Some (Inl e) \<Rightarrow> \<not> well_formed t \<and> (\<exists>m. e = Config m)
    | Some (Inr d) \<Rightarrow> well_formed t \<and> ordered_for (steps t) (workflow_steps d)"
proof (cases "well_formed t")
  case True
  from compile_well_formed [OF assms this, of pp, where 'f = 'f] show ?thesis using True by auto
next
  case False
  from compile_ill_formed [OF assms(1) this, of pp keys', where 'f = 'f] show ?thesis using False by auto
qed

text \<open>
  C15: the cycle check reports nothing exactly when the dependencies have no cycle, which is also
  when the separate topological sort puts out every step; otherwise its one finding names the
  steps that a cycle leads to (those on a cycle and those that depend on one).
\<close>

theorem detect_cycles_exact:
  assumes "keys_of keys ss" "keys_of keys' ss"
  shows "detect_cycles keys ss = Some
      (if acyclic (set (depends_edges ss)) then [] else [cycle_error (filter (after_cycle (set (depends_edges ss))) keys)])
    \<and> (\<exists>out. topological_sort pp keys' ss = Some out
         \<and> (set out = set (map step_id ss) \<longleftrightarrow> acyclic (set (depends_edges ss))))"
proof -
  from sort_run [OF assms(2)] obtain out in_degree' where out: "topological_sort pp keys' ss = Some out"
    "run_ok (depends_edges ss) (set (map step_id ss)) in_degree' [] out" .
  show ?thesis using detect_cycles_spec [OF assms(1)] out(1) run_end_all [OF out(2)] by blast
qed

section \<open>A workflow at work\<close>

text \<open>Two waits: \<open>b\<close> is declared first and depends on \<open>a\<close>.\<close>

definition blank_step :: StepToml where
  "blank_step =
     \<lparr>step_id = [], step_name = [], step_kind = ''delay'', role = None, prompt = None, tools = None, model = None,
      url = None, http_method = None, headers = None, body = None, condition = None, on_true = None, on_false = None,
      delay_seconds = Some 1, notify_channel = None, message = None, team = None, depends_on = None,
      timeout_seconds = None, retry = None, failure_text = None, run_if = None\<rparr>"

definition two_waits :: WorkflowToml where
  "two_waits =
     \<lparr>workflow = \<lparr>meta_name = ''w'', meta_description = None, meta_version = None, meta_author = None, meta_tags = None,
        meta_max_retries = None, meta_timeout_seconds = None\<rparr>,
      steps = [blank_step\<lparr>step_id := ''b'', depends_on := Some [''a'']\<rparr>, blank_step\<lparr>step_id := ''a''\<rparr>],
      triggers = None, variables = None\<rparr>"

text \<open>\<open>partition_point\<close> of a partitioned slice.\<close>

abbreviation prefix_point :: "(string \<Rightarrow> bool) \<Rightarrow> string list \<Rightarrow> nat" where
  "prefix_point P xs \<equiv> length (takeWhile P xs)"

lemma two_waits_keys: "keys_of [''a'', ''b''] (steps two_waits)"
  by (auto simp: keys_of_def two_waits_def)

lemma two_waits_compiled:
  "compile prefix_point [''a'', ''b''] [''a'', ''b''] two_waits = Some (Inr
     \<lparr>workflow_def_id = ''w'', workflow_name = ''w'', workflow_description = [], workflow_trigger = Manual,
      workflow_steps = map (\<lambda>i. \<lparr>sdef_id = i, sdef_name = [], step_type = Delay 1, run_condition = None,
        on_failure = Abort, sdef_timeout_seconds = None\<rparr>) [''a'', ''b''],
      workflow_timeout_seconds = None\<rparr>)"
proof -
  have st: "steps two_waits = [blank_step\<lparr>step_id := ''b'', depends_on := Some [''a'']\<rparr>, blank_step\<lparr>step_id := ''a''\<rparr>]"
    by (simp add: two_waits_def)
  have g: "dependency_graph (steps two_waits) = ([''b'' \<mapsto> 1, ''a'' \<mapsto> 0], [''a'' \<mapsto> [''b'']])"
    by (simp add: dependency_graph_def st blank_step_def add_step_def add_dep_def push_index_def)
  have d: "detect_cycles [''a'', ''b''] (steps two_waits) = Some []"
    unfolding detect_cycles_def g
    by (simp add: kahn_loop.simps release_one_def listed_def st blank_step_def)
  have o: "topological_sort prefix_point [''a'', ''b''] (steps two_waits) = Some [''a'', ''b'']"
    unfolding topological_sort_def g
    by (simp add: kahn_loop.simps release_one_def listed_def insert_sorted_def)
  have v: "validate [''a'', ''b''] two_waits = Some []"
    unfolding validate_def d
    by (simp add: st Let_def blank_step_def check_step_def check_kind_def require_def check_deps_def check_dep_def
        check_failure_def check_timeout_def)
  show ?thesis
    unfolding compile_def v o
    by (simp add: st blank_step_def compile_step_def compile_kind_def compile_run_if_def compile_failure_def two_waits_def
        unwrap_or_default_def compile_trigger_def map_filter_simps)
qed

text \<open>A placeholder whose value has braces itself.\<close>

lemma resolve_template_once_witness:
  "resolve_template (\<lambda>_. None) ''Hi {{ input }}!'' \<lparr>ctx_input = ''{{x}}'', step_outputs = Map.empty, ctx_variables = Map.empty\<rparr>
    = ''Hi {{x}}!''"
  using resolve_template_once [of "[(''Hi '', '' input '')]" "''!''" "\<lambda>_. None"
      "\<lparr>ctx_input = ''{{x}}'', step_outputs = Map.empty, ctx_variables = Map.empty\<rparr>"]
  by (simp add: plain_segments_def template_of_def resolve_placeholder_def trim_def is_whitespace_def sublist_Cons_right)

theorem detect_cycles_exact_witness:
  "\<exists>out. topological_sort prefix_point [''a'', ''b''] (steps two_waits) = Some out"
  using detect_cycles_exact [OF two_waits_keys two_waits_keys, of prefix_point] by blast

theorem compile_exact_witness:
  "well_formed two_waits \<and> ordered_for (steps two_waits)
     (map (\<lambda>i. \<lparr>sdef_id = i, sdef_name = [], step_type = Delay 1, run_condition = None :: nat StepCondition option,
        on_failure = Abort, sdef_timeout_seconds = None\<rparr>) [''a'', ''b''])"
  using compile_exact [OF two_waits_keys two_waits_keys, of prefix_point, where 'f = nat] by (simp add: two_waits_compiled)

end
