(* ===== verification/Workflow.thy ===== *)
theory Workflow
  imports WorkflowTypes RustText
begin

text \<open>
  \<open>argentor-orchestrator/src/workflow.rs\<close>: the engine that keeps workflow definitions and runs. An
  operation that takes a lock once is one function; \<open>advance\<close>, which reads a snapshot, computes and
  then writes, is given in these parts too, for other calls may come between them. The clock, the
  time a step took and new identifiers are arguments; so is the execution of a step, of which
  \<open>execute_step\<close> is the one the engine uses.
\<close>

record ('v, 'f) WorkflowEngine =
  workflows :: "string \<rightharpoonup> 'f WorkflowDefinition"
  runs :: "string \<rightharpoonup> 'v WorkflowRun"

definition engine_new :: "('v, 'f) WorkflowEngine" where
  "engine_new = \<lparr>workflows = Map.empty, runs = Map.empty\<rparr>"

definition register_workflow :: "('v, 'f) WorkflowEngine \<Rightarrow> 'f WorkflowDefinition \<Rightarrow> ('v, 'f) WorkflowEngine" where
  "register_workflow st w = st\<lparr>workflows := (workflows st)(workflow_def_id w \<mapsto> w)\<rparr>"

definition get_workflow :: "('v, 'f) WorkflowEngine \<Rightarrow> string \<Rightarrow> 'f WorkflowDefinition option" where
  "get_workflow st wid = workflows st wid"

definition start ::
  "string \<Rightarrow> int \<Rightarrow> ('v, 'f) WorkflowEngine \<Rightarrow> string \<Rightarrow> 'v \<Rightarrow> string option \<times> ('v, 'f) WorkflowEngine" where
  "start new_id now st wid data =
     (case workflows st wid of
        None \<Rightarrow> (None, st)
      | Some _ \<Rightarrow>
          (Some new_id,
           st\<lparr>runs := (runs st)(new_id \<mapsto>
             \<lparr>run_id = new_id, run_workflow_id = wid, run_status = Pending, current_step_index = 0,
              trigger_data = data, step_results = [], run_created_at = now, run_updated_at = now\<rparr>)\<rparr>))"

section \<open>Conditions and expressions\<close>

definition ascii_lower :: "char \<Rightarrow> char" where
  "ascii_lower c = (if 65 \<le> (of_char c :: nat) \<and> (of_char c :: nat) \<le> 90 then char_of ((of_char c :: nat) + 32) else c)"

definition eq_ignore_ascii_case :: "string \<Rightarrow> string \<Rightarrow> bool" where
  "eq_ignore_ascii_case s t \<longleftrightarrow> map ascii_lower s = map ascii_lower t"

definition split_once_str :: "string \<Rightarrow> string \<Rightarrow> (string \<times> string) option" where
  "split_once_str p s = map_option (\<lambda>n. (take n s, drop (n + length p) s)) (find_sub p s)"

definition trim_matches :: "char \<Rightarrow> string \<Rightarrow> string" where
  "trim_matches c s = rev (dropWhile (\<lambda>x. x = c) (rev (dropWhile (\<lambda>x. x = c) s)))"

fun walk_segments :: "('v, 'f) value_api \<Rightarrow> 'v \<Rightarrow> string list \<Rightarrow> 'v option" where
  "walk_segments js current [] = Some current"
| "walk_segments js current (segment # segments) =
     (case json_get js current segment of None \<Rightarrow> None | Some v \<Rightarrow> walk_segments js v segments)"

definition extract_field :: "('v, 'f) value_api \<Rightarrow> 'v \<Rightarrow> string \<Rightarrow> 'v option" where
  "extract_field js v path = walk_segments js v (split_char CHR ''.'' path)"

definition value_to_string :: "('v, 'f) value_api \<Rightarrow> 'v \<Rightarrow> string option" where
  "value_to_string js v =
     (case value_match js v of
        IsString s \<Rightarrow> Some s
      | IsNumber n \<Rightarrow> Some n
      | IsBool b \<Rightarrow> Some (if b then ''true'' else ''false'')
      | IsOther s \<Rightarrow> Some s)"

fun first_output :: "('v, 'f) value_api \<Rightarrow> string \<Rightarrow> 'v StepResult list \<Rightarrow> string option" where
  "first_output js field [] = None"
| "first_output js field (r # rs) =
     (case extract_field js (step_output r) field of
        Some v \<Rightarrow> value_to_string js v
      | None \<Rightarrow> first_output js field rs)"

definition resolve_field :: "('v, 'f) value_api \<Rightarrow> string \<Rightarrow> 'v WorkflowRun \<Rightarrow> string option" where
  "resolve_field js field run =
     (case extract_field js (trigger_data run) field of
        Some v \<Rightarrow> value_to_string js v
      | None \<Rightarrow> first_output js field (rev (step_results run)))"

definition compare_field ::
  "('v, 'f) value_api \<Rightarrow> 'v WorkflowRun \<Rightarrow> ('f \<Rightarrow> 'f \<Rightarrow> bool) \<Rightarrow> string \<Rightarrow> string \<Rightarrow> bool" where
  "compare_field js run holds lhs rhs =
     (case parse_f64 js (trim rhs) of
        None \<Rightarrow> False
      | Some threshold \<Rightarrow>
          (case Option.bind (resolve_field js (trim lhs) run) (parse_f64 js) of
             None \<Rightarrow> False
           | Some actual \<Rightarrow> holds actual threshold))"

definition evaluate_expression :: "('v, 'f) value_api \<Rightarrow> string \<Rightarrow> 'v WorkflowRun \<Rightarrow> bool" where
  "evaluate_expression js expr run =
     (let expr = trim expr in
      if eq_ignore_ascii_case expr ''true'' then True
      else if eq_ignore_ascii_case expr ''false'' then False
      else case split_once_str ''=='' expr of
        Some (lhs, rhs) \<Rightarrow>
          resolve_field js (trim lhs) run = Some (trim_matches (CHR 39) (trim_matches (CHR 34) (trim rhs)))
      | None \<Rightarrow>
          (case split_once CHR ''>'' expr of
             Some (lhs, rhs) \<Rightarrow> compare_field js run (\<lambda>a t. f64_less js t a) lhs rhs
           | None \<Rightarrow>
               (case split_once CHR ''<'' expr of
                  Some (lhs, rhs) \<Rightarrow> compare_field js run (f64_less js) lhs rhs
                | None \<Rightarrow> False)))"

definition evaluate_condition :: "('v, 'f) value_api \<Rightarrow> 'f StepCondition option \<Rightarrow> 'v WorkflowRun \<Rightarrow> bool" where
  "evaluate_condition js c run =
     (case c of
        None \<Rightarrow> True
      | Some Always \<Rightarrow> True
      | Some IfPreviousSucceeded \<Rightarrow>
          (if step_results run = [] then True else result_status (last (step_results run)) = StepCompleted)
      | Some (IfFieldEquals field value) \<Rightarrow>
          Option.bind (extract_field js (trigger_data run) field) (as_str js) = Some value
      | Some (IfScoreAbove field threshold) \<Rightarrow>
          (case Option.bind (extract_field js (trigger_data run) field) (as_f64 js) of
             Some v \<Rightarrow> f64_less js threshold v
           | None \<Rightarrow> False)
      | Some (Expression expr) \<Rightarrow> evaluate_expression js expr run)"

section \<open>Executing a step\<close>

definition completed_result :: "'f WorkflowStepDef \<Rightarrow> 'v \<Rightarrow> 'v StepResult" where
  "completed_result s out =
     \<lparr>result_step_id = sdef_id s, result_status = StepCompleted, step_output = out, duration_ms = 0, step_error = None\<rparr>"

definition execute_step :: "('v, 'f) value_api \<Rightarrow> 'f WorkflowStepDef \<Rightarrow> 'v WorkflowRun \<Rightarrow> 'v StepResult" where
  "execute_step js s run = completed_result s (json_object js
     (case step_type s of
        AgentTask agent_role prompt_template \<Rightarrow>
          [(''agent_role'', json_string js agent_role), (''prompt'', json_string js prompt_template),
           (''response'', json_string js (''Simulated response from '' @ agent_role @ '' agent''))]
      | HttpCall http_method url body_template \<Rightarrow>
          [(''method'', json_string js http_method), (''url'', json_string js url),
           (''body'', case body_template of Some b \<Rightarrow> json_string js b | None \<Rightarrow> json_null js),
           (''status_code'', json_uint js 200), (''response_body'', json_string js ''{}'')]
      | Condition expression _ _ \<Rightarrow> [(''evaluated_expression'', json_string js expression)]
      | Delay seconds \<Rightarrow> [(''delayed_seconds'', json_uint js (unat seconds))]
      | Notification channel message_template \<Rightarrow>
          [(''channel'', json_string js channel), (''message'', json_string js message_template), (''sent'', json_bool js True)]
      | AssignToHuman team message \<Rightarrow>
          [(''team'', json_string js team), (''message'', json_string js message), (''assigned'', json_bool js True)]))"

section \<open>Advancing a run\<close>

definition advance_read ::
  "('v, 'f) WorkflowEngine \<Rightarrow> string \<Rightarrow> string + 'v WorkflowRun \<times> 'f WorkflowDefinition" where
  "advance_read st rid =
     (case runs st rid of
        None \<Rightarrow> Inl (''run '' @ rid @ '' not found'')
      | Some run \<Rightarrow>
          (case workflows st (run_workflow_id run) of
             None \<Rightarrow> Inl (''workflow '' @ run_workflow_id run @ '' not found'')
           | Some w \<Rightarrow> Inr (run, w)))"

definition position :: "string \<Rightarrow> 'f WorkflowStepDef list \<Rightarrow> nat option" where
  "position i ss = (let k = length (takeWhile (\<lambda>s. sdef_id s \<noteq> i) ss) in if k < length ss then Some k else None)"

definition goto_or :: "nat \<Rightarrow> string \<Rightarrow> 'f WorkflowStepDef list \<Rightarrow> nat" where
  "goto_or next_index target ss = (case position target ss of Some idx \<Rightarrow> idx | None \<Rightarrow> next_index)"

definition step_result ::
  "('f WorkflowStepDef \<Rightarrow> 'v WorkflowRun \<Rightarrow> 'v StepResult) \<Rightarrow> ('v, 'f) value_api \<Rightarrow> u64 \<Rightarrow> 'f WorkflowStepDef
     \<Rightarrow> 'v WorkflowRun \<Rightarrow> 'v StepResult" where
  "step_result exec js elapsed s run =
     (if evaluate_condition js (run_condition s) run then (exec s run)\<lparr>duration_ms := elapsed\<rparr>
      else \<lparr>result_step_id = sdef_id s, result_status = StepSkipped,
            step_output = json_object js [(''skipped'', json_bool js True)], duration_ms = 0, step_error = None\<rparr>)"

definition branch_index :: "('v, 'f) value_api \<Rightarrow> 'f WorkflowStepDef list \<Rightarrow> 'f WorkflowStepDef \<Rightarrow> 'v WorkflowRun \<Rightarrow> nat" where
  "branch_index js ss s run =
     (case step_type s of
        Condition expression if_true if_false \<Rightarrow>
          goto_or (current_step_index run + 1) (if evaluate_expression js expression run then if_true else if_false) ss
      | _ \<Rightarrow> current_step_index run + 1)"

definition failed_count :: "string \<Rightarrow> 'v WorkflowRun \<Rightarrow> nat" where
  "failed_count i run = length (filter (\<lambda>r. result_step_id r = i \<and> result_status r = StepFailed) (step_results run))"

definition push_result :: "'v StepResult \<Rightarrow> int \<Rightarrow> 'v WorkflowRun \<Rightarrow> 'v WorkflowRun" where
  "push_result r now run = run\<lparr>step_results := step_results run @ [r], run_updated_at := now\<rparr>"

definition move_to :: "nat \<Rightarrow> 'f WorkflowStepDef list \<Rightarrow> 'v WorkflowRun \<Rightarrow> 'v WorkflowRun" where
  "move_to next_index ss run =
     run\<lparr>current_step_index := next_index,
         run_status := (if length ss \<le> next_index then Completed else run_status run)\<rparr>"

definition record_result ::
  "'f WorkflowStepDef list \<Rightarrow> 'f WorkflowStepDef \<Rightarrow> nat \<Rightarrow> 'v StepResult \<Rightarrow> int \<Rightarrow> 'v WorkflowRun \<Rightarrow> 'v WorkflowRun" where
  "record_result ss s next_index r now run =
     (if result_status r = StepFailed then
        (case on_failure s of
           Abort \<Rightarrow> (push_result r now run)\<lparr>run_status := Failed\<rparr>
         | Skip \<Rightarrow> move_to next_index ss (push_result r now run)
         | Retry limit \<Rightarrow>
             if (of_nat (failed_count (sdef_id s) run) :: u32) < limit then push_result r now run
             else (push_result r now run)\<lparr>run_status := Failed\<rparr>
         | GoTo target \<Rightarrow> move_to (goto_or next_index target ss) ss (push_result r now run))
      else move_to next_index ss (push_result r now run))"

text \<open>What a snapshot gives: the run to write, if any, and the answer.\<close>

definition advance_compute ::
  "('f WorkflowStepDef \<Rightarrow> 'v WorkflowRun \<Rightarrow> 'v StepResult) \<Rightarrow> ('v, 'f) value_api \<Rightarrow> u64 \<Rightarrow> int
     \<Rightarrow> 'v WorkflowRun \<Rightarrow> 'f WorkflowStepDef list \<Rightarrow> 'v WorkflowRun option \<times> bool" where
  "advance_compute exec js elapsed now run ss =
     (if run_status run \<in> {Completed, Failed, TimedOut} then (None, False)
      else
        let run = (if run_status run = Pending then run\<lparr>run_status := Running\<rparr> else run)
        in if length ss \<le> current_step_index run
           then (Some (run\<lparr>run_status := Completed, run_updated_at := now\<rparr>), False)
           else
             let s = ss ! current_step_index run
             in (Some (record_result ss s (branch_index js ss s run) (step_result exec js elapsed s run) now run), True))"

definition advance_write :: "string \<Rightarrow> 'v WorkflowRun option \<Rightarrow> ('v, 'f) WorkflowEngine \<Rightarrow> ('v, 'f) WorkflowEngine" where
  "advance_write rid written st = (case written of None \<Rightarrow> st | Some run \<Rightarrow> st\<lparr>runs := (runs st)(rid \<mapsto> run)\<rparr>)"

definition advance_with ::
  "('f WorkflowStepDef \<Rightarrow> 'v WorkflowRun \<Rightarrow> 'v StepResult) \<Rightarrow> ('v, 'f) value_api \<Rightarrow> u64 \<Rightarrow> int
     \<Rightarrow> ('v, 'f) WorkflowEngine \<Rightarrow> string \<Rightarrow> (string + bool) \<times> ('v, 'f) WorkflowEngine" where
  "advance_with exec js elapsed now st rid =
     (case advance_read st rid of
        Inl e \<Rightarrow> (Inl e, st)
      | Inr (run, w) \<Rightarrow>
          let (written, advanced) = advance_compute exec js elapsed now run (workflow_steps w)
          in (Inr advanced, advance_write rid written st))"

definition engine_advance ::
  "('v, 'f) value_api \<Rightarrow> u64 \<Rightarrow> int \<Rightarrow> ('v, 'f) WorkflowEngine \<Rightarrow> string \<Rightarrow> (string + bool) \<times> ('v, 'f) WorkflowEngine" where
  "engine_advance js = advance_with (execute_step js) js"

section \<open>The other operations\<close>

definition get_run :: "('v, 'f) WorkflowEngine \<Rightarrow> string \<Rightarrow> 'v WorkflowRun option" where
  "get_run st rid = runs st rid"

text \<open>\<open>keys\<close>: the order in which the map of runs yields its keys.\<close>

definition list_runs :: "string list \<Rightarrow> ('v, 'f) WorkflowEngine \<Rightarrow> string \<Rightarrow> 'v WorkflowRun list" where
  "list_runs keys st wid = filter (\<lambda>r. run_workflow_id r = wid) (List.map_filter (runs st) keys)"

fun debug_status :: "RunStatus \<Rightarrow> string" where
  "debug_status Pending = ''Pending''"
| "debug_status Running = ''Running''"
| "debug_status Completed = ''Completed''"
| "debug_status Failed = ''Failed''"
| "debug_status Paused = ''Paused''"
| "debug_status TimedOut = ''TimedOut''"

definition pause :: "int \<Rightarrow> ('v, 'f) WorkflowEngine \<Rightarrow> string \<Rightarrow> (string + unit) \<times> ('v, 'f) WorkflowEngine" where
  "pause now st rid =
     (case runs st rid of
        None \<Rightarrow> (Inl (''run '' @ rid @ '' not found''), st)
      | Some run \<Rightarrow>
          if run_status run \<noteq> Running
          then (Inl (''run '' @ rid @ '' is not running (status: '' @ debug_status (run_status run) @ '')''), st)
          else (Inr (), st\<lparr>runs := (runs st)(rid \<mapsto> run\<lparr>run_status := Paused, run_updated_at := now\<rparr>)\<rparr>))"

definition resume :: "int \<Rightarrow> ('v, 'f) WorkflowEngine \<Rightarrow> string \<Rightarrow> (string + unit) \<times> ('v, 'f) WorkflowEngine" where
  "resume now st rid =
     (case runs st rid of
        None \<Rightarrow> (Inl (''run '' @ rid @ '' not found''), st)
      | Some run \<Rightarrow>
          if run_status run \<noteq> Paused
          then (Inl (''run '' @ rid @ '' is not paused (status: '' @ debug_status (run_status run) @ '')''), st)
          else (Inr (), st\<lparr>runs := (runs st)(rid \<mapsto> run\<lparr>run_status := Running, run_updated_at := now\<rparr>)\<rparr>))"

text \<open>
  The loop of \<open>run_to_completion\<close> when no other call comes between its steps; \<open>clock k\<close> is the time
  taken and the time of day of its \<open>k\<close>-th step. The text of the last error is cut before its dash,
  U+2014, which is outside the model's characters.
\<close>

function complete_loop ::
  "('f WorkflowStepDef \<Rightarrow> 'v WorkflowRun \<Rightarrow> 'v StepResult) \<Rightarrow> ('v, 'f) value_api \<Rightarrow> (nat \<Rightarrow> u64 \<times> int) \<Rightarrow> string
     \<Rightarrow> nat \<Rightarrow> ('v, 'f) WorkflowEngine \<Rightarrow> (string + 'v WorkflowRun) \<times> ('v, 'f) WorkflowEngine" where
  "complete_loop exec js clock rid iterations st =
     (case advance_with exec js (fst (clock iterations)) (snd (clock iterations)) st rid of
        (Inl e, st) \<Rightarrow> (Inl e, st)
      | (Inr False, st) \<Rightarrow>
          (case get_run st rid of
             Some run \<Rightarrow> (Inr run, st)
           | None \<Rightarrow> (Inl (''run '' @ rid @ '' disappeared''), st))
      | (Inr True, st) \<Rightarrow>
          if 1000 < iterations + 1 then (Inl ''workflow exceeded 1000 iterations '', st)
          else complete_loop exec js clock rid (iterations + 1) st)"
  by pat_completeness auto
termination
  by (relation "measure (\<lambda>(_, _, _, _, iterations, _). 1000 - iterations)") auto

declare complete_loop.simps [simp del]

definition run_to_completion_with ::
  "('f WorkflowStepDef \<Rightarrow> 'v WorkflowRun \<Rightarrow> 'v StepResult) \<Rightarrow> ('v, 'f) value_api \<Rightarrow> (nat \<Rightarrow> u64 \<times> int)
     \<Rightarrow> ('v, 'f) WorkflowEngine \<Rightarrow> string \<Rightarrow> (string + 'v WorkflowRun) \<times> ('v, 'f) WorkflowEngine" where
  "run_to_completion_with exec js clock st rid = complete_loop exec js clock rid 0 st"

definition run_to_completion ::
  "('v, 'f) value_api \<Rightarrow> (nat \<Rightarrow> u64 \<times> int) \<Rightarrow> ('v, 'f) WorkflowEngine \<Rightarrow> string
     \<Rightarrow> (string + 'v WorkflowRun) \<times> ('v, 'f) WorkflowEngine" where
  "run_to_completion js = run_to_completion_with (execute_step js) js"

section \<open>The workflows the crate comes with\<close>

text \<open>Where a text of the code has a dash, U+2014, the model has a hyphen.\<close>

definition lead_qualification_workflow :: "'f WorkflowDefinition" where
  "lead_qualification_workflow =
     \<lparr>workflow_def_id = ''lead_qualification'', workflow_name = ''Lead Qualification Pipeline'',
      workflow_description = ''Qualifies incoming leads and routes hot prospects to sales.'',
      workflow_trigger = Webhook ''new_lead'',
      workflow_steps = [
        \<lparr>sdef_id = ''qualify'', sdef_name = ''Qualify Lead'',
         step_type = AgentTask ''analyst'' ''Analyze the following lead data and classify as HOT, WARM, or COLD: {{lead_data}}'',
         run_condition = None, on_failure = Abort, sdef_timeout_seconds = Some 120\<rparr>,
        \<lparr>sdef_id = ''check_hot'', sdef_name = ''Check if Lead is HOT'',
         step_type = Condition ''score > 80'' ''assign_sales'' ''notify_marketing'',
         run_condition = Some IfPreviousSucceeded, on_failure = Abort, sdef_timeout_seconds = None\<rparr>,
        \<lparr>sdef_id = ''assign_sales'', sdef_name = ''Assign to Sales Team'',
         step_type = AssignToHuman ''sales'' ''New HOT lead requires immediate follow-up.'',
         run_condition = None, on_failure = Retry 2, sdef_timeout_seconds = Some 60\<rparr>,
        \<lparr>sdef_id = ''compose_outreach'', sdef_name = ''Compose Outreach Email'',
         step_type = AgentTask ''copywriter'' ''Draft a personalized outreach email for this lead: {{lead_data}}'',
         run_condition = Some IfPreviousSucceeded, on_failure = Skip, sdef_timeout_seconds = Some 180\<rparr>,
        \<lparr>sdef_id = ''schedule_followup'', sdef_name = ''Schedule Follow-up'',
         step_type = Notification ''calendar'' ''Follow-up with lead {{lead_name}} in 48 hours.'',
         run_condition = Some IfPreviousSucceeded, on_failure = Skip, sdef_timeout_seconds = Some 30\<rparr>,
        \<lparr>sdef_id = ''notify_marketing'', sdef_name = ''Notify Marketing (warm/cold lead)'',
         step_type = Notification ''slack'' ''New lead classified as warm/cold - added to nurture campaign.'',
         run_condition = None, on_failure = Skip, sdef_timeout_seconds = Some 30\<rparr>],
      workflow_timeout_seconds = Some 3600\<rparr>"

definition support_ticket_workflow :: "'f WorkflowDefinition" where
  "support_ticket_workflow =
     \<lparr>workflow_def_id = ''support_ticket'', workflow_name = ''Support Ticket Pipeline'',
      workflow_description = ''Routes, triages, and responds to support tickets.'',
      workflow_trigger = Webhook ''new_ticket'',
      workflow_steps = [
        \<lparr>sdef_id = ''route'', sdef_name = ''Route Ticket'',
         step_type = AgentTask ''router'' ''Classify this support ticket by urgency (critical/high/medium/low) and category: {{ticket}}'',
         run_condition = None, on_failure = Abort, sdef_timeout_seconds = Some 60\<rparr>,
        \<lparr>sdef_id = ''check_urgent'', sdef_name = ''Check Urgency'',
         step_type = Condition ''priority == critical'' ''notify_team'' ''generate_response'',
         run_condition = Some IfPreviousSucceeded, on_failure = Abort, sdef_timeout_seconds = None\<rparr>,
        \<lparr>sdef_id = ''notify_team'', sdef_name = ''Notify On-Call Team'',
         step_type = Notification ''pagerduty'' ''CRITICAL ticket requires immediate attention: {{ticket_id}}'',
         run_condition = None, on_failure = Retry 3, sdef_timeout_seconds = Some 30\<rparr>,
        \<lparr>sdef_id = ''generate_response'', sdef_name = ''Generate Response'',
         step_type = AgentTask ''support'' ''Generate a helpful response for this support ticket: {{ticket}}'',
         run_condition = None, on_failure = Retry 2, sdef_timeout_seconds = Some 120\<rparr>,
        \<lparr>sdef_id = ''quality_check'', sdef_name = ''Quality Check'',
         step_type = AgentTask ''reviewer'' ''Review this support response for accuracy and tone. Score 0-100: {{response}}'',
         run_condition = Some IfPreviousSucceeded, on_failure = Skip, sdef_timeout_seconds = Some 60\<rparr>,
        \<lparr>sdef_id = ''check_quality'', sdef_name = ''Check Quality Score'',
         step_type = Condition ''quality_score > 70'' ''send_response'' ''assign_human'',
         run_condition = Some IfPreviousSucceeded, on_failure = Abort, sdef_timeout_seconds = None\<rparr>,
        \<lparr>sdef_id = ''send_response'', sdef_name = ''Send Response to Customer'',
         step_type = Notification ''email'' ''Your support request has been addressed: {{response}}'',
         run_condition = None, on_failure = Retry 2, sdef_timeout_seconds = Some 30\<rparr>,
        \<lparr>sdef_id = ''assign_human'', sdef_name = ''Assign to Human Agent'',
         step_type = AssignToHuman ''support_l2'' ''AI-generated response did not meet quality threshold - please handle manually.'',
         run_condition = None, on_failure = Abort, sdef_timeout_seconds = Some 60\<rparr>],
      workflow_timeout_seconds = Some 1800\<rparr>"

section \<open>A run only grows\<close>

definition terminal :: "'v WorkflowRun \<Rightarrow> bool" where
  "terminal run \<longleftrightarrow> run_status run \<in> {Completed, Failed, TimedOut}"

definition evolves :: "'v WorkflowRun \<Rightarrow> 'v WorkflowRun \<Rightarrow> bool" where
  "evolves a b \<longleftrightarrow>
     run_id b = run_id a \<and> run_workflow_id b = run_workflow_id a \<and> trigger_data b = trigger_data a
     \<and> run_created_at b = run_created_at a \<and> prefix (step_results a) (step_results b) \<and> (terminal a \<longrightarrow> b = a)"

lemma evolves_refl [simp]: "evolves a a"
  by (simp add: evolves_def)

lemma evolves_trans: "evolves a b \<Longrightarrow> evolves b c \<Longrightarrow> evolves a c"
  by (auto simp: evolves_def)

text \<open>Complete calls, one after the other; a new identifier is not in use.\<close>

inductive engine_call ::
  "('f WorkflowStepDef \<Rightarrow> 'v WorkflowRun \<Rightarrow> 'v StepResult) \<Rightarrow> ('v, 'f) value_api
     \<Rightarrow> ('v, 'f) WorkflowEngine \<Rightarrow> ('v, 'f) WorkflowEngine \<Rightarrow> bool" for exec js where
  call_register: "engine_call exec js st (register_workflow st w)"
| call_start: "runs st new_id = None \<Longrightarrow> engine_call exec js st (snd (start new_id now st wid data))"
| call_advance: "engine_call exec js st (snd (advance_with exec js elapsed now st rid))"
| call_pause: "engine_call exec js st (snd (pause now st rid))"
| call_resume: "engine_call exec js st (snd (resume now st rid))"

lemmas run_updates = record_result_def move_to_def push_result_def

lemma record_result_keeps:
  "run_id (record_result ss s k r now run) = run_id run
   \<and> run_workflow_id (record_result ss s k r now run) = run_workflow_id run
   \<and> trigger_data (record_result ss s k r now run) = trigger_data run
   \<and> run_created_at (record_result ss s k r now run) = run_created_at run
   \<and> step_results (record_result ss s k r now run) = step_results run @ [r]"
  by (simp add: run_updates split: FailureAction.split)

lemma advance_compute_evolves:
  "advance_compute exec js elapsed now run ss = (Some run', adv) \<Longrightarrow> evolves run run' \<and> \<not> terminal run"
  by (auto simp: advance_compute_def Let_def evolves_def terminal_def record_result_keeps split: if_splits)

lemma advance_with_runs:
  "snd (advance_with exec js elapsed now st rid) =
     (case advance_read st rid of
        Inl _ \<Rightarrow> st
      | Inr (run, w) \<Rightarrow> advance_write rid (fst (advance_compute exec js elapsed now run (workflow_steps w))) st)"
  by (simp add: advance_with_def case_prod_beta split: sum.split)

lemma advance_read_Inr:
  "advance_read st rid = Inr (run, w) \<longleftrightarrow> runs st rid = Some run \<and> workflows st (run_workflow_id run) = Some w"
  by (auto simp: advance_read_def split: option.splits)

lemma engine_call_evolves:
  assumes "engine_call exec js st st'" "runs st rid = Some run"
  shows "\<exists>run'. runs st' rid = Some run' \<and> evolves run run'"
  using assms
proof cases
  case (call_advance elapsed now rid')
  show ?thesis
  proof (cases "advance_read st rid'")
    case (Inl e)
    then show ?thesis using assms(2) by (simp add: call_advance advance_with_runs)
  next
    case (Inr p)
    obtain r w where p: "p = (r, w)" by force
    have r: "runs st rid' = Some r" using Inr advance_read_Inr p by metis
    show ?thesis
    proof (cases "advance_compute exec js elapsed now r (workflow_steps w)")
      case (Pair written adv)
      then show ?thesis using assms(2) r advance_compute_evolves [of exec js elapsed now r "workflow_steps w"]
        by (cases written) (auto simp: call_advance advance_with_runs Inr p advance_write_def)
    qed
  qed
qed (use assms(2) in \<open>auto simp: register_workflow_def start_def pause_def resume_def evolves_def terminal_def split: option.splits\<close>)

text \<open>
  C16: whatever calls the engine serves, one after the other, a run keeps its identity, its workflow
  and its trigger, its results are only ever added to, and once it has completed, failed or timed
  out nothing about it changes. It holds for any way of executing steps.
\<close>

theorem runs_only_grow:
  assumes "(engine_call exec js)\<^sup>*\<^sup>* st st'" "runs st rid = Some run"
  shows "\<exists>run'. runs st' rid = Some run' \<and> evolves run run'"
  using assms
proof (induction rule: rtranclp_induct)
  case base
  then show ?case by simp
next
  case (step y z)
  then show ?case using engine_call_evolves [OF step(2)] by (meson evolves_trans)
qed

section \<open>Workflows without branches\<close>

definition plain_step :: "'f WorkflowStepDef \<Rightarrow> bool" where
  "plain_step s = (case step_type s of Condition _ _ _ \<Rightarrow> False | _ \<Rightarrow> True)"

text \<open>The result is of the step; only a guarded step may be skipped, and none fails.\<close>

definition outcome_of :: "'f WorkflowStepDef \<Rightarrow> 'v StepResult \<Rightarrow> bool" where
  "outcome_of s r \<longleftrightarrow>
     result_step_id r = sdef_id s
     \<and> (result_status r = StepCompleted \<or> run_condition s \<noteq> None \<and> result_status r = StepSkipped)"

lemma step_result_outcome: "outcome_of s (step_result (execute_step js) js elapsed s run)"
proof (cases "run_condition s")
  case None
  then show ?thesis
    by (simp add: outcome_of_def step_result_def execute_step_def completed_result_def evaluate_condition_def)
qed (simp add: outcome_of_def step_result_def execute_step_def completed_result_def)

lemma plain_branch: "plain_step s \<Longrightarrow> branch_index js ss s run = current_step_index run + 1"
  by (simp add: plain_step_def branch_index_def split: StepType.splits)

lemma advance_plain:
  assumes "\<not> terminal run" "current_step_index run < length ss" "plain_step (ss ! current_step_index run)"
  obtains run' r where "advance_compute (execute_step js) js elapsed now run ss = (Some run', True)"
    "current_step_index run' = current_step_index run + 1" "run_workflow_id run' = run_workflow_id run"
    "step_results run' = step_results run @ [r]" "outcome_of (ss ! current_step_index run) r"
    "if length ss \<le> current_step_index run + 1 then run_status run' = Completed else \<not> terminal run'"
proof -
  let ?run = "if run_status run = Pending then run\<lparr>run_status := Running\<rparr> else run"
  let ?s = "ss ! current_step_index run"
  let ?r = "step_result (execute_step js) js elapsed ?s ?run"
  have ok: "outcome_of ?s ?r" by (rule step_result_outcome)
  then have "result_status ?r \<noteq> StepFailed" by (auto simp: outcome_of_def)
  then show thesis
    using assms ok by (intro that [of "record_result ss ?s (branch_index js ss ?s ?run) ?r now ?run" ?r])
      (auto simp: advance_compute_def Let_def terminal_def run_updates plain_branch)
qed

lemma complete_loop_more:
  "advance_with exec js (fst (clock it)) (snd (clock it)) st rid = (Inr True, st') \<Longrightarrow>
   complete_loop exec js clock rid it st =
     (if 1000 < it + 1 then (Inl ''workflow exceeded 1000 iterations '', st') else complete_loop exec js clock rid (it + 1) st')"
  by (subst complete_loop.simps) simp

lemma complete_loop_done:
  "advance_with exec js (fst (clock it)) (snd (clock it)) st rid = (Inr False, st') \<Longrightarrow> runs st' rid = Some run \<Longrightarrow>
   complete_loop exec js clock rid it st = (Inr run, st')"
  by (subst complete_loop.simps) (simp add: get_run_def)

lemma complete_loop_plain:
  assumes "runs st rid = Some run" "workflows st (run_workflow_id run) = Some w" "\<forall>s\<in>set (workflow_steps w). plain_step s"
    and "current_step_index run = k" "k \<le> length (workflow_steps w)" "list_all2 outcome_of (take k (workflow_steps w)) (step_results run)"
    and "if k < length (workflow_steps w) then \<not> terminal run else run_status run = Completed \<or> \<not> terminal run"
    and "it \<le> 1000"
  shows "if it + (length (workflow_steps w) - k) \<le> 1000
     then \<exists>run' st'. complete_loop (execute_step js) js clock rid it st = (Inr run', st') \<and> runs st' rid = Some run'
       \<and> run_status run' = Completed \<and> list_all2 outcome_of (workflow_steps w) (step_results run')
     else fst (complete_loop (execute_step js) js clock rid it st) = Inl ''workflow exceeded 1000 iterations ''"
  using assms
proof (induction "length (workflow_steps w) - k" arbitrary: k it st run)
  case 0
  then have k: "k = length (workflow_steps w)" by simp
  have read: "advance_read st rid = Inr (run, w)" using 0 by (simp add: advance_read_Inr)
  obtain st' run' where "advance_with (execute_step js) js (fst (clock it)) (snd (clock it)) st rid = (Inr False, st')"
    "runs st' rid = Some run'" "run_status run' = Completed" "step_results run' = step_results run"
  proof (cases "terminal run")
    case True
    then have "run_status run = Completed" using 0 k by simp
    then show thesis using 0 k read
      by (intro that [of st run]) (simp_all add: advance_with_def advance_compute_def advance_write_def)
  next
    case False
    define run0 where "run0 = (if run_status run = Pending then run\<lparr>run_status := Running\<rparr> else run)"
    let ?run' = "run0\<lparr>run_status := Completed, run_updated_at := snd (clock it)\<rparr>"
    have "advance_compute (execute_step js) js (fst (clock it)) (snd (clock it)) run (workflow_steps w) = (Some ?run', False)"
      using False k 0 by (simp add: advance_compute_def terminal_def run0_def Let_def)
    then show thesis using read
      by (intro that [of "st\<lparr>runs := (runs st)(rid \<mapsto> ?run')\<rparr>" ?run'])
        (simp_all add: advance_with_def advance_write_def run0_def)
  qed
  then show ?case using 0 k by (simp add: complete_loop_done)
next
  case (Suc n)
  let ?ss = "workflow_steps w"
  have k: "k < length ?ss" using Suc(2) by simp
  have read: "advance_read st rid = Inr (run, w)" using Suc.prems by (simp add: advance_read_Inr)
  have plain: "plain_step (?ss ! current_step_index run)" using Suc.prems(3,4) k by simp
  have nt: "\<not> terminal run" using Suc.prems(7) k by simp
  obtain run' r where adv: "advance_compute (execute_step js) js (fst (clock it)) (snd (clock it)) run ?ss = (Some run', True)"
    "current_step_index run' = current_step_index run + 1" "run_workflow_id run' = run_workflow_id run"
    "step_results run' = step_results run @ [r]" "outcome_of (?ss ! current_step_index run) r"
    "if length ?ss \<le> current_step_index run + 1 then run_status run' = Completed else \<not> terminal run'"
    using k Suc.prems(4) by (elim advance_plain [OF nt _ plain, rotated]) simp_all
  define st' where "st' = st\<lparr>runs := (runs st)(rid \<mapsto> run')\<rparr>"
  have step: "advance_with (execute_step js) js (fst (clock it)) (snd (clock it)) st rid = (Inr True, st')"
    by (simp add: advance_with_def read adv(1) advance_write_def st'_def)
  have results: "list_all2 outcome_of (take (Suc k) ?ss) (step_results run')"
    using Suc.prems(4,6) adv(4,5) k by (simp add: take_Suc_conv_app_nth list_all2_appendI)
  show ?case
  proof (cases "it < 1000")
    case True
    have "if Suc it + (length ?ss - Suc k) \<le> 1000
     then \<exists>run' st''. complete_loop (execute_step js) js clock rid (Suc it) st' = (Inr run', st'') \<and> runs st'' rid = Some run'
       \<and> run_status run' = Completed \<and> list_all2 outcome_of ?ss (step_results run')
     else fst (complete_loop (execute_step js) js clock rid (Suc it) st') = Inl ''workflow exceeded 1000 iterations ''"
      using Suc(2) k True adv(2,3,6) results Suc.prems(2-4)
      by (intro Suc(1) [of "Suc k" st' run']) (auto simp: st'_def)
    moreover have "Suc it + (length ?ss - Suc k) = it + (length ?ss - k)" using k by simp
    ultimately show ?thesis using True by (simp add: complete_loop_more [where clock = clock and it = it, OF step])
  next
    case False
    then have "complete_loop (execute_step js) js clock rid it st = (Inl ''workflow exceeded 1000 iterations '', st')"
      by (simp add: complete_loop_more [where clock = clock and it = it, OF step])
    then show ?thesis using k False by simp
  qed
qed

lemma plain_completes:
  assumes "runs st rid = Some run" "workflows st (run_workflow_id run) = Some w" "\<forall>s\<in>set (workflow_steps w). plain_step s"
    and "\<not> terminal run" "current_step_index run = 0" "step_results run = []" "length (workflow_steps w) \<le> 1000"
  shows "\<exists>run' st'. run_to_completion js clock st rid = (Inr run', st') \<and> runs st' rid = Some run'
    \<and> run_status run' = Completed \<and> list_all2 outcome_of (workflow_steps w) (step_results run')"
proof -
  have "if 0 < length (workflow_steps w) then \<not> terminal run else run_status run = Completed \<or> \<not> terminal run"
    using assms(4) by simp
  from complete_loop_plain [OF assms(1-3,5) _ _ this, of 0 js clock] assms(6,7) show ?thesis
    unfolding run_to_completion_def run_to_completion_with_def by simp
qed

text \<open>
  A workflow without branches runs to completion: its steps are taken once each, in the order
  of the definition, and none is skipped unless it is guarded. This needs at most 1000 steps; a
  longer workflow is always answered with the error for a run that does not end.
\<close>

lemma run_to_completion_plain:
  assumes "runs st rid = Some run" "workflows st (run_workflow_id run) = Some w" "\<forall>s\<in>set (workflow_steps w). plain_step s"
    and "run_status run = Pending" "current_step_index run = 0" "step_results run = []"
  shows "if length (workflow_steps w) \<le> 1000
    then \<exists>run' st'. run_to_completion js clock st rid = (Inr run', st') \<and> get_run st' rid = Some run'
      \<and> run_status run' = Completed \<and> list_all2 outcome_of (workflow_steps w) (step_results run')
    else fst (run_to_completion js clock st rid) = Inl ''workflow exceeded 1000 iterations ''"
  using complete_loop_plain [OF assms(1-3), of 0 0 js clock] assms(4-6)
  by (simp add: run_to_completion_def run_to_completion_with_def terminal_def get_run_def)

section \<open>Retries\<close>

text \<open>Steps that retry have failed at most once more than their limit, and then the run has failed.\<close>

definition retries_ok :: "'f WorkflowStepDef list \<Rightarrow> 'v WorkflowRun \<Rightarrow> bool" where
  "retries_ok ss run \<longleftrightarrow>
     (\<forall>s\<in>set ss. \<forall>limit. on_failure s = Retry limit \<longrightarrow>
        failed_count (sdef_id s) run \<le> (if run_status run = Failed then unat limit + 1 else unat limit))"

lemma failed_count_push:
  "failed_count i (push_result r now run) =
     failed_count i run + (if result_step_id r = i \<and> result_status r = StepFailed then 1 else 0)"
  by (simp add: failed_count_def push_result_def)

lemma failed_count_status [simp]:
  "failed_count i (run\<lparr>run_status := x\<rparr>) = failed_count i run"
  "failed_count i (run\<lparr>run_updated_at := t\<rparr>) = failed_count i run"
  "failed_count i (move_to k ss run) = failed_count i run"
  by (simp_all add: failed_count_def move_to_def)

lemma same_step: "distinct (map sdef_id ss) \<Longrightarrow> s \<in> set ss \<Longrightarrow> s' \<in> set ss \<Longrightarrow> sdef_id s = sdef_id s' \<Longrightarrow> s = s'"
  by (auto simp: distinct_map inj_on_def)

lemma count_less:
  assumes "n \<le> unat (limit :: u32)"
  shows "(of_nat n :: u32) < limit \<longleftrightarrow> n < unat limit"
proof -
  have "unat (of_nat n :: u32) = n"
    using assms unat_u32_less [of limit] by (simp add: unat_of_nat take_bit_nat_eq_self)
  then show ?thesis by (simp add: word_less_nat_alt)
qed

lemma record_result_retries:
  assumes ok: "retries_ok ss run" and "run_status run \<noteq> Failed" "distinct (map sdef_id ss)" "s \<in> set ss" "result_step_id r = sdef_id s"
  shows "retries_ok ss (record_result ss s k r now run)"
  unfolding retries_ok_def
proof (intro ballI allI impI)
  fix s' limit assume s': "s' \<in> set ss" "on_failure s' = Retry limit"
  let ?run = "record_result ss s k r now run"
  have le: "failed_count (sdef_id s') run \<le> unat limit" using ok s' assms(2) by (simp add: retries_ok_def)
  show "failed_count (sdef_id s') ?run \<le> (if run_status ?run = Failed then unat limit + 1 else unat limit)"
  proof (cases "result_status r = StepFailed \<and> sdef_id s = sdef_id s'")
    case True
    then have same: "s = s'" using same_step [OF assms(3,4) s'(1)] by blast
    then have r: "?run = (if (of_nat (failed_count (sdef_id s) run) :: u32) < limit then push_result r now run
             else (push_result r now run)\<lparr>run_status := Failed\<rparr>)"
      using True s'(2) by (simp add: record_result_def)
    have status: "run_status (push_result r now run) = run_status run" by (simp add: push_result_def)
    show ?thesis
      using le assms(2,5) by (simp add: r same [symmetric] count_less failed_count_push status)
  next
    case False
    then have "failed_count (sdef_id s') (push_result r now run) = failed_count (sdef_id s') run"
      using assms(5) by (auto simp: failed_count_push)
    then have "failed_count (sdef_id s') ?run = failed_count (sdef_id s') run"
      by (simp add: record_result_def split: FailureAction.split)
    then show ?thesis using le by simp
  qed
qed

lemma retries_ok_status: "retries_ok ss run \<Longrightarrow> run_status run \<noteq> Failed \<Longrightarrow> x \<noteq> Failed \<Longrightarrow> retries_ok ss (run\<lparr>run_status := x\<rparr>)"
  by (simp add: retries_ok_def)

lemma advance_compute_retries:
  assumes "retries_ok ss run" "distinct (map sdef_id ss)" "\<And>s run. result_step_id (exec s run) = sdef_id s"
    and "advance_compute exec js elapsed now run ss = (Some run', adv)"
  shows "retries_ok ss run'"
proof -
  define run0 where "run0 = (if run_status run = Pending then run\<lparr>run_status := Running\<rparr> else run)"
  have nf: "run_status run \<noteq> Failed" "run_status run0 \<noteq> Failed"
    using assms(4) by (auto simp: advance_compute_def run0_def split: if_splits)
  have ok: "retries_ok ss run0" using assms(1) nf(1) by (simp add: run0_def retries_ok_status)
  have "result_step_id (step_result exec js elapsed s run0) = sdef_id s" for s
    by (simp add: step_result_def assms(3))
  note step = record_result_retries [OF ok nf(2) assms(2) _ this]
  have "run' = run0\<lparr>run_status := Completed, run_updated_at := now\<rparr>
    \<or> current_step_index run0 < length ss
      \<and> (\<exists>k. run' = record_result ss (ss ! current_step_index run0) k
               (step_result exec js elapsed (ss ! current_step_index run0) run0) now run0)"
    using assms(4) by (auto simp: advance_compute_def run0_def [symmetric] Let_def not_le split: if_splits)
  then show ?thesis
  proof (elim disjE conjE exE)
    assume "run' = run0\<lparr>run_status := Completed, run_updated_at := now\<rparr>"
    then show ?thesis using ok nf(2) by (simp add: retries_ok_def)
  qed (simp add: step)
qed

text \<open>Calls that never replace a definition that is registered.\<close>

definition stable_call ::
  "('f WorkflowStepDef \<Rightarrow> 'v WorkflowRun \<Rightarrow> 'v StepResult) \<Rightarrow> ('v, 'f) value_api
     \<Rightarrow> ('v, 'f) WorkflowEngine \<Rightarrow> ('v, 'f) WorkflowEngine \<Rightarrow> bool" where
  "stable_call exec js a b \<longleftrightarrow> engine_call exec js a b \<and> workflows a \<subseteq>\<^sub>m workflows b"

definition engine_retries :: "('v, 'f) WorkflowEngine \<Rightarrow> bool" where
  "engine_retries st \<longleftrightarrow>
     (\<forall>rid run. runs st rid = Some run \<longrightarrow>
        (\<exists>w. workflows st (run_workflow_id run) = Some w
           \<and> (distinct (map sdef_id (workflow_steps w)) \<longrightarrow> retries_ok (workflow_steps w) run)))"

lemma engine_retriesD:
  "engine_retries st \<Longrightarrow> runs st rid = Some run \<Longrightarrow> workflows st (run_workflow_id run) = Some w
     \<Longrightarrow> distinct (map sdef_id (workflow_steps w)) \<Longrightarrow> retries_ok (workflow_steps w) run"
  unfolding engine_retries_def by fastforce

lemma engine_retries_set:
  assumes "engine_retries st" "workflows st (run_workflow_id run) = Some w"
    and "distinct (map sdef_id (workflow_steps w)) \<Longrightarrow> retries_ok (workflow_steps w) run"
  shows "engine_retries (st\<lparr>runs := (runs st)(rid \<mapsto> run)\<rparr>)"
  unfolding engine_retries_def
proof (intro allI impI)
  fix rid' run' assume r: "runs (st\<lparr>runs := (runs st)(rid \<mapsto> run)\<rparr>) rid' = Some run'"
  show "\<exists>w. workflows (st\<lparr>runs := (runs st)(rid \<mapsto> run)\<rparr>) (run_workflow_id run') = Some w
      \<and> (distinct (map sdef_id (workflow_steps w)) \<longrightarrow> retries_ok (workflow_steps w) run')"
  proof (cases "rid' = rid")
    case True
    then show ?thesis using r assms(2,3) by simp
  next
    case False
    then have "runs st rid' = Some run'" using r by simp
    then show ?thesis using assms(1) unfolding engine_retries_def by simp
  qed
qed

lemma engine_retries_update:
  fixes st :: "('v, 'f) WorkflowEngine"
  assumes "engine_retries st" "runs st rid = Some run" "run_workflow_id run' = run_workflow_id run"
    and "\<And>ss :: 'f WorkflowStepDef list. distinct (map sdef_id ss) \<Longrightarrow> retries_ok ss run \<Longrightarrow> retries_ok ss run'"
  shows "engine_retries (st\<lparr>runs := (runs st)(rid \<mapsto> run')\<rparr>)"
proof -
  obtain w where w: "workflows st (run_workflow_id run) = Some w" using assms(1,2) unfolding engine_retries_def by blast
  have w': "workflows st (run_workflow_id run') = Some w" using w assms(3) by simp
  show ?thesis
  proof (rule engine_retries_set [OF assms(1) w'])
    assume d: "distinct (map sdef_id (workflow_steps w))"
    show "retries_ok (workflow_steps w) run'" by (rule assms(4) [OF d engine_retriesD [OF assms(1,2) w d]])
  qed
qed

lemma stable_call_retries:
  assumes "stable_call exec js st st'" "engine_retries st" "\<And>s run. result_step_id (exec s run) = sdef_id s"
  shows "engine_retries st'"
proof -
  have "workflows st \<subseteq>\<^sub>m workflows st'" using assms(1) by (simp add: stable_call_def)
  then have keep: "workflows st' wid = Some w" if "workflows st wid = Some w" for wid w
    using that by (metis domI map_le_def)
  from assms(1) have "engine_call exec js st st'" by (simp add: stable_call_def)
  then show ?thesis
  proof cases
    case (call_register w)
    have "runs st' = runs st" by (simp add: call_register register_workflow_def)
    then show ?thesis using assms(2) keep unfolding engine_retries_def by metis
  next
    case (call_start new_id now wid data)
    show ?thesis
    proof (cases "workflows st wid")
      case None
      then show ?thesis using assms(2) by (simp add: call_start start_def)
    next
      case (Some w)
      then show ?thesis unfolding call_start start_def
        by simp (rule engine_retries_set [OF assms(2)], simp_all add: retries_ok_def failed_count_def)
    qed
  next
    case (call_advance elapsed now rid)
    show ?thesis
    proof (cases "advance_read st rid")
      case (Inl e)
      then show ?thesis using assms(2) by (simp add: call_advance advance_with_runs)
    next
      case (Inr p)
      obtain r w where p: "p = (r, w)" by force
      have r: "runs st rid = Some r" "workflows st (run_workflow_id r) = Some w"
        using Inr p advance_read_Inr by metis+
      show ?thesis
      proof (cases "fst (advance_compute exec js elapsed now r (workflow_steps w))")
        case None
        then show ?thesis using assms(2) by (simp add: call_advance advance_with_runs Inr p advance_write_def)
      next
        case (Some run')
        then obtain adv where adv: "advance_compute exec js elapsed now r (workflow_steps w) = (Some run', adv)"
          by (metis prod.collapse)
        have "run_workflow_id run' = run_workflow_id r"
          using advance_compute_evolves [OF adv] by (simp add: evolves_def)
        moreover have "retries_ok (workflow_steps w) run'"
          if "distinct (map sdef_id (workflow_steps w))" "retries_ok (workflow_steps w) r"
          using advance_compute_retries [OF that(2,1) assms(3) adv] .
        ultimately have "engine_retries (st\<lparr>runs := (runs st)(rid \<mapsto> run')\<rparr>)"
          using engine_retriesD [OF assms(2) r] r(2) by (intro engine_retries_set [OF assms(2)]) simp_all
        then show ?thesis by (simp add: call_advance advance_with_runs Inr p adv advance_write_def)
      qed
    qed
  next
    case (call_pause now rid)
    then show ?thesis using assms(2)
      by (auto simp: pause_def retries_ok_def failed_count_def intro!: engine_retries_update split: option.split)
  next
    case (call_resume now rid)
    then show ?thesis using assms(2)
      by (auto simp: resume_def retries_ok_def failed_count_def intro!: engine_retries_update split: option.split)
  qed
qed

lemma stable_calls_retries:
  assumes "(stable_call exec js)\<^sup>*\<^sup>* st st'" "engine_retries st" "\<And>s run. result_step_id (exec s run) = sdef_id s"
  shows "engine_retries st'"
  using assms(1,2) by (induction rule: rtranclp_induct) (auto intro: stable_call_retries assms(3))

text \<open>C36: retries are bounded. Take calls that come one after the other and never replace the definition of
  a workflow, an executor whose results carry the identifier of the step they are for, as those of the code
  do, and a workflow whose steps have distinct identifiers, as compiled ones have. Then a step whose
  failures are retried at most \<open>limit\<close> times has at most \<open>limit + 1\<close> failures in any run, and a run in which
  it has that many has failed.\<close>

theorem retries_bounded:
  assumes "(stable_call exec js)\<^sup>*\<^sup>* engine_new st" "\<And>s run. result_step_id (exec s run) = sdef_id s"
    and "get_run st rid = Some run" "get_workflow st (run_workflow_id run) = Some w"
    and "distinct (map sdef_id (workflow_steps w))" "s \<in> set (workflow_steps w)" "on_failure s = Retry limit"
  shows "failed_count (sdef_id s) run \<le> unat limit + 1
    \<and> (failed_count (sdef_id s) run = unat limit + 1 \<longrightarrow> run_status run = Failed)"
proof -
  have "engine_retries (engine_new :: ('v, 'f) WorkflowEngine)" by (simp add: engine_retries_def engine_new_def)
  from stable_calls_retries [OF assms(1) this assms(2)] have "retries_ok (workflow_steps w) run"
    using assms(3-5) unfolding get_run_def get_workflow_def by (rule engine_retriesD)
  then have "failed_count (sdef_id s) run \<le> (if run_status run = Failed then unat limit + 1 else unat limit)"
    using assms(6,7) unfolding retries_ok_def by blast
  then show ?thesis by (auto split: if_splits)
qed

section \<open>What the engine does not promise\<close>

text \<open>A paused run is advanced like a running one: \<open>run_to_completion\<close> takes it to its end.\<close>

lemma paused_run_completes:
  assumes "runs st rid = Some run" "workflows st (run_workflow_id run) = Some w" "\<forall>s\<in>set (workflow_steps w). plain_step s"
    and "run_status run = Paused" "current_step_index run = 0" "step_results run = []" "length (workflow_steps w) \<le> 1000"
  shows "\<exists>run' st'. run_to_completion js clock st rid = (Inr run', st') \<and> run_status run' = Completed"
  using plain_completes [OF assms(1-3) _ assms(5-7), of js clock] assms(4) by (auto simp: terminal_def)

text \<open>
  Between the read and the write of \<open>advance\<close> other calls can come: a second \<open>advance\<close> from the same
  snapshot discards the result of the first, and a \<open>pause\<close> that was answered is undone.
\<close>

lemma lost_updates:
  "advance_write rid (Some b) (advance_write rid (Some a) st) = advance_write rid (Some b) st"
  "advance_write rid (Some b) (snd (pause now st rid)) = advance_write rid (Some b) st"
  by (auto simp: advance_write_def pause_def split: option.split)

text \<open>The true branch of the lead workflow runs on into its false branch.\<close>

lemma hot_lead_notifies_marketing:
  assumes "\<And>run. trigger_data run = data \<Longrightarrow> evaluate_expression js ''score > 80'' run"
    and "st = snd (start rid now (register_workflow engine_new lead_qualification_workflow) ''lead_qualification'' data)"
  shows "\<exists>run st'. run_to_completion js clock st rid = (Inr run, st') \<and>
    map result_step_id (step_results run) =
      [''qualify'', ''check_hot'', ''assign_sales'', ''compose_outreach'', ''schedule_followup'', ''notify_marketing'']"
  unfolding assms(2)
  by (simp add: run_to_completion_def run_to_completion_with_def start_def register_workflow_def engine_new_def
      lead_qualification_workflow_def complete_loop.simps advance_with_def advance_read_def advance_compute_def
      advance_write_def get_run_def branch_index_def goto_or_def position_def run_updates step_result_def
      evaluate_condition_def execute_step_def completed_result_def assms(1))

section \<open>Workflows at work\<close>

text \<open>A registered definition and a run of it.\<close>

definition started ::
  "string \<Rightarrow> int \<Rightarrow> ('v, 'f) WorkflowEngine \<Rightarrow> 'f WorkflowDefinition \<Rightarrow> 'v \<Rightarrow> ('v, 'f) WorkflowEngine" where
  "started rid now st d data = snd (start rid now (register_workflow st d) (workflow_def_id d) data)"

lemma started_run:
  "runs (started rid now st d data) rid = Some
     \<lparr>run_id = rid, run_workflow_id = workflow_def_id d, run_status = Pending, current_step_index = 0,
      trigger_data = data, step_results = [], run_created_at = now, run_updated_at = now\<rparr>"
  "workflows (started rid now st d data) (workflow_def_id d) = Some d"
  by (simp_all add: started_def start_def register_workflow_def)

text \<open>JSON values as their text; no text is a number.\<close>

definition text_values :: "(string, nat) value_api" where
  "text_values =
     \<lparr>value_match = IsString, json_get = (\<lambda>_ _. None), as_f64 = (\<lambda>_. None), parse_f64 = (\<lambda>_. None), f64_less = (<),
      json_object = (\<lambda>_. ''{}''), json_string = (\<lambda>s. s), json_uint = show_nat,
      json_bool = (\<lambda>b. if b then ''true'' else ''false''), json_null = ''null''\<rparr>"

definition wait_def :: "string \<Rightarrow> nat WorkflowStepDef" where
  "wait_def i = \<lparr>sdef_id = i, sdef_name = [], step_type = Delay 1, run_condition = None, on_failure = Abort,
     sdef_timeout_seconds = None\<rparr>"

definition waits :: "nat WorkflowDefinition" where
  "waits =
     \<lparr>workflow_def_id = ''w'', workflow_name = ''w'', workflow_description = [], workflow_trigger = Manual,
      workflow_steps = map wait_def [''a'', ''b''], workflow_timeout_seconds = None\<rparr>"

theorem runs_only_grow_witness:
  "\<exists>run. runs (snd (engine_advance text_values 5 9 (started ''r'' 0 engine_new waits ''go'') ''r'')) ''r'' = Some run
    \<and> trigger_data run = ''go''"
proof -
  have "(engine_call (execute_step text_values) text_values)\<^sup>*\<^sup>* (started ''r'' 0 engine_new waits ''go'')
      (snd (engine_advance text_values 5 9 (started ''r'' 0 engine_new waits ''go'') ''r''))"
    unfolding engine_advance_def by (rule r_into_rtranclp) (rule call_advance)
  from runs_only_grow [OF this started_run(1)] show ?thesis by (auto simp: evolves_def)
qed

lemma run_to_completion_plain_witness:
  "\<exists>run' st'. run_to_completion text_values (\<lambda>_. (0, 0)) (started ''r'' 0 engine_new waits ''go'') ''r'' = (Inr run', st')
    \<and> list_all2 outcome_of (workflow_steps waits) (step_results run')"
proof -
  have "\<forall>s\<in>set (workflow_steps waits). plain_step s" "length (workflow_steps waits) = 2"
    by (simp_all add: waits_def wait_def_def plain_step_def)
  with run_to_completion_plain [OF started_run(1) [of "''r''" 0 engine_new waits "''go''"], of waits text_values "\<lambda>_. (0, 0)"]
  show ?thesis by (simp add: started_run(2)) blast
qed

text \<open>A step that always fails and is not retried fails once.\<close>

definition fails :: "nat WorkflowStepDef \<Rightarrow> string WorkflowRun \<Rightarrow> string StepResult" where
  "fails s run = \<lparr>result_step_id = sdef_id s, result_status = StepFailed, step_output = [], duration_ms = 0, step_error = Some ''down''\<rparr>"

definition one_try :: "nat WorkflowDefinition" where
  "one_try = waits\<lparr>workflow_steps := [(wait_def ''a'')\<lparr>on_failure := Retry 0\<rparr>]\<rparr>"

theorem retries_bounded_witness:
  "\<exists>run. get_run (snd (advance_with fails text_values 5 9 (started ''r'' 0 engine_new one_try ''go'') ''r'')) ''r'' = Some run
    \<and> failed_count ''a'' run = 1 \<and> run_status run = Failed"
proof -
  let ?s0 = "register_workflow engine_new one_try :: (string, nat) WorkflowEngine"
  let ?s1 = "started ''r'' 0 engine_new one_try ''go''"
  let ?s2 = "snd (advance_with fails text_values 5 9 ?s1 ''r'')"
  have "stable_call fails text_values engine_new ?s0"
    unfolding stable_call_def by (intro conjI call_register) (simp add: engine_new_def map_le_def)
  moreover have "stable_call fails text_values ?s0 ?s1"
    unfolding stable_call_def started_def
    by (intro conjI call_start) (simp_all add: engine_new_def register_workflow_def start_def)
  moreover have "stable_call fails text_values ?s1 ?s2"
    unfolding stable_call_def
    by (intro conjI call_advance) (simp add: advance_with_runs advance_write_def split: sum.split option.split)
  ultimately have calls: "(stable_call fails text_values)\<^sup>*\<^sup>* engine_new ?s2"
    by (meson converse_rtranclp_into_rtranclp rtranclp.rtrancl_refl)
  obtain run where run: "get_run ?s2 ''r'' = Some run" "run_workflow_id run = ''w''" "failed_count ''a'' run = 1"
    by (simp add: get_run_def advance_with_def advance_read_def started_def start_def register_workflow_def engine_new_def
        one_try_def waits_def wait_def_def advance_compute_def advance_write_def run_updates step_result_def
        evaluate_condition_def fails_def failed_count_def)
  have "get_workflow ?s2 (run_workflow_id run) = Some one_try"
    by (simp add: run(2) get_workflow_def advance_with_runs advance_write_def started_def start_def register_workflow_def
        one_try_def waits_def split: sum.split option.split)
  from retries_bounded [OF calls _ run(1) this, of "(wait_def ''a'')\<lparr>on_failure := Retry 0\<rparr>" 0] run
  show ?thesis by (simp add: fails_def one_try_def wait_def_def)
qed

end
