(* ===== verification/WorkflowPipeline.thy ===== *)
theory WorkflowPipeline
  imports WorkflowDsl Workflow
begin

text \<open>
  The path from a workflow file to its run: \<open>WorkflowDsl::compile\<close> of \<open>workflow_dsl.rs\<close>, then
  \<open>register_workflow\<close>, \<open>start\<close> and \<open>run_to_completion\<close> of the engine of \<open>workflow.rs\<close>.
\<close>

lemma compiled_step:
  assumes "ordered_for ss ds" "d \<in> set ds"
  obtains s where "s \<in> set ss" "compile_step s = Inr d" "sdef_id d = step_id s"
proof -
  have "Inr d \<in> set (map compile_step ss)" using assms by (metis image_eqI list.set_map ordered_for_def set_mset_mset)
  then obtain s where "s \<in> set ss" "compile_step s = Inr d" by auto
  moreover from this have "sdef_id d = step_id s" by (auto simp: compile_step_def split: sum.splits)
  ultimately show thesis by (rule that)
qed

lemma compiled_plain:
  "compile_step s = Inr d \<Longrightarrow> step_kind s \<noteq> ''condition'' \<Longrightarrow> plain_step d"
  by (auto simp: compile_step_def compile_kind_def plain_step_def split: sum.splits if_splits)

lemma compiled_ids:
  assumes "ordered_for ss (ds :: 'f WorkflowStepDef list)"
  shows "mset (map sdef_id ds) = mset (map step_id ss)"
proof -
  let ?f = "\<lambda>x :: ArgentorError + 'f WorkflowStepDef. case x of Inr d \<Rightarrow> sdef_id d | Inl _ \<Rightarrow> []"
  have eq: "mset (map Inr ds) = mset (map compile_step ss)" using assms by (simp add: ordered_for_def)
  have "?f (compile_step s) = step_id s" if "s \<in> set ss" for s
  proof -
    have "compile_step s \<in> set (map Inr ds)" using that by (metis eq image_eqI list.set_map set_mset_mset)
    then obtain d where d: "compile_step s = Inr (d :: 'f WorkflowStepDef)" by auto
    then have "sdef_id d = step_id s" by (auto simp: compile_step_def split: sum.splits)
    then show ?thesis by (simp add: d)
  qed
  then have ids: "map ?f (map compile_step ss) = map step_id ss" by simp
  have "mset (map sdef_id ds) = image_mset ?f (mset (map Inr ds))" by (simp add: multiset.map_comp o_def)
  also have "\<dots> = mset (map step_id ss)" unfolding eq by (metis ids mset_map)
  finally show ?thesis .
qed

lemma outcomes_ids: "list_all2 outcome_of ds rs \<Longrightarrow> map result_step_id rs = map sdef_id ds"
  by (induction rule: list_all2_induct) (auto simp: outcome_of_def)

text \<open>
  C3: a workflow file that compiles, has no branching step and at most 1000 steps, runs to
  completion when it is registered and started: each declared step is taken exactly once, and
  after all the steps it depends on. This holds whatever the engine held before, for any trigger
  data and whatever guards the steps have.
\<close>

theorem compiled_workflow_runs:
  assumes "keys_of keys (steps t)" "keys_of keys' (steps t)"
    and "compile pp keys keys' t = Some (Inr (d :: 'f WorkflowDefinition))"
    and "\<forall>s\<in>set (steps t). step_kind s \<noteq> ''condition''" "length (steps t) \<le> 1000"
  shows "\<exists>run st'. run_to_completion js clock (started rid now st d data) rid = (Inr run, st')
    \<and> run_status run = Completed
    \<and> mset (map result_step_id (step_results run)) = mset (map step_id (steps t))
    \<and> (\<forall>j<length (step_results run). \<forall>s\<in>set (steps t). step_id s = result_step_id (step_results run ! j)
         \<longrightarrow> set (deps s) \<subseteq> set (map result_step_id (take j (step_results run))))"
proof -
  let ?ds = "workflow_steps d"
  have ord: "ordered_for (steps t) ?ds" using compile_result [OF assms(1-3)] by (rule conjunct2)
  have plain: "\<forall>s\<in>set ?ds. plain_step s"
  proof
    fix s assume "s \<in> set ?ds"
    then obtain s' where "s' \<in> set (steps t)" "compile_step s' = Inr s" by (elim compiled_step [OF ord])
    then show "plain_step s" using assms(4) compiled_plain by blast
  qed
  have "length ?ds = length (steps t)"
    using compiled_ids [OF ord] by (metis length_map size_mset)
  then have len: "length ?ds \<le> 1000" using assms(5) by simp
  have "\<exists>run st'. run_to_completion js clock (started rid now st d data) rid = (Inr run, st')
      \<and> run_status run = Completed \<and> list_all2 outcome_of ?ds (step_results run)"
    using plain_completes [OF started_run(1) [of rid now st d data], of d js clock] started_run(2) [of rid now st d data] plain len
    by (simp add: terminal_def) blast
  then obtain run st' where r: "run_to_completion js clock (started rid now st d data) rid = (Inr run, st')"
    "run_status run = Completed" "list_all2 outcome_of ?ds (step_results run)" by blast
  have ids: "map result_step_id (step_results run) = map sdef_id ?ds" using r(3) by (rule outcomes_ids)
  have lens: "length (step_results run) = length ?ds" using ids by (metis length_map)
  have "set (deps s) \<subseteq> set (map result_step_id (take j (step_results run)))"
    if "j < length (step_results run)" "s \<in> set (steps t)" "step_id s = result_step_id (step_results run ! j)" for j s
  proof -
    have "sdef_id (?ds ! j) = result_step_id (step_results run ! j)"
      using that(1) by (metis ids lens nth_map)
    then have "set (deps s) \<subseteq> set (map sdef_id (take j ?ds))"
      using ord that lens unfolding ordered_for_def by metis
    then show ?thesis by (metis ids take_map)
  qed
  moreover have "mset (map result_step_id (step_results run)) = mset (map step_id (steps t))"
    unfolding ids by (rule compiled_ids [OF ord])
  ultimately show ?thesis using r(1,2) by blast
qed

theorem compiled_workflow_runs_witness:
  "\<exists>run st'. run_to_completion text_values (\<lambda>_. (0, 0)) (started ''r'' 0 engine_new waits ''go'') ''r'' = (Inr run, st')
    \<and> run_status run = Completed \<and> mset (map result_step_id (step_results run)) = {#''a'', ''b''#}"
proof -
  have "compile prefix_point [''a'', ''b''] [''a'', ''b''] two_waits = Some (Inr waits)"
    unfolding two_waits_compiled by (simp add: waits_def wait_def_def)
  from compiled_workflow_runs [OF two_waits_keys two_waits_keys this, of text_values "\<lambda>_. (0, 0)" "''r''" 0 engine_new "''go''"]
  show ?thesis by (auto simp: two_waits_def blank_step_def add_mset_commute)
qed

end
