(* ===== verification/Handoff.thy ===== *)
theory Handoff
  imports Interfaces
begin

text \<open>
  \<open>argentor-orchestrator/src/handoff.rs\<close>: agents that pass control to each other, with a limit on
  the number of handoffs and a check against control coming back. Metadata is a JSON value of type
  \<open>'v\<close>, which is only stored. A duration is a number of nanoseconds and a time an \<open>int\<close>; the clock is
  an argument. A \<open>usize\<close> count of tokens is kept in 64 bits.
\<close>

section \<open>Requests and records\<close>

datatype ContextTransferMode = Full | Summary | Selective | Minimal

record HandoffConfig =
  max_handoff_depth :: u32
  context_transfer :: ContextTransferMode
  allow_handback :: bool
  handoff_timeout :: nat

definition default_handoff_config :: HandoffConfig where
  "default_handoff_config =
     \<lparr>max_handoff_depth = 5, context_transfer = Summary, allow_handback = True, handoff_timeout = 60 * 10 ^ 9\<rparr>"

record ContextMessage =
  sender_role :: string
  sent_content :: string
  sent_at :: int

record ToolResultSummary =
  summary_tool_name :: string
  summary_success :: bool
  summary_text :: string

record HandoffContext =
  context_messages :: "ContextMessage list"
  tool_results :: "ToolResultSummary list"
  accumulated_tokens :: u64
  parent_chain :: "string list"

record 'v HandoffRequest =
  from_agent :: string
  to_agent :: string
  handoff_reason :: string
  handoff_task :: string
  handoff_context :: HandoffContext
  handoff_metadata :: "string \<rightharpoonup> 'v"

datatype HandoffStatus = Completed | HandedBack string | TimedOut | DepthExceededStatus | Failed string

record HandoffResult =
  result_from :: string
  result_to :: string
  response :: string
  tokens_used :: u64
  handoff_duration :: nat
  handoff_chain :: "string list"
  handoff_status :: HandoffStatus

record 'v HandoffRecord =
  request :: "'v HandoffRequest"
  handoff_result :: "HandoffResult option"
  record_timestamp :: int

record 'v HandoffProtocol =
  handoff_config :: HandoffConfig
  history :: "'v HandoffRecord list"

datatype HandoffError =
    DepthExceeded u32 u32
  | CircularHandoff string "string list"
  | SelfHandoff string
  | RecordNotFound nat
  | AlreadyCompleted nat
  | HandbackNotAllowed

definition debug_list :: "string list \<Rightarrow> string" where
  "debug_list xs = ''['' @ join '', '' (map debug_str xs) @ '']''"

fun show_handoff_error :: "HandoffError \<Rightarrow> string" where
  "show_handoff_error (DepthExceeded limit current) =
     ''Handoff depth exceeded: current '' @ show_nat (unat current) @ '', max '' @ show_nat (unat limit)"
| "show_handoff_error (CircularHandoff agent chain) =
     ''Circular handoff to '' @ [CHR 39] @ agent @ [CHR 39] @ '' detected in chain: '' @ debug_list chain"
| "show_handoff_error (SelfHandoff agent) = ''Agent '' @ [CHR 39] @ agent @ [CHR 39] @ '' cannot hand off to itself''"
| "show_handoff_error (RecordNotFound i) = ''Handoff record not found at index '' @ show_nat i"
| "show_handoff_error (AlreadyCompleted i) = ''Handoff at index '' @ show_nat i @ '' is already completed''"
| "show_handoff_error HandbackNotAllowed = ''Handback is not allowed by configuration''"

section \<open>Queries\<close>

definition protocol_new :: "HandoffConfig \<Rightarrow> 'v HandoffProtocol" where
  "protocol_new cfg = \<lparr>handoff_config = cfg, history = []\<rparr>"

definition protocol_with_defaults :: "'v HandoffProtocol" where
  "protocol_with_defaults = protocol_new default_handoff_config"

definition current_depth :: "'v HandoffProtocol \<Rightarrow> u32" where
  "current_depth p = of_nat (length (history p))"

definition chain_step :: "string list \<Rightarrow> 'v HandoffRecord \<Rightarrow> string list" where
  "chain_step chain r =
     (let chain = (if chain = [] \<or> last chain \<noteq> from_agent (request r) then chain @ [from_agent (request r)] else chain)
      in chain @ [to_agent (request r)])"

definition current_chain :: "'v HandoffProtocol \<Rightarrow> string list" where
  "current_chain p = remdups_adj (foldl chain_step [] (history p))"

definition is_circular :: "'v HandoffProtocol \<Rightarrow> string \<Rightarrow> bool" where
  "is_circular p agent \<longleftrightarrow> (\<exists>r\<in>set (history p). from_agent (request r) = agent \<or> to_agent (request r) = agent)"

definition last_result :: "'v HandoffProtocol \<Rightarrow> HandoffResult option" where
  "last_result p =
     (case filter (\<lambda>r. handoff_result r \<noteq> None) (rev (history p)) of [] \<Rightarrow> None | r # _ \<Rightarrow> handoff_result r)"

definition handoffs_completed :: "'v HandoffProtocol \<Rightarrow> nat" where
  "handoffs_completed p = length (filter (\<lambda>r. handoff_result r \<noteq> None) (history p))"

definition handoffs_pending :: "'v HandoffProtocol \<Rightarrow> nat" where
  "handoffs_pending p = length (filter (\<lambda>r. handoff_result r = None) (history p))"

definition total_tokens :: "'v HandoffProtocol \<Rightarrow> u64" where
  "total_tokens p = sum_list (map tokens_used (List.map_filter handoff_result (history p)))"

definition handoff_reset :: "'v HandoffProtocol \<Rightarrow> 'v HandoffProtocol" where
  "handoff_reset p = p\<lparr>history := []\<rparr>"

section \<open>Operations\<close>

definition initiate_handoff ::
  "int \<Rightarrow> 'v HandoffProtocol \<Rightarrow> 'v HandoffRequest \<Rightarrow> (HandoffError + nat) \<times> 'v HandoffProtocol" where
  "initiate_handoff now p req =
     (if max_handoff_depth (handoff_config p) \<le> current_depth p
      then (Inl (DepthExceeded (max_handoff_depth (handoff_config p)) (current_depth p)), p)
      else if \<not> allow_handback (handoff_config p) \<and> is_circular p (to_agent req)
      then (Inl (CircularHandoff (to_agent req) (current_chain p)), p)
      else if from_agent req = to_agent req then (Inl (SelfHandoff (from_agent req)), p)
      else (Inr (length (history p)),
            p\<lparr>history := history p @ [\<lparr>request = req, handoff_result = None, record_timestamp = now\<rparr>]\<rparr>))"

definition pending_record :: "'v HandoffProtocol \<Rightarrow> nat \<Rightarrow> HandoffError + 'v HandoffRecord" where
  "pending_record p i =
     (if i < length (history p)
      then if handoff_result (history p ! i) \<noteq> None then Inl (AlreadyCompleted i) else Inr (history p ! i)
      else Inl (RecordNotFound i))"

definition accept_handoff :: "'v HandoffProtocol \<Rightarrow> nat \<Rightarrow> HandoffError + 'v HandoffRequest" where
  "accept_handoff p i = map_sum id request (pending_record p i)"

text \<open>The result of a record is written, with the chain of the moment.\<close>

definition finish_handoff ::
  "'v HandoffProtocol \<Rightarrow> nat \<Rightarrow> string \<Rightarrow> u64 \<Rightarrow> nat \<Rightarrow> HandoffStatus
     \<Rightarrow> (HandoffError + HandoffResult) \<times> 'v HandoffProtocol" where
  "finish_handoff p i resp tokens dur status =
     (let chain = current_chain p
      in case pending_record p i of
           Inl e \<Rightarrow> (Inl e, p)
         | Inr r \<Rightarrow>
             let result = \<lparr>result_from = from_agent (request r), result_to = to_agent (request r), response = resp,
                           tokens_used = tokens, handoff_duration = dur, handoff_chain = chain, handoff_status = status\<rparr>
             in (Inr result, p\<lparr>history := (history p)[i := r\<lparr>handoff_result := Some result\<rparr>]\<rparr>))"

definition complete_handoff ::
  "'v HandoffProtocol \<Rightarrow> nat \<Rightarrow> string \<Rightarrow> u64 \<Rightarrow> nat \<Rightarrow> (HandoffError + HandoffResult) \<times> 'v HandoffProtocol" where
  "complete_handoff p i resp tokens dur = finish_handoff p i resp tokens dur Completed"

definition handback ::
  "'v HandoffProtocol \<Rightarrow> nat \<Rightarrow> string \<Rightarrow> u64 \<Rightarrow> nat \<Rightarrow> (HandoffError + HandoffResult) \<times> 'v HandoffProtocol" where
  "handback p i reason tokens dur =
     (if \<not> allow_handback (handoff_config p) then (Inl HandbackNotAllowed, p)
      else finish_handoff p i [] tokens dur (HandedBack reason))"

definition mark_timeout :: "'v HandoffProtocol \<Rightarrow> nat \<Rightarrow> nat \<Rightarrow> (HandoffError + unit) \<times> 'v HandoffProtocol" where
  "mark_timeout p i dur = map_prod (map_sum id (\<lambda>_. ())) id (finish_handoff p i [] 0 dur TimedOut)"

definition handoff_mark_failed :: "'v HandoffProtocol \<Rightarrow> nat \<Rightarrow> string \<Rightarrow> nat \<Rightarrow> (HandoffError + unit) \<times> 'v HandoffProtocol" where
  "handoff_mark_failed p i reason dur = map_prod (map_sum id (\<lambda>_. ())) id (finish_handoff p i [] 0 dur (Failed reason))"

section \<open>Runs of the protocol\<close>

datatype 'v HandoffOp =
    Initiate int "'v HandoffRequest"
  | Complete nat string u64 nat
  | GiveBack nat string u64 nat
  | Timeout nat nat
  | MarkFailed nat string nat
  | Reset

fun handoff_step :: "'v HandoffProtocol \<Rightarrow> 'v HandoffOp \<Rightarrow> 'v HandoffProtocol" where
  "handoff_step p (Initiate now req) = snd (initiate_handoff now p req)"
| "handoff_step p (Complete i resp tokens dur) = snd (complete_handoff p i resp tokens dur)"
| "handoff_step p (GiveBack i reason tokens dur) = snd (handback p i reason tokens dur)"
| "handoff_step p (Timeout i dur) = snd (mark_timeout p i dur)"
| "handoff_step p (MarkFailed i reason dur) = snd (handoff_mark_failed p i reason dur)"
| "handoff_step p Reset = handoff_reset p"

text \<open>Who passed control to whom, oldest first.\<close>

definition transfers :: "'v HandoffProtocol \<Rightarrow> (string \<times> string) list" where
  "transfers p = map (\<lambda>r. (from_agent (request r), to_agent (request r))) (history p)"

text \<open>No agent receives control that has had it before.\<close>

definition no_return :: "(string \<times> string) list \<Rightarrow> bool" where
  "no_return ts \<longleftrightarrow> (\<forall>i<length ts. \<forall>j<i. snd (ts ! i) \<notin> {fst (ts ! j), snd (ts ! j)})"

lemma no_return_snoc:
  "no_return (ts @ [(a, b)]) \<longleftrightarrow> no_return ts \<and> b \<notin> fst ` set ts \<and> b \<notin> snd ` set ts"
proof -
  have "b \<notin> f ` set ts \<longleftrightarrow> (\<forall>j<length ts. b \<noteq> f (ts ! j))" for f :: "string \<times> string \<Rightarrow> string"
    by (auto simp: set_conv_nth)
  then show ?thesis by (auto simp: no_return_def less_Suc_eq nth_append)
qed

definition handoff_ok :: "HandoffConfig \<Rightarrow> 'v HandoffProtocol \<Rightarrow> bool" where
  "handoff_ok c p \<longleftrightarrow>
     handoff_config p = c \<and> length (history p) \<le> unat (max_handoff_depth c)
     \<and> (\<forall>(a, b)\<in>set (transfers p). a \<noteq> b) \<and> (\<not> allow_handback c \<longrightarrow> no_return (transfers p))"

lemma is_circular_transfers: "is_circular p a \<longleftrightarrow> a \<in> fst ` set (transfers p) \<or> a \<in> snd ` set (transfers p)"
  by (force simp: is_circular_def transfers_def)

lemma finish_handoff_keeps:
  "transfers (snd (finish_handoff p i resp tokens dur status)) = transfers p
   \<and> handoff_config (snd (finish_handoff p i resp tokens dur status)) = handoff_config p
   \<and> length (history (snd (finish_handoff p i resp tokens dur status))) = length (history p)"
proof (cases "i < length (history p)")
  case True
  have "map f ((history p)[i := (history p ! i)\<lparr>handoff_result := x\<rparr>]) = map f (history p)"
    if "f ((history p ! i)\<lparr>handoff_result := x\<rparr>) = f (history p ! i)" for f :: "'a HandoffRecord \<Rightarrow> string \<times> string" and x
    using that True by (metis list_update_id map_update)
  then show ?thesis using True by (simp add: finish_handoff_def pending_record_def transfers_def Let_def)
qed (simp add: finish_handoff_def pending_record_def)

lemma depth_below:
  "handoff_ok c p \<Longrightarrow> \<not> max_handoff_depth c \<le> current_depth p \<Longrightarrow> length (history p) < unat (max_handoff_depth c)"
  using unat_u32_less [of "max_handoff_depth c"]
  by (auto simp: handoff_ok_def current_depth_def word_le_nat_alt unat_of_nat take_bit_nat_eq_self)

lemma initiate_ok: "handoff_ok c p \<Longrightarrow> handoff_ok c (snd (initiate_handoff now p req))"
proof -
  assume ok: "handoff_ok c p"
  have cfg: "handoff_config p = c" using ok by (simp add: handoff_ok_def)
  show ?thesis
    using ok depth_below [OF ok]
    by (auto simp: initiate_handoff_def cfg handoff_ok_def is_circular_transfers transfers_def no_return_snoc image_image)
qed

interpretation handoffs: state_machine handoff_step "handoff_ok c" for c
proof unfold_locales
  fix p :: "'a HandoffProtocol" and e assume ok: "handoff_ok c p"
  have fin: "handoff_ok c (snd (finish_handoff p i resp tokens dur status))" for i resp tokens dur status
    using ok finish_handoff_keeps [of p i resp tokens dur status] by (simp add: handoff_ok_def)
  then show "handoff_ok c (handoff_step p e)"
    using ok initiate_ok [OF ok]
    by (cases e) (auto simp: complete_handoff_def handback_def mark_timeout_def handoff_mark_failed_def
        handoff_reset_def handoff_ok_def transfers_def no_return_def)
qed

lemma new_ok: "handoff_ok c (protocol_new c)"
  by (simp add: handoff_ok_def protocol_new_def transfers_def no_return_def)

section \<open>The chain\<close>

text \<open>Each handoff is made by the agent that has control.\<close>

definition sequential :: "(string \<times> string) list \<Rightarrow> bool" where
  "sequential ts \<longleftrightarrow> (\<forall>i. Suc i < length ts \<longrightarrow> fst (ts ! Suc i) = snd (ts ! i))"

definition receivers :: "(string \<times> string) list \<Rightarrow> string list" where
  "receivers ts = (if ts = [] then [] else fst (hd ts) # map snd ts)"

lemma sequential_snoc: "sequential (ts @ [t]) \<longleftrightarrow> sequential ts \<and> (ts \<noteq> [] \<longrightarrow> fst t = snd (last ts))"
proof
  assume s: "sequential (ts @ [t])"
  have "fst (ts ! Suc i) = snd (ts ! i)" if "Suc i < length ts" for i
    using s [unfolded sequential_def, rule_format, of i] that by (simp add: nth_append)
  moreover have "fst t = snd (last ts)" if "ts \<noteq> []"
    using s [unfolded sequential_def, rule_format, of "length ts - 1"] that by (simp add: nth_append last_conv_nth)
  ultimately show "sequential ts \<and> (ts \<noteq> [] \<longrightarrow> fst t = snd (last ts))" by (simp add: sequential_def)
next
  assume s: "sequential ts \<and> (ts \<noteq> [] \<longrightarrow> fst t = snd (last ts))"
  have "fst ((ts @ [t]) ! Suc i) = snd ((ts @ [t]) ! i)" if "Suc i < length (ts @ [t])" for i
  proof (cases "Suc i < length ts")
    case True
    then show ?thesis using s by (simp add: sequential_def nth_append)
  next
    case False
    then have "i = length ts - 1" "ts \<noteq> []" using that by auto
    then show ?thesis using s by (simp add: nth_append last_conv_nth)
  qed
  then show "sequential (ts @ [t])" by (simp add: sequential_def)
qed

lemma receivers_snoc: "receivers (ts @ [t]) = (if ts = [] then [fst t] else receivers ts) @ [snd t]"
  by (simp add: receivers_def hd_append)

lemma last_receivers: "ts \<noteq> [] \<Longrightarrow> receivers ts \<noteq> [] \<and> last (receivers ts) = snd (last ts)"
  by (simp add: receivers_def last_map)

lemma chain_fold:
  "sequential (map (\<lambda>r. (from_agent (request r), to_agent (request r))) rs) \<Longrightarrow>
     foldl chain_step [] rs = receivers (map (\<lambda>r. (from_agent (request r), to_agent (request r))) rs)"
proof (induction rs rule: rev_induct)
  case Nil
  then show ?case by (simp add: receivers_def)
next
  case (snoc r rs)
  let ?ts = "map (\<lambda>r. (from_agent (request r), to_agent (request r))) rs"
  have "sequential ?ts" "?ts \<noteq> [] \<longrightarrow> from_agent (request r) = snd (last ?ts)"
    using snoc.prems by (simp_all add: sequential_snoc)
  then have "chain_step (receivers ?ts) r = receivers (?ts @ [(from_agent (request r), to_agent (request r))])"
    using last_receivers [of ?ts] unfolding receivers_snoc
    by (cases "rs = []") (simp_all add: chain_step_def receivers_def [of "[]"])
  then show ?case using snoc.IH [OF \<open>sequential ?ts\<close>] by simp
qed

lemma receivers_adjacent: "sequential ts \<Longrightarrow> \<forall>(a, b)\<in>set ts. a \<noteq> b \<Longrightarrow> distinct_adj (receivers ts)"
proof (induction ts rule: rev_induct)
  case Nil
  then show ?case by (simp add: receivers_def)
next
  case (snoc t ts)
  have t: "sequential ts" "ts \<noteq> [] \<longrightarrow> fst t = snd (last ts)" "fst t \<noteq> snd t"
    using snoc.prems by (auto simp: sequential_snoc)
  have "distinct_adj (receivers ts)" using snoc t(1) by simp
  then show ?case
    using t(2,3) last_receivers [of ts] unfolding receivers_snoc
    by (cases "ts = []") (simp_all add: distinct_adj_append_iff)
qed

lemma receivers_distinct: "no_return ts \<Longrightarrow> \<forall>(a, b)\<in>set ts. a \<noteq> b \<Longrightarrow> distinct (receivers ts)"
proof (induction ts rule: rev_induct)
  case Nil
  then show ?case by (simp add: receivers_def)
next
  case (snoc t ts)
  obtain a b where t: "t = (a, b)" by force
  have "distinct (receivers ts)" using snoc by (simp add: t no_return_snoc)
  moreover have "b \<notin> set (receivers ts)"
    using snoc.prems(1) by (auto simp: t no_return_snoc receivers_def split: if_splits)
  ultimately show ?case using snoc.prems(2)
    by (cases ts) (auto simp: receivers_def t)
qed

lemma chain_of_sequential:
  assumes "handoff_ok c p" "sequential (transfers p)"
  shows "current_chain p = receivers (transfers p)"
proof -
  have "distinct_adj (receivers (transfers p))"
    using assms by (intro receivers_adjacent) (simp_all add: handoff_ok_def)
  then show ?thesis
    using chain_fold [of "history p"] assms(2) by (simp add: current_chain_def transfers_def distinct_adj_altdef)
qed

text \<open>C19: without handing back, control never returns until the protocol is reset. Whatever calls come,
  since the last reset, which clears the history, there were never more handoffs than the maximum depth, no
  agent handed off to itself, and no agent received control that had it before; when every handoff since
  then was made by the agent in control, the reported chain is the first agent and the receivers in order,
  each once.\<close>

theorem control_never_returns:
  fixes es :: "'v HandoffOp list"
  assumes "\<not> allow_handback c"
  defines "p \<equiv> foldl handoff_step (protocol_new c) es"
  shows "length (history p) \<le> unat (max_handoff_depth c) \<and> (\<forall>(a, b)\<in>set (transfers p). a \<noteq> b)
    \<and> no_return (transfers p)
    \<and> (sequential (transfers p) \<longrightarrow> current_chain p = receivers (transfers p) \<and> distinct (current_chain p))"
proof -
  have ok: "handoff_ok c p" unfolding p_def by (rule handoffs.run_inv [OF new_ok])
  then have "no_return (transfers p)" "\<forall>(a, b)\<in>set (transfers p). a \<noteq> b" using assms(1) by (simp_all add: handoff_ok_def)
  moreover from this have "distinct (receivers (transfers p))" by (rule receivers_distinct)
  ultimately show ?thesis using ok chain_of_sequential [OF ok] by (simp add: handoff_ok_def)
qed

section \<open>Records are written once\<close>

definition keeps_records :: "'v HandoffProtocol \<Rightarrow> 'v HandoffProtocol \<Rightarrow> bool" where
  "keeps_records p q \<longleftrightarrow>
     length (history p) \<le> length (history q)
     \<and> (\<forall>i<length (history p). request (history q ! i) = request (history p ! i)
          \<and> record_timestamp (history q ! i) = record_timestamp (history p ! i)
          \<and> (handoff_result (history p ! i) \<noteq> None \<longrightarrow> history q ! i = history p ! i))"

lemma keeps_records_refl [simp]: "keeps_records p p"
  by (simp add: keeps_records_def)

lemma keeps_records_trans: "keeps_records p q \<Longrightarrow> keeps_records q r \<Longrightarrow> keeps_records p r"
  by (auto simp: keeps_records_def)

lemma finish_keeps_records: "keeps_records p (snd (finish_handoff p i resp tokens dur status))"
  by (simp add: keeps_records_def finish_handoff_def pending_record_def Let_def nth_list_update)

lemma step_keeps_records: "e \<noteq> Reset \<Longrightarrow> keeps_records p (handoff_step p e)"
  by (cases e) (simp_all add: complete_handoff_def handback_def mark_timeout_def handoff_mark_failed_def
      finish_keeps_records initiate_handoff_def, simp add: keeps_records_def nth_append)

text \<open>
  Until the history is reset, records are only added; the request of a record never changes
  and its result, once written, is never written again.
\<close>

lemma records_written_once:
  assumes "Reset \<notin> set es"
  shows "keeps_records p (foldl handoff_step p es)"
  using assms
proof (induction es arbitrary: p)
  case Nil
  then show ?case by simp
next
  case (Cons e es)
  have "keeps_records p (handoff_step p e)" using Cons.prems by (intro step_keeps_records) auto
  then show ?case using Cons.IH [of "handoff_step p e"] Cons.prems by (auto intro: keeps_records_trans)
qed

text \<open>A handoff that is handed back still counts: with a maximum depth of 1 nothing can follow it.\<close>

definition ask :: "string \<Rightarrow> string \<Rightarrow> unit HandoffRequest" where
  "ask a b = \<lparr>from_agent = a, to_agent = b, handoff_reason = [], handoff_task = [],
     handoff_context = \<lparr>context_messages = [], tool_results = [], accumulated_tokens = 0, parent_chain = []\<rparr>,
     handoff_metadata = Map.empty\<rparr>"

lemma handed_back_still_counts:
  "fst (initiate_handoff 2 (foldl handoff_step (protocol_new (default_handoff_config\<lparr>max_handoff_depth := 1\<rparr>))
       [Initiate 1 (ask ''a'' ''b''), GiveBack 0 ''no'' 0 0]) (ask ''a'' ''c'')) = Inl (DepthExceeded 1 1)"
  by (simp add: protocol_new_def default_handoff_config_def initiate_handoff_def current_depth_def handback_def
      finish_handoff_def pending_record_def Let_def ask_def)

text \<open>Any agent may pass control, whether it has it or not.\<close>

lemma foreign_handoff:
  "transfers (foldl handoff_step (protocol_new default_handoff_config)
     [Initiate 1 (ask ''a'' ''b''), Initiate 2 (ask ''c'' ''d'')]) = [(''a'', ''b''), (''c'', ''d'')]"
  by (simp add: protocol_new_def default_handoff_config_def initiate_handoff_def current_depth_def word_le_nat_alt ask_def transfers_def)

theorem control_never_returns_witness:
  "no_return (transfers (foldl handoff_step (protocol_new (default_handoff_config\<lparr>allow_handback := False\<rparr>))
     [Initiate 1 (ask ''a'' ''b''), Initiate 2 (ask ''b'' ''a'')]))"
  using control_never_returns [of "default_handoff_config\<lparr>allow_handback := False\<rparr>"
      "[Initiate 1 (ask ''a'' ''b''), Initiate 2 (ask ''b'' ''a'')]"] by simp

lemma records_written_once_witness:
  "keeps_records (protocol_new default_handoff_config)
     (foldl handoff_step (protocol_new default_handoff_config)
        [Initiate 1 (ask ''a'' ''b''), Complete 0 ''done'' 7 1, Complete 0 ''again'' 9 1])"
  by (rule records_written_once) simp

end
