(* ===== verification/Replanner.thy ===== *)
theory Replanner
  imports TaskTypes
begin

text \<open>
  \<open>argentor-orchestrator/src/replanner.rs\<close>: what to do about a failed task, the back-off before a
  retry, and the log of the decisions.
\<close>

record RecoveryTask =
  recovery_description :: string
  recovery_assigned_to :: AgentRole
  recovery_dependencies :: "Uuid list"

definition recovery_task_new :: "string \<Rightarrow> AgentRole \<Rightarrow> RecoveryTask" where
  "recovery_task_new d r = \<lparr>recovery_description = d, recovery_assigned_to = r, recovery_dependencies = []\<rparr>"

definition recovery_with_dependencies :: "RecoveryTask \<Rightarrow> Uuid list \<Rightarrow> RecoveryTask" where
  "recovery_with_dependencies t ds = t\<lparr>recovery_dependencies := ds\<rparr>"

datatype RecoveryStrategy =
    Retry u32 u64
  | Reassign AgentRole
  | Decompose "RecoveryTask list"
  | Skip string
  | Abort string
  | Escalate

record FailureContext =
  failed_task_id :: Uuid
  failed_description :: string
  failed_assigned_to :: AgentRole
  failure_message :: string
  attempt_count :: u32
  is_critical :: bool

record Replanner =
  max_retries :: u32

definition replanner_new :: "u32 \<Rightarrow> Replanner" where
  "replanner_new n = \<lparr>max_retries = n\<rparr>"

definition saturating_mul :: "'a::len word \<Rightarrow> 'a word \<Rightarrow> 'a word" where
  "saturating_mul a b = (if unat a * unat b < 2 ^ LENGTH('a) then a * b else - 1)"

definition calculate_backoff :: "u32 \<Rightarrow> u64 \<Rightarrow> u64" where
  "calculate_backoff attempt base_ms =
     (let exponential = saturating_mul base_ms (push_bit (unat (min attempt 10)) 1);
          jitter = saturating_mul (ucast attempt) 100
      in min (saturating_add exponential jitter) 60000)"

definition suggest_alternate_role :: "AgentRole \<Rightarrow> string \<Rightarrow> AgentRole" where
  "suggest_alternate_role current err =
     (let error_lower = to_lowercase err in
      if str_contains error_lower ''security'' \<or> str_contains error_lower ''vulnerability'' then SecurityAuditor
      else if str_contains error_lower ''deploy'' \<or> str_contains error_lower ''infrastructure'' then DevOps
      else if str_contains error_lower ''design'' \<or> str_contains error_lower ''architecture'' then Architect
      else case current of
             Coder \<Rightarrow> Reviewer
           | Tester \<Rightarrow> Coder
           | Reviewer \<Rightarrow> Architect
           | Spec \<Rightarrow> Architect
           | DocumentWriter \<Rightarrow> Reviewer
           | _ \<Rightarrow> Orchestrator)"

definition analyze_failure :: "Replanner \<Rightarrow> FailureContext \<Rightarrow> RecoveryStrategy" where
  "analyze_failure r ctx =
     (let error_lower = to_lowercase (failure_message ctx) in
      if attempt_count ctx < max_retries r
      then Retry (max_retries r) (calculate_backoff (attempt_count ctx) 500)
      else if str_contains error_lower ''permission'' \<or> str_contains error_lower ''denied''
      then Reassign (suggest_alternate_role (failed_assigned_to ctx) (failure_message ctx))
      else if str_contains error_lower ''timeout''
      then Retry (attempt_count ctx + 1) (calculate_backoff (attempt_count ctx) 2000)
      else if str_contains error_lower ''too complex'' \<or> str_contains error_lower ''token limit''
      then Decompose
             [recovery_task_new (''Part 1 of: '' @ failed_description ctx) (failed_assigned_to ctx),
              recovery_task_new (''Part 2 of: '' @ failed_description ctx) (failed_assigned_to ctx)]
      else if is_critical ctx then Escalate
      else Skip (''Non-critical task failed after '' @ show_nat (unat (attempt_count ctx)) @ '' attempts: ''
                   @ failure_message ctx))"

record ReplanEntry =
  replan_task_id :: Uuid
  replan_timestamp :: DateTime
  strategy_chosen :: RecoveryStrategy
  replan_reason :: string

record ReplanHistory =
  entries :: "ReplanEntry list"

definition history_new :: ReplanHistory where
  "history_new = \<lparr>entries = []\<rparr>"

definition record_entry :: "ReplanHistory \<Rightarrow> ReplanEntry \<Rightarrow> ReplanHistory" where
  "record_entry h e = h\<lparr>entries := entries h @ [e]\<rparr>"

definition entries_for_task :: "ReplanHistory \<Rightarrow> Uuid \<Rightarrow> ReplanEntry list" where
  "entries_for_task h i = filter (\<lambda>e. replan_task_id e = i) (entries h)"

definition total_replans :: "ReplanHistory \<Rightarrow> nat" where
  "total_replans h = length (entries h)"

section \<open>The back-off\<close>

lemma unat_max_word: "unat (- 1 :: 'a::len word) = 2 ^ LENGTH('a) - 1"
  by (simp add: unsigned_minus_1_eq_mask mask_eq_exp_minus_1)

lemma unat_saturating_mul: "unat (saturating_mul a b :: 'a::len word) = min (unat a * unat b) (2 ^ LENGTH('a) - 1)"
proof (cases "unat a * unat b < 2 ^ LENGTH('a)")
  case True
  then have "unat (a * b) = unat a * unat b" by (simp add: unat_mult_lem [THEN iffD1])
  then show ?thesis using True by (simp add: saturating_mul_def)
next
  case False
  then show ?thesis by (simp add: saturating_mul_def unat_max_word)
qed

lemma unat_saturating_add: "unat (saturating_add a b :: 'a::len word) = min (unat a + unat b) (2 ^ LENGTH('a) - 1)"
proof -
  have b: "unat b < 2 ^ LENGTH('a)" by (rule unsigned_less)
  have "unat (- 1 - b) = 2 ^ LENGTH('a) - 1 - unat b"
    by (subst unat_sub) (simp_all add: unat_max_word)
  then have "a > - 1 - b \<longleftrightarrow> 2 ^ LENGTH('a) \<le> unat a + unat b"
    using b unfolding word_less_nat_alt by linarith
  then show ?thesis
    by (auto simp: saturating_add_def unat_max_word unat_add_lem [THEN iffD1] not_le)
qed

lemma unat_backoff:
  "unat (calculate_backoff a base) = min 60000 (unat base * 2 ^ min (unat a) 10 + unat a * 100)"
proof -
  have k: "min (unat a) 10 \<le> 10" by simp
  have "unat (push_bit (unat (min a 10)) (1 :: u64)) = 2 ^ min (unat a) 10"
  proof -
    have "unat (min a 10) = min (unat a) 10" by (simp add: min_def word_le_nat_alt)
    moreover have "(2 :: nat) ^ min (unat a) 10 \<le> 2 ^ 10" by (rule power_increasing) simp_all
    then have "(2 :: nat) ^ min (unat a) 10 mod 2 ^ 64 = 2 ^ min (unat a) 10" by simp
    ultimately show ?thesis by (subst unsigned_push_bit_eq) (simp add: take_bit_nat_def push_bit_nat_def)
  qed
  moreover have "unat (ucast a :: u64) = unat a"
    using unat_u32_less [of a] by (subst unsigned_ucast_eq) (simp add: take_bit_nat_eq_self)
  ultimately show ?thesis
    by (simp add: calculate_backoff_def Let_def min_def word_le_nat_alt unat_saturating_add unat_saturating_mul)
qed

text \<open>
  The back-off is exactly the formula of the documentation, although every operation is
  on 64 bits, and is at least the base (up to a minute), at most a minute, and never shrinks
  from one attempt to the next.
\<close>

lemma backoff_exact:
  "unat (calculate_backoff a base) = min 60000 (unat base * 2 ^ min (unat a) 10 + unat a * 100)
   \<and> min 60000 (unat base) \<le> unat (calculate_backoff a base)
   \<and> (a \<le> b \<longrightarrow> calculate_backoff a base \<le> calculate_backoff b base)"
proof (intro conjI impI)
  show "min 60000 (unat base) \<le> unat (calculate_backoff a base)"
    unfolding unat_backoff by (intro min.mono order_refl trans_le_add1) simp
  assume "a \<le> b"
  then have ab: "unat a \<le> unat b" by (simp add: word_le_nat_alt)
  then have "unat base * 2 ^ min (unat a) 10 \<le> unat base * 2 ^ min (unat b) 10"
    by (intro mult_le_mono power_increasing min.mono) simp_all
  then show "calculate_backoff a base \<le> calculate_backoff b base"
    unfolding word_le_nat_alt unat_backoff using ab by (intro min.mono) linarith+
qed (rule unat_backoff)

section \<open>The decision\<close>

definition asks_permission :: "FailureContext \<Rightarrow> bool" where
  "asks_permission ctx \<longleftrightarrow>
     str_contains (to_lowercase (failure_message ctx)) ''permission'' \<or> str_contains (to_lowercase (failure_message ctx)) ''denied''"

definition timed_out :: "FailureContext \<Rightarrow> bool" where
  "timed_out ctx \<longleftrightarrow> str_contains (to_lowercase (failure_message ctx)) ''timeout''"

text \<open>
  A task is retried exactly when attempts remain or, out of attempts, when the error is a
  timeout that does not speak of permissions; the wait before a retry is between half a second
  and a minute. Only critical tasks are escalated, only others are skipped, and the replanner
  itself never aborts a pipeline.
\<close>

lemma recovery_decision:
  "((\<exists>n ms. analyze_failure r ctx = Retry n ms) \<longleftrightarrow>
      attempt_count ctx < max_retries r \<or> timed_out ctx \<and> \<not> asks_permission ctx)
   \<and> (\<forall>n ms. analyze_failure r ctx = Retry n ms \<longrightarrow> 500 \<le> unat ms \<and> unat ms \<le> 60000)
   \<and> (analyze_failure r ctx = Escalate \<longrightarrow> is_critical ctx)
   \<and> (\<forall>why. analyze_failure r ctx = Skip why \<longrightarrow> \<not> is_critical ctx)
   \<and> (\<forall>why. analyze_failure r ctx \<noteq> Abort why)"
proof -
  have wait: "500 \<le> unat (calculate_backoff a base) \<and> unat (calculate_backoff a base) \<le> 60000"
    if "500 \<le> unat base" for a base
  proof -
    have "500 \<le> unat base * 2 ^ min (unat a) 10" by (rule order_trans [OF that]) simp
    then show ?thesis unfolding unat_backoff by (simp add: trans_le_add1)
  qed
  show ?thesis
    using wait [of 500] wait [of 2000]
    by (auto simp: analyze_failure_def Let_def timed_out_def asks_permission_def split: if_splits)
qed

text \<open>A task that times out is retried for ever, with a limit that moves along.\<close>

lemma timeouts_retry_for_ever:
  "timed_out ctx \<Longrightarrow> \<not> asks_permission ctx \<Longrightarrow> max_retries r \<le> attempt_count ctx \<Longrightarrow>
     analyze_failure r ctx = Retry (attempt_count ctx + 1) (calculate_backoff (attempt_count ctx) 2000)"
  by (auto simp: analyze_failure_def Let_def timed_out_def asks_permission_def)

text \<open>The role to which a task is reassigned can be the one that failed.\<close>

lemma same_role_again: "suggest_alternate_role Orchestrator ''permission denied'' = Orchestrator"
  by (simp add: suggest_alternate_role_def to_lowercase_def lower_char_def str_contains_def Let_def sublist_Cons_right)

lemma recovery_decision_witness:
  "(\<forall>why. analyze_failure (replanner_new 2) \<lparr>failed_task_id = 1, failed_description = ''d'', failed_assigned_to = Coder,
     failure_message = ''x'', attempt_count = 2, is_critical = True\<rparr> \<noteq> Skip why)"
  using recovery_decision [of "replanner_new 2" "\<lparr>failed_task_id = 1, failed_description = ''d'', failed_assigned_to = Coder,
     failure_message = ''x'', attempt_count = 2, is_critical = True\<rparr>"] by auto

lemma backoff_exact_witness: "calculate_backoff 1 500 \<le> calculate_backoff 2 500"
  using backoff_exact [of 1 500 2] by (simp add: word_le_nat_alt)

end
