(* ===== verification/Cron.thy ===== *)
theory Cron
  imports RustText "HOL-Library.Monad_Syntax"
begin

text \<open>
  \<open>argentor-builtins/src/cron_parser.rs\<close>: cron expressions, the instants they name, and their
  description. An \<open>u32\<close> is its number; only the step of \<open>*/n\<close> can wrap, which is written out. The
  calendar is that of \<open>chrono\<close>: an instant is of a type \<open>'t\<close> and the functions the code calls on it
  are the fields of \<open>calendar\<close>.
\<close>

section \<open>Fields\<close>

record CronField =
  field_values :: "nat list"

definition field_matches :: "CronField \<Rightarrow> nat \<Rightarrow> bool" where
  "field_matches f value \<longleftrightarrow> value \<in> set (field_values f)"

text \<open>The loop of \<open>*/step\<close>; with a step of 0 it would not end.\<close>

partial_function (option) step_loop :: "nat \<Rightarrow> nat \<Rightarrow> nat \<Rightarrow> nat list \<Rightarrow> nat list option" where
  "step_loop step hi v values =
     (if v \<le> hi then step_loop step hi ((v + step) mod 2 ^ 32) (values @ [v]) else Some values)"

definition parse_u32 :: "string \<Rightarrow> nat option" where
  "parse_u32 s = (case parse_uint (2 ^ 32) s of Inr n \<Rightarrow> Some n | Inl _ \<Rightarrow> None)"

definition cron_range :: "nat \<Rightarrow> nat \<Rightarrow> string \<Rightarrow> string + nat list" where
  "cron_range lo hi part =
     (case split_char CHR ''-'' part of
        [a, b] \<Rightarrow>
          (case parse_u32 a of
             None \<Rightarrow> Inl (''Invalid range start: '' @ a)
           | Some first \<Rightarrow>
               (case parse_u32 b of
                  None \<Rightarrow> Inl (''Invalid range end: '' @ b)
                | Some final \<Rightarrow>
                    if final < first \<or> first < lo \<or> hi < final
                    then Inl (''Range '' @ show_nat first @ ''-'' @ show_nat final @ '' out of bounds (''
                           @ show_nat lo @ ''-'' @ show_nat hi @ '')'')
                    else Inr [first..<Suc final]))
      | _ \<Rightarrow> Inl (''Invalid range: '' @ part))"

text \<open>What one part between commas adds.\<close>

definition cron_part :: "nat \<Rightarrow> nat \<Rightarrow> string \<Rightarrow> (string + nat list) option" where
  "cron_part lo hi p =
     (let part = trim p in
      if part = ''*'' then Some (Inr [lo..<Suc hi])
      else case strip_prefix ''*/'' part of
        Some step_str \<Rightarrow>
          (case parse_u32 step_str of
             None \<Rightarrow> Some (Inl (''Invalid step value: '' @ step_str))
           | Some step \<Rightarrow>
               if step = 0 then Some (Inl ''Step value cannot be 0'')
               else map_option Inr (step_loop step hi lo []))
      | None \<Rightarrow>
          if CHR ''-'' \<in> set part then Some (cron_range lo hi part)
          else case parse_u32 part of
            None \<Rightarrow> Some (Inl (''Invalid value: '' @ part))
          | Some v \<Rightarrow>
              if v < lo \<or> hi < v
              then Some (Inl (''Value '' @ show_nat v @ '' out of bounds ('' @ show_nat lo @ ''-'' @ show_nat hi @ '')''))
              else Some (Inr [v]))"

fun parse_parts :: "nat \<Rightarrow> nat \<Rightarrow> string list \<Rightarrow> nat list \<Rightarrow> (string + nat list) option" where
  "parse_parts lo hi [] values = Some (Inr values)"
| "parse_parts lo hi (p # ps) values =
     (case cron_part lo hi p of
        None \<Rightarrow> None
      | Some (Inl e) \<Rightarrow> Some (Inl e)
      | Some (Inr vs) \<Rightarrow> parse_parts lo hi ps (values @ vs))"

definition parse_field :: "string \<Rightarrow> nat \<Rightarrow> nat \<Rightarrow> (string + CronField) option" where
  "parse_field field lo hi =
     map_option (map_sum id (\<lambda>values. \<lparr>field_values = remdups_adj (sort values)\<rparr>))
       (parse_parts lo hi (split_char CHR '','' field) [])"

section \<open>Expressions\<close>

record CronExpr =
  cron_minute :: CronField
  cron_hour :: CronField
  cron_day :: CronField
  cron_month :: CronField
  cron_weekday :: CronField

definition cron_alias :: "string \<Rightarrow> string" where
  "cron_alias s =
     (if s = ''@yearly'' \<or> s = ''@annually'' then ''0 0 1 1 *''
      else if s = ''@monthly'' then ''0 0 1 * *''
      else if s = ''@weekly'' then ''0 0 * * 0''
      else if s = ''@daily'' \<or> s = ''@midnight'' then ''0 0 * * *''
      else if s = ''@hourly'' then ''0 * * * *''
      else s)"

fun parse_fields :: "(string \<times> nat \<times> nat) list \<Rightarrow> (string + CronField list) option" where
  "parse_fields [] = Some (Inr [])"
| "parse_fields ((s, lo, hi) # fs) =
     (case parse_field s lo hi of
        None \<Rightarrow> None
      | Some (Inl e) \<Rightarrow> Some (Inl e)
      | Some (Inr f) \<Rightarrow> map_option (map_sum id (\<lambda>rest. f # rest)) (parse_fields fs))"

text \<open>The bounds of the five fields.\<close>

definition cron_bounds :: "(nat \<times> nat) list" where
  "cron_bounds = [(0, 59), (0, 23), (1, 31), (1, 12), (0, 6)]"

definition parse_cron :: "string \<Rightarrow> (string + CronExpr) option" where
  "parse_cron expr =
     (let fs = split_whitespace (cron_alias (trim expr)) in
      if length fs \<noteq> 5
      then Some (Inl (''Expected 5 fields (minute hour day month weekday), got '' @ show_nat (length fs)))
      else map_option (map_sum id (\<lambda>fs.
             \<lparr>cron_minute = fs ! 0, cron_hour = fs ! 1, cron_day = fs ! 2, cron_month = fs ! 3, cron_weekday = fs ! 4\<rparr>))
             (parse_fields (zip fs cron_bounds)))"

section \<open>Occurrences\<close>

text \<open>Fields of an instant, the weekday counted from Sunday; one minute later; seconds set to 0.\<close>

record 't calendar =
  minute_of :: "'t \<Rightarrow> nat"
  hour_of :: "'t \<Rightarrow> nat"
  day_of :: "'t \<Rightarrow> nat"
  month_of :: "'t \<Rightarrow> nat"
  weekday_of :: "'t \<Rightarrow> nat"
  next_minute :: "'t \<Rightarrow> 't"
  whole_minute :: "'t \<Rightarrow> 't"

definition cron_matches :: "'t calendar \<Rightarrow> CronExpr \<Rightarrow> 't \<Rightarrow> bool" where
  "cron_matches cal e t \<longleftrightarrow>
     field_matches (cron_minute e) (minute_of cal t) \<and> field_matches (cron_hour e) (hour_of cal t)
     \<and> field_matches (cron_day e) (day_of cal t) \<and> field_matches (cron_month e) (month_of cal t)
     \<and> field_matches (cron_weekday e) (weekday_of cal t)"

text \<open>The loop, with the number of iterations left.\<close>

fun occurrence_loop :: "'t calendar \<Rightarrow> CronExpr \<Rightarrow> nat \<Rightarrow> nat \<Rightarrow> 't \<Rightarrow> 't list \<Rightarrow> 't list" where
  "occurrence_loop cal e count left current results =
     (if length results < count \<and> 0 < left
      then occurrence_loop cal e count (left - 1) (next_minute cal current)
             (if cron_matches cal e current then results @ [current] else results)
      else results)"

declare occurrence_loop.simps [simp del]

definition next_occurrences :: "'t calendar \<Rightarrow> CronExpr \<Rightarrow> 't \<Rightarrow> nat \<Rightarrow> 't list" where
  "next_occurrences cal e from_time count =
     occurrence_loop cal e count 525960 (whole_minute cal (next_minute cal from_time)) []"

section \<open>Description\<close>

definition month_name :: "string \<Rightarrow> string" where
  "month_name s =
     (case map_of (zip (map show_nat [1..<13])
        [''January'', ''February'', ''March'', ''April'', ''May'', ''June'', ''July'', ''August'', ''September'',
         ''October'', ''November'', ''December'']) s of Some n \<Rightarrow> n | None \<Rightarrow> s)"

definition day_name :: "string \<Rightarrow> string" where
  "day_name s =
     (case map_of (zip (map show_nat [0..<7])
        [''Sunday'', ''Monday'', ''Tuesday'', ''Wednesday'', ''Thursday'', ''Friday'', ''Saturday'']) s of
        Some n \<Rightarrow> n | None \<Rightarrow> s)"

definition describe_parts :: "string list \<Rightarrow> string list" where
  "describe_parts fs =
     [if fs ! 0 = ''*'' then ''Every minute''
      else if prefix ''*/'' (fs ! 0) then ''Every '' @ drop 2 (fs ! 0) @ '' minutes''
      else ''At minute '' @ fs ! 0]
     @ (if fs ! 1 \<noteq> ''*''
        then [if prefix ''*/'' (fs ! 1) then ''every '' @ drop 2 (fs ! 1) @ '' hours'' else ''at hour '' @ fs ! 1]
        else [])
     @ (if fs ! 2 \<noteq> ''*'' then [''on day '' @ fs ! 2 @ '' of the month''] else [])
     @ (if fs ! 3 \<noteq> ''*'' then [''in '' @ month_name (fs ! 3)] else [])
     @ (if fs ! 4 \<noteq> ''*'' then [''on '' @ day_name (fs ! 4)] else [])"

definition describe_cron :: "string \<Rightarrow> string + string" where
  "describe_cron expr =
     (let s = trim expr in
      if s = ''@yearly'' \<or> s = ''@annually'' then Inr ''At midnight on January 1st, every year''
      else if s = ''@monthly'' then Inr ''At midnight on the 1st of every month''
      else if s = ''@weekly'' then Inr ''At midnight every Sunday''
      else if s = ''@daily'' \<or> s = ''@midnight'' then Inr ''At midnight every day''
      else if s = ''@hourly'' then Inr ''At the start of every hour''
      else
        let fs = split_whitespace expr in
        if length fs \<noteq> 5 then Inl ''Invalid cron expression''
        else Inr (join '', '' (describe_parts fs)))"

section \<open>The operations of the tool\<close>

text \<open>
  The arguments as extracted from the JSON call, and what the answer holds. \<open>arg_from\<close> is the
  instant the argument \<open>from\<close> is read as, \<open>None\<close> when it is absent or in neither of the two formats.
\<close>

record 't CronArgs =
  arg_operation :: "string option"
  arg_expression :: "string option"
  arg_from :: "'t option"
  arg_count :: "u64 option"

datatype 't CronAnswer =
    Valid string
  | NotValid string
  | Described string string
  | Fields string CronExpr
  | NextAt 't string
  | NextList "'t list" nat string

definition cron_execute :: "'t calendar \<Rightarrow> 't \<Rightarrow> 't CronArgs \<Rightarrow> (string + 't CronAnswer) option" where
  "cron_execute cal now args =
     (case arg_operation args of
        None \<Rightarrow> Some (Inl (''Missing required parameter: '' @ [CHR 39] @ ''operation'' @ [CHR 39]))
      | Some operation \<Rightarrow>
     (case arg_expression args of
        None \<Rightarrow> Some (Inl (''Missing required parameter: '' @ [CHR 39] @ ''expression'' @ [CHR 39]))
      | Some expression \<Rightarrow>
          let from_time = (case arg_from args of Some t \<Rightarrow> t | None \<Rightarrow> now) in
          if operation = ''validate''
          then map_option (\<lambda>r. case r of Inr _ \<Rightarrow> Inr (Valid expression) | Inl e \<Rightarrow> Inr (NotValid e)) (parse_cron expression)
          else if operation = ''describe''
          then Some (map_sum id (\<lambda>d. Described d expression) (describe_cron expression))
          else if operation = ''parse''
          then map_option (map_sum (\<lambda>e. ''Parse error: '' @ e) (Fields expression)) (parse_cron expression)
          else if operation = ''next''
          then map_option (\<lambda>r. case r of
                 Inl e \<Rightarrow> Inl (''Parse error: '' @ e)
               | Inr cron \<Rightarrow>
                   (case next_occurrences cal cron from_time 1 of
                      t # _ \<Rightarrow> Inr (NextAt t expression)
                    | [] \<Rightarrow> Inl ''Could not find next occurrence within 1 year'')) (parse_cron expression)
          else if operation = ''next_n''
          then map_option (\<lambda>r. case r of
                 Inl e \<Rightarrow> Inl (''Parse error: '' @ e)
               | Inr cron \<Rightarrow>
                   let count = unat (min (case arg_count args of Some n \<Rightarrow> n | None \<Rightarrow> 5) 20);
                       ts = next_occurrences cal cron from_time count
                   in Inr (NextList ts (length ts) expression)) (parse_cron expression)
          else Some (Inl (''Unknown operation: '' @ [CHR 39] @ operation @ [CHR 39]
                 @ ''. Supported: validate, describe, next, next_n, parse''))))"

section \<open>The step loop\<close>

lemma step_loop_add:
  assumes "0 < step" "hi + step < 2 ^ 32"
  shows "\<exists>ws. step_loop step hi v vs = Some (vs @ ws) \<and> set ws = {x. v \<le> x \<and> x \<le> hi \<and> step dvd (x - v)}"
proof (induction "Suc hi - v" arbitrary: v vs rule: less_induct)
  case less
  show ?case
  proof (cases "v \<le> hi")
    case True
    have v': "(v + step) mod 2 ^ 32 = v + step" using True assms by simp
    have lt: "Suc hi - (v + step) < Suc hi - v" using True assms(1) by linarith
    obtain ws where ws: "step_loop step hi (v + step) (vs @ [v]) = Some ((vs @ [v]) @ ws)"
      "set ws = {x. v + step \<le> x \<and> x \<le> hi \<and> step dvd (x - (v + step))}"
      using less [OF lt, of "vs @ [v]"] by auto
    have "{x. v \<le> x \<and> x \<le> hi \<and> step dvd (x - v)} = insert v (set ws)"
    proof (intro set_eqI iffI)
      fix x assume x: "x \<in> {x. v \<le> x \<and> x \<le> hi \<and> step dvd (x - v)}"
      then obtain k where k: "x - v = step * k" by auto
      show "x \<in> insert v (set ws)"
      proof (cases k)
        case 0
        then show ?thesis using x k by simp
      next
        case (Suc j)
        then have "x = v + step + step * j" using x k by auto
        then show ?thesis using x unfolding ws(2) by simp
      qed
    next
      fix x assume "x \<in> insert v (set ws)"
      then consider "x = v" | "v + step \<le> x" "x \<le> hi" "step dvd (x - (v + step))" using ws(2) by blast
      then show "x \<in> {x. v \<le> x \<and> x \<le> hi \<and> step dvd (x - v)}"
      proof cases
        case 2
        then obtain k where "x - (v + step) = step * k" by auto
        then have "x - v = step * Suc k" using 2(1) by simp
        then show ?thesis using 2 by auto
      qed (use True in simp)
    qed
    then show ?thesis
      using ws(1) True v' by (subst step_loop.simps) simp
  next
    case False
    then show ?thesis by (subst step_loop.simps) auto
  qed
qed

text \<open>A step that wraps takes the value down until it falls beyond the bound.\<close>

lemma step_loop_wrap:
  assumes "step < 2 ^ 32" "2 ^ 32 \<le> hi + step" "hi < 2 ^ 31"
  shows "v \<le> hi \<Longrightarrow> \<exists>ws. step_loop step hi v vs = Some (vs @ v # ws) \<and> set ws \<subseteq> {..hi} \<and> (v + step < 2 ^ 32 \<longrightarrow> ws = [])"
proof (induction v arbitrary: vs rule: less_induct)
  case (less v)
  show ?case
  proof (cases "v + step < 2 ^ 32")
    case True
    then have "(v + step) mod 2 ^ 32 = v + step" "hi < v + step" using assms by simp_all
    then show ?thesis using less.prems
      by (subst step_loop.simps, subst step_loop.simps) simp
  next
    case False
    define v' where "v' = v + step - 2 ^ 32"
    have v': "(v + step) mod 2 ^ 32 = v'" "v' < v"
      using False assms(1,3) less.prems by (simp_all add: v'_def le_mod_geq)
    then obtain ws where "step_loop step hi v' (vs @ [v]) = Some ((vs @ [v]) @ v' # ws)" "set ws \<subseteq> {..hi}"
      using less.IH [of v' "vs @ [v]"] less.prems by auto
    then show ?thesis using v' less.prems False by (subst step_loop.simps) auto
  qed
qed

lemma step_loop_exact:
  assumes "0 < step" "lo + step < 2 ^ 32" "lo \<le> hi" "hi < 2 ^ 31"
  shows "\<exists>ws. step_loop step hi lo vs = Some (vs @ ws) \<and> set ws = {x. lo \<le> x \<and> x \<le> hi \<and> step dvd (x - lo)}"
proof (cases "hi + step < 2 ^ 32")
  case True
  with assms(1) show ?thesis by (rule step_loop_add)
next
  case False
  then have "step_loop step hi lo vs = Some (vs @ [lo])"
    using step_loop_wrap [of step hi lo vs] assms by auto
  moreover have "{x. lo \<le> x \<and> x \<le> hi \<and> step dvd (x - lo)} = {lo}"
  proof -
    have "hi < step" using False assms(4) by simp
    then have "x = lo" if "lo \<le> x" "x \<le> hi" "step dvd (x - lo)" for x
      using that dvd_imp_le [of step "x - lo"] by fastforce
    then show ?thesis using assms(3) by auto
  qed
  ultimately show ?thesis by auto
qed

lemma step_loop_bounded:
  assumes "0 < step" "step < 2 ^ 32" "lo \<le> hi" "hi < 2 ^ 31"
  shows "\<exists>ws. step_loop step hi lo [] = Some ws \<and> ws \<noteq> [] \<and> set ws \<subseteq> {..hi}"
proof (cases "hi + step < 2 ^ 32")
  case True
  from step_loop_add [OF assms(1) this, of lo "[]"] obtain ws where
    ws: "step_loop step hi lo [] = Some ws" "set ws = {x. lo \<le> x \<and> x \<le> hi \<and> step dvd (x - lo)}" by auto
  then have "lo \<in> set ws" using assms(3) by simp
  then show ?thesis using ws by auto
next
  case False
  then show ?thesis using step_loop_wrap [of step hi lo "[]"] assms by auto
qed

section \<open>What a field means\<close>

datatype CronItem = AnyValue | EveryNth nat | Span nat nat | Single nat

fun item_text :: "CronItem \<Rightarrow> string" where
  "item_text AnyValue = ''*''"
| "item_text (EveryNth n) = ''*/'' @ show_nat n"
| "item_text (Span a b) = show_nat a @ ''-'' @ show_nat b"
| "item_text (Single n) = show_nat n"

fun item_values :: "nat \<Rightarrow> nat \<Rightarrow> CronItem \<Rightarrow> nat set" where
  "item_values lo hi AnyValue = {lo..hi}"
| "item_values lo hi (EveryNth n) = {x. lo \<le> x \<and> x \<le> hi \<and> n dvd (x - lo)}"
| "item_values lo hi (Span a b) = {a..b}"
| "item_values lo hi (Single n) = {n}"

fun item_ok :: "nat \<Rightarrow> nat \<Rightarrow> CronItem \<Rightarrow> bool" where
  "item_ok lo hi AnyValue = True"
| "item_ok lo hi (EveryNth n) = (0 < n \<and> lo + n < 2 ^ 32)"
| "item_ok lo hi (Span a b) = (lo \<le> a \<and> a \<le> b \<and> b \<le> hi)"
| "item_ok lo hi (Single n) = (lo \<le> n \<and> n \<le> hi)"

lemma show_no: "CHR ''-'' \<notin> set (show_nat n)" "CHR ''*'' \<notin> set (show_nat n)" "CHR '','' \<notin> set (show_nat n)"
  using show_nat_range [of _ n] by fastforce+

lemma trim_id: "\<forall>c\<in>set s. \<not> is_whitespace c \<Longrightarrow> trim s = s"
proof -
  assume w: "\<forall>c\<in>set s. \<not> is_whitespace c"
  then have d: "dropWhile is_whitespace s = s" by (cases s) simp_all
  have "dropWhile is_whitespace (rev s) = rev s" using w by (cases s rule: rev_cases) simp_all
  then show ?thesis by (simp add: trim_def d)
qed

lemma item_chars: "\<forall>c\<in>set (item_text it). \<not> is_whitespace c \<and> c \<noteq> CHR '',''"
  using show_no(3) digits_no_whitespace by (cases it) (auto simp: is_whitespace_def)

lemma parse_u32_show: "n < 2 ^ 32 \<Longrightarrow> parse_u32 (show_nat n) = Some n"
  by (simp add: parse_u32_def parse_uint_show)

lemma show_not_star: "show_nat n \<noteq> CHR ''*'' # s" "strip_prefix ''*/'' (show_nat n @ t) = None"
proof -
  obtain c cs where c: "show_nat n = c # cs" by (cases "show_nat n") simp_all
  then have "c \<noteq> CHR ''*''" using show_no(2) [of n] by auto
  then show "show_nat n \<noteq> CHR ''*'' # s" "strip_prefix ''*/'' (show_nat n @ t) = None"
    by (simp_all add: c strip_prefix_None)
qed

lemma cron_part_item:
  assumes "item_ok lo hi it" "lo \<le> hi" "hi < 2 ^ 31"
  shows "\<exists>vs. cron_part lo hi (item_text it) = Some (Inr vs) \<and> set vs = item_values lo hi it"
proof -
  have t: "trim (item_text it) = item_text it" using item_chars by (intro trim_id) blast
  show ?thesis
  proof (cases it)
    case AnyValue
    then show ?thesis using t by (auto simp: cron_part_def)
  next
    case (EveryNth n)
    have s: "strip_prefix ''*/'' (item_text it) = Some (show_nat n)" by (simp add: EveryNth strip_prefix_Some)
    from step_loop_exact [of n lo hi "[]"] assms EveryNth obtain ws where
      "step_loop n hi lo [] = Some ws" "set ws = item_values lo hi it" by auto
    then show ?thesis using assms(1) t s EveryNth by (simp add: cron_part_def parse_u32_show)
  next
    case (Span a b)
    have sp: "split_char CHR ''-'' (item_text it) = [show_nat a, show_nat b]"
    proof -
      have "split_char CHR ''-'' (show_nat n) = [show_nat n]" for n
        using show_no(1) [of n] by (intro split_by_no_sep) auto
      then show ?thesis by (simp add: Span split_by_append_sep)
    qed
    have s: "strip_prefix ''*/'' (item_text it) = None" "item_text it \<noteq> ''*''" "CHR ''-'' \<in> set (item_text it)"
      using show_not_star(2) [of a] by (auto simp: Span append_eq_Cons_conv)
    have "a < 2 ^ 32" "b < 2 ^ 32" using assms Span by auto
    then show ?thesis using assms(1) t s sp Span
      by (auto simp: cron_part_def cron_range_def parse_u32_show simp del: item_text.simps)
  next
    case (Single n)
    have s: "strip_prefix ''*/'' (item_text it) = None" "item_text it \<noteq> ''*''" "CHR ''-'' \<notin> set (item_text it)"
      using show_not_star [of n] show_no(1) by (auto simp: Single) (metis append_Nil2 option.distinct(1))
    then show ?thesis using assms t Single by (auto simp: cron_part_def parse_u32_show)
  qed
qed

lemma split_join:
  "ps \<noteq> [] \<Longrightarrow> \<forall>p\<in>set ps. c \<notin> set p \<Longrightarrow> split_char c (join [c] ps) = ps"
proof (induction ps)
  case (Cons p ps)
  have p: "split_char c p = [p]" using Cons.prems(2) by (intro split_by_no_sep) auto
  show ?case
  proof (cases "ps = []")
    case True
    then show ?thesis using p by simp
  next
    case False
    then show ?thesis using Cons p by (simp add: join_Cons split_by_append_sep)
  qed
qed simp

lemma dedup_sorted: "remdups_adj (sort xs) = sorted_list_of_set (set (xs :: nat list))"
proof -
  have "sorted ys \<Longrightarrow> sorted_wrt (<) (remdups_adj ys)" for ys :: "nat list"
    by (induction ys rule: remdups_adj.induct) (auto simp: order_le_less)
  from this [of "sort xs"] have "sorted (remdups_adj (sort xs)) \<and> distinct (remdups_adj (sort xs))"
    by (simp add: strict_sorted_iff)
  then show ?thesis
    by (metis remdups_adj_set set_sort sorted_list_of_set.idem_if_sorted_distinct)
qed

lemma parse_parts_items:
  "\<forall>it\<in>set items. item_ok lo hi it \<Longrightarrow> lo \<le> hi \<Longrightarrow> hi < 2 ^ 31 \<Longrightarrow>
     \<exists>out. parse_parts lo hi (map item_text items) values = Some (Inr out)
       \<and> set out = set values \<union> (\<Union>it\<in>set items. item_values lo hi it)"
proof (induction items arbitrary: "values")
  case (Cons it items)
  obtain vs where vs: "cron_part lo hi (item_text it) = Some (Inr vs)" "set vs = item_values lo hi it"
    using cron_part_item [of lo hi it] Cons.prems by auto
  show ?case using Cons.IH [of "values @ vs"] Cons.prems vs by auto
qed simp

text \<open>
  C20: a field is read as it is written. For any list of items (all values, every n-th value, a
  range, a value) that are within the bounds, parsing its text gives exactly the values the items
  name, in ascending order and each once. The one exception is a step that makes the first
  addition wrap.
\<close>

theorem parse_field_items:
  assumes "items \<noteq> []" "\<forall>it\<in>set items. item_ok lo hi it" "lo \<le> hi" "hi < 2 ^ 31"
  shows "parse_field (join '','' (map item_text items)) lo hi =
    Some (Inr \<lparr>field_values = sorted_list_of_set (\<Union>it\<in>set items. item_values lo hi it)\<rparr>)"
proof -
  have "split_char CHR '','' (join '','' (map item_text items)) = map item_text items"
    using assms(1) item_chars by (intro split_join) auto
  moreover obtain out where "parse_parts lo hi (map item_text items) [] = Some (Inr out)"
    "set out = (\<Union>it\<in>set items. item_values lo hi it)"
    using parse_parts_items [OF assms(2-4), of "[]"] by auto
  ultimately show ?thesis by (simp add: parse_field_def dedup_sorted)
qed

section \<open>Any text\<close>

definition field_within :: "nat \<Rightarrow> CronField \<Rightarrow> bool" where
  "field_within hi f \<longleftrightarrow> field_values f \<noteq> [] \<and> sorted_wrt (<) (field_values f) \<and> (\<forall>v\<in>set (field_values f). v \<le> hi)"

lemma parse_u32_less: "parse_u32 s = Some n \<Longrightarrow> n < 2 ^ 32"
  by (auto simp: parse_u32_def intro: parse_uint_less split: sum.splits)

lemma cron_range_bounded: "cron_range lo hi part = Inr vs \<Longrightarrow> vs \<noteq> [] \<and> set vs \<subseteq> {..hi}"
  by (auto simp: cron_range_def split: list.splits option.splits if_splits)

lemma cron_part_bounded:
  assumes "lo \<le> hi" "hi < 2 ^ 31"
  shows "\<exists>r. cron_part lo hi p = Some r \<and> (\<forall>vs. r = Inr vs \<longrightarrow> vs \<noteq> [] \<and> set vs \<subseteq> {..hi})"
proof -
  have "\<exists>ws. step_loop step hi lo [] = Some ws \<and> ws \<noteq> [] \<and> set ws \<subseteq> {..hi}" if "parse_u32 s = Some step" "step \<noteq> 0" for s step
    using step_loop_bounded [of step lo hi] parse_u32_less [OF that(1)] that(2) assms by simp
  then show ?thesis using assms(1)
    by (auto simp: cron_part_def Let_def dest!: cron_range_bounded split: option.split) blast+
qed

lemma parse_parts_bounded:
  assumes "lo \<le> hi" "hi < 2 ^ 31"
  shows "set values \<subseteq> {..hi} \<Longrightarrow> \<exists>r. parse_parts lo hi ps values = Some r
    \<and> (\<forall>out. r = Inr out \<longrightarrow> set out \<subseteq> {..hi} \<and> (ps \<noteq> [] \<or> values \<noteq> [] \<longrightarrow> out \<noteq> []))"
proof (induction ps arbitrary: "values")
  case (Cons p ps)
  obtain r where r: "cron_part lo hi p = Some r" "\<forall>vs. r = Inr vs \<longrightarrow> vs \<noteq> [] \<and> set vs \<subseteq> {..hi}"
    using cron_part_bounded [OF assms] by blast
  show ?case
  proof (cases r)
    case (Inl e)
    then show ?thesis using r(1) by simp
  next
    case (Inr vs)
    then have vs: "vs \<noteq> []" "set (values @ vs) \<subseteq> {..hi}" using r(2) Cons.prems by auto
    then show ?thesis using Cons.IH [OF vs(2)] r(1) Inr by auto
  qed
qed simp

lemma parse_field_bounded:
  assumes "lo \<le> hi" "hi < 2 ^ 31"
  obtains r where "parse_field s lo hi = Some r" "\<And>f. r = Inr f \<Longrightarrow> field_within hi f"
proof -
  obtain r where r: "parse_parts lo hi (split_char CHR '','' s) [] = Some r"
    "\<forall>out. r = Inr out \<longrightarrow> set out \<subseteq> {..hi} \<and> out \<noteq> []"
    using parse_parts_bounded [OF assms, of "[]" "split_char CHR '','' s"] by auto
  have within: "field_within hi \<lparr>field_values = sorted_list_of_set (set out)\<rparr>" if "set out \<subseteq> {..hi}" "out \<noteq> []" for out
    using that by (auto simp: field_within_def)
  show thesis
  proof (cases r)
    case (Inl e)
    then show thesis using r(1) by (intro that [of "Inl e"]) (simp_all add: parse_field_def)
  next
    case (Inr out)
    then have "parse_field s lo hi = Some (Inr \<lparr>field_values = sorted_list_of_set (set out)\<rparr>)"
      using r(1) by (simp add: parse_field_def dedup_sorted)
    then show thesis using r(2) Inr within by (intro that) auto
  qed
qed

lemma parse_fields_bounded:
  assumes "\<forall>(s, lo, hi)\<in>set fs. lo \<le> hi \<and> hi < 2 ^ 31"
  shows "\<exists>r. parse_fields fs = Some r \<and> (\<forall>out. r = Inr out \<longrightarrow> list_all2 (\<lambda>(s, lo, hi) f. field_within hi f) fs out)"
  using assms
proof (induction fs)
  case (Cons x fs)
  obtain s lo hi where x: "x = (s, lo, hi)" by (metis prod_cases3)
  have "lo \<le> hi" "hi < 2 ^ 31" using Cons.prems x by auto
  then obtain r where r: "parse_field s lo hi = Some r" "\<And>f. r = Inr f \<Longrightarrow> field_within hi f"
    using parse_field_bounded [of lo hi s] by blast
  obtain r' where r': "parse_fields fs = Some r'" "\<forall>out. r' = Inr out \<longrightarrow> list_all2 (\<lambda>(s, lo, hi) f. field_within hi f) fs out"
    using Cons by auto
  show ?case using r r' by (cases r; cases r') (auto simp: x)
qed simp

text \<open>
  Parsing any text ends, with an error or an expression whose fields have at least one value,
  in ascending order, none of them above the largest minute, hour, day, month and weekday.
\<close>

lemma parse_cron_bounded:
  "\<exists>r. parse_cron expr = Some r \<and> (\<forall>e. r = Inr e \<longrightarrow>
     field_within 59 (cron_minute e) \<and> field_within 23 (cron_hour e) \<and> field_within 31 (cron_day e)
     \<and> field_within 12 (cron_month e) \<and> field_within 6 (cron_weekday e))"
proof -
  define pieces where "pieces = split_whitespace (cron_alias (trim expr))"
  show ?thesis
  proof (cases "length pieces = 5")
    case True
    then obtain a b c d e where p: "pieces = [a, b, c, d, e]"
      by (auto simp: numeral_eq_Suc length_Suc_conv)
    have "\<forall>(s, lo, hi)\<in>set (zip pieces cron_bounds). lo \<le> hi \<and> hi < 2 ^ 31"
      by (simp add: p cron_bounds_def)
    from parse_fields_bounded [OF this] obtain r where r: "parse_fields (zip pieces cron_bounds) = Some r"
      "\<forall>out. r = Inr out \<longrightarrow> list_all2 (\<lambda>(s, lo, hi) f. field_within hi f) (zip pieces cron_bounds) out" by blast
    show ?thesis
    proof (cases r)
      case (Inl e)
      then show ?thesis using r(1) True by (simp add: parse_cron_def pieces_def [symmetric] Let_def)
    next
      case (Inr out)
      then have "list_all2 (\<lambda>(s, lo, hi) f. field_within hi f) (zip pieces cron_bounds) out" using r(2) by blast
      then show ?thesis using r(1) True Inr
        by (auto simp: parse_cron_def pieces_def [symmetric] Let_def p cron_bounds_def list_all2_Cons1)
    qed
  qed (simp add: parse_cron_def pieces_def [symmetric] Let_def)
qed

section \<open>The next occurrences\<close>

lemma occurrence_loop_exact:
  "length results \<le> count \<Longrightarrow> occurrence_loop cal e count n current results =
     results @ take (count - length results) (filter (cron_matches cal e) (map (\<lambda>k. (next_minute cal ^^ k) current) [0..<n]))"
proof (induction n arbitrary: current results)
  case 0
  then show ?case by (subst occurrence_loop.simps) simp
next
  case (Suc n)
  have steps: "map (\<lambda>k. (next_minute cal ^^ k) current) [0..<Suc n]
      = current # map (\<lambda>k. (next_minute cal ^^ k) (next_minute cal current)) [0..<n]"
    by (simp add: upt_conv_Cons map_Suc_upt [symmetric] funpow_swap1 del: upt_Suc)
  show ?case
  proof (cases "length results < count")
    case True
    then obtain m where m: "count - length results = Suc m" by (metis Suc_diff_Suc)
    then have "count - Suc (length results) = m" by simp
    then show ?thesis using True m
      by (subst occurrence_loop.simps) (simp add: Suc.IH steps del: upt_Suc)
  next
    case False
    then show ?thesis using Suc.prems by (subst occurrence_loop.simps) simp
  qed
qed

text \<open>
  The occurrences are the first ones, as many as asked for, among the 525960 whole minutes that
  follow the start, in order; no match among these minutes is skipped.
\<close>

lemma next_occurrences_exact:
  "next_occurrences cal e t count =
     take count (filter (cron_matches cal e)
       (map (\<lambda>k. (next_minute cal ^^ k) (whole_minute cal (next_minute cal t))) [0..<525960]))"
  unfolding next_occurrences_def by (subst occurrence_loop_exact) simp_all

text \<open>The largest step wraps on days, which start at 1, and gives the day 0.\<close>

lemma largest_step_wraps: "parse_field ''*/4294967295'' 1 31 = Some (Inr \<lparr>field_values = [0, 1]\<rparr>)"
proof -
  have "step_loop 4294967295 31 1 [] = Some [1, 0]"
    by (subst step_loop.simps, simp, subst step_loop.simps, simp, subst step_loop.simps, simp)
  moreover have "parse_u32 ''4294967295'' = Some 4294967295"
    by (simp add: parse_u32_def parse_uint_def to_digit_def)
  moreover have "trim ''*/4294967295'' = ''*/4294967295''" by (rule trim_id) (simp add: is_whitespace_def)
  ultimately show ?thesis by (simp add: parse_field_def cron_part_def strip_prefix_def)
qed

text \<open>An expression that does not parse is described all the same.\<close>

lemma describes_invalid:
  "describe_cron ''99 * * * *'' = Inr ''At minute 99''" "\<exists>e. parse_cron ''99 * * * *'' = Some (Inl e)"
proof -
  have w: "split_whitespace ''99 * * * *'' = [''99'', ''*'', ''*'', ''*'', ''*'']"
    by (simp add: split_whitespace_def is_whitespace_def)
  have t: "trim ''99 * * * *'' = ''99 * * * *''" "trim ''99'' = ''99''"
    by (simp_all add: trim_def is_whitespace_def)
  show "describe_cron ''99 * * * *'' = Inr ''At minute 99''"
    unfolding describe_cron_def t w by (simp add: describe_parts_def)
  have "parse_u32 ''99'' = Some 99" by (simp add: parse_u32_def parse_uint_def to_digit_def)
  then have "\<exists>e. parse_field ''99'' 0 59 = Some (Inl e)"
    by (simp add: parse_field_def cron_part_def t strip_prefix_def)
  then show "\<exists>e. parse_cron ''99 * * * *'' = Some (Inl e)"
    unfolding parse_cron_def t by (auto simp: cron_alias_def w cron_bounds_def)
qed

theorem parse_field_items_witness:
  "parse_field ''1-3,*/10,7'' 0 59 = Some (Inr \<lparr>field_values = [0, 1, 2, 3, 7, 10, 20, 30, 40, 50]\<rparr>)"
proof -
  let ?items = "[Span 1 3, EveryNth 10, Single 7]"
  have shown: "join '','' (map item_text ?items) = ''1-3,*/10,7''"
    by (simp add: show_nat_def show_radix.simps digit_char_simps)
  have "{x. 0 \<le> x \<and> x \<le> 59 \<and> 10 dvd (x - 0)} = set (filter (\<lambda>x :: nat. 10 dvd x) [0..<60])" by auto
  also have "\<dots> = {0, 10, 20, 30, 40, 50}" by code_simp
  finally have nth: "item_values 0 59 (EveryNth 10) = {0, 10, 20, 30, 40, 50}" by simp
  have "item_values 0 59 (Span 1 3) = {1, 2, 3}" by auto
  then have "(\<Union>it\<in>set ?items. item_values 0 59 it) = set [0, 1, 2, 3, 7, 10, 20, 30, 40, 50]"
    unfolding list.set UN_insert nth by auto
  moreover have "sorted_list_of_set (set xs) = xs" if "sorted xs" "distinct xs" for xs :: "nat list"
    using that by (rule sorted_list_of_set.idem_if_sorted_distinct)
  ultimately have "sorted_list_of_set (\<Union>it\<in>set ?items. item_values 0 59 it) = [0, 1, 2, 3, 7, 10, 20, 30, 40, 50]"
    by simp
  moreover have "parse_field (join '','' (map item_text ?items)) 0 59 =
      Some (Inr \<lparr>field_values = sorted_list_of_set (\<Union>it\<in>set ?items. item_values 0 59 it)\<rparr>)"
    by (rule parse_field_items) auto
  ultimately show ?thesis unfolding shown by (simp only:)
qed

lemma parse_cron_bounded_witness:
  "\<exists>e. parse_cron ''@hourly'' = Some (Inr e) \<and> field_within 59 (cron_minute e) \<and> field_within 31 (cron_day e)"
proof -
  have t: "trim ''@hourly'' = ''@hourly''" "trim ''0'' = ''0''" "trim ''*'' = ''*''"
    by (simp_all add: trim_def is_whitespace_def)
  have w: "split_whitespace ''0 * * * *'' = [''0'', ''*'', ''*'', ''*'', ''*'']"
    by (simp add: split_whitespace_def is_whitespace_def)
  have all: "\<exists>f. parse_field ''*'' lo hi = Some (Inr f)" for lo hi
    by (simp add: parse_field_def cron_part_def t)
  have "parse_u32 ''0'' = Some 0" by (simp add: parse_u32_def parse_uint_def to_digit_def)
  then have "\<exists>f. parse_field ''0'' 0 59 = Some (Inr f)"
    by (simp add: parse_field_def cron_part_def t strip_prefix_def)
  then have "\<exists>e. parse_cron ''@hourly'' = Some (Inr e)"
    using all [of 0 23] all [of 1 31] all [of 1 12] all [of 0 6]
    by (auto simp: parse_cron_def t cron_alias_def w cron_bounds_def)
  then show ?thesis using parse_cron_bounded [of "''@hourly''"] by auto
qed

end
