(* ===== verification/Windows.thy ===== *)
theory Windows
  imports Interfaces
begin

text \<open>
  Sliding windows over time stamps, as the two rate limiters of the gateway and of the tenants keep
  them. The locale \<open>sliding_window\<close> states what a limiter has to do on each event; under it no
  interval as long as the window holds more admitted requests than the limit. Times are in
  nanoseconds.
\<close>

text \<open>Stamps before the cutoff are dropped from the front.\<close>

definition prune :: "int \<Rightarrow> int list \<Rightarrow> int list" where
  "prune cutoff stamps = dropWhile (\<lambda>t. t < cutoff) stamps"

text \<open>The stamps less than a window old.\<close>

definition recent :: "int \<Rightarrow> int list \<Rightarrow> int list" where
  "recent cutoff stamps = filter (\<lambda>t. cutoff < t) stamps"

lemma recent_prune: "c \<le> cutoff \<Longrightarrow> recent cutoff (prune c stamps) = recent cutoff stamps"
  by (induction stamps) (auto simp: recent_def prune_def)

lemma recent_length: "length (recent cutoff stamps) \<le> length (prune cutoff stamps)"
  using recent_prune [of cutoff cutoff stamps] by (metis length_filter_le order_refl recent_def)

lemma recent_append: "recent c (xs @ ys) = recent c xs @ recent c ys"
  by (simp add: recent_def)

lemma recent_recent: "c \<le> d \<Longrightarrow> recent d (recent c xs) = recent d xs"
  by (induction xs) (auto simp: recent_def)

lemma recent_later: "recent c xs = recent c ys \<Longrightarrow> c \<le> d \<Longrightarrow> recent d xs = recent d ys"
  by (metis recent_recent)

text \<open>How many stamps are in the half-open interval of the given length up to \<open>t\<close>.\<close>

definition in_window :: "int \<Rightarrow> int \<Rightarrow> int list \<Rightarrow> nat" where
  "in_window w t stamps = length (filter (\<lambda>x. t - w < x \<and> x \<le> t) stamps)"

text \<open>A run of events: the state reached, and when events were admitted.\<close>

fun admissions :: "('s \<Rightarrow> 'e \<Rightarrow> int option \<times> 's) \<Rightarrow> 's \<times> int list \<Rightarrow> 'e list \<Rightarrow> 's \<times> int list" where
  "admissions step (s, adm) [] = (s, adm)"
| "admissions step (s, adm) (e # es) =
     (case step s e of
        (None, s') \<Rightarrow> admissions step (s', adm) es
      | (Some t, s') \<Rightarrow> admissions step (s', adm @ [t]) es)"

locale sliding_window =
  fixes step :: "'s \<Rightarrow> 'e \<Rightarrow> int option \<times> 's"
    and time :: "'e \<Rightarrow> int"
    and fair :: "'e \<Rightarrow> bool"
    and window :: "'s \<Rightarrow> int list"
    and ok :: "int \<Rightarrow> 's \<Rightarrow> bool"
    and w :: int
    and cap :: nat
  assumes keeps_ok: "ok now s \<Longrightarrow> now \<le> time e \<Longrightarrow> fair e \<Longrightarrow> step s e = (adm, s') \<Longrightarrow> ok (time e) s'"
    and not_admitted: "ok now s \<Longrightarrow> now \<le> time e \<Longrightarrow> fair e \<Longrightarrow> step s e = (None, s') \<Longrightarrow>
      recent (time e - w) (window s') = recent (time e - w) (window s)"
    and admitted: "ok now s \<Longrightarrow> now \<le> time e \<Longrightarrow> fair e \<Longrightarrow> step s e = (Some t, s') \<Longrightarrow>
      t = time e \<and> length (recent (t - w) (window s)) < cap
      \<and> recent (t - w) (window s') = recent (t - w) (window s) @ [t]"
    and w_pos: "0 < w"
begin

definition fits :: "int \<Rightarrow> 's \<Rightarrow> int list \<Rightarrow> bool" where
  "fits now s adm \<longleftrightarrow>
     ok now s \<and> (\<forall>x\<in>set adm. x \<le> now) \<and> recent (now - w) adm = recent (now - w) (window s)
     \<and> (\<forall>t. in_window w t adm \<le> cap)"

lemma in_window_snoc:
  assumes "\<forall>x\<in>set adm. x \<le> now" "length (recent (now - w) adm) < cap" "in_window w t adm \<le> cap"
  shows "in_window w t (adm @ [now]) \<le> cap"
proof (cases "t - w < now \<and> now \<le> t")
  case True
  have "filter (\<lambda>x. t - w < x \<and> x \<le> t) adm = filter (\<lambda>x. t - w < x \<and> x \<le> t) (recent (now - w) adm)"
    unfolding recent_def filter_filter using True by (intro filter_cong refl) auto
  then have "in_window w t adm \<le> length (recent (now - w) adm)"
    unfolding in_window_def by (metis length_filter_le)
  then show ?thesis using True assms(2) by (simp add: in_window_def)
next
  case False
  then show ?thesis using assms(3) by (auto simp: in_window_def)
qed

lemma step_fits:
  assumes "fits now s adm" "now \<le> time e" "fair e"
  shows "case step s e of (None, s') \<Rightarrow> fits (time e) s' adm | (Some t, s') \<Rightarrow> fits (time e) s' (adm @ [t])"
proof -
  obtain a s' where st: "step s e = (a, s')" by force
  have s: "ok now s" "\<forall>x\<in>set adm. x \<le> now" "\<forall>t. in_window w t adm \<le> cap"
    "recent (now - w) adm = recent (now - w) (window s)" using assms(1) by (simp_all add: fits_def)
  have ok: "ok (time e) s'" using keeps_ok [OF s(1) assms(2,3) st] .
  have before: "\<forall>x\<in>set adm. x \<le> time e" using s(2) assms(2) by auto
  have same: "recent (time e - w) adm = recent (time e - w) (window s)"
    using recent_later [OF s(4)] assms(2) by simp
  show ?thesis
  proof (cases a)
    case None
    then show ?thesis
      using not_admitted [OF s(1) assms(2,3) st [unfolded None]] ok before same s(3) by (simp add: fits_def st)
  next
    case (Some t)
    have a: "t = time e" "length (recent (t - w) (window s)) < cap"
      "recent (t - w) (window s') = recent (t - w) (window s) @ [t]"
      using admitted [OF s(1) assms(2,3) st [unfolded Some]] by auto
    have "recent (t - w) (adm @ [t]) = recent (t - w) (window s')"
      using same a w_pos by (simp add: recent_append) (simp add: recent_def)
    moreover have "in_window w u (adm @ [t]) \<le> cap" for u
      using in_window_snoc [OF before] same a s(3) by simp
    ultimately show ?thesis using ok before a(1) by (auto simp: fits_def st Some)
  qed
qed

lemma run_fits:
  assumes "fits now s adm" "sorted (now # map time es)" "\<forall>e\<in>set es. fair e"
  shows "\<exists>later. fits later (fst (admissions step (s, adm) es)) (snd (admissions step (s, adm) es))"
  using assms
proof (induction es arbitrary: now s adm)
  case Nil
  then show ?case by auto
next
  case (Cons e es)
  have "now \<le> time e" "fair e" using Cons.prems(2,3) by simp_all
  from step_fits [OF Cons.prems(1) this] Cons.IH [of "time e"] Cons.prems(2,3) show ?case
    by (auto split: prod.splits option.splits)
qed

text \<open>Under the laws, no interval of the length of the window has more than \<open>cap\<close> admissions.\<close>

lemma rate_respected:
  assumes "ok now s" "window s = []" "sorted (now # map time es)" "\<forall>e\<in>set es. fair e"
  shows "in_window w t (snd (admissions step (s, []) es)) \<le> cap"
proof -
  have "fits now s []" using assms(1,2) by (simp add: fits_def recent_def in_window_def)
  from run_fits [OF this assms(3,4)] show ?thesis by (auto simp: fits_def)
qed

end

end
