(* ===== verification/PerKeyRateLimit.thy ===== *)
theory PerKeyRateLimit
  imports Windows
begin

text \<open>
  \<open>argentor-gateway/src/rate_limit_per_key.rs\<close>: per API key, a window of a minute and one of an hour
  over the requests, and a quota of tokens per day. The public methods read the clock and call the
  \<open>_at\<close> methods, which are modelled. A time is in nanoseconds, a day starts at a multiple of a day.
\<close>

record RateLimitConfig =
  requests_per_minute :: u32
  requests_per_hour :: u32
  tokens_per_day :: u64

definition default_rate_limit_config :: RateLimitConfig where
  "default_rate_limit_config = \<lparr>requests_per_minute = 60, requests_per_hour = 1000, tokens_per_day = 1000000\<rparr>"

datatype DenyReason = MinuteRateExceeded | HourRateExceeded | DailyTokenQuotaExceeded

fun show_deny_reason :: "DenyReason \<Rightarrow> string" where
  "show_deny_reason MinuteRateExceeded = ''requests per minute limit exceeded''"
| "show_deny_reason HourRateExceeded = ''requests per hour limit exceeded''"
| "show_deny_reason DailyTokenQuotaExceeded = ''daily token quota exceeded''"

datatype RateLimitResult = Allow | Deny DenyReason nat

record KeyUsageStats =
  requests_this_minute :: u32
  requests_this_hour :: u32
  tokens_today :: u64
  usage_config :: RateLimitConfig

section \<open>The window\<close>

record SlidingWindow =
  timestamps :: "int list"
  window_seconds :: int

definition window_new :: "int \<Rightarrow> SlidingWindow" where
  "window_new n = \<lparr>timestamps = [], window_seconds = n\<rparr>"

definition window_count :: "SlidingWindow \<Rightarrow> int \<Rightarrow> u32 \<times> SlidingWindow" where
  "window_count win now =
     (let win = win\<lparr>timestamps := prune (now - secs (window_seconds win)) (timestamps win)\<rparr>
      in (of_nat (length (timestamps win)), win))"

definition window_record :: "SlidingWindow \<Rightarrow> int \<Rightarrow> SlidingWindow" where
  "window_record win now = win\<lparr>timestamps := timestamps win @ [now]\<rparr>"

text \<open>\<open>num_seconds\<close> rounds towards zero.\<close>

definition num_seconds :: "int \<Rightarrow> int" where
  "num_seconds d = sgn d * (\<bar>d\<bar> div secs 1)"

definition seconds_until_slot :: "SlidingWindow \<Rightarrow> int \<Rightarrow> nat" where
  "seconds_until_slot win now =
     (case timestamps win of
        [] \<Rightarrow> 0
      | front # _ \<Rightarrow>
          let expires_at = front + secs (window_seconds win)
          in if now < expires_at then nat (max (num_seconds (expires_at - now)) 1) else 1)"

definition is_idle :: "SlidingWindow \<Rightarrow> int \<Rightarrow> bool" where
  "is_idle win now \<longleftrightarrow>
     (if timestamps win = [] then True else window_seconds win \<le> num_seconds (now - last (timestamps win)))"

section \<open>Keys\<close>

record KeyState =
  minute_window :: SlidingWindow
  hour_window :: SlidingWindow
  daily_tokens :: u64
  daily_reset :: int

definition next_day_start :: "int \<Rightarrow> int" where
  "next_day_start now = (now div secs 86400 + 1) * secs 86400"

definition key_state_new :: "int \<Rightarrow> KeyState" where
  "key_state_new now =
     \<lparr>minute_window = window_new 60, hour_window = window_new 3600, daily_tokens = 0, daily_reset = next_day_start now\<rparr>"

definition key_maybe_reset_daily :: "KeyState \<Rightarrow> int \<Rightarrow> KeyState" where
  "key_maybe_reset_daily st now =
     (if daily_reset st \<le> now then st\<lparr>daily_tokens := 0, daily_reset := next_day_start now\<rparr> else st)"

record PerKeyRateLimiter =
  limiters :: "string \<rightharpoonup> KeyState"
  default_config :: RateLimitConfig
  custom_configs :: "string \<rightharpoonup> RateLimitConfig"

definition limiter_new :: "RateLimitConfig \<Rightarrow> PerKeyRateLimiter" where
  "limiter_new cfg = \<lparr>limiters = Map.empty, default_config = cfg, custom_configs = Map.empty\<rparr>"

definition with_custom_limit :: "PerKeyRateLimiter \<Rightarrow> string \<Rightarrow> RateLimitConfig \<Rightarrow> PerKeyRateLimiter" where
  "with_custom_limit lim key cfg = lim\<lparr>custom_configs := (custom_configs lim)(key \<mapsto> cfg)\<rparr>"

definition config_for :: "PerKeyRateLimiter \<Rightarrow> string \<Rightarrow> RateLimitConfig" where
  "config_for lim key = (case custom_configs lim key of Some c \<Rightarrow> c | None \<Rightarrow> default_config lim)"

definition key_entry :: "PerKeyRateLimiter \<Rightarrow> string \<Rightarrow> int \<Rightarrow> KeyState" where
  "key_entry lim key now = (case limiters lim key of Some st \<Rightarrow> st | None \<Rightarrow> key_state_new now)"

definition put_key :: "PerKeyRateLimiter \<Rightarrow> string \<Rightarrow> KeyState \<Rightarrow> PerKeyRateLimiter" where
  "put_key lim key st = lim\<lparr>limiters := (limiters lim)(key \<mapsto> st)\<rparr>"

definition check_at :: "PerKeyRateLimiter \<Rightarrow> string \<Rightarrow> int \<Rightarrow> RateLimitResult \<times> PerKeyRateLimiter" where
  "check_at lim key now =
     (let config = config_for lim key;
          st = key_maybe_reset_daily (key_entry lim key now) now;
          (minute_count, minute) = window_count (minute_window st) now;
          st = st\<lparr>minute_window := minute\<rparr>
      in if requests_per_minute config \<le> minute_count
         then (Deny MinuteRateExceeded (seconds_until_slot minute now), put_key lim key st)
         else
           let (hour_count, hour) = window_count (hour_window st) now;
               st = st\<lparr>hour_window := hour\<rparr>
           in if requests_per_hour config \<le> hour_count
              then (Deny HourRateExceeded (seconds_until_slot hour now), put_key lim key st)
              else if tokens_per_day config \<le> daily_tokens st
              then (Deny DailyTokenQuotaExceeded (nat (max (num_seconds (daily_reset st - now)) 1)), put_key lim key st)
              else (Allow, put_key lim key
                      (st\<lparr>minute_window := window_record minute now, hour_window := window_record hour now\<rparr>)))"

definition record_usage_at :: "PerKeyRateLimiter \<Rightarrow> string \<Rightarrow> u64 \<Rightarrow> int \<Rightarrow> PerKeyRateLimiter" where
  "record_usage_at lim key tokens now =
     (let st = key_maybe_reset_daily (key_entry lim key now) now
      in put_key lim key (st\<lparr>daily_tokens := saturating_add (daily_tokens st) tokens\<rparr>))"

definition stats_at :: "PerKeyRateLimiter \<Rightarrow> string \<Rightarrow> int \<Rightarrow> KeyUsageStats option \<times> PerKeyRateLimiter" where
  "stats_at lim key now =
     (case limiters lim key of
        None \<Rightarrow> (None, lim)
      | Some st \<Rightarrow>
          let st = key_maybe_reset_daily st now;
              (minute_count, minute) = window_count (minute_window st) now;
              (hour_count, hour) = window_count (hour_window st) now
          in (Some \<lparr>requests_this_minute = minute_count, requests_this_hour = hour_count,
                    tokens_today = daily_tokens st, usage_config = config_for lim key\<rparr>,
              put_key lim key (st\<lparr>minute_window := minute, hour_window := hour\<rparr>)))"

definition cleanup_at :: "PerKeyRateLimiter \<Rightarrow> int \<Rightarrow> PerKeyRateLimiter" where
  "cleanup_at lim now =
     lim\<lparr>limiters := (\<lambda>key. case limiters lim key of
           None \<Rightarrow> None
         | Some st \<Rightarrow>
             if \<not> is_idle (minute_window st) now \<or> \<not> is_idle (hour_window st) now then Some st else None)\<rparr>"

section \<open>Runs\<close>

text \<open>Calls for any keys; the answer is when a request of \<open>key\<close> was let through.\<close>

datatype LimiterCall =
    Check string int
  | RecordUsage string u64 int
  | Stats string int
  | Cleanup int

fun call_time :: "LimiterCall \<Rightarrow> int" where
  "call_time (Check k now) = now"
| "call_time (RecordUsage k n now) = now"
| "call_time (Stats k now) = now"
| "call_time (Cleanup now) = now"

fun limiter_step :: "string \<Rightarrow> PerKeyRateLimiter \<Rightarrow> LimiterCall \<Rightarrow> int option \<times> PerKeyRateLimiter" where
  "limiter_step key lim (Check k now) =
     (let (r, lim) = check_at lim k now in (if k = key \<and> r = Allow then Some now else None, lim))"
| "limiter_step key lim (RecordUsage k n now) = (None, record_usage_at lim k n now)"
| "limiter_step key lim (Stats k now) = (None, snd (stats_at lim k now))"
| "limiter_step key lim (Cleanup now) = (None, cleanup_at lim now)"

section \<open>The rates\<close>

definition stamps_ok :: "int \<Rightarrow> int \<Rightarrow> nat \<Rightarrow> SlidingWindow \<Rightarrow> bool" where
  "stamps_ok now n cap win \<longleftrightarrow>
     window_seconds win = n \<and> sorted (timestamps win) \<and> (\<forall>t\<in>set (timestamps win). t \<le> now)
     \<and> length (timestamps win) \<le> cap"

definition limiter_ok :: "RateLimitConfig \<Rightarrow> string \<Rightarrow> int \<Rightarrow> PerKeyRateLimiter \<Rightarrow> bool" where
  "limiter_ok cfg key now lim \<longleftrightarrow>
     config_for lim key = cfg
     \<and> (\<forall>st. limiters lim key = Some st \<longrightarrow>
          stamps_ok now 60 (unat (requests_per_minute cfg)) (minute_window st)
          \<and> stamps_ok now 3600 (unat (requests_per_hour cfg)) (hour_window st))"

definition stamps_of :: "(KeyState \<Rightarrow> SlidingWindow) \<Rightarrow> string \<Rightarrow> PerKeyRateLimiter \<Rightarrow> int list" where
  "stamps_of win key lim = (case limiters lim key of None \<Rightarrow> [] | Some st \<Rightarrow> timestamps (win st))"

lemma stamps_ok_later: "stamps_ok now n cap win \<Longrightarrow> now \<le> later \<Longrightarrow> stamps_ok later n cap win"
  by (force simp: stamps_ok_def)

lemma prune_subset: "set (prune c xs) \<subseteq> set xs"
  unfolding prune_def by (rule set_dropWhileD [THEN subsetI])

lemma prune_length: "length (prune c xs) \<le> length xs"
  by (simp add: prune_def length_dropWhile_le)

lemma prune_sorted: "sorted xs \<Longrightarrow> sorted (prune c xs)"
  by (simp add: prune_def sorted_dropWhile)

lemma window_count_ok:
  "stamps_ok now n cap win \<Longrightarrow> window_count win t = (c, win') \<Longrightarrow> stamps_ok now n cap win'"
  using prune_subset [of "t - secs n" "timestamps win"] prune_length [of "t - secs n" "timestamps win"]
  by (auto simp: stamps_ok_def window_count_def Let_def intro: prune_sorted)

lemma window_count_recent:
  assumes "window_count win now = (c, win')"
  shows "recent (now - secs (window_seconds win)) (timestamps win') = recent (now - secs (window_seconds win)) (timestamps win)"
    and "length (recent (now - secs (window_seconds win)) (timestamps win)) \<le> length (timestamps win')"
    and "window_seconds win' = window_seconds win" and "c = of_nat (length (timestamps win'))"
  using assms recent_length by (auto simp: window_count_def Let_def recent_prune)

lemma new_windows_ok: "stamps_ok now 60 cap (window_new 60) \<and> stamps_ok now 3600 cap (window_new 3600)"
  by (simp add: stamps_ok_def window_new_def)

text \<open>A counted window below its limit has room for the stamp of an admitted request.\<close>

lemma window_count_below:
  assumes "stamps_ok now n (unat (m :: u32)) win" "window_count win t = (c, win')"
  shows "m \<le> c \<longleftrightarrow> unat m \<le> length (timestamps win')"
proof -
  have "length (timestamps win') \<le> unat m" "c = of_nat (length (timestamps win'))"
    using window_count_ok [OF assms] window_count_recent(4) [OF assms(2)] by (simp_all add: stamps_ok_def)
  moreover have "unat m < 2 ^ 32" using unsigned_less [of m, where 'a = nat] by simp
  ultimately have "unat c = length (timestamps win')" by (simp add: unsigned_of_nat take_bit_nat_eq_self)
  then show ?thesis by (simp add: word_le_nat_alt)
qed

lemma window_record_ok:
  assumes "stamps_ok now n cap win" "length (timestamps win) < cap"
  shows "stamps_ok now n cap (window_record win now)"
  using assms by (auto simp: stamps_ok_def window_record_def sorted_append)

lemma window_record_recent:
  "0 < w \<Longrightarrow> recent (now - w) (timestamps (window_record win now)) = recent (now - w) (timestamps win) @ [now]"
  by (simp add: window_record_def recent_def)

text \<open>What a check does to one window: it counts, or counts and records below the limit.\<close>

definition turn :: "bool \<Rightarrow> int \<Rightarrow> int \<Rightarrow> nat \<Rightarrow> int list \<Rightarrow> SlidingWindow \<Rightarrow> bool" where
  "turn allowed now n cap before win \<longleftrightarrow>
     stamps_ok now n cap win
     \<and> (if allowed then length (recent (now - secs n) before) < cap
             \<and> recent (now - secs n) (timestamps win) = recent (now - secs n) before @ [now]
        else recent (now - secs n) (timestamps win) = recent (now - secs n) before)"

lemma turn_same: "stamps_ok now n cap win \<Longrightarrow> turn False now n cap (timestamps win) win"
  by (simp add: turn_def)

lemma turn_count:
  "stamps_ok now n cap win \<Longrightarrow> window_count win now = (c, win') \<Longrightarrow> turn False now n cap (timestamps win) win'"
  using window_count_ok [of now n cap win now c win'] window_count_recent(1) [of win now c win']
  by (simp add: turn_def stamps_ok_def)

lemma turn_record:
  assumes "stamps_ok now n (unat (m :: u32)) win" "window_count win now = (c, win')" "\<not> m \<le> c" "0 < n"
  shows "turn True now n (unat m) (timestamps win) (window_record win' now)"
proof -
  have room: "length (timestamps win') < unat m"
    using window_count_below [OF assms(1,2)] assms(3) by simp
  have n: "window_seconds win = n" using assms(1) by (simp add: stamps_ok_def)
  have "0 < secs n" using assms(4) by (simp add: secs_def)
  then show ?thesis
    using window_record_ok [OF window_count_ok [OF assms(1,2)] room] window_record_recent
      window_count_recent(1,2) [OF assms(2)] room n
    by (simp add: turn_def)
qed

lemma key_entry_ok:
  fixes t :: int
  assumes "limiter_ok cfg key before lim" "before \<le> now"
  defines "st \<equiv> key_maybe_reset_daily (key_entry lim key t) t"
  shows "stamps_ok now 60 (unat (requests_per_minute cfg)) (minute_window st)"
    and "stamps_ok now 3600 (unat (requests_per_hour cfg)) (hour_window st)"
    and "timestamps (minute_window st) = stamps_of minute_window key lim"
    and "timestamps (hour_window st) = stamps_of hour_window key lim"
  using assms(1) stamps_ok_later [OF _ assms(2)] new_windows_ok
  by (auto simp: st_def limiter_ok_def stamps_of_def key_entry_def key_maybe_reset_daily_def key_state_new_def
      stamps_ok_def window_new_def split: option.splits)

lemma config_for_put_key [simp]: "config_for (put_key lim k st) key = config_for lim key"
  by (simp add: config_for_def put_key_def split: option.split)

lemma limiters_put_key [simp]: "limiters (put_key lim k st) = (limiters lim)(k \<mapsto> st)"
  by (simp add: put_key_def)

lemma put_key_turn:
  assumes "limiter_ok cfg key before lim"
    "turn a now 60 (unat (requests_per_minute cfg)) (stamps_of minute_window key lim) (minute_window st)"
    "turn a now 3600 (unat (requests_per_hour cfg)) (stamps_of hour_window key lim) (hour_window st)"
    "lim' = put_key lim key st"
  shows "limiter_ok cfg key now lim'
    \<and> turn a now 60 (unat (requests_per_minute cfg)) (stamps_of minute_window key lim) (minute_window (the (limiters lim' key)))
    \<and> turn a now 3600 (unat (requests_per_hour cfg)) (stamps_of hour_window key lim) (hour_window (the (limiters lim' key)))
    \<and> stamps_of minute_window key lim' = timestamps (minute_window (the (limiters lim' key)))
    \<and> stamps_of hour_window key lim' = timestamps (hour_window (the (limiters lim' key)))"
  using assms(2,3) assms(1) unfolding assms(4) by (simp add: limiter_ok_def turn_def stamps_of_def)

text \<open>A step for the key or for another one, on the stamps of the key.\<close>

definition key_turn :: "RateLimitConfig \<Rightarrow> string \<Rightarrow> int option \<Rightarrow> int \<Rightarrow> PerKeyRateLimiter \<Rightarrow> PerKeyRateLimiter \<Rightarrow> bool" where
  "key_turn cfg key adm now lim lim' \<longleftrightarrow>
     limiter_ok cfg key now lim' \<and> (adm = None \<or> adm = Some now)
     \<and> (\<forall>(win, n, cap) \<in> {(minute_window, 60, unat (requests_per_minute cfg)), (hour_window, 3600, unat (requests_per_hour cfg))}.
          if adm = None
          then recent (now - secs n) (stamps_of win key lim') = recent (now - secs n) (stamps_of win key lim)
          else length (recent (now - secs n) (stamps_of win key lim)) < cap
            \<and> recent (now - secs n) (stamps_of win key lim') = recent (now - secs n) (stamps_of win key lim) @ [now])"

lemma put_key_key_turn:
  assumes "limiter_ok cfg key before lim"
    "turn (adm \<noteq> None) now 60 (unat (requests_per_minute cfg)) (stamps_of minute_window key lim) (minute_window st)"
    "turn (adm \<noteq> None) now 3600 (unat (requests_per_hour cfg)) (stamps_of hour_window key lim) (hour_window st)"
    "adm = None \<or> adm = Some now"
  shows "key_turn cfg key adm now lim (put_key lim key st)"
  using put_key_turn [OF assms(1-3) refl] assms(4) by (auto simp: key_turn_def turn_def)

lemma same_key_turn:
  assumes "limiter_ok cfg key before lim" "before \<le> now"
    "limiters lim' key = limiters lim key" "config_for lim' key = config_for lim key"
  shows "key_turn cfg key None now lim lim'"
  using assms stamps_ok_later [OF _ assms(2)] by (auto simp: key_turn_def limiter_ok_def stamps_of_def)

lemma check_key_turn:
  assumes "limiter_ok cfg key before lim" "before \<le> now" "check_at lim key now = (r, lim')"
  shows "key_turn cfg key (if r = Allow then Some now else None) now lim lim'"
proof -
  let ?st = "key_maybe_reset_daily (key_entry lim key now) now"
  note ok = key_entry_ok [OF assms(1,2), of now]
  have cfg: "config_for lim key = cfg" using assms(1) by (simp add: limiter_ok_def)
  obtain c m where m: "window_count (minute_window ?st) now = (c, m)" by force
  obtain d h where h: "window_count (hour_window ?st) now = (d, h)" by force
  note mt = turn_count [OF ok(1) m, unfolded ok(3)] and ht = turn_count [OF ok(2) h, unfolded ok(4)]
    and hs = turn_same [OF ok(2), unfolded ok(4)]
  note answer = assms(3) [unfolded check_at_def cfg Let_def m prod.case]
  show ?thesis
  proof (cases "requests_per_minute cfg \<le> c")
    case True
    show ?thesis using answer True mt hs
      by (auto intro!: put_key_key_turn [OF assms(1)])
  next
    case False
    note mr = turn_record [OF ok(1) m False, unfolded ok(3)]
    show ?thesis
    proof (cases "requests_per_hour cfg \<le> d")
      case True
      show ?thesis using answer False True mt ht by (auto simp: h intro!: put_key_key_turn [OF assms(1)])
    next
      case low: False
      note hr = turn_record [OF ok(2) h low, unfolded ok(4)]
      show ?thesis using answer False low mt ht mr hr
        by (auto simp: h split: if_splits intro!: put_key_key_turn [OF assms(1)])
    qed
  qed
qed

text \<open>A key is only forgotten when none of its stamps is in a window.\<close>

lemma idle_recent:
  assumes "stamps_ok now n cap win" "is_idle win now" "0 < n"
  shows "recent (now - secs n) (timestamps win) = []"
proof (cases "timestamps win = []")
  case True
  then show ?thesis by (simp add: recent_def)
next
  case False
  have late: "last (timestamps win) \<le> now" and n: "n \<le> num_seconds (now - last (timestamps win))"
    using assms(1,2) False by (auto simp: stamps_ok_def is_idle_def)
  have "num_seconds (now - last (timestamps win)) \<le> (now - last (timestamps win)) div secs 1"
    using late by (cases "now = last (timestamps win)") (simp_all add: num_seconds_def)
  then have gap: "secs n \<le> now - last (timestamps win)" using n by (simp add: secs_def)
  have "t \<le> last (timestamps win)" if "t \<in> set (timestamps win)" for t
    using that assms(1) sorted_append [of "butlast (timestamps win)" "[last (timestamps win)]"] False
    by (metis append_butlast_last_id in_set_conv_decomp last_in_set list.set_intros(1) order_refl
        rotate1.simps(2) set_ConsD set_rotate1 stamps_ok_def)
  then show ?thesis using gap by (fastforce simp: recent_def filter_empty_conv)
qed

lemma cleanup_key_turn:
  assumes "limiter_ok cfg key before lim" "before \<le> now"
  shows "key_turn cfg key None now lim (cleanup_at lim now)"
proof (cases "limiters (cleanup_at lim now) key = limiters lim key")
  case True
  then show ?thesis using same_key_turn [OF assms True] by (simp add: cleanup_at_def config_for_def split: option.split)
next
  case False
  then obtain st where st: "limiters lim key = Some st" and idle: "is_idle (minute_window st) now" "is_idle (hour_window st) now"
    and gone: "limiters (cleanup_at lim now) key = None"
    by (auto simp: cleanup_at_def split: option.splits if_splits)
  have ok: "stamps_ok now 60 (unat (requests_per_minute cfg)) (minute_window st)"
    "stamps_ok now 3600 (unat (requests_per_hour cfg)) (hour_window st)" and cfg: "config_for lim key = cfg"
    using assms st stamps_ok_later [OF _ assms(2)] by (auto simp: limiter_ok_def)
  have "config_for (cleanup_at lim now) key = cfg"
    using cfg by (simp add: cleanup_at_def config_for_def split: option.splits)
  then show ?thesis
    using gone st idle_recent [OF ok(1) idle(1)] idle_recent [OF ok(2) idle(2)]
    by (simp add: key_turn_def limiter_ok_def stamps_of_def recent_def)
qed

lemma record_key_turn:
  assumes "limiter_ok cfg key before lim" "before \<le> now"
  shows "key_turn cfg key None now lim (record_usage_at lim key tokens now)"
  using key_entry_ok [OF assms, of now]
  unfolding record_usage_at_def Let_def
  by (intro put_key_key_turn [OF assms(1)]) (simp_all add: turn_def)

lemma stats_key_turn:
  assumes "limiter_ok cfg key before lim" "before \<le> now"
  shows "key_turn cfg key None now lim (snd (stats_at lim key now))"
proof (cases "limiters lim key")
  case None
  then show ?thesis using same_key_turn [OF assms refl refl] by (simp add: stats_at_def)
next
  case (Some entry)
  let ?st = "key_maybe_reset_daily (key_entry lim key now) now"
  note ok = key_entry_ok [OF assms, of now]
  obtain c m where m: "window_count (minute_window ?st) now = (c, m)" by force
  obtain d h where h: "window_count (hour_window ?st) now = (d, h)" by force
  have "snd (stats_at lim key now) = put_key lim key (?st\<lparr>minute_window := m, hour_window := h\<rparr>)"
    using m h by (simp add: stats_at_def Some key_entry_def Let_def)
  then show ?thesis
    using turn_count [OF ok(1) m, unfolded ok(3)] turn_count [OF ok(2) h, unfolded ok(4)]
    by (auto intro!: put_key_key_turn [OF assms(1)])
qed

lemma other_key_same:
  assumes "k \<noteq> key"
  shows "limiters (snd (check_at lim k now)) key = limiters lim key"
    and "config_for (snd (check_at lim k now)) key = config_for lim key"
    and "limiters (record_usage_at lim k n now) key = limiters lim key"
    and "config_for (record_usage_at lim k n now) key = config_for lim key"
    and "limiters (snd (stats_at lim k now)) key = limiters lim key"
    and "config_for (snd (stats_at lim k now)) key = config_for lim key"
  using assms
  by (auto simp: check_at_def record_usage_at_def stats_at_def Let_def split: prod.splits option.splits)

lemma limiter_step_turn:
  assumes "limiter_ok cfg key before lim" "before \<le> call_time call" "limiter_step key lim call = (adm, lim')"
  shows "key_turn cfg key adm (call_time call) lim lim'"
proof (cases call)
  case (Check k now)
  show ?thesis
  proof (cases "k = key")
    case True
    then show ?thesis
      using assms(3) check_key_turn [OF assms(1), of now] assms(2) Check by (auto split: prod.splits)
  next
    case False
    then have "adm = None" "lim' = snd (check_at lim k now)" using assms(3) Check by (auto split: prod.splits)
    then show ?thesis using same_key_turn [OF assms(1,2)] other_key_same(1,2) [OF False] by simp
  qed
next
  case (RecordUsage k n now)
  show ?thesis
  proof (cases "k = key")
    case True
    then show ?thesis using assms(3) record_key_turn [OF assms(1), of now] assms(2) RecordUsage by auto
  next
    case False
    then show ?thesis using same_key_turn [OF assms(1,2)] other_key_same(3,4) [OF False] assms(3) RecordUsage by auto
  qed
next
  case (Stats k now)
  show ?thesis
  proof (cases "k = key")
    case True
    then show ?thesis using assms(3) stats_key_turn [OF assms(1), of now] assms(2) Stats by auto
  next
    case False
    then show ?thesis using same_key_turn [OF assms(1,2)] other_key_same(5,6) [OF False] assms(3) Stats by auto
  qed
next
  case (Cleanup now)
  then show ?thesis using assms(3) cleanup_key_turn [OF assms(1), of now] assms(2) by auto
qed

interpretation minute: sliding_window "limiter_step key" call_time "\<lambda>_. True" "stamps_of minute_window key" "limiter_ok cfg key"
  "secs 60" "unat (requests_per_minute cfg)" for key cfg
proof (unfold_locales, goal_cases)
  case (1 now lim call adm lim')
  then show ?case using limiter_step_turn [of cfg key now lim call adm lim'] by (simp add: key_turn_def)
next
  case (2 now lim call lim')
  then show ?case using limiter_step_turn [of cfg key now lim call None lim'] by (simp add: key_turn_def)
next
  case (3 now lim call t lim')
  then show ?case using limiter_step_turn [of cfg key now lim call "Some t" lim'] by (auto simp: key_turn_def)
qed (simp add: secs_def)

interpretation hour: sliding_window "limiter_step key" call_time "\<lambda>_. True" "stamps_of hour_window key" "limiter_ok cfg key"
  "secs 3600" "unat (requests_per_hour cfg)" for key cfg
proof (unfold_locales, goal_cases)
  case (1 now lim call adm lim')
  then show ?case using limiter_step_turn [of cfg key now lim call adm lim'] by (simp add: key_turn_def)
next
  case (2 now lim call lim')
  then show ?case using limiter_step_turn [of cfg key now lim call None lim'] by (simp add: key_turn_def)
next
  case (3 now lim call t lim')
  then show ?case using limiter_step_turn [of cfg key now lim call "Some t" lim'] by (auto simp: key_turn_def)
qed (simp add: secs_def)

lemma new_limiter_ok:
  "limiters lim = Map.empty \<Longrightarrow> limiter_ok (config_for lim key) key now lim
    \<and> stamps_of minute_window key lim = [] \<and> stamps_of hour_window key lim = []"
  by (simp add: limiter_ok_def stamps_of_def)

text \<open>C10: whatever calls are made for whatever keys in the order of time, no interval of a minute has
  more admitted requests of a key than its limit per minute, and no interval of an hour more than its
  limit per hour; forgetting idle keys does not change that.\<close>

theorem rates_respected:
  assumes "limiters lim = Map.empty" "sorted (map call_time calls)"
  shows "in_window (secs 60) t (snd (admissions (limiter_step key) (lim, []) calls))
      \<le> unat (requests_per_minute (config_for lim key))
    \<and> in_window (secs 3600) t (snd (admissions (limiter_step key) (lim, []) calls))
      \<le> unat (requests_per_hour (config_for lim key))"
proof -
  obtain now where "sorted (now # map call_time calls)"
    using assms(2) by (cases "map call_time calls") (force intro: that)+
  then show ?thesis
    using new_limiter_ok [OF assms(1)] minute.rate_respected hour.rate_respected by blast
qed

definition two_a_minute :: PerKeyRateLimiter where
  "two_a_minute = with_custom_limit (limiter_new default_rate_limit_config) ''k''
     \<lparr>requests_per_minute = 2, requests_per_hour = 3, tokens_per_day = 10\<rparr>"

definition limiter_calls :: "LimiterCall list" where
  "limiter_calls = [Check ''k'' 0, Check ''k'' (secs 30), Check ''k'' (secs 59), Check ''j'' (secs 59),
     Check ''k'' (secs 61), Check ''k'' (secs 125)]"

lemma limiter_run:
  "snd (admissions (limiter_step ''k'') (two_a_minute, []) limiter_calls) = [0, secs 30, secs 61]"
  by (simp add: Let_def word_le_nat_alt limiter_calls_def two_a_minute_def check_at_def limiter_new_def with_custom_limit_def
      config_for_def key_entry_def key_state_new_def key_maybe_reset_daily_def next_day_start_def window_count_def
      window_new_def window_record_def put_key_def prune_def secs_def default_rate_limit_config_def)

theorem rates_respected_witness:
  "in_window (secs 60) (secs 61) (snd (admissions (limiter_step ''k'') (two_a_minute, []) limiter_calls)) \<le> 2
    \<and> in_window (secs 3600) (secs 61) (snd (admissions (limiter_step ''k'') (two_a_minute, []) limiter_calls)) \<le> 3
    \<and> snd (admissions (limiter_step ''k'') (two_a_minute, []) limiter_calls) = [0, secs 30, secs 61]"
proof -
  have "limiters two_a_minute = Map.empty" by (simp add: two_a_minute_def limiter_new_def with_custom_limit_def)
  moreover have "sorted (map call_time limiter_calls)" by (simp add: limiter_calls_def secs_def)
  moreover have "config_for two_a_minute ''k'' = \<lparr>requests_per_minute = 2, requests_per_hour = 3, tokens_per_day = 10\<rparr>"
    by (simp add: two_a_minute_def with_custom_limit_def config_for_def)
  ultimately show ?thesis
    using rates_respected [of two_a_minute limiter_calls "secs 61" "''k''"] limiter_run by simp
qed

section \<open>The daily quota\<close>

text \<open>The tokens of the day of a key, and that the quota refuses a key that used them.\<close>

definition tokens_used :: "PerKeyRateLimiter \<Rightarrow> string \<Rightarrow> int \<Rightarrow> u64" where
  "tokens_used lim key now = daily_tokens (key_maybe_reset_daily (key_entry lim key now) now)"

text \<open>A key whose tokens of the day reach its quota is let through by no check.\<close>

lemma quota_refuses:
  assumes "tokens_per_day (config_for lim key) \<le> tokens_used lim key now"
  shows "fst (check_at lim key now) \<noteq> Allow"
  using assms by (simp add: check_at_def tokens_used_def Let_def split: prod.splits)

text \<open>Forgetting an idle key forgets its tokens of the day: the quota is used up, the key is refused,
  and an hour later, still on the same day, it is let through.\<close>

definition used_up :: PerKeyRateLimiter where
  "used_up = record_usage_at (snd (check_at two_a_minute ''k'' 0)) ''k'' 10 0"

lemma cleanup_forgets_quota:
  "fst (check_at used_up ''k'' (secs 3600)) = Deny DailyTokenQuotaExceeded 82800
    \<and> fst (check_at (cleanup_at used_up (secs 3600)) ''k'' (secs 3600)) = Allow"
  by (simp add: Let_def word_le_nat_alt saturating_add_def used_up_def two_a_minute_def check_at_def limiter_new_def with_custom_limit_def record_usage_at_def
      config_for_def key_entry_def key_state_new_def key_maybe_reset_daily_def next_day_start_def window_count_def
      window_new_def window_record_def put_key_def prune_def secs_def default_rate_limit_config_def
      cleanup_at_def is_idle_def num_seconds_def)

end
