(* ===== verification/Float64.thy ===== *)
theory Float64
  imports RustStd Complex_Main "HOL-Library.Log_Nat"
begin

text \<open>
  The type \<open>f64\<close> of Rust: IEEE 754 binary64 with rounding to nearest, ties to even. A finite number is
  its sign and its magnitude, a rational; the operations round the exact result. What is modelled is
  what the crates use: the four operations, the comparisons, \<open>max\<close>, \<open>min\<close>, \<open>ceil\<close> and the casts
  from and to integers. The NaNs are one value.
\<close>

datatype f64 = Finite bool rat | Infinite bool | NaN

section \<open>Rounding\<close>

abbreviation pow2 :: "int \<Rightarrow> rat" where
  "pow2 k \<equiv> 2 powi k"

text \<open>The exponent of the leading bit of a positive magnitude.\<close>

definition exponent :: "rat \<Rightarrow> int" where
  "exponent q =
     (let (n, d) = quotient_of q; k = bitlen n - bitlen d
      in if pow2 k \<le> q then k else k - 1)"

text \<open>The distance of the numbers around a magnitude: 53 bits, the subnormal ones at the bottom.\<close>

definition ulp :: "rat \<Rightarrow> rat" where
  "ulp q = pow2 (max (exponent q - 52) (- 1074))"

definition half_even :: "rat \<Rightarrow> int" where
  "half_even q =
     (let f = \<lfloor>q\<rfloor>; r = q - of_int f
      in if r < 1 / 2 then f else if 1 / 2 < r then f + 1 else if even f then f else f + 1)"

definition round_mag :: "rat \<Rightarrow> rat" where
  "round_mag q = (if q \<le> 0 then 0 else of_int (half_even (q / ulp q)) * ulp q)"

text \<open>The number of a sign and an exact magnitude.\<close>

definition pack :: "bool \<Rightarrow> rat \<Rightarrow> f64" where
  "pack s q = (if pow2 1024 \<le> round_mag q then Infinite s else Finite s (round_mag q))"

text \<open>A literal that is not negative.\<close>

definition lit :: "rat \<Rightarrow> f64" where
  "lit q = pack False q"

section \<open>Operations\<close>

definition signed_of :: "bool \<Rightarrow> rat \<Rightarrow> rat" where
  "signed_of s q = (if s then - q else q)"

instantiation f64 :: "{plus,minus,uminus,times,inverse,zero,ord}"
begin

definition zero_f64 :: f64 where
  "0 = Finite False 0"

fun uminus_f64 :: "f64 \<Rightarrow> f64" where
  "- Finite s a = Finite (\<not> s) a"
| "- Infinite s = Infinite (\<not> s)"
| "- NaN = NaN"

fun plus_f64 :: "f64 \<Rightarrow> f64 \<Rightarrow> f64" where
  "Finite s a + Finite t b =
     (let v = signed_of s a + signed_of t b
      in if v = 0 then Finite (s \<and> t) 0 else pack (v < 0) \<bar>v\<bar>)"
| "Finite s a + Infinite t = Infinite t"
| "Infinite s + Finite t b = Infinite s"
| "Infinite s + Infinite t = (if s = t then Infinite s else NaN)"
| "NaN + y = NaN"
| "x + NaN = NaN"

definition minus_f64 :: "f64 \<Rightarrow> f64 \<Rightarrow> f64" where
  "x - y = x + (- y)" for x y :: f64

fun times_f64 :: "f64 \<Rightarrow> f64 \<Rightarrow> f64" where
  "Finite s a * Finite t b = pack (s \<noteq> t) (a * b)"
| "Finite s a * Infinite t = (if a = 0 then NaN else Infinite (s \<noteq> t))"
| "Infinite s * Finite t b = (if b = 0 then NaN else Infinite (s \<noteq> t))"
| "Infinite s * Infinite t = Infinite (s \<noteq> t)"
| "NaN * y = NaN"
| "x * NaN = NaN"

fun divide_f64 :: "f64 \<Rightarrow> f64 \<Rightarrow> f64" where
  "divide (Finite s a) (Finite t b) =
     (if b = 0 then (if a = 0 then NaN else Infinite (s \<noteq> t)) else pack (s \<noteq> t) (a / b))"
| "divide (Finite s a) (Infinite t) = Finite (s \<noteq> t) 0"
| "divide (Infinite s) (Finite t b) = Infinite (s \<noteq> t)"
| "divide (Infinite s) (Infinite t) = NaN"
| "divide NaN y = NaN"
| "divide x NaN = NaN"

definition inverse_f64 :: "f64 \<Rightarrow> f64" where
  "inverse x = divide (Finite False 1) x" for x :: f64

fun less_eq_f64 :: "f64 \<Rightarrow> f64 \<Rightarrow> bool" where
  "Finite s a \<le> Finite t b \<longleftrightarrow> signed_of s a \<le> signed_of t b"
| "Finite s a \<le> Infinite t \<longleftrightarrow> \<not> t"
| "Infinite s \<le> Finite t b \<longleftrightarrow> s"
| "Infinite s \<le> Infinite t \<longleftrightarrow> s \<or> \<not> t"
| "NaN \<le> y \<longleftrightarrow> False"
| "x \<le> NaN \<longleftrightarrow> False"

fun less_f64 :: "f64 \<Rightarrow> f64 \<Rightarrow> bool" where
  "Finite s a < Finite t b \<longleftrightarrow> signed_of s a < signed_of t b"
| "Finite s a < Infinite t \<longleftrightarrow> \<not> t"
| "Infinite s < Finite t b \<longleftrightarrow> s"
| "Infinite s < Infinite t \<longleftrightarrow> s \<and> \<not> t"
| "NaN < y \<longleftrightarrow> False"
| "x < NaN \<longleftrightarrow> False"

instance ..

end

text \<open>\<open>f64::max\<close> and \<open>f64::min\<close> take the other argument when one is NaN.\<close>

definition fmax :: "f64 \<Rightarrow> f64 \<Rightarrow> f64" where
  "fmax x y = (if x = NaN then y else if y = NaN then x else if x \<le> y then y else x)"

definition fmin :: "f64 \<Rightarrow> f64 \<Rightarrow> f64" where
  "fmin x y = (if x = NaN then y else if y = NaN then x else if x \<le> y then x else y)"

fun fceil :: "f64 \<Rightarrow> f64" where
  "fceil (Finite s a) = Finite s (of_int \<bar>\<lceil>signed_of s a\<rceil>\<bar>)"
| "fceil (Infinite s) = Infinite s"
| "fceil NaN = NaN"

text \<open>The cast to an unsigned integer rounds towards zero and saturates; NaN is 0.\<close>

fun as_uint :: "f64 \<Rightarrow> 'a::len word" where
  "as_uint (Finite s a) = (if s then 0 else if 2 ^ LENGTH('a) \<le> \<lfloor>a\<rfloor> then - 1 else word_of_int \<lfloor>a\<rfloor>)"
| "as_uint (Infinite s) = (if s then 0 else - 1)"
| "as_uint NaN = 0"

definition of_uint :: "'a::len word \<Rightarrow> f64" where
  "of_uint n = pack False (of_int (uint n))"

section \<open>The exponent\<close>

lemma pow2_pos: "0 < pow2 k"
  by simp

lemma pow2_less: "pow2 i < pow2 j \<longleftrightarrow> i < j"
  using power_int_strict_increasing [of i j "2::rat"] power_int_increasing [of j i "2::rat"]
  by (cases "i < j") (auto simp: not_less)

lemma pow2_le: "pow2 i \<le> pow2 j \<longleftrightarrow> i \<le> j"
  by (simp add: pow2_less flip: not_less)

lemma pow2_add: "pow2 (i + j) = pow2 i * pow2 j"
  by (simp add: power_int_add)

lemma pow2_diff: "pow2 (i - j) = pow2 i / pow2 j"
  by (simp add: power_int_diff)

lemma bitlen_pow2_bounds: "0 < n \<Longrightarrow> pow2 (bitlen n - 1) \<le> of_int n \<and> (of_int n :: rat) < pow2 (bitlen n)"
proof -
  assume n: "0 < n"
  have "1 \<le> bitlen n" using n by (simp add: bitlen_ge_iff_power)
  then have "pow2 (bitlen n - 1) = of_int (2 ^ nat (bitlen n - 1))" "pow2 (bitlen n) = of_int (2 ^ nat (bitlen n))"
    by (simp_all add: power_int_def)
  then show ?thesis using bitlen_bounds [OF n] by (metis of_int_le_iff of_int_less_iff)
qed

lemma exponent_bounds:
  assumes "0 < q"
  shows "pow2 (exponent q) \<le> q \<and> q < pow2 (exponent q + 1)"
proof -
  obtain n d where nd: "quotient_of q = (n, d)" by force
  have d: "0 < d" and q: "q = of_int n / of_int d" using quotient_of_denom_pos [OF nd] quotient_of_div [OF nd] by auto
  have n: "0 < n" using assms q d by (simp add: zero_less_divide_iff)
  note bn = bitlen_pow2_bounds [OF n] and bd = bitlen_pow2_bounds [OF d]
  have dq: "0 < (of_int d :: rat)" using d by simp
  have "q < pow2 (bitlen n) / pow2 (bitlen d - 1)"
    unfolding q using bn bd dq n by (intro frac_less) (auto simp: less_imp_le)
  then have upper: "q < pow2 (bitlen n - bitlen d + 1)" by (simp add: pow2_diff pow2_add)
  have "pow2 (bitlen n - 1) / pow2 (bitlen d) \<le> q"
    unfolding q using bn bd dq n by (intro frac_le) auto
  then have lower: "pow2 (bitlen n - bitlen d - 1) \<le> q" by (simp add: pow2_diff)
  show ?thesis using upper lower by (auto simp: exponent_def nd Let_def)
qed

lemma exponent_unique: "pow2 e \<le> q \<Longrightarrow> q < pow2 (e + 1) \<Longrightarrow> exponent q = e"
proof -
  assume q: "pow2 e \<le> q" "q < pow2 (e + 1)"
  then have b: "pow2 (exponent q) \<le> q" "q < pow2 (exponent q + 1)"
    using exponent_bounds [of q] pow2_pos [of e] by auto
  have "e < exponent q + 1" using q(1) b(2) pow2_less by (meson order_le_less_trans)
  moreover have "exponent q < e + 1" using q(2) b(1) pow2_less by (meson order_le_less_trans)
  ultimately show ?thesis by simp
qed

lemma exponent_less: "0 < q \<Longrightarrow> q < pow2 (e + 1) \<Longrightarrow> exponent q \<le> e"
  using exponent_bounds [of q] by (metis order_le_less_trans pow2_less zle_add1_eq_le)

lemma exponent_mono: "0 < q \<Longrightarrow> q \<le> r \<Longrightarrow> exponent q \<le> exponent r"
  using exponent_bounds [of r] by (intro exponent_less) auto

section \<open>Rounding to the nearest\<close>

lemma half_even_of_int [simp]: "half_even (of_int k) = k"
  by (simp add: half_even_def)

lemma half_even_floor: "half_even q = \<lfloor>q\<rfloor> \<or> half_even q = \<lfloor>q\<rfloor> + 1"
  by (simp add: half_even_def Let_def)

lemma half_even_near: "\<bar>q - of_int (half_even q)\<bar> \<le> 1 / 2"
proof -
  have "0 \<le> q - of_int \<lfloor>q\<rfloor>" "q - of_int \<lfloor>q\<rfloor> < 1" by linarith+
  then show ?thesis unfolding half_even_def Let_def by (simp add: abs_le_iff)
qed

lemma half_even_mono: "q \<le> r \<Longrightarrow> half_even q \<le> half_even r"
proof -
  assume le: "q \<le> r"
  show ?thesis
  proof (cases "\<lfloor>q\<rfloor> = \<lfloor>r\<rfloor>")
    case True
    then show ?thesis using le by (auto simp: half_even_def Let_def)
  next
    case False
    then have "\<lfloor>q\<rfloor> < \<lfloor>r\<rfloor>" using floor_mono [OF le] by simp
    then show ?thesis using half_even_floor [of q] half_even_floor [of r] by linarith
  qed
qed

definition grain :: "rat \<Rightarrow> int" where
  "grain q = max (exponent q - 52) (- 1074)"

lemma ulp_grain: "ulp q = pow2 (grain q)"
  by (simp add: ulp_def grain_def)

lemma pow2_int: "0 \<le> k \<Longrightarrow> pow2 k = of_int (2 ^ nat k)"
  by (simp add: power_int_def)

text \<open>A multiple of the grain is not changed.\<close>

lemma half_even_scaled:
  assumes "g \<le> e"
  shows "half_even (of_int m * pow2 e / pow2 g) = m * 2 ^ nat (e - g)"
proof -
  have "of_int m * pow2 e / pow2 g = of_int (m * 2 ^ nat (e - g))"
    using assms pow2_int [of "e - g"] by (simp add: pow2_diff flip: times_divide_eq_right)
  then show ?thesis by (metis half_even_of_int)
qed

lemma round_mag_scaled:
  assumes "0 < q" "q = of_int m * pow2 e" "grain q \<le> e"
  shows "round_mag q = q"
proof -
  have "pow2 e = 2 ^ nat (e - grain q) * pow2 (grain q)"
    using assms(3) pow2_int [of "e - grain q"] pow2_add [of "e - grain q" "grain q"] by simp
  then show ?thesis
    using assms(1,2) half_even_scaled [OF assms(3), of m] by (simp add: round_mag_def ulp_grain)
qed

lemma round_mag_representable:
  assumes "q = of_int m * pow2 e" "0 \<le> m" "m \<le> 2 ^ 53" "- 1074 \<le> e"
  shows "round_mag q = q"
proof (cases "m = 0")
  case True
  then show ?thesis using assms(1) by (simp add: round_mag_def)
next
  case False
  then have q: "0 < q" using assms(1,2) by simp
  show ?thesis
  proof (cases "m = 2 ^ 53")
    case True
    have q53: "q = pow2 (e + 53)" using assms(1) True by (simp add: pow2_add)
    then have "exponent q = e + 53" by (intro exponent_unique) (simp_all add: pow2_less)
    then have "grain q \<le> e + 1" using assms(4) by (simp add: grain_def)
    moreover have "q = of_int (2 ^ 52) * pow2 (e + 1)" using q53 by (simp add: pow2_add)
    ultimately show ?thesis using round_mag_scaled [OF q] by blast
  next
    case small: False
    then have "(of_int m :: rat) < pow2 53" using assms(3) by simp
    then have "q < pow2 (e + 52 + 1)" using assms(1) by (simp add: pow2_add)
    then have "grain q \<le> e" using exponent_less [OF q, of "e + 52"] assms(4) by (simp add: grain_def)
    then show ?thesis using round_mag_scaled [OF q assms(1)] by simp
  qed
qed

text \<open>What rounding gives can be represented, and rounding is monotone.\<close>

lemma pow2_over_ulp:
  assumes "grain q \<le> k"
  shows "half_even (pow2 k / ulp q) = 2 ^ nat (k - grain q)" and "of_int (2 ^ nat (k - grain q)) * ulp q = pow2 k"
  using half_even_scaled [OF assms, of 1] pow2_int [of "k - grain q"] pow2_add [of "k - grain q" "grain q"] assms
  by (simp_all add: ulp_grain)

lemma half_even_mantissa:
  assumes "0 < q"
  shows "0 \<le> half_even (q / ulp q)" and "half_even (q / ulp q) \<le> 2 ^ 53"
proof -
  have "0 \<le> q / ulp q" using assms by (simp add: ulp_grain)
  from half_even_mono [OF this] show "0 \<le> half_even (q / ulp q)" using half_even_of_int [of 0] by simp
  have "q < pow2 (53 + grain q)"
    using exponent_bounds [OF assms] by (elim conjE order_less_le_trans) (simp add: pow2_le grain_def)
  then have "q / ulp q \<le> of_int (2 ^ 53)" by (simp add: ulp_grain pow2_add divide_simps)
  from half_even_mono [OF this] show "half_even (q / ulp q) \<le> 2 ^ 53" by (simp only: half_even_of_int)
qed

lemma round_mag_round [simp]: "round_mag (round_mag q) = round_mag q"
proof (cases "q \<le> 0")
  case True
  then show ?thesis by (simp add: round_mag_def)
next
  case False
  then have "round_mag q = of_int (half_even (q / ulp q)) * pow2 (grain q)"
    by (simp add: round_mag_def ulp_grain)
  from round_mag_representable [OF this] show ?thesis
    using half_even_mantissa [of q] False by (simp add: grain_def)
qed

lemma round_mag_nonneg: "0 \<le> round_mag q"
  using half_even_mantissa(1) [of q] by (simp add: round_mag_def ulp_grain)

lemma round_mag_mono_grain:
  assumes "0 < q" "q \<le> r" "grain q = grain r"
  shows "round_mag q \<le> round_mag r"
proof -
  have "q / ulp q \<le> r / ulp r" using assms(2,3) by (simp add: ulp_grain divide_right_mono)
  from half_even_mono [OF this] show ?thesis using assms by (simp add: round_mag_def ulp_grain)
qed

lemma scaled_le: "i \<le> j \<Longrightarrow> of_int i * ulp q \<le> of_int j * ulp q"
  by (rule mult_right_mono) (simp_all only: of_int_le_iff ulp_grain order_less_imp_le [OF pow2_pos])

lemma round_mag_le_pow2: "0 < q \<Longrightarrow> q \<le> pow2 k \<Longrightarrow> grain q \<le> k \<Longrightarrow> round_mag q \<le> pow2 k"
proof -
  assume a: "0 < q" "q \<le> pow2 k" "grain q \<le> k"
  have "q / ulp q \<le> pow2 k / ulp q" using a(2) by (simp add: ulp_grain divide_right_mono)
  from half_even_mono [OF this] have "half_even (q / ulp q) \<le> 2 ^ nat (k - grain q)" using pow2_over_ulp(1) [OF a(3)] by simp
  then have "of_int (half_even (q / ulp q)) * ulp q \<le> of_int (2 ^ nat (k - grain q)) * ulp q"
    by (intro scaled_le)
  then show ?thesis using pow2_over_ulp(2) [OF a(3)] a(1) by (simp add: round_mag_def)
qed

lemma pow2_le_round_mag: "pow2 k \<le> r \<Longrightarrow> grain r \<le> k \<Longrightarrow> pow2 k \<le> round_mag r"
proof -
  assume a: "pow2 k \<le> r" "grain r \<le> k"
  have pos: "0 < r" using a(1) pow2_pos [of k] by linarith
  have "pow2 k / ulp r \<le> r / ulp r" using a(1) by (simp add: ulp_grain divide_right_mono)
  from half_even_mono [OF this] have "2 ^ nat (k - grain r) \<le> half_even (r / ulp r)" using pow2_over_ulp(1) [OF a(2)] by simp
  then have "of_int (2 ^ nat (k - grain r)) * ulp r \<le> of_int (half_even (r / ulp r)) * ulp r"
    by (intro scaled_le)
  then show ?thesis using pow2_over_ulp(2) [OF a(2)] pos by (simp add: round_mag_def)
qed

lemma round_mag_mono:
  assumes "q \<le> r"
  shows "round_mag q \<le> round_mag r"
proof (cases "0 < q")
  case False
  then show ?thesis using round_mag_nonneg [of r] by (simp add: round_mag_def)
next
  case True
  show ?thesis
  proof (cases "grain q = grain r")
    case True
    then show ?thesis using round_mag_mono_grain [OF \<open>0 < q\<close> assms] by simp
  next
    case False
    let ?k = "exponent r"
    have less: "exponent q < ?k" "grain q \<le> ?k" "grain r \<le> ?k"
      using False exponent_mono [OF True assms] by (auto simp: grain_def)
    have "q \<le> pow2 (exponent q + 1)" using exponent_bounds [OF True] by simp
    also have "\<dots> \<le> pow2 ?k" using less(1) by (simp add: pow2_le)
    finally have "round_mag q \<le> pow2 ?k" using round_mag_le_pow2 [OF True] less(2) by simp
    also have "\<dots> \<le> round_mag r" using pow2_le_round_mag [OF _ less(3)] exponent_bounds [of r] True assms by simp
    finally show ?thesis .
  qed
qed

section \<open>Numbers\<close>

text \<open>A value of the type: a magnitude that rounding keeps, below the overflow.\<close>

fun f64_ok :: "f64 \<Rightarrow> bool" where
  "f64_ok (Finite s a) \<longleftrightarrow> 0 \<le> a \<and> round_mag a = a \<and> a < pow2 1024"
| "f64_ok (Infinite s) \<longleftrightarrow> True"
| "f64_ok NaN \<longleftrightarrow> True"

lemma pack_ok [simp]: "f64_ok (pack s q)"
  using round_mag_nonneg [of q] by (auto simp: pack_def not_le)

lemma zero_f64_ok [simp]: "f64_ok 0"
  by (simp add: zero_f64_def round_mag_def)

lemma plus_f64_ok: "f64_ok x \<Longrightarrow> f64_ok y \<Longrightarrow> f64_ok (x + y)"
  by (induction x y rule: plus_f64.induct) (auto simp: Let_def round_mag_def [of 0])

lemma f64_le_refl: "x \<noteq> NaN \<Longrightarrow> x \<le> x" for x :: f64
  by (cases x) auto

lemma f64_le_trans: "x \<le> y \<Longrightarrow> y \<le> z \<Longrightarrow> x \<le> z" for x y z :: f64
  by (cases x; cases y; cases z) auto

lemma f64_le_total: "x \<noteq> NaN \<Longrightarrow> y \<noteq> NaN \<Longrightarrow> x \<le> y \<or> y \<le> x" for x y :: f64
  by (cases x; cases y) auto

lemma f64_le_not_NaN: "x \<le> y \<Longrightarrow> x \<noteq> NaN \<and> y \<noteq> NaN" for x y :: f64
  by (cases x; cases y) auto

lemma f64_less_le: "x \<noteq> NaN \<Longrightarrow> y \<noteq> NaN \<Longrightarrow> \<not> x < y \<longleftrightarrow> y \<le> x" for x y :: f64
  by (cases x; cases y) auto

text \<open>Adding a number that is not negative never gives less.\<close>

lemma pack_ge: "round_mag a = a \<Longrightarrow> a \<le> q \<Longrightarrow> Finite False a \<le> pack False q"
  using round_mag_mono [of a q] by (simp add: pack_def signed_of_def)

lemma pack_neg_ge:
  assumes "round_mag a = a" "q \<le> a" "a < pow2 1024"
  shows "Finite True a \<le> pack True q"
  using round_mag_mono [OF assms(2)] assms by (simp add: pack_def signed_of_def not_le [symmetric])

lemma f64_add_increasing:
  assumes "f64_ok x" "0 \<le> y" "x \<noteq> NaN"
  shows "x = Infinite True \<and> y = Infinite False \<or> x \<le> x + y"
proof (cases x)
  case (Finite s a)
  show ?thesis
  proof (cases y)
    case y: (Finite t b)
    let ?v = "signed_of s a + signed_of t b"
    have ge: "signed_of s a \<le> ?v" using assms(2) y by (simp add: zero_f64_def signed_of_def)
    have a: "0 \<le> a" "round_mag a = a" "a < pow2 1024" using assms(1) Finite by simp_all
    consider "?v = 0" | "0 < ?v" | "?v < 0" by linarith
    then show ?thesis
    proof cases
      case 1
      then show ?thesis using ge Finite y a(1) by (simp add: signed_of_def)
    next
      case 2
      have "Finite False (if s then 0 else a) \<le> pack False ?v"
        using a ge 2 by (intro pack_ge) (auto simp: signed_of_def round_mag_def [of 0])
      moreover have "Finite s a \<le> Finite False (if s then 0 else a)" using a(1) by (simp add: signed_of_def)
      ultimately have "Finite s a \<le> pack False ?v" using f64_le_trans by blast
      then show ?thesis using Finite y 2 by (simp add: Let_def)
    next
      case 3
      then have s: "s" using ge a(1) by (cases s) (auto simp: signed_of_def)
      have "Finite True a \<le> pack True (- ?v)" using a ge s by (intro pack_neg_ge) (simp_all add: signed_of_def)
      then show ?thesis using Finite y 3 s by (simp add: Let_def abs_if)
    qed
  next
    case (Infinite t)
    then show ?thesis using assms(2) Finite by (simp add: zero_f64_def)
  next
    case NaN
    then show ?thesis using assms(2) by (simp add: zero_f64_def)
  qed
next
  case (Infinite s)
  then show ?thesis using assms(2) by (cases y) (auto simp: zero_f64_def)
next
  case NaN
  then show ?thesis using assms(3) by simp
qed

lemma f64_add_pos:
  assumes "f64_ok x" "0 \<le> x" "0 \<le> y"
  shows "x \<le> x + y" and "0 \<le> x + y"
proof -
  show "x \<le> x + y" using f64_add_increasing [OF assms(1,3)] assms(2) f64_le_not_NaN [OF assms(2)] by (auto simp: zero_f64_def)
  then show "0 \<le> x + y" using assms(2) f64_le_trans by blast
qed

lemma fmax_ge: "x \<noteq> NaN \<Longrightarrow> x \<le> fmax x y"
  using f64_le_refl [of x] f64_le_total [of x y] by (auto simp: fmax_def)

lemma fmin_le: "y \<noteq> NaN \<Longrightarrow> fmin x y \<le> y"
  using f64_le_refl [of y] f64_le_total [of x y] by (auto simp: fmin_def)

lemma fmin_ge: "z \<le> x \<Longrightarrow> z \<le> y \<Longrightarrow> z \<le> fmin x y"
  using f64_le_not_NaN [of z x] by (simp add: fmin_def)

lemma plus_NaN [simp]: "x + NaN = NaN" "NaN + x = NaN"
  by (cases x; simp)+

lemma le_NaN [simp]: "\<not> x \<le> NaN" "\<not> NaN \<le> x"
  by (cases x; simp)+

text \<open>Integers up to \<open>2 ^ 53\<close> are exact.\<close>

lemma round_mag_numeral [simp]: "numeral n \<le> (2 ^ 53 :: int) \<Longrightarrow> round_mag (numeral n) = numeral n"
  using round_mag_representable [of "numeral n" "numeral n" 0] by simp

lemma pack_int:
  assumes "0 \<le> m" "m \<le> 2 ^ 53"
  shows "pack s (of_int m) = Finite s (of_int m)"
proof -
  have "round_mag (of_int m) = of_int m" using round_mag_representable [of "of_int m" m 0] assms by simp
  moreover have "(of_int m :: rat) < pow2 1024"
  proof -
    have "(of_int m :: rat) \<le> of_int (2 ^ 53)" using assms(2) by (simp only: of_int_le_iff)
    also have "\<dots> < pow2 1024" by simp
    finally show ?thesis .
  qed
  ultimately show ?thesis by (simp add: pack_def)
qed

lemma pack_numeral [simp]: "numeral n \<le> (2 ^ 53 :: int) \<Longrightarrow> pack s (numeral n) = Finite s (numeral n)"
  using pack_int [of "numeral n" s] by simp

lemma pack_small [simp]: "pack s 0 = Finite s 0" "pack s 1 = Finite s 1"
  using pack_int [of 0 s] pack_int [of 1 s] by simp_all

lemma of_uint_exact: "uint n \<le> 2 ^ 53 \<Longrightarrow> of_uint n = Finite False (of_int (uint n))"
  using pack_int [of "uint n" False] by (simp add: of_uint_def)

lemma of_uint_ok [simp]: "f64_ok (of_uint n)"
  by (simp add: of_uint_def)

lemma lit_ok [simp]: "f64_ok (lit q)"
  by (simp add: lit_def)

end
