(* ===== verification/TenantLimits.thy ===== *)
theory TenantLimits
  imports Windows Float64
begin

text \<open>
  \<open>argentor-security/src/tenant_limits.rs\<close>: the quotas of the tenants. A request is checked against
  the day, the tokens and the budget of the month, a window of a second and the requests in flight.
  The clock is read when the day may turn and again for the stamps; both readings are inputs. Instants
  are nanoseconds, a day is its number. Money and rates are \<open>f64\<close>.
\<close>

record TenantLimits =
  max_requests_per_day :: u64
  max_tokens_per_month :: u64
  max_requests_per_second :: f64
  max_concurrent_requests :: u32
  max_cost_per_month_usd :: f64
  allowed_models :: "string list"
  allowed_agents :: "string list"

definition limits_free :: TenantLimits where
  "limits_free =
     \<lparr>max_requests_per_day = 100, max_tokens_per_month = 50000, max_requests_per_second = lit 1,
      max_concurrent_requests = 2, max_cost_per_month_usd = lit 0, allowed_models = [], allowed_agents = []\<rparr>"

definition limits_pro :: TenantLimits where
  "limits_pro =
     \<lparr>max_requests_per_day = 5000, max_tokens_per_month = 2000000, max_requests_per_second = lit 10,
      max_concurrent_requests = 10, max_cost_per_month_usd = lit 50, allowed_models = [], allowed_agents = []\<rparr>"

definition limits_enterprise :: TenantLimits where
  "limits_enterprise =
     \<lparr>max_requests_per_day = 100000, max_tokens_per_month = 50000000, max_requests_per_second = lit 100,
      max_concurrent_requests = 50, max_cost_per_month_usd = lit 500, allowed_models = [], allowed_agents = []\<rparr>"

datatype TenantPlan = Free | Pro | Enterprise | Custom TenantLimits

fun plan_name :: "TenantPlan \<Rightarrow> string" where
  "plan_name Free = ''Free''"
| "plan_name Pro = ''Pro''"
| "plan_name Enterprise = ''Enterprise''"
| "plan_name (Custom l) = ''Custom''"

fun plan_limits :: "TenantPlan \<Rightarrow> TenantLimits" where
  "plan_limits Free = limits_free"
| "plan_limits Pro = limits_pro"
| "plan_limits Enterprise = limits_enterprise"
| "plan_limits (Custom l) = l"

definition default_plans :: "string \<rightharpoonup> TenantLimits" where
  "default_plans = [''free'' \<mapsto> limits_free, ''pro'' \<mapsto> limits_pro, ''enterprise'' \<mapsto> limits_enterprise]"

section \<open>Answers\<close>

record TenantCheckResult =
  allowed :: bool
  denial :: "string option"
  remaining_daily_requests :: u64
  remaining_monthly_tokens :: u64
  remaining_monthly_budget_usd :: f64
  rate_limit_reset_at :: "int option"

record TenantUsageStatus =
  status_tenant_id :: string
  status_plan :: string
  status_daily_requests :: u64
  daily_limit :: u64
  status_monthly_tokens :: u64
  monthly_limit :: u64
  status_monthly_cost_usd :: f64
  monthly_budget_usd :: f64
  status_concurrent_requests :: u32
  concurrent_limit :: u32
  status_utilization_percent :: f64
  status_is_throttled :: bool
  status_last_request_at :: "int option"

record TenantSummary =
  summary_tenant_id :: string
  summary_plan :: string
  summary_utilization_percent :: f64
  summary_is_throttled :: bool

section \<open>The state of a tenant\<close>

record TenantState =
  plan :: TenantPlan
  limits :: TenantLimits
  daily_requests :: u64
  daily_reset_date :: int
  monthly_tokens :: u64
  monthly_cost_usd :: f64
  recent_requests :: "int list"
  concurrent_requests :: u32
  is_throttled :: bool
  last_request_at :: "int option"

definition date_of :: "int \<Rightarrow> int" where
  "date_of now = now div secs 86400"

definition tenant_state_new :: "TenantPlan \<Rightarrow> int \<Rightarrow> TenantState" where
  "tenant_state_new p now =
     \<lparr>plan = p, limits = plan_limits p, daily_requests = 0, daily_reset_date = date_of now, monthly_tokens = 0,
      monthly_cost_usd = lit 0, recent_requests = [], concurrent_requests = 0, is_throttled = False,
      last_request_at = None\<rparr>"

definition maybe_reset_daily :: "TenantState \<Rightarrow> int \<Rightarrow> TenantState" where
  "maybe_reset_daily st clock =
     (let today = date_of clock
      in if daily_reset_date st < today then st\<lparr>daily_requests := 0, daily_reset_date := today\<rparr> else st)"

definition prune_sliding_window :: "TenantState \<Rightarrow> int \<Rightarrow> TenantState" where
  "prune_sliding_window st now = st\<lparr>recent_requests := prune (now - secs 1) (recent_requests st)\<rparr>"

definition utilization_percent :: "TenantState \<Rightarrow> f64" where
  "utilization_percent st =
     (let m = lit 0;
          m = (if 0 < max_requests_per_day (limits st)
               then fmax m (of_uint (daily_requests st) / of_uint (max_requests_per_day (limits st)) * lit 100) else m);
          m = (if 0 < max_tokens_per_month (limits st)
               then fmax m (of_uint (monthly_tokens st) / of_uint (max_tokens_per_month (limits st)) * lit 100) else m);
          m = (if lit 0 < max_cost_per_month_usd (limits st)
               then fmax m (monthly_cost_usd st / max_cost_per_month_usd (limits st) * lit 100) else m)
      in fmin m (lit 100))"

section \<open>The manager\<close>

type_synonym Tenants = "string \<rightharpoonup> TenantState"

definition register_tenant :: "Tenants \<Rightarrow> string \<Rightarrow> TenantPlan \<Rightarrow> int \<Rightarrow> Tenants" where
  "register_tenant mgr tid p now = mgr(tid \<mapsto> tenant_state_new p now)"

definition left_requests :: "TenantState \<Rightarrow> u64" where
  "left_requests st = saturating_sub (max_requests_per_day (limits st)) (daily_requests st)"

definition left_tokens :: "TenantState \<Rightarrow> u64" where
  "left_tokens st = saturating_sub (max_tokens_per_month (limits st)) (monthly_tokens st)"

definition left_budget :: "TenantState \<Rightarrow> f64" where
  "left_budget st = fmax (max_cost_per_month_usd (limits st) - monthly_cost_usd st) (lit 0)"

definition max_in_window :: "TenantLimits \<Rightarrow> u64" where
  "max_in_window l = as_uint (fceil (max_requests_per_second l))"

text \<open>The checks of one tenant, after the day has turned and the window is pruned.\<close>

definition check_state :: "TenantState \<Rightarrow> int \<Rightarrow> TenantCheckResult \<times> TenantState" where
  "check_state st now =
     (let throttled = st\<lparr>is_throttled := True\<rparr>
      in if max_requests_per_day (limits st) \<le> daily_requests st
         then (\<lparr>allowed = False, denial = Some ''daily_limit_exceeded'', remaining_daily_requests = 0,
                remaining_monthly_tokens = left_tokens st, remaining_monthly_budget_usd = left_budget st,
                rate_limit_reset_at = Some (secs 86400 * (daily_reset_date st + 1))\<rparr>, throttled)
         else if max_tokens_per_month (limits st) \<le> monthly_tokens st
         then (\<lparr>allowed = False, denial = Some ''monthly_tokens_exceeded'', remaining_daily_requests = left_requests st,
                remaining_monthly_tokens = 0, remaining_monthly_budget_usd = left_budget st,
                rate_limit_reset_at = None\<rparr>, throttled)
         else if lit 0 < max_cost_per_month_usd (limits st) \<and> max_cost_per_month_usd (limits st) \<le> monthly_cost_usd st
         then (\<lparr>allowed = False, denial = Some ''monthly_budget_exceeded'', remaining_daily_requests = left_requests st,
                remaining_monthly_tokens = left_tokens st, remaining_monthly_budget_usd = lit 0,
                rate_limit_reset_at = None\<rparr>, throttled)
         else if unat (max_in_window (limits st)) \<le> length (recent_requests st)
         then (\<lparr>allowed = False, denial = Some ''rate_limit_exceeded'', remaining_daily_requests = left_requests st,
                remaining_monthly_tokens = left_tokens st, remaining_monthly_budget_usd = left_budget st,
                rate_limit_reset_at = (case recent_requests st of [] \<Rightarrow> None | t # _ \<Rightarrow> Some (t + secs 1))\<rparr>, throttled)
         else if max_concurrent_requests (limits st) \<le> concurrent_requests st
         then (\<lparr>allowed = False, denial = Some ''concurrent_limit_exceeded'', remaining_daily_requests = left_requests st,
                remaining_monthly_tokens = left_tokens st, remaining_monthly_budget_usd = left_budget st,
                rate_limit_reset_at = None\<rparr>, throttled)
         else
           let st = st\<lparr>daily_requests := daily_requests st + 1, concurrent_requests := concurrent_requests st + 1,
                      recent_requests := recent_requests st @ [now], last_request_at := Some now, is_throttled := False\<rparr>
           in (\<lparr>allowed = True, denial = None, remaining_daily_requests = left_requests st,
                remaining_monthly_tokens = left_tokens st, remaining_monthly_budget_usd = left_budget st,
                rate_limit_reset_at = None\<rparr>, st))"

definition check_request :: "Tenants \<Rightarrow> string \<Rightarrow> int \<Rightarrow> int \<Rightarrow> TenantCheckResult \<times> Tenants" where
  "check_request mgr tid clock now =
     (case mgr tid of
        None \<Rightarrow>
          (\<lparr>allowed = False, denial = Some ''tenant_not_found'', remaining_daily_requests = 0,
            remaining_monthly_tokens = 0, remaining_monthly_budget_usd = lit 0, rate_limit_reset_at = None\<rparr>, mgr)
      | Some st \<Rightarrow>
          let (r, st) = check_state (prune_sliding_window (maybe_reset_daily st clock) now) now
          in (r, mgr(tid \<mapsto> st)))"

definition record_usage :: "Tenants \<Rightarrow> string \<Rightarrow> u64 \<Rightarrow> u64 \<Rightarrow> f64 \<Rightarrow> Tenants" where
  "record_usage mgr tid tokens_in tokens_out cost =
     (case mgr tid of
        None \<Rightarrow> mgr
      | Some st \<Rightarrow>
          mgr(tid \<mapsto> st\<lparr>monthly_tokens := monthly_tokens st + (tokens_in + tokens_out),
                        monthly_cost_usd := monthly_cost_usd st + cost,
                        concurrent_requests := saturating_sub (concurrent_requests st) 1\<rparr>))"

definition get_status :: "Tenants \<Rightarrow> string \<Rightarrow> int \<Rightarrow> TenantUsageStatus option \<times> Tenants" where
  "get_status mgr tid clock =
     (case mgr tid of
        None \<Rightarrow> (None, mgr)
      | Some st \<Rightarrow>
          let st = maybe_reset_daily st clock
          in (Some \<lparr>status_tenant_id = tid, status_plan = plan_name (plan st), status_daily_requests = daily_requests st,
                    daily_limit = max_requests_per_day (limits st), status_monthly_tokens = monthly_tokens st,
                    monthly_limit = max_tokens_per_month (limits st), status_monthly_cost_usd = monthly_cost_usd st,
                    monthly_budget_usd = max_cost_per_month_usd (limits st),
                    status_concurrent_requests = concurrent_requests st,
                    concurrent_limit = max_concurrent_requests (limits st),
                    status_utilization_percent = utilization_percent st, status_is_throttled = is_throttled st,
                    status_last_request_at = last_request_at st\<rparr>,
              mgr(tid \<mapsto> st)))"

text \<open>The order in which the map is iterated is an argument.\<close>

definition list_tenants :: "string list \<Rightarrow> Tenants \<Rightarrow> TenantSummary list" where
  "list_tenants order mgr =
     List.map_filter (\<lambda>tid. map_option (\<lambda>st. \<lparr>summary_tenant_id = tid, summary_plan = plan_name (plan st),
         summary_utilization_percent = utilization_percent st, summary_is_throttled = is_throttled st\<rparr>) (mgr tid)) order"

definition upgrade_plan :: "Tenants \<Rightarrow> string \<Rightarrow> TenantPlan \<Rightarrow> Tenants" where
  "upgrade_plan mgr tid p =
     (case mgr tid of
        None \<Rightarrow> mgr
      | Some st \<Rightarrow> mgr(tid \<mapsto> st\<lparr>limits := plan_limits p, plan := p, is_throttled := False\<rparr>))"

definition reset_monthly :: "Tenants \<Rightarrow> string \<Rightarrow> Tenants" where
  "reset_monthly mgr tid =
     (case mgr tid of
        None \<Rightarrow> mgr
      | Some st \<Rightarrow> mgr(tid \<mapsto> st\<lparr>monthly_tokens := 0, monthly_cost_usd := lit 0, is_throttled := False\<rparr>))"

definition is_model_allowed :: "Tenants \<Rightarrow> string \<Rightarrow> string \<Rightarrow> bool" where
  "is_model_allowed mgr tid model =
     (case mgr tid of
        Some st \<Rightarrow> if allowed_models (limits st) = [] then True else model \<in> set (allowed_models (limits st))
      | None \<Rightarrow> False)"

definition is_agent_allowed :: "Tenants \<Rightarrow> string \<Rightarrow> string \<Rightarrow> bool" where
  "is_agent_allowed mgr tid agent_role =
     (case mgr tid of
        Some st \<Rightarrow> if allowed_agents (limits st) = [] then True else agent_role \<in> set (allowed_agents (limits st))
      | None \<Rightarrow> False)"

section \<open>Runs\<close>

datatype TenantCall =
    RegisterTenant string TenantPlan
  | CheckRequest string
  | RecordUsage string u64 u64 f64
  | GetStatus string
  | UpgradePlan string TenantPlan
  | ResetMonthly string

fun call_tenant :: "TenantCall \<Rightarrow> string" where
  "call_tenant (RegisterTenant t p) = t"
| "call_tenant (CheckRequest t) = t"
| "call_tenant (RecordUsage t i n c) = t"
| "call_tenant (GetStatus t) = t"
| "call_tenant (UpgradePlan t p) = t"
| "call_tenant (ResetMonthly t) = t"

text \<open>A call at the two readings of the clock, and whether it was a request that was let through.\<close>

fun tenant_call :: "Tenants \<Rightarrow> int \<Rightarrow> int \<Rightarrow> TenantCall \<Rightarrow> bool \<times> Tenants" where
  "tenant_call mgr clock now (RegisterTenant t p) = (False, register_tenant mgr t p clock)"
| "tenant_call mgr clock now (CheckRequest t) =
     (let (r, mgr) = check_request mgr t clock now in (allowed r, mgr))"
| "tenant_call mgr clock now (RecordUsage t i n c) = (False, record_usage mgr t i n c)"
| "tenant_call mgr clock now (GetStatus t) = (False, snd (get_status mgr t clock))"
| "tenant_call mgr clock now (UpgradePlan t p) = (False, upgrade_plan mgr t p)"
| "tenant_call mgr clock now (ResetMonthly t) = (False, reset_monthly mgr t)"

type_synonym timed_call = "int \<times> int \<times> TenantCall"

text \<open>The stamp, or the day, of the request of \<open>tid\<close> that was let through.\<close>

fun stamp_step :: "string \<Rightarrow> Tenants \<Rightarrow> timed_call \<Rightarrow> int option \<times> Tenants" where
  "stamp_step tid mgr (clock, now, call) =
     (let (a, mgr) = tenant_call mgr clock now call in (if a \<and> call_tenant call = tid then Some now else None, mgr))"

fun day_step :: "string \<Rightarrow> Tenants \<Rightarrow> timed_call \<Rightarrow> int option \<times> Tenants" where
  "day_step tid mgr (clock, now, call) =
     (let (a, mgr) = tenant_call mgr clock now call in (if a \<and> call_tenant call = tid then Some (date_of clock) else None, mgr))"

text \<open>Calls that do not register the tenant anew, nor give it a plan above the limits.\<close>

fun within_plan :: "string \<Rightarrow> TenantLimits \<Rightarrow> timed_call \<Rightarrow> bool" where
  "within_plan tid l (clock, now, RegisterTenant t p) \<longleftrightarrow> t \<noteq> tid"
| "within_plan tid l (clock, now, UpgradePlan t p) \<longleftrightarrow>
     (t = tid \<longrightarrow> max_in_window (plan_limits p) \<le> max_in_window l
       \<and> max_requests_per_day (plan_limits p) \<le> max_requests_per_day l
       \<and> max_concurrent_requests (plan_limits p) \<le> max_concurrent_requests l)"
| "within_plan tid l (clock, now, _) \<longleftrightarrow> True"

lemma other_tenant:
  "call_tenant call \<noteq> tid \<Longrightarrow> tenant_call mgr clock now call = (a, mgr') \<Longrightarrow> mgr' tid = mgr tid"
  by (cases call)
    (auto simp: register_tenant_def check_request_def record_usage_def get_status_def upgrade_plan_def reset_monthly_def
      Let_def split: option.splits prod.splits)

section \<open>The effect of a call on its tenant\<close>

definition below :: "TenantLimits \<Rightarrow> TenantState \<Rightarrow> bool" where
  "below l st \<longleftrightarrow> max_in_window (limits st) \<le> max_in_window l
     \<and> max_requests_per_day (limits st) \<le> max_requests_per_day l
     \<and> max_concurrent_requests (limits st) \<le> max_concurrent_requests l"

text \<open>What a refused or another call leaves alone, and what an admission does.\<close>

definition idle_turn :: "TenantState \<Rightarrow> int \<Rightarrow> int \<Rightarrow> TenantState \<Rightarrow> bool" where
  "idle_turn st clock now st' \<longleftrightarrow>
     recent_requests st' \<in> {recent_requests st, prune (now - secs 1) (recent_requests st)}
     \<and> (daily_reset_date st' = daily_reset_date st \<and> daily_requests st' = daily_requests st
        \<or> daily_reset_date st < date_of clock \<and> daily_reset_date st' = date_of clock \<and> daily_requests st' = 0)"

definition admission :: "TenantState \<Rightarrow> int \<Rightarrow> int \<Rightarrow> TenantState \<Rightarrow> bool" where
  "admission st clock now st' \<longleftrightarrow>
     (let day = maybe_reset_daily st clock; win = prune (now - secs 1) (recent_requests st)
      in daily_requests day < max_requests_per_day (limits st) \<and> length win < unat (max_in_window (limits st))
         \<and> concurrent_requests st < max_concurrent_requests (limits st)
         \<and> daily_requests st' = daily_requests day + 1 \<and> daily_reset_date st' = daily_reset_date day
         \<and> recent_requests st' = win @ [now] \<and> concurrent_requests st' = concurrent_requests st + 1)"

lemma maybe_reset_daily_same [simp]:
  "limits (maybe_reset_daily st clock) = limits st" "recent_requests (maybe_reset_daily st clock) = recent_requests st"
  "concurrent_requests (maybe_reset_daily st clock) = concurrent_requests st"
  "monthly_cost_usd (maybe_reset_daily st clock) = monthly_cost_usd st"
  by (simp_all add: maybe_reset_daily_def Let_def)

lemma prune_sliding_window_same [simp]:
  "limits (prune_sliding_window st now) = limits st" "concurrent_requests (prune_sliding_window st now) = concurrent_requests st"
  "daily_requests (prune_sliding_window st now) = daily_requests st"
  "daily_reset_date (prune_sliding_window st now) = daily_reset_date st"
  "monthly_cost_usd (prune_sliding_window st now) = monthly_cost_usd st"
  "recent_requests (prune_sliding_window st now) = prune (now - secs 1) (recent_requests st)"
  by (simp_all add: prune_sliding_window_def)

lemma check_state_refused:
  "check_state st now = (r, st') \<Longrightarrow> \<not> allowed r \<Longrightarrow> st' = st\<lparr>is_throttled := True\<rparr>"
  by (auto simp: check_state_def Let_def split: if_splits)

lemma check_state_allowed:
  "check_state st now = (r, st') \<Longrightarrow> allowed r \<Longrightarrow>
     daily_requests st < max_requests_per_day (limits st) \<and> length (recent_requests st) < unat (max_in_window (limits st))
     \<and> concurrent_requests st < max_concurrent_requests (limits st)
     \<and> \<not> (lit 0 < max_cost_per_month_usd (limits st) \<and> max_cost_per_month_usd (limits st) \<le> monthly_cost_usd st)
     \<and> st' = st\<lparr>daily_requests := daily_requests st + 1, concurrent_requests := concurrent_requests st + 1,
              recent_requests := recent_requests st @ [now], last_request_at := Some now, is_throttled := False\<rparr>"
  by (auto simp: check_state_def Let_def split: if_splits)

lemma check_own:
  assumes "mgr tid = Some st" "check_request mgr tid clock now = (r, mgr')"
  shows "\<exists>st'. mgr' tid = Some st' \<and> limits st' = limits st \<and> monthly_cost_usd st' = monthly_cost_usd st
    \<and> (if allowed r then admission st clock now st'
         \<and> \<not> (lit 0 < max_cost_per_month_usd (limits st) \<and> max_cost_per_month_usd (limits st) \<le> monthly_cost_usd st)
       else idle_turn st clock now st' \<and> concurrent_requests st' = concurrent_requests st)"
proof -
  let ?st = "prune_sliding_window (maybe_reset_daily st clock) now"
  obtain a st' where c: "check_state ?st now = (a, st')" by force
  have r: "r = a" "mgr' = mgr(tid \<mapsto> st')" using assms c by (auto simp: check_request_def)
  show ?thesis
  proof (cases "allowed a")
    case True
    show ?thesis using check_state_allowed [OF c True] True r by (simp add: admission_def Let_def)
  next
    case False
    show ?thesis using check_state_refused [OF c False] False r
      by (simp add: idle_turn_def maybe_reset_daily_def Let_def)
  qed
qed

lemma own_call:
  assumes "mgr tid = Some st" "call_tenant call = tid" "within_plan tid l (clock, now, call)" "below l st"
    "tenant_call mgr clock now call = (a, mgr')"
  shows "\<exists>st'. mgr' tid = Some st' \<and> below l st'
    \<and> (if a then admission st clock now st'
       else idle_turn st clock now st' \<and> unat (concurrent_requests st') \<le> unat (concurrent_requests st)
         \<and> unat (concurrent_requests st)
             \<le> unat (concurrent_requests st') + (case call of RecordUsage _ _ _ _ \<Rightarrow> 1 | _ \<Rightarrow> 0))"
proof (cases call)
  case (RegisterTenant t p)
  then show ?thesis using assms(2,3) by simp
next
  case (CheckRequest t)
  then show ?thesis
    using assms check_own [of mgr tid st clock now] by (fastforce simp: below_def split: prod.splits if_splits)
next
  case (RecordUsage t i n c)
  then show ?thesis
    using assms by (auto simp: record_usage_def below_def idle_turn_def unat_saturating_sub)
next
  case (GetStatus t)
  then show ?thesis
    using assms by (auto simp: get_status_def below_def idle_turn_def maybe_reset_daily_def Let_def)
next
  case (UpgradePlan t p)
  then show ?thesis using assms by (auto simp: upgrade_plan_def below_def idle_turn_def)
next
  case (ResetMonthly t)
  then show ?thesis using assms by (auto simp: reset_monthly_def below_def idle_turn_def)
qed

section \<open>Within the plan\<close>

definition tenant_ok :: "string \<Rightarrow> TenantLimits \<Rightarrow> int \<Rightarrow> Tenants \<Rightarrow> bool" where
  "tenant_ok tid l now mgr \<longleftrightarrow> (case mgr tid of None \<Rightarrow> False | Some st \<Rightarrow> below l st)"

definition tenant_window :: "string \<Rightarrow> Tenants \<Rightarrow> int list" where
  "tenant_window tid mgr = (case mgr tid of None \<Rightarrow> [] | Some st \<Rightarrow> recent_requests st)"

text \<open>One step, for the tenant's calls and for those of others.\<close>

lemma tenant_turn:
  assumes "mgr tid = Some st" "below l st" "within_plan tid l (clock, now, call)" "tenant_call mgr clock now call = (a, mgr')"
  obtains st' where "mgr' tid = Some st'" "below l st'"
    "a \<and> call_tenant call = tid \<Longrightarrow> admission st clock now st'"
    "\<not> (a \<and> call_tenant call = tid) \<Longrightarrow> idle_turn st clock now st'"
    "\<not> (a \<and> call_tenant call = tid) \<Longrightarrow> unat (concurrent_requests st') \<le> unat (concurrent_requests st)"
    "\<not> (a \<and> call_tenant call = tid) \<Longrightarrow>
      unat (concurrent_requests st) \<le> unat (concurrent_requests st')
        + (case call of RecordUsage t _ _ _ \<Rightarrow> (if t = tid then 1 else 0) | _ \<Rightarrow> 0)"
proof (cases "call_tenant call = tid")
  case True
  obtain st' where "mgr' tid = Some st'" "below l st'"
    "if a then admission st clock now st'
     else idle_turn st clock now st' \<and> unat (concurrent_requests st') \<le> unat (concurrent_requests st)
       \<and> unat (concurrent_requests st)
           \<le> unat (concurrent_requests st') + (case call of RecordUsage _ _ _ _ \<Rightarrow> 1 | _ \<Rightarrow> 0)"
    using own_call [OF assms(1) True assms(3,2,4)] by blast
  then show ?thesis using that True by (cases call) (auto split: if_splits)
next
  case False
  then show ?thesis using that [of st] assms other_tenant [OF False assms(4)] by (simp add: idle_turn_def)
qed

lemma recent_pruned: "recent (now - w) (prune (now - w) xs) = recent (now - w) xs"
  by (rule recent_prune) simp

interpretation second: sliding_window "stamp_step tid" "\<lambda>e. fst (snd e)" "within_plan tid l" "tenant_window tid" "tenant_ok tid l"
  "secs 1" "unat (max_in_window l)" for tid l
proof (unfold_locales, goal_cases)
  case (1 before mgr e adm mgr')
  obtain clock now call where e: "e = (clock, now, call)" by (cases e)
  obtain st where st: "mgr tid = Some st" "below l st" using 1(1) by (auto simp: tenant_ok_def split: option.splits)
  obtain a where c: "tenant_call mgr clock now call = (a, mgr')" using 1(4) e by (auto split: prod.splits)
  show ?case by (rule tenant_turn [OF st 1(3) [unfolded e] c]) (simp add: tenant_ok_def)
next
  case (2 before mgr e mgr')
  obtain clock now call where e: "e = (clock, now, call)" by (cases e)
  obtain st where st: "mgr tid = Some st" "below l st" using 2(1) by (auto simp: tenant_ok_def split: option.splits)
  obtain a where c: "tenant_call mgr clock now call = (a, mgr')" "\<not> (a \<and> call_tenant call = tid)"
    using 2(4) e by (auto split: prod.splits if_splits)
  show ?case
    by (rule tenant_turn [OF st 2(3) [unfolded e] c(1)])
      (use c(2) in \<open>auto simp: tenant_window_def idle_turn_def st e recent_pruned\<close>)
next
  case (3 before mgr e t mgr')
  obtain clock now call where e: "e = (clock, now, call)" by (cases e)
  obtain st where st: "mgr tid = Some st" "below l st" using 3(1) by (auto simp: tenant_ok_def split: option.splits)
  obtain a where c: "tenant_call mgr clock now call = (a, mgr')" "a" "call_tenant call = tid" "t = now"
    using 3(4) e by (auto split: prod.splits if_splits)
  have cap: "unat (max_in_window (limits st)) \<le> unat (max_in_window l)" using st(2) by (simp add: below_def word_le_nat_alt)
  have pos: "0 < secs 1" by (simp add: secs_def)
  show ?case
  proof (rule tenant_turn [OF st 3(3) [unfolded e] c(1)])
    fix st'
    assume st': "mgr' tid = Some st'" "a \<and> call_tenant call = tid \<Longrightarrow> admission st clock now st'"
    then have adm: "admission st clock now st'" using c by simp
    have "length (recent (now - secs 1) (recent_requests st)) < unat (max_in_window l)"
      using adm recent_length [of "now - secs 1" "recent_requests st"] cap by (auto simp: admission_def Let_def)
    moreover have "recent (now - secs 1) (recent_requests st') = recent (now - secs 1) (recent_requests st) @ [now]"
      using adm pos by (simp add: admission_def Let_def recent_append recent_pruned) (simp add: recent_def)
    ultimately show ?thesis using e c(4) st st' by (simp add: tenant_window_def)
  qed
qed (simp add: secs_def)

text \<open>A day: the counter is that of the requests let through since it was reset.\<close>

definition day_ok :: "string \<Rightarrow> TenantLimits \<Rightarrow> int \<Rightarrow> Tenants \<Rightarrow> int list \<Rightarrow> bool" where
  "day_ok tid l today mgr adm \<longleftrightarrow>
     (case mgr tid of
        None \<Rightarrow> False
      | Some st \<Rightarrow> below l st \<and> daily_reset_date st \<le> today \<and> (\<forall>d\<in>set adm. d \<le> daily_reset_date st)
          \<and> count_list adm (daily_reset_date st) \<le> unat (daily_requests st)
          \<and> (\<forall>d. count_list adm d \<le> unat (max_requests_per_day l)))"

lemma count_list_later: "\<forall>d\<in>set adm. d < (e :: int) \<Longrightarrow> count_list adm e = 0"
  by (metis count_notin less_irrefl)

lemma sorted_dates: "sorted ts \<Longrightarrow> sorted (map date_of ts)"
  unfolding sorted_map by (rule sorted_wrt_mono_rel) (auto simp: date_of_def secs_def zdiv_mono1)

lemma day_step_ok:
  assumes "day_ok tid l today mgr adm" "today \<le> date_of clock" "within_plan tid l (clock, now, call)"
  shows "case day_step tid mgr (clock, now, call) of
      (None, mgr') \<Rightarrow> day_ok tid l (date_of clock) mgr' adm
    | (Some d, mgr') \<Rightarrow> day_ok tid l (date_of clock) mgr' (adm @ [d])"
proof -
  obtain st where st: "mgr tid = Some st" "below l st" and le: "daily_reset_date st \<le> today"
    and adm: "\<forall>d\<in>set adm. d \<le> daily_reset_date st" "count_list adm (daily_reset_date st) \<le> unat (daily_requests st)"
      "\<And>d. count_list adm d \<le> unat (max_requests_per_day l)"
    using assms(1) by (auto simp: day_ok_def split: option.splits)
  obtain a mgr' where c: "tenant_call mgr clock now call = (a, mgr')" by force
  show ?thesis
  proof (rule tenant_turn [OF st assms(3) c])
    fix st'
    assume st': "mgr' tid = Some st'" "below l st'"
      and yes: "a \<and> call_tenant call = tid \<Longrightarrow> admission st clock now st'"
      and no: "\<not> (a \<and> call_tenant call = tid) \<Longrightarrow> idle_turn st clock now st'"
    have later: "count_list adm (date_of clock) = 0" if "daily_reset_date st < date_of clock"
      using that adm(1) by (intro count_list_later) auto
    show ?thesis
    proof (cases "a \<and> call_tenant call = tid")
      case False
      consider "daily_reset_date st' = daily_reset_date st" "daily_requests st' = daily_requests st"
        | "daily_reset_date st < date_of clock" "daily_reset_date st' = date_of clock" "daily_requests st' = 0"
        using no [OF False] by (auto simp: idle_turn_def)
      then have "day_ok tid l (date_of clock) mgr' adm"
      proof cases
        case 1
        then show ?thesis using st' le adm assms(2) by (simp add: day_ok_def)
      next
        case 2
        then show ?thesis using st' adm(1,3) later by (auto simp: day_ok_def)
      qed
      then show ?thesis using False c by auto
    next
      case True
      let ?day = "maybe_reset_daily st clock"
      note adm' = yes [OF True, unfolded admission_def Let_def]
      have same: "daily_reset_date ?day = date_of clock"
        using le assms(2) by (simp add: maybe_reset_daily_def Let_def)
      have count: "count_list adm (date_of clock) \<le> unat (daily_requests ?day)"
      proof (cases "daily_reset_date st < date_of clock")
        case True
        then show ?thesis using later by (simp add: maybe_reset_daily_def Let_def)
      next
        case False
        then have "daily_reset_date st = date_of clock" using le assms(2) by simp
        then show ?thesis using adm(2) by (simp add: maybe_reset_daily_def Let_def)
      qed
      have less: "unat (daily_requests ?day) < unat (max_requests_per_day (limits st))"
        using adm' by (simp add: word_less_nat_alt)
      have next_count: "unat (daily_requests ?day + 1) = unat (daily_requests ?day) + 1"
        using unat_inc [OF less] by simp
      have cap: "unat (max_requests_per_day (limits st)) \<le> unat (max_requests_per_day l)"
        using st(2) by (simp add: below_def word_le_nat_alt)
      have "\<forall>d\<in>set adm. d \<le> date_of clock" using adm(1) le assms(2) by auto
      then show ?thesis
        using True c st' adm' same count less next_count cap adm(3) by (auto simp: day_ok_def)
    qed
  qed
qed

lemma day_run_ok:
  assumes "day_ok tid l today mgr adm" "sorted (today # map (date_of \<circ> fst) es)" "\<forall>e\<in>set es. within_plan tid l e"
  shows "\<exists>later mgr'. day_ok tid l later mgr' (snd (admissions (day_step tid) (mgr, adm) es))"
  using assms
proof (induction es arbitrary: today mgr adm)
  case Nil
  then show ?case by auto
next
  case (Cons e es)
  obtain clock now call where e: "e = (clock, now, call)" by (cases e)
  have "today \<le> date_of clock" "within_plan tid l (clock, now, call)" using Cons.prems(2,3) e by auto
  from day_step_ok [OF Cons.prems(1) this] Cons.IH [of "date_of clock"] Cons.prems(2,3) show ?case
    by (auto simp: e split: prod.splits option.splits simp del: day_step.simps)
qed

text \<open>Requests in flight: let through and not yet recorded.\<close>

definition recorded :: "string \<Rightarrow> timed_call list \<Rightarrow> nat" where
  "recorded tid es = length (filter (\<lambda>(_, _, call). case call of RecordUsage t _ _ _ \<Rightarrow> t = tid | _ \<Rightarrow> False) es)"

definition tenant_flight :: "string \<Rightarrow> Tenants \<Rightarrow> nat" where
  "tenant_flight tid mgr = (case mgr tid of None \<Rightarrow> 0 | Some st \<Rightarrow> unat (concurrent_requests st))"

lemma flight_step:
  assumes "tenant_ok tid l before mgr" "within_plan tid l e" "tenant_flight tid mgr \<le> unat (max_concurrent_requests l)"
    "stamp_step tid mgr e = (adm, mgr')"
  shows "tenant_ok tid l later mgr'
    \<and> tenant_flight tid mgr' \<le> unat (max_concurrent_requests l)
    \<and> (if adm = None then 0 else 1) + tenant_flight tid mgr \<le> tenant_flight tid mgr' + recorded tid [e]"
proof -
  obtain clock now call where e: "e = (clock, now, call)" by (cases e)
  obtain st where st: "mgr tid = Some st" "below l st" using assms(1) by (auto simp: tenant_ok_def split: option.splits)
  obtain a where c: "tenant_call mgr clock now call = (a, mgr')" and adm: "adm \<noteq> None \<longleftrightarrow> a \<and> call_tenant call = tid"
    using assms(4) e by (auto split: prod.splits if_splits)
  have flight: "tenant_flight tid mgr = unat (concurrent_requests st)" using st by (simp add: tenant_flight_def)
  show ?thesis
  proof (rule tenant_turn [OF st assms(2) [unfolded e] c])
    fix st'
    assume st': "mgr' tid = Some st'" "below l st'"
      and yes: "a \<and> call_tenant call = tid \<Longrightarrow> admission st clock now st'"
      and no: "\<not> (a \<and> call_tenant call = tid) \<Longrightarrow> unat (concurrent_requests st') \<le> unat (concurrent_requests st)"
        "\<not> (a \<and> call_tenant call = tid) \<Longrightarrow>
          unat (concurrent_requests st) \<le> unat (concurrent_requests st')
            + (case call of RecordUsage t _ _ _ \<Rightarrow> (if t = tid then 1 else 0) | _ \<Rightarrow> 0)"
    have ok: "tenant_ok tid l later mgr'" and flight': "tenant_flight tid mgr' = unat (concurrent_requests st')"
      using st' by (simp_all add: tenant_ok_def tenant_flight_def)
    show ?thesis
    proof (cases "adm = None")
      case True
      have "(case call of RecordUsage t _ _ _ \<Rightarrow> (if t = tid then 1 else 0) | _ \<Rightarrow> 0) = recorded tid [e]"
        by (cases call) (auto simp: recorded_def e)
      then show ?thesis using True adm no ok flight flight' assms(3) by auto
    next
      case False
      have up: "concurrent_requests st' = concurrent_requests st + 1"
        and less: "unat (concurrent_requests st) < unat (max_concurrent_requests (limits st))"
        using yes False adm by (auto simp: admission_def Let_def word_less_nat_alt)
      have "unat (concurrent_requests st + 1) = unat (concurrent_requests st) + 1"
        using unat_inc [OF less] by simp
      moreover have "unat (max_concurrent_requests (limits st)) \<le> unat (max_concurrent_requests l)"
        using st(2) by (simp add: below_def word_le_nat_alt)
      ultimately show ?thesis using up less ok flight flight' False by simp
    qed
  qed
qed

lemma recorded_Cons: "recorded tid (e # es) = recorded tid [e] + recorded tid es"
  by (simp add: recorded_def)

lemma flight_run:
  assumes "tenant_ok tid l before mgr" "tenant_flight tid mgr \<le> unat (max_concurrent_requests l)"
    "\<forall>e\<in>set es. within_plan tid l e" "length adm \<le> tenant_flight tid mgr + r"
  shows "length (snd (admissions (stamp_step tid) (mgr, adm) es)) \<le> unat (max_concurrent_requests l) + r + recorded tid es"
  using assms
proof (induction es arbitrary: mgr adm r)
  case Nil
  then show ?case by (simp add: recorded_def)
next
  case (Cons e es)
  obtain t mgr' where st: "stamp_step tid mgr e = (t, mgr')" by force
  have turn: "tenant_ok tid l before mgr' \<and> tenant_flight tid mgr' \<le> unat (max_concurrent_requests l)
    \<and> (if t = None then 0 else 1) + tenant_flight tid mgr \<le> tenant_flight tid mgr' + recorded tid [e]"
    using Cons.prems(3) by (intro flight_step [OF Cons.prems(1) _ Cons.prems(2) st]) simp
  show ?case
    using turn st Cons.prems(3,4) Cons.IH [of mgr' adm "r + recorded tid [e]"]
      Cons.IH [of mgr' "adm @ [the t]" "r + recorded tid [e]"] recorded_Cons [of tid e es]
    by (cases t) auto
qed

text \<open>C11: for a tenant registered with a plan, then neither registered again nor moved to a plan that
  allows more, and clocks that do not go back, whatever other calls come for whatever tenants: no
  half-open interval of a second has more of its requests let through than the plan's rate rounded up to a
  whole number, no day more than the plan's requests per day, and at most as many as the plan allows in
  flight have been let through and not yet been recorded.\<close>

theorem tenant_limits_respected:
  assumes "mgr tid = Some (tenant_state_new p start)" "\<forall>e\<in>set es. within_plan tid (plan_limits p) e"
    "sorted (map (fst \<circ> snd) es)" "sorted (start # map fst es)"
  shows "in_window (secs 1) t (snd (admissions (stamp_step tid) (mgr, []) es)) \<le> unat (max_in_window (plan_limits p))
    \<and> count_list (snd (admissions (day_step tid) (mgr, []) es)) d \<le> unat (max_requests_per_day (plan_limits p))
    \<and> length (snd (admissions (stamp_step tid) (mgr, []) es)) \<le> unat (max_concurrent_requests (plan_limits p)) + recorded tid es"
proof (intro conjI)
  let ?l = "plan_limits p"
  have ok: "tenant_ok tid ?l now mgr" for now
    using assms(1) by (simp add: tenant_ok_def tenant_state_new_def below_def)
  have "tenant_window tid mgr = []" "tenant_flight tid mgr = 0"
    using assms(1) by (simp_all add: tenant_window_def tenant_flight_def tenant_state_new_def)
  note start = this
  obtain now where "sorted (now # map (\<lambda>e. fst (snd e)) es)"
    using assms(3) by (cases es) (force simp: comp_def intro: that)+
  then show "in_window (secs 1) t (snd (admissions (stamp_step tid) (mgr, []) es)) \<le> unat (max_in_window ?l)"
    using second.rate_respected ok start(1) assms(2) by blast
  have "sorted (date_of start # map (date_of \<circ> fst) es)"
    using sorted_dates [of "start # map fst es"] assms(4) by (simp add: comp_def)
  moreover have "day_ok tid ?l (date_of start) mgr []"
    using assms(1) by (simp add: day_ok_def tenant_state_new_def below_def)
  ultimately obtain later mgr' where "day_ok tid ?l later mgr' (snd (admissions (day_step tid) (mgr, []) es))"
    using day_run_ok assms(2) by blast
  then show "count_list (snd (admissions (day_step tid) (mgr, []) es)) d \<le> unat (max_requests_per_day ?l)"
    by (auto simp: day_ok_def split: option.splits)
  show "length (snd (admissions (stamp_step tid) (mgr, []) es)) \<le> unat (max_concurrent_requests ?l) + recorded tid es"
    using flight_run [OF ok, where adm = "[]" and es = es and r = 0] start(2) assms(2) by simp
qed

definition custom_plan :: TenantPlan where
  "custom_plan = Custom (limits_free\<lparr>max_requests_per_day := 3, max_requests_per_second := lit 2, max_concurrent_requests := 4\<rparr>)"

definition tenant_calls :: "timed_call list" where
  "tenant_calls = [(0, 0, CheckRequest ''t''), (1, 1, CheckRequest ''t''), (2, 2, CheckRequest ''t''),
     (secs 2, secs 2, CheckRequest ''t''), (secs 3, secs 3, CheckRequest ''t''),
     (secs 86401, secs 86401, CheckRequest ''t'')]"

lemmas tenant_eval = tenant_calls_def custom_plan_def tenant_state_new_def check_request_def check_state_def
  maybe_reset_daily_def prune_sliding_window_def date_of_def prune_def secs_def limits_free_def max_in_window_def
  lit_def signed_of_def word_le_nat_alt word_less_nat_alt Let_def

lemma tenant_run:
  "snd (admissions (stamp_step ''t'') ([''t'' \<mapsto> tenant_state_new custom_plan 0], []) tenant_calls)
     = [0, 1, secs 2, secs 86401]
   \<and> snd (admissions (day_step ''t'') ([''t'' \<mapsto> tenant_state_new custom_plan 0], []) tenant_calls) = [0, 0, 0, 1]"
  by (simp add: tenant_eval)

theorem tenant_limits_respected_witness:
  "in_window (secs 1) 2 (snd (admissions (stamp_step ''t'') ([''t'' \<mapsto> tenant_state_new custom_plan 0], []) tenant_calls)) \<le> 2
    \<and> count_list (snd (admissions (day_step ''t'') ([''t'' \<mapsto> tenant_state_new custom_plan 0], []) tenant_calls)) 0 \<le> 3
    \<and> length (snd (admissions (stamp_step ''t'') ([''t'' \<mapsto> tenant_state_new custom_plan 0], []) tenant_calls)) \<le> 4
    \<and> snd (admissions (stamp_step ''t'') ([''t'' \<mapsto> tenant_state_new custom_plan 0], []) tenant_calls) = [0, 1, secs 2, secs 86401]"
proof -
  have "\<forall>e\<in>set tenant_calls. within_plan ''t'' (plan_limits custom_plan) e" by (simp add: tenant_calls_def)
  moreover have "sorted (map (fst \<circ> snd) tenant_calls)" "sorted (0 # map fst tenant_calls)"
    by (simp_all add: tenant_calls_def secs_def)
  ultimately show ?thesis
    using tenant_limits_respected [of "[''t'' \<mapsto> tenant_state_new custom_plan 0]" "''t''" custom_plan 0 tenant_calls 2 0]
      tenant_run by (simp add: custom_plan_def max_in_window_def lit_def signed_of_def recorded_def tenant_calls_def)
qed

section \<open>The budget\<close>

text \<open>Calls after which a budget that is used up stays used up.\<close>

fun spends :: "string \<Rightarrow> timed_call \<Rightarrow> bool" where
  "spends tid (clock, now, RegisterTenant t p) \<longleftrightarrow> t \<noteq> tid"
| "spends tid (clock, now, UpgradePlan t p) \<longleftrightarrow> t \<noteq> tid"
| "spends tid (clock, now, ResetMonthly t) \<longleftrightarrow> t \<noteq> tid"
| "spends tid (clock, now, RecordUsage t i n c) \<longleftrightarrow> (t = tid \<longrightarrow> f64_ok c \<and> lit 0 \<le> c)"
| "spends tid (clock, now, _) \<longleftrightarrow> True"

definition over_budget :: "string \<Rightarrow> Tenants \<Rightarrow> bool" where
  "over_budget tid mgr \<longleftrightarrow>
     (case mgr tid of
        None \<Rightarrow> False
      | Some st \<Rightarrow> f64_ok (monthly_cost_usd st) \<and> lit 0 < max_cost_per_month_usd (limits st)
          \<and> max_cost_per_month_usd (limits st) \<le> monthly_cost_usd st)"

lemma lit_zero: "lit 0 = 0"
  by (simp add: lit_def zero_f64_def)

lemma f64_less_imp_le: "x < y \<Longrightarrow> x \<le> y" for x y :: f64
  by (cases x; cases y) auto

lemma spend_more:
  assumes "f64_ok cost" "f64_ok c" "lit 0 < cap" "cap \<le> cost" "lit 0 \<le> c"
  shows "f64_ok (cost + c)" and "cap \<le> cost + c"
proof -
  have "lit 0 \<le> cost" using assms(3,4) f64_le_trans f64_less_imp_le by blast
  then have "cost \<le> cost + c" using f64_add_pos(1) assms(1,5) by (simp add: lit_zero)
  then show "cap \<le> cost + c" using assms(4) f64_le_trans by blast
  show "f64_ok (cost + c)" using assms(1,2) by (rule plus_f64_ok)
qed

lemma over_budget_step:
  assumes "over_budget tid mgr" "spends tid e" "stamp_step tid mgr e = (r, mgr')"
  shows "r = None \<and> over_budget tid mgr'"
proof -
  obtain clock now call where e: "e = (clock, now, call)" by (cases e)
  obtain a where c: "tenant_call mgr clock now call = (a, mgr')" "r = (if a \<and> call_tenant call = tid then Some now else None)"
    using assms(3) e by (auto split: prod.splits)
  obtain st where st: "mgr tid = Some st" "f64_ok (monthly_cost_usd st)" "lit 0 < max_cost_per_month_usd (limits st)"
    "max_cost_per_month_usd (limits st) \<le> monthly_cost_usd st"
    using assms(1) by (auto simp: over_budget_def split: option.splits)
  show ?thesis
  proof (cases "call_tenant call = tid")
    case False
    then show ?thesis using c other_tenant [OF False c(1)] assms(1) by (simp add: over_budget_def)
  next
    case True
    then show ?thesis
    proof (cases call)
      case (CheckRequest t)
      then show ?thesis
        using c True st check_own [of mgr tid st clock now] by (fastforce simp: over_budget_def split: prod.splits if_splits)
    next
      case (RecordUsage t i n x)
      then show ?thesis
        using c True st assms(2) e spend_more [OF st(2) _ st(3,4), of x]
        by (auto simp: over_budget_def record_usage_def)
    next
      case (GetStatus t)
      then show ?thesis using c True st by (auto simp: over_budget_def get_status_def Let_def)
    qed (use assms(2) e in auto)
  qed
qed

text \<open>C23: once the costs recorded for a tenant have reached a monthly budget above 0 (0 is documented as
  no limit), no request of it is let through, whatever is recorded that is not negative, until its month is
  reset, its plan changed or the tenant registered again; the sum of the costs is rounded as \<open>f64\<close> rounds.\<close>

theorem over_budget_refused:
  assumes "over_budget tid mgr" "\<forall>e\<in>set es. spends tid e"
  shows "snd (admissions (stamp_step tid) (mgr, []) es) = []
    \<and> over_budget tid (fst (admissions (stamp_step tid) (mgr, []) es))"
  using assms
proof (induction es arbitrary: mgr)
  case (Cons e es)
  obtain r mgr' where st: "stamp_step tid mgr e = (r, mgr')" by force
  have "r = None \<and> over_budget tid mgr'" using Cons.prems(2) by (intro over_budget_step [OF Cons.prems(1) _ st]) simp
  then show ?case using Cons.IH [of mgr'] Cons.prems(2) st by simp
qed simp

definition spent :: Tenants where
  "spent = record_usage [''t'' \<mapsto> tenant_state_new Pro 0] ''t'' 1 1 (lit 50)"

theorem over_budget_refused_witness:
  "snd (admissions (stamp_step ''t'') (spent, []) [(0, 0, CheckRequest ''t''), (0, 0, RecordUsage ''t'' 1 1 (lit 2)), (0, 0, CheckRequest ''t'')]) = []"
proof -
  have "over_budget ''t'' spent"
    by (simp add: over_budget_def spent_def record_usage_def tenant_state_new_def limits_pro_def lit_def signed_of_def)
  then show ?thesis
    using over_budget_refused [of "''t''" spent "[(0, 0, CheckRequest ''t''), (0, 0, RecordUsage ''t'' 1 1 (lit 2)), (0, 0, CheckRequest ''t'')]"]
    by (simp add: lit_def signed_of_def del: stamp_step.simps admissions.simps)
qed

text \<open>A cost that is not a number is added like any other; after it no budget is ever used up.\<close>

lemma nan_cost_disables_budget:
  assumes "mgr tid = Some st"
  shows "\<exists>st'. record_usage mgr tid i n NaN tid = Some st' \<and> monthly_cost_usd st' = NaN
    \<and> \<not> (max_cost_per_month_usd (limits st') \<le> monthly_cost_usd st') \<and> monthly_cost_usd st' + c = NaN"
  using assms by (simp add: record_usage_def)

section \<open>Utilization\<close>

lemma lit_le: "lit 0 \<le> lit 0" "lit 0 \<le> lit 100"
  by (simp_all add: lit_def signed_of_def)

lemma utilization_bounds: "lit 0 \<le> utilization_percent st \<and> utilization_percent st \<le> lit 100"
proof -
  have up: "lit 0 \<le> m \<Longrightarrow> lit 0 \<le> (if c then fmax m x else m)" for m x c
    using fmax_ge [of m x] f64_le_trans [of "lit 0" m "fmax m x"] f64_le_not_NaN [of "lit 0" m] by simp
  have "lit 100 \<noteq> NaN" using f64_le_not_NaN lit_le(2) by blast
  then show ?thesis
    unfolding utilization_percent_def Let_def by (intro conjI fmin_ge fmin_le up lit_le)
qed

end
