(* ===== verification/RegionRouter.thy ===== *)
theory RegionRouter
  imports RustStd
begin

text \<open>
  \<open>argentor-gateway/src/region_router.rs\<close>: which provider and region a request goes to, by the
  classification of its data and its tenant. The first rule that matches decides, those of the tenant
  before the global ones.
\<close>

datatype DataClassification = Public | Internal | Confidential | Restricted

fun sensitivity :: "DataClassification \<Rightarrow> u8" where
  "sensitivity Public = 0"
| "sensitivity Internal = 1"
| "sensitivity Confidential = 2"
| "sensitivity Restricted = 3"

fun show_classification :: "DataClassification \<Rightarrow> string" where
  "show_classification Public = ''Public''"
| "show_classification Internal = ''Internal''"
| "show_classification Confidential = ''Confidential''"
| "show_classification Restricted = ''Restricted''"

record RegionRule =
  tenant_id :: "string option"
  data_classification :: DataClassification
  allowed_regions :: "string list"
  allowed_list :: "string list"
  blocked_list :: "string list"

record RoutingDecision =
  allowed :: bool
  provider :: "string option"
  region :: string
  reason :: string

record RegionRouter =
  rules :: "RegionRule list"
  default_region :: string

definition router_new :: "string \<Rightarrow> RegionRouter" where
  "router_new r = \<lparr>rules = [], default_region = r\<rparr>"

definition add_rule :: "RegionRouter \<Rightarrow> RegionRule \<Rightarrow> RegionRouter" where
  "add_rule router rule = router\<lparr>rules := rules router @ [rule]\<rparr>"

section \<open>Rules that apply\<close>

text \<open>The loop over the rules: those of the tenant, and the global ones.\<close>

definition sort_rule ::
  "string option \<Rightarrow> DataClassification \<Rightarrow> RegionRule list \<times> RegionRule list \<Rightarrow> RegionRule
     \<Rightarrow> RegionRule list \<times> RegionRule list" where
  "sort_rule tid cls acc rule =
     (if data_classification rule \<noteq> cls then acc
      else case (tenant_id rule, tid) of
        (Some a, Some b) \<Rightarrow> if a = b then (fst acc @ [rule], snd acc) else acc
      | (None, _) \<Rightarrow> (fst acc, snd acc @ [rule])
      | (Some a, None) \<Rightarrow> acc)"

definition applicable :: "RegionRouter \<Rightarrow> string option \<Rightarrow> DataClassification \<Rightarrow> RegionRule list" where
  "applicable router tid cls =
     (let (tenant_rules, global_rules) = foldl (sort_rule tid cls) ([], []) (rules router)
      in if tenant_rules \<noteq> [] then tenant_rules else global_rules)"

text \<open>Whether a list names a provider, in any case.\<close>

definition names :: "string list \<Rightarrow> string \<Rightarrow> bool" where
  "names ps p \<longleftrightarrow> (\<exists>q\<in>set ps. to_lowercase q = to_lowercase p)"

definition rule_region :: "RegionRouter \<Rightarrow> RegionRule \<Rightarrow> string" where
  "rule_region router rule =
     (case allowed_regions rule of [] \<Rightarrow> default_region router | r # _ \<Rightarrow> r)"

section \<open>Routing\<close>

definition route :: "RegionRouter \<Rightarrow> string option \<Rightarrow> DataClassification \<Rightarrow> string \<Rightarrow> RoutingDecision" where
  "route router tid cls preferred =
     (case applicable router tid cls of
        [] \<Rightarrow>
          \<lparr>allowed = True, provider = Some preferred, region = default_region router,
           reason = ''No rules matched for classification='' @ show_classification cls @ ''; using defaults''\<rparr>
      | rule # _ \<Rightarrow>
          if names (blocked_list rule) preferred
          then (case find (\<lambda>p. \<not> names (blocked_list rule) p) (allowed_list rule) of
              Some alt \<Rightarrow>
                \<lparr>allowed = True, provider = Some alt, region = rule_region router rule,
                 reason = ''Provider '' @ [CHR 0x27] @ preferred @ [CHR 0x27] @ '' blocked for '' @ show_classification cls
                   @ '' data; rerouted to '' @ [CHR 0x27] @ alt @ [CHR 0x27]\<rparr>
            | None \<Rightarrow>
                \<lparr>allowed = False, provider = None, region = rule_region router rule,
                 reason = ''Provider '' @ [CHR 0x27] @ preferred @ [CHR 0x27] @ '' blocked for '' @ show_classification cls
                   @ '' data and no alternative providers available''\<rparr>)
          else if allowed_list rule \<noteq> [] \<and> \<not> names (allowed_list rule) preferred
          then (case allowed_list rule of
              alt # _ \<Rightarrow>
                \<lparr>allowed = True, provider = Some alt, region = rule_region router rule,
                 reason = ''Provider '' @ [CHR 0x27] @ preferred @ [CHR 0x27] @ '' not in allowlist for ''
                   @ show_classification cls @ '' data; rerouted to '' @ [CHR 0x27] @ alt @ [CHR 0x27]\<rparr>
            | [] \<Rightarrow>
                \<lparr>allowed = False, provider = None, region = default_region router,
                 reason = ''Provider '' @ [CHR 0x27] @ preferred @ [CHR 0x27] @ '' not in allowlist for ''
                   @ show_classification cls @ '' data''\<rparr>)
          else
            \<lparr>allowed = True, provider = Some preferred, region = rule_region router rule,
             reason = ''Allowed: provider='' @ [CHR 0x27] @ preferred @ [CHR 0x27] @ '', classification=''
               @ show_classification cls\<rparr>)"

text \<open>One rule's lists into the lists that were gathered, without repeating a name.\<close>

definition add_names :: "string list \<Rightarrow> string list \<Rightarrow> string list" where
  "add_names acc ps = foldl (\<lambda>acc p. if names acc p then acc else acc @ [p]) acc ps"

definition allowed_providers :: "RegionRouter \<Rightarrow> string option \<Rightarrow> DataClassification \<Rightarrow> string list" where
  "allowed_providers router tid cls =
     (let rs = applicable router tid cls
      in if rs = [] then []
         else
           let (yes, no) = foldl (\<lambda>(yes, no) rule. (add_names yes (allowed_list rule), add_names no (blocked_list rule)))
                 ([], []) rs
           in filter (\<lambda>a. \<not> names no a) yes)"

section \<open>Validation\<close>

definition rule_label :: "nat \<Rightarrow> RegionRule \<Rightarrow> string" where
  "rule_label i rule =
     (case tenant_id rule of
        Some tid \<Rightarrow> ''Rule #'' @ show_nat (i + 1) @ '' (tenant='' @ tid @ '', class=''
          @ show_classification (data_classification rule) @ '')''
      | None \<Rightarrow> ''Rule #'' @ show_nat (i + 1) @ '' (global, class=''
          @ show_classification (data_classification rule) @ '')'')"

definition rule_issues :: "nat \<Rightarrow> RegionRule \<Rightarrow> string list" where
  "rule_issues i rule =
     (let label = rule_label i rule
      in (if allowed_regions rule = [] then [label @ '': allowed_regions is empty''] else [])
         @ List.map_filter (\<lambda>p. if names (blocked_list rule) p
             then Some (label @ '': provider '' @ [CHR 0x27] @ p @ [CHR 0x27] @ '' appears in both allowed and blocked lists'')
             else None) (allowed_list rule))"

definition duplicate_issue :: "RegionRule list \<Rightarrow> nat \<Rightarrow> nat \<Rightarrow> string option" where
  "duplicate_issue rs i j =
     (let a = rs ! i; b = rs ! j
      in if tenant_id a = tenant_id b \<and> data_classification a = data_classification b
         then Some (''Duplicate rules #'' @ show_nat (i + 1) @ '' and #'' @ show_nat (j + 1) @ '' for (''
           @ (case tenant_id a of
                Some tid \<Rightarrow> ''tenant='' @ tid @ '', class='' @ show_classification (data_classification a)
              | None \<Rightarrow> ''global, class='' @ show_classification (data_classification a)) @ '')'')
         else None)"

definition validate :: "RegionRouter \<Rightarrow> string list" where
  "validate router =
     (let rs = rules router
      in concat (map (\<lambda>(i, rule). rule_issues i rule) (List.enumerate 0 rs))
         @ concat (map (\<lambda>i. List.map_filter (duplicate_issue rs i) [i + 1..<length rs]) [0..<length rs]))"

section \<open>What a decision respects\<close>

lemma names_refl: "p \<in> set ps \<Longrightarrow> names ps p"
  by (auto simp: names_def)

text \<open>The rules that apply, in their order.\<close>

definition matching :: "string option \<Rightarrow> DataClassification \<Rightarrow> RegionRule list \<Rightarrow> RegionRule list" where
  "matching tid cls = filter (\<lambda>r. data_classification r = cls \<and> tenant_id r = tid)"

lemma sort_rules:
  "foldl (sort_rule tid cls) acc rs =
     (fst acc @ (if tid = None then [] else matching tid cls rs), snd acc @ matching None cls rs)"
  by (induction rs arbitrary: acc) (auto simp: sort_rule_def matching_def split: option.splits)

lemma applicable_matching:
  "applicable router tid cls =
     (if tid \<noteq> None \<and> matching tid cls (rules router) \<noteq> [] then matching tid cls (rules router)
      else matching None cls (rules router))"
  by (simp add: applicable_def sort_rules)

text \<open>What a rule lets through.\<close>

definition obeys :: "RegionRouter \<Rightarrow> RegionRule \<Rightarrow> RoutingDecision \<Rightarrow> bool" where
  "obeys router rule d \<longleftrightarrow>
     (case provider d of
        None \<Rightarrow> \<not> allowed d
      | Some p \<Rightarrow> allowed d \<and> \<not> names (blocked_list rule) p \<and> (allowed_list rule = [] \<or> names (allowed_list rule) p))
     \<and> region d = rule_region router rule"

text \<open>The other provider for one that is blocked.\<close>

lemma find_other:
  "case find P xs of None \<Rightarrow> \<forall>x\<in>set xs. \<not> P x | Some x \<Rightarrow> x \<in> set xs \<and> P x"
  by (induction xs) (auto split: option.splits)

lemma route_obeys:
  assumes "applicable router tid cls = rule # rs" "\<forall>p\<in>set (allowed_list rule). \<not> names (blocked_list rule) p"
  shows "obeys router rule (route router tid cls preferred)"
proof (cases "names (blocked_list rule) preferred")
  case True
  show ?thesis
    using True assms(1) find_other [where P = "\<lambda>p. \<not> names (blocked_list rule) p" and xs = "allowed_list rule"]
    by (auto simp: route_def obeys_def names_refl split: option.splits)
next
  case False
  show ?thesis
  proof (cases "allowed_list rule \<noteq> [] \<and> \<not> names (allowed_list rule) preferred")
    case True
    then obtain p ps where "allowed_list rule = p # ps" by (cases "allowed_list rule") auto
    then show ?thesis
      using True False assms names_refl [of p "p # ps"] by (simp add: route_def obeys_def)
  next
    case other: False
    then show ?thesis using False assms(1) by (auto simp: route_def obeys_def)
  qed
qed

text \<open>Refused requests: the preferred provider is blocked and there is no other.\<close>

lemma route_refuses:
  assumes "applicable router tid cls = rule # rs"
  shows "allowed (route router tid cls preferred) \<longleftrightarrow>
    \<not> (names (blocked_list rule) preferred \<and> (\<forall>p\<in>set (allowed_list rule). names (blocked_list rule) p))"
proof (cases "names (blocked_list rule) preferred")
  case True
  then show ?thesis
    using assms find_other [where P = "\<lambda>p. \<not> names (blocked_list rule) p" and xs = "allowed_list rule"]
    by (auto simp: route_def split: option.splits)
next
  case False
  then show ?thesis using assms by (auto simp: route_def split: list.splits)
qed

section \<open>A validated router\<close>

lemma map_filter_Nil: "List.map_filter f xs = [] \<longleftrightarrow> (\<forall>x\<in>set xs. f x = None)"
  by (induction xs) (auto simp: List.map_filter_def)

lemma rule_issues_none:
  "rule_issues i rule = [] \<longleftrightarrow>
     allowed_regions rule \<noteq> [] \<and> (\<forall>p\<in>set (allowed_list rule). \<not> names (blocked_list rule) p)"
  by (auto simp: rule_issues_def Let_def map_filter_Nil)

lemma validate_rules:
  assumes "validate router = []" "rule \<in> set (rules router)"
  shows "allowed_regions rule \<noteq> [] \<and> (\<forall>p\<in>set (allowed_list rule). \<not> names (blocked_list rule) p)"
proof -
  obtain i where "i < length (rules router)" "rule = rules router ! i" using assms(2) by (auto simp: in_set_conv_nth)
  then have "(i, rule) \<in> set (List.enumerate 0 (rules router))" by (simp add: in_set_enumerate_eq)
  then have "rule_issues i rule = []" using assms(1) by (fastforce simp: validate_def Let_def)
  then show ?thesis by (simp add: rule_issues_none)
qed

lemma validate_distinct:
  assumes "validate router = []" "i < j" "j < length (rules router)"
  shows "tenant_id (rules router ! i) \<noteq> tenant_id (rules router ! j)
    \<or> data_classification (rules router ! i) \<noteq> data_classification (rules router ! j)"
proof -
  have "List.map_filter (duplicate_issue (rules router) i) [i + 1..<length (rules router)] = []"
    using assms by (auto simp: validate_def Let_def)
  then have "duplicate_issue (rules router) i j = None" using assms(2,3) by (auto simp: map_filter_Nil)
  then show ?thesis by (auto simp: duplicate_issue_def Let_def split: if_splits)
qed

lemma filter_single:
  assumes "\<And>i j. i < j \<Longrightarrow> j < length xs \<Longrightarrow> \<not> (P (xs ! i) \<and> P (xs ! j))"
  shows "length (filter P xs) \<le> 1"
  using assms
proof (induction xs)
  case (Cons x xs)
  show ?case
  proof (cases "P x")
    case True
    have "\<not> P (xs ! j)" if "j < length xs" for j using Cons.prems [of 0 "Suc j"] that True by simp
    then have "filter P xs = []" by (auto simp: filter_empty_conv in_set_conv_nth)
    then show ?thesis by simp
  next
    case False
    have "\<not> (P (xs ! i) \<and> P (xs ! j))" if "i < j" "j < length xs" for i j
      using Cons.prems [of "Suc i" "Suc j"] that by simp
    then show ?thesis using Cons.IH False by simp
  qed
qed simp

lemma validated_one_rule:
  assumes "validate router = []"
  shows "length (matching tid cls (rules router)) \<le> 1"
  unfolding matching_def
proof (rule filter_single, rule notI)
  fix i j
  assume "i < j" "j < length (rules router)"
    and "(data_classification (rules router ! i) = cls \<and> tenant_id (rules router ! i) = tid)
      \<and> data_classification (rules router ! j) = cls \<and> tenant_id (rules router ! j) = tid"
  then show False using validate_distinct [OF assms, of i j] by simp
qed

lemma applicable_validated:
  assumes "validate router = []"
  shows "applicable router tid cls = [] \<or> (\<exists>rule\<in>set (rules router). applicable router tid cls = [rule]
    \<and> data_classification rule = cls \<and> tenant_id rule \<in> {None, tid})"
proof -
  have one: "xs = [] \<or> (\<exists>r\<in>set (rules router). xs = [r] \<and> data_classification r = cls \<and> tenant_id r = t)"
    if "xs = matching t cls (rules router)" for xs t
  proof (cases xs)
    case (Cons r rs)
    then have "length (r # rs) \<le> 1" using validated_one_rule [OF assms] that by metis
    moreover have "r \<in> set (matching t cls (rules router))" using Cons that by (metis list.set_intros(1))
    ultimately show ?thesis using Cons by (auto simp: matching_def)
  qed simp
  show ?thesis using one [of _ tid] one [of _ None] unfolding applicable_matching by (metis insertCI)
qed

lemma add_names_disjoint:
  "set (add_names acc ps) \<subseteq> set acc \<union> set ps \<and> (\<forall>p. names (add_names acc ps) p \<longleftrightarrow> names acc p \<or> names ps p)"
proof (induction ps arbitrary: acc)
  case (Cons q ps)
  show ?case
    using Cons.IH [of acc] Cons.IH [of "acc @ [q]"]
    by (auto simp: add_names_def names_def)
qed (simp add: add_names_def names_def)

lemma allowed_providers_one:
  assumes "applicable router tid cls = [rule]" "\<forall>p\<in>set (allowed_list rule). \<not> names (blocked_list rule) p"
  shows "names (allowed_providers router tid cls) p \<longleftrightarrow> names (allowed_list rule) p"
proof -
  have "filter (\<lambda>a. \<not> names (add_names [] (blocked_list rule)) a) (add_names [] (allowed_list rule))
      = add_names [] (allowed_list rule)"
    using assms(2) add_names_disjoint [of "[]" "allowed_list rule"] add_names_disjoint [of "[]" "blocked_list rule"]
    by (auto simp: filter_id_conv names_def)
  then show ?thesis
    using assms(1) add_names_disjoint [of "[]" "allowed_list rule"] by (simp add: allowed_providers_def names_def)
qed

text \<open>C25: a router whose validation finds nothing sends every request that a rule covers to a provider
  the rule does not block and, if it lists any, allows, in the first of its regions. It refuses only a
  provider that is blocked, by a rule that allows none. For a rule that lists allowed providers,
  \<open>allowed_providers\<close> names just those; for one that lists none it is empty, although \<open>route\<close> then lets
  every provider through that is not blocked, and although the documentation has the validation report
  such a rule when it blocks any.\<close>

theorem validated_routes:
  assumes "validate router = []" "applicable router tid cls \<noteq> []"
  shows "\<exists>rule\<in>set (rules router). data_classification rule = cls \<and> tenant_id rule \<in> {None, tid}
    \<and> obeys router rule (route router tid cls preferred)
    \<and> (\<exists>rs. allowed_regions rule = region (route router tid cls preferred) # rs)
    \<and> (allowed (route router tid cls preferred) \<longleftrightarrow> allowed_list rule \<noteq> [] \<or> \<not> names (blocked_list rule) preferred)
    \<and> (\<forall>p. names (allowed_providers router tid cls) p \<longleftrightarrow> names (allowed_list rule) p)
    \<and> (allowed_list rule = [] \<longrightarrow> allowed_providers router tid cls = []
         \<and> (\<forall>p. provider (route router tid cls p) = (if names (blocked_list rule) p then None else Some p)))"
proof -
  obtain rule where rule: "rule \<in> set (rules router)" "applicable router tid cls = [rule]"
    "data_classification rule = cls \<and> tenant_id rule \<in> {None, tid}"
    using applicable_validated [OF assms(1)] assms(2) by blast
  have valid: "allowed_regions rule \<noteq> []" "\<forall>p\<in>set (allowed_list rule). \<not> names (blocked_list rule) p"
    using validate_rules [OF assms(1) rule(1)] by auto
  have ob: "obeys router rule (route router tid cls preferred)" by (rule route_obeys [OF rule(2) valid(2)])
  then have "\<exists>rs. allowed_regions rule = region (route router tid cls preferred) # rs"
    using valid(1) by (auto simp: obeys_def rule_region_def split: list.splits)
  moreover have "allowed (route router tid cls preferred) \<longleftrightarrow> allowed_list rule \<noteq> [] \<or> \<not> names (blocked_list rule) preferred"
    using route_refuses [OF rule(2)] valid(2) by (cases "allowed_list rule") auto
  moreover have "allowed_list rule = [] \<longrightarrow> allowed_providers router tid cls = []
      \<and> (\<forall>p. provider (route router tid cls p) = (if names (blocked_list rule) p then None else Some p))"
    using rule(2) by (simp add: allowed_providers_def add_names_def route_def)
  ultimately show ?thesis using rule ob allowed_providers_one [OF rule(2) valid(2)] by blast
qed

definition eu_router :: RegionRouter where
  "eu_router = add_rule (add_rule (router_new ''us-east-1'')
     \<lparr>tenant_id = None, data_classification = Restricted, allowed_regions = [''eu-west-1'', ''eu-central-1''],
      allowed_list = [''claude''], blocked_list = [''openai'']\<rparr>)
     \<lparr>tenant_id = Some ''t'', data_classification = Restricted, allowed_regions = [''eu-north-1''],
      allowed_list = [], blocked_list = [''Claude'']\<rparr>"

lemma names_simps: "names [] p = False" "names (q # ps) p = (to_lowercase q = to_lowercase p \<or> names ps p)"
  by (auto simp: names_def)

theorem validated_routes_witness:
  "provider (route eu_router None Restricted ''OpenAI'') = Some ''claude''
    \<and> \<not> allowed (route eu_router (Some ''t'') Restricted ''claude'')
    \<and> (\<exists>rule\<in>set (rules eu_router). obeys eu_router rule (route eu_router None Restricted ''OpenAI''))"
proof -
  have "validate eu_router = []"
    by code_simp
  moreover have "applicable eu_router None Restricted \<noteq> []"
    by (simp add: eu_router_def add_rule_def router_new_def applicable_def sort_rule_def)
  moreover have "provider (route eu_router None Restricted ''OpenAI'') = Some ''claude''"
    "\<not> allowed (route eu_router (Some ''t'') Restricted ''claude'')"
    by code_simp+
  ultimately show ?thesis using validated_routes [of eu_router None Restricted "''OpenAI''"] by blast
qed

text \<open>The documentation of \<open>validate\<close> lists rules that allow no provider and block some among what it
  reports; it does not report them, and there \<open>allowed_providers\<close> and \<open>route\<close> disagree.\<close>

lemma block_only_rule_unreported:
  "let router = add_rule (router_new ''us'') \<lparr>tenant_id = None, data_classification = Restricted,
       allowed_regions = [''eu''], allowed_list = [], blocked_list = [''openai'']\<rparr>
   in validate router = [] \<and> allowed_providers router None Restricted = []
      \<and> provider (route router None Restricted ''claude'') = Some ''claude''"
  by code_simp

text \<open>Without the validation a provider that is not in the list of the allowed ones is replaced by the
  first of them, even a blocked one.\<close>

lemma reroute_to_blocked:
  "route (add_rule (router_new ''us'') \<lparr>tenant_id = None, data_classification = Restricted, allowed_regions = [''eu''],
       allowed_list = [''openai'', ''claude''], blocked_list = [''openai'']\<rparr>) None Restricted ''gemini''
   = \<lparr>allowed = True, provider = Some ''openai'', region = ''eu'',
      reason = ''Provider '' @ [CHR 0x27] @ ''gemini'' @ [CHR 0x27] @ '' not in allowlist for Restricted data; rerouted to ''
        @ [CHR 0x27] @ ''openai'' @ [CHR 0x27]\<rparr>"
  by (simp add: add_rule_def router_new_def route_def applicable_def sort_rule_def names_simps to_lowercase_def
      lower_char_def rule_region_def)

end
