(* ===== verification/MessageBus.thy ===== *)
theory MessageBus
  imports TaskTypes
begin

text \<open>
  \<open>argentor-orchestrator/src/message_bus.rs\<close>: messages between agents, kept per role until the role
  receives them. The specification is a log of all messages with a position per role up to which its
  messages were taken, and one position for the broadcasts. The channel that notifies subscribers
  (\<open>tokio::sync::broadcast\<close>) is not modelled.
\<close>

datatype MessageType =
    Query
  | Response
  | StatusUpdate
  | ArtifactNotification
  | ErrorReport
  | CustomType string

datatype BroadcastTarget = Direct AgentRole | Broadcast | Role AgentRole

record AgentMessage =
  message_id :: Uuid
  sender :: AgentRole
  recipient :: BroadcastTarget
  content :: string
  message_type :: MessageType
  timestamp :: DateTime
  correlation_id :: "Uuid option"

definition message_new ::
  "Uuid \<Rightarrow> DateTime \<Rightarrow> AgentRole \<Rightarrow> BroadcastTarget \<Rightarrow> string \<Rightarrow> MessageType \<Rightarrow> AgentMessage" where
  "message_new uuid now from to c t =
     \<lparr>message_id = uuid, sender = from, recipient = to, content = c, message_type = t, timestamp = now,
      correlation_id = None\<rparr>"

definition with_correlation_id :: "AgentMessage \<Rightarrow> Uuid \<Rightarrow> AgentMessage" where
  "with_correlation_id m uuid = m\<lparr>correlation_id := Some uuid\<rparr>"

record BusState =
  mailboxes :: "AgentRole \<rightharpoonup> AgentMessage list"
  broadcast_pending :: "AgentMessage list"
  total_sent :: u64

definition bus_new :: BusState where
  "bus_new = \<lparr>mailboxes = Map.empty, broadcast_pending = [], total_sent = 0\<rparr>"

definition mailbox :: "BusState \<Rightarrow> AgentRole \<Rightarrow> AgentMessage list" where
  "mailbox bus role = (case mailboxes bus role of None \<Rightarrow> [] | Some ms \<Rightarrow> ms)"

definition push_mailbox :: "BusState \<Rightarrow> AgentRole \<Rightarrow> AgentMessage \<Rightarrow> BusState" where
  "push_mailbox bus role m = bus\<lparr>mailboxes := (mailboxes bus)(role \<mapsto> mailbox bus role @ [m])\<rparr>"

definition send :: "BusState \<Rightarrow> AgentMessage \<Rightarrow> BusState" where
  "send bus m =
     (let bus = bus\<lparr>total_sent := total_sent bus + 1\<rparr>
      in case recipient m of
        Direct role \<Rightarrow> push_mailbox bus role m
      | Role role \<Rightarrow> push_mailbox bus role m
      | Broadcast \<Rightarrow> bus\<lparr>broadcast_pending := broadcast_pending bus @ [m]\<rparr>)"

definition receive :: "BusState \<Rightarrow> AgentRole \<Rightarrow> AgentMessage list \<times> BusState" where
  "receive bus role =
     (mailbox bus role @ broadcast_pending bus,
      bus\<lparr>mailboxes := (mailboxes bus)(role := None), broadcast_pending := []\<rparr>)"

definition peek :: "BusState \<Rightarrow> AgentRole \<Rightarrow> AgentMessage list" where
  "peek bus role = mailbox bus role @ broadcast_pending bus"

definition bus_broadcast :: "Uuid \<Rightarrow> DateTime \<Rightarrow> BusState \<Rightarrow> AgentRole \<Rightarrow> string \<Rightarrow> MessageType \<Rightarrow> BusState" where
  "bus_broadcast uuid now bus from c t = send bus (message_new uuid now from Broadcast c t)"

definition bus_message_count :: "BusState \<Rightarrow> u64" where
  "bus_message_count bus = total_sent bus"

definition bus_clear :: "BusState \<Rightarrow> BusState" where
  "bus_clear bus = bus\<lparr>mailboxes := Map.empty, broadcast_pending := [], total_sent := 0\<rparr>"

section \<open>The bus as a log with positions\<close>

datatype BusCall =
    Send AgentMessage
  | SendAll Uuid DateTime AgentRole string MessageType
  | Receive AgentRole
  | Peek AgentRole
  | Count
  | Clear

datatype BusAnswer = Messages "AgentMessage list" | Total u64 | Done

fun bus_call :: "BusState \<Rightarrow> BusCall \<Rightarrow> BusAnswer \<times> BusState" where
  "bus_call bus (Send m) = (Done, send bus m)"
| "bus_call bus (SendAll uuid now from c t) = (Done, bus_broadcast uuid now bus from c t)"
| "bus_call bus (Receive role) = (let (ms, bus) = receive bus role in (Messages ms, bus))"
| "bus_call bus (Peek role) = (Messages (peek bus role), bus)"
| "bus_call bus Count = (Total (bus_message_count bus), bus)"
| "bus_call bus Clear = (Done, bus_clear bus)"

record MessageLog =
  sent :: "AgentMessage list"
  taken :: "AgentRole \<Rightarrow> nat"
  broadcasts_taken :: nat

definition log_new :: MessageLog where
  "log_new = \<lparr>sent = [], taken = (\<lambda>_. 0), broadcasts_taken = 0\<rparr>"

definition addressed :: "AgentRole \<Rightarrow> AgentMessage \<Rightarrow> bool" where
  "addressed role m \<longleftrightarrow> recipient m = Direct role \<or> recipient m = Role role"

text \<open>What is new for a role: first its own messages, then the broadcasts, each in the order sent.\<close>

definition log_own :: "MessageLog \<Rightarrow> AgentRole \<Rightarrow> AgentMessage list" where
  "log_own lg role = filter (addressed role) (drop (taken lg role) (sent lg))"

definition log_broadcasts :: "MessageLog \<Rightarrow> AgentMessage list" where
  "log_broadcasts lg = filter (\<lambda>m. recipient m = Broadcast) (drop (broadcasts_taken lg) (sent lg))"

definition log_send :: "MessageLog \<Rightarrow> AgentMessage \<Rightarrow> MessageLog" where
  "log_send lg m = lg\<lparr>sent := sent lg @ [m]\<rparr>"

fun log_call :: "MessageLog \<Rightarrow> BusCall \<Rightarrow> BusAnswer \<times> MessageLog" where
  "log_call lg (Send m) = (Done, log_send lg m)"
| "log_call lg (SendAll uuid now from c t) = (Done, log_send lg (message_new uuid now from Broadcast c t))"
| "log_call lg (Receive role) =
     (Messages (log_own lg role @ log_broadcasts lg),
      lg\<lparr>taken := (taken lg)(role := length (sent lg)), broadcasts_taken := length (sent lg)\<rparr>)"
| "log_call lg (Peek role) = (Messages (log_own lg role @ log_broadcasts lg), lg)"
| "log_call lg Count = (Total (of_nat (length (sent lg))), lg)"
| "log_call lg Clear = (Done, log_new)"

definition log_rel :: "BusState \<Rightarrow> MessageLog \<Rightarrow> bool" where
  "log_rel bus lg \<longleftrightarrow>
     (\<forall>role. mailbox bus role = log_own lg role \<and> taken lg role \<le> length (sent lg))
     \<and> broadcast_pending bus = log_broadcasts lg \<and> broadcasts_taken lg \<le> length (sent lg)
     \<and> total_sent bus = of_nat (length (sent lg))"

lemma mailbox_push:
  "mailbox (push_mailbox bus role m) r = mailbox bus r @ (if r = role then [m] else [])"
  by (simp add: mailbox_def push_mailbox_def)

lemma push_same [simp]:
  "broadcast_pending (push_mailbox bus role m) = broadcast_pending bus" "total_sent (push_mailbox bus role m) = total_sent bus"
  by (simp_all add: push_mailbox_def)

lemma mailbox_update [simp]:
  "mailbox (bus\<lparr>total_sent := n\<rparr>) r = mailbox bus r" "mailbox (bus\<lparr>broadcast_pending := ms\<rparr>) r = mailbox bus r"
  by (simp_all add: mailbox_def)

lemma send_effect:
  "mailbox (send bus m) r = mailbox bus r @ (if addressed r m then [m] else [])"
  "broadcast_pending (send bus m) = broadcast_pending bus @ (if recipient m = Broadcast then [m] else [])"
  "total_sent (send bus m) = total_sent bus + 1"
  by (auto simp: send_def Let_def mailbox_push addressed_def split: BroadcastTarget.splits)

lemma send_rel: "log_rel bus lg \<Longrightarrow> log_rel (send bus m) (log_send lg m)"
  by (auto simp: log_rel_def send_effect log_send_def log_own_def log_broadcasts_def le_Suc_eq)

lemma receive_rel:
  assumes "log_rel bus lg"
  shows "log_rel (snd (receive bus role)) (snd (log_call lg (Receive role)))"
  using assms by (auto simp: log_rel_def receive_def mailbox_def log_own_def log_broadcasts_def)

lemma new_rel: "log_rel bus_new log_new"
  by (simp add: log_rel_def bus_new_def log_new_def mailbox_def log_own_def log_broadcasts_def)

interpretation message_bus: simulation "\<lambda>bus e. Some (bus_call bus e)" log_call log_rel "\<lambda>_. True"
proof
  fix bus lg e
  assume rel: "log_rel bus lg"
  have own: "mailbox bus role = log_own lg role" "broadcast_pending bus = log_broadcasts lg"
    "total_sent bus = of_nat (length (sent lg))" for role
    using rel by (simp_all add: log_rel_def)
  show "\<exists>bus'. Some (bus_call bus e) = Some (fst (log_call lg e), bus') \<and> log_rel bus' (snd (log_call lg e))"
  proof (cases e)
    case (Receive role)
    then show ?thesis using receive_rel [OF rel, of role] own by (simp add: receive_def)
  next
    case Clear
    then show ?thesis by (simp add: log_rel_def bus_clear_def log_new_def mailbox_def log_own_def log_broadcasts_def)
  qed (use rel own in \<open>simp_all add: send_rel bus_broadcast_def peek_def bus_message_count_def\<close>)
qed

text \<open>C24: whatever is sent, received, peeked at and cleared, the bus answers like a log of all messages:
  a role is given its own messages since it last received, in the order sent, and then the broadcasts that
  no role has received yet; the count is the length of the log.\<close>

theorem bus_refines_log:
  "run_impl (\<lambda>bus e. Some (bus_call bus e)) bus_new es \<noteq> None
    \<and> fst (the (run_impl (\<lambda>bus e. Some (bus_call bus e)) bus_new es)) = fst (run_spec log_call log_new es)"
  using message_bus.run_sim [OF new_rel, of es] by auto

text \<open>A broadcast reaches one role: the first that receives.\<close>

lemma broadcast_reaches_one:
  assumes "recipient m = Broadcast" "r \<noteq> q"
  shows "fst (run_spec log_call log_new [Send m, Receive r, Receive q]) = [Done, Messages [m], Messages []]"
    and "fst (receive (snd (receive (send bus_new m) r)) q) = []"
  using assms
  by (simp_all add: log_new_def log_send_def log_own_def log_broadcasts_def addressed_def receive_def send_def
      bus_new_def mailbox_def)
end
