(* ===== verification/TextCodec.thy ===== *)
theory TextCodec
  imports RustText "HOL-Library.Monad_Syntax"
begin

text \<open>
  \<open>argentor-builtins/src/encode_decode.rs\<close>: Base64, hexadecimal, percent and HTML codes of texts, and the
  payload of a JSON web token. The crates \<open>base64\<close>, \<open>hex\<close> and \<open>serde_json\<close> are parameters. The answer of
  the tool is given before it is written as JSON.
\<close>

section \<open>Replacing in texts\<close>

text \<open>\<open>str::replace\<close>, for a pattern that is not empty.\<close>

function str_replace :: "string \<Rightarrow> string \<Rightarrow> string \<Rightarrow> string" where
  "str_replace p r s =
     (if s = [] then []
      else if p \<noteq> [] \<and> prefix p s then r @ str_replace p r (drop (length p) s)
      else hd s # str_replace p r (tl s))"
  by auto
termination by (relation "measure (\<lambda>(p, r, s). length s)") auto

declare str_replace.simps [simp del]

section \<open>The codes\<close>

text \<open>\<open>02X\<close>: two digits in upper case.\<close>

definition upper_hex :: "nat \<Rightarrow> char" where
  "upper_hex d = (if d < 10 then char_of (48 + d) else char_of (55 + d))"

definition unreserved :: "nat \<Rightarrow> bool" where
  "unreserved b \<longleftrightarrow> 65 \<le> b \<and> b \<le> 90 \<or> 97 \<le> b \<and> b \<le> 122 \<or> 48 \<le> b \<and> b \<le> 57 \<or> b \<in> {45, 95, 46, 126}"

definition url_encode_byte :: "nat \<Rightarrow> string" where
  "url_encode_byte b =
     (if unreserved b then [char_of b] else [CHR ''%'', upper_hex (b div 16), upper_hex (b mod 16)])"

definition url_encode :: "string \<Rightarrow> string" where
  "url_encode s = concat (map url_encode_byte (as_bytes s))"

text \<open>A digit of either case, and \<open>u8::from_str_radix\<close> of two characters in base 16, which takes a
  plus sign in front.\<close>

definition hex_value :: "nat \<Rightarrow> nat option" where
  "hex_value b =
     (if 48 \<le> b \<and> b \<le> 57 then Some (b - 48)
      else if 65 \<le> b \<and> b \<le> 70 then Some (b - 55)
      else if 97 \<le> b \<and> b \<le> 102 then Some (b - 87) else None)"

definition hex_pair :: "nat \<Rightarrow> nat \<Rightarrow> nat option" where
  "hex_pair hi lo =
     (if hi = 43 then hex_value lo
      else do { h \<leftarrow> hex_value hi; l \<leftarrow> hex_value lo; Some (16 * h + l) })"

fun url_decode_bytes :: "nat list \<Rightarrow> string + nat list" where
  "url_decode_bytes [] = Inr []"
| "url_decode_bytes (b # bs) =
     (if b = 37
      then case bs of
          hi # lo # rest \<Rightarrow>
            (case hex_pair hi lo of
               None \<Rightarrow> Inl (''Invalid percent-encoding: %'' @ [char_of hi, char_of lo])
             | Some d \<Rightarrow> map_sum id ((#) d) (url_decode_bytes rest))
        | _ \<Rightarrow> Inl ''Incomplete percent-encoding: unexpected end of input''
      else if b = 43 then map_sum id ((#) 32) (url_decode_bytes bs)
      else map_sum id ((#) b) (url_decode_bytes bs))"

definition url_decode :: "(nat list \<Rightarrow> string) \<Rightarrow> string \<Rightarrow> string + string" where
  "url_decode utf8_error s =
     (case url_decode_bytes (as_bytes s) of
        Inl e \<Rightarrow> Inl e
      | Inr bytes \<Rightarrow>
          (case from_utf8 bytes of
             Some t \<Rightarrow> Inr t
           | None \<Rightarrow> Inl (''Decoded bytes are not valid UTF-8: '' @ utf8_error bytes)))"

definition html_char :: "char \<Rightarrow> string" where
  "html_char c =
     (if c = CHR ''&'' then ''&amp;''
      else if c = CHR ''<'' then ''&lt;''
      else if c = CHR ''>'' then ''&gt;''
      else if c = CHR 34 then ''&quot;''
      else if c = CHR 39 then ''&#39;''
      else [c])"

definition html_encode :: "string \<Rightarrow> string" where
  "html_encode s = concat (map html_char s)"

definition html_entities :: "(string \<times> string) list" where
  "html_entities = [(''&amp;'', ''&''), (''&lt;'', ''<''), (''&gt;'', ''>''), (''&quot;'', [CHR 34]), (''&#39;'', [CHR 39]),
     (''&#x27;'', [CHR 39]), (''&#x2F;'', ''/'')]"

definition html_decode :: "string \<Rightarrow> string" where
  "html_decode s = foldl (\<lambda>s (p, r). str_replace p r s) s html_entities"

section \<open>The tool\<close>

text \<open>The crates: encoders of bytes, decoders with the text of their error, and the JSON parser, which
  gives the text of an error or nothing.\<close>

record Crates =
  std_encode :: "nat list \<Rightarrow> string"
  std_decode :: "string \<Rightarrow> string + nat list"
  nopad_encode :: "nat list \<Rightarrow> string"
  nopad_decode :: "string \<Rightarrow> string + nat list"
  padded_decode :: "string \<Rightarrow> string + nat list"
  crate_hex_encode :: "nat list \<Rightarrow> string"
  crate_hex_decode :: "string \<Rightarrow> string + nat list"
  json_error :: "string \<Rightarrow> string option"
  bytes_error :: "nat list \<Rightarrow> string"

definition or_else :: "'e + 'a \<Rightarrow> 'e + 'a \<Rightarrow> 'e + 'a" where
  "or_else x y = (case x of Inr a \<Rightarrow> Inr a | Inl _ \<Rightarrow> y)"

definition trim_end_eq :: "string \<Rightarrow> string" where
  "trim_end_eq s = rev (dropWhile (\<lambda>c. c = CHR ''='') (rev s))"

definition jwt_decode :: "Crates \<Rightarrow> string \<Rightarrow> string + string" where
  "jwt_decode cr token =
     (let parts = split_char (CHR ''.'') token
      in if length parts \<noteq> 3
         then Inl (''Invalid JWT format: expected 3 dot-separated parts, got '' @ show_nat (length parts))
         else
           let payload = parts ! 1;
               padded = (if str_len payload mod 4 = 2 then payload @ ''==''
                         else if str_len payload mod 4 = 3 then payload @ ''='' else payload)
           in case or_else (nopad_decode cr (trim_end_eq padded)) (padded_decode cr padded) of
                Inl e \<Rightarrow> Inl (''Failed to base64url-decode JWT payload: '' @ e)
              | Inr bytes \<Rightarrow>
                  (case from_utf8 bytes of
                     None \<Rightarrow> Inl (''JWT payload is not valid UTF-8: '' @ bytes_error cr bytes)
                   | Some text \<Rightarrow>
                       (case json_error cr text of
                          Some e \<Rightarrow> Inl (''JWT payload is not valid JSON: '' @ e)
                        | None \<Rightarrow> Inr text)))"

datatype CodecAnswer = Coded string string | Payload string | CodecError string

definition decoded_text :: "Crates \<Rightarrow> string \<Rightarrow> string \<Rightarrow> string + nat list \<Rightarrow> CodecAnswer" where
  "decoded_text cr encoding message r =
     (case r of
        Inl e \<Rightarrow> CodecError (message @ e)
      | Inr bytes \<Rightarrow>
          (case from_utf8 bytes of
             Some t \<Rightarrow> Coded t encoding
           | None \<Rightarrow> CodecError (''Decoded bytes are not valid UTF-8: '' @ bytes_error cr bytes)))"

definition execute :: "Crates \<Rightarrow> string option \<Rightarrow> string option \<Rightarrow> CodecAnswer" where
  "execute cr operation input =
     (case operation of
        None \<Rightarrow> CodecError (''Missing required parameter: '' @ [CHR 39] @ ''operation'' @ [CHR 39])
      | Some op \<Rightarrow>
      (case input of
        None \<Rightarrow> CodecError (''Missing required parameter: '' @ [CHR 39] @ ''input'' @ [CHR 39])
      | Some s \<Rightarrow>
          if op = ''base64_encode'' then Coded (std_encode cr (as_bytes s)) ''base64''
          else if op = ''base64_decode'' then decoded_text cr ''base64'' ''Invalid base64 input: '' (std_decode cr s)
          else if op = ''base64url_encode'' then Coded (nopad_encode cr (as_bytes s)) ''base64url''
          else if op = ''base64url_decode''
          then decoded_text cr ''base64url'' ''Invalid base64url input: '' (or_else (nopad_decode cr s) (padded_decode cr s))
          else if op = ''hex_encode'' then Coded (crate_hex_encode cr (as_bytes s)) ''hex''
          else if op = ''hex_decode'' then decoded_text cr ''hex'' ''Invalid hex input: '' (crate_hex_decode cr s)
          else if op = ''url_encode'' then Coded (url_encode s) ''url''
          else if op = ''url_decode''
          then (case url_decode (bytes_error cr) s of Inr t \<Rightarrow> Coded t ''url'' | Inl e \<Rightarrow> CodecError e)
          else if op = ''html_encode'' then Coded (html_encode s) ''html''
          else if op = ''html_decode'' then Coded (html_decode s) ''html''
          else if op = ''jwt_decode''
          then (case jwt_decode cr s of Inr t \<Rightarrow> Payload t | Inl e \<Rightarrow> CodecError e)
          else CodecError (''Unknown operation: '' @ [CHR 39] @ op @ [CHR 39]
            @ ''. Supported: base64_encode, base64_decode, base64url_encode, base64url_decode, hex_encode, hex_decode, ''
            @ ''url_encode, url_decode, html_encode, html_decode, jwt_decode'')))"

section \<open>Percent codes\<close>

lemma upper_hex_value: "d < 16 \<Longrightarrow> hex_value (of_char (upper_hex d)) = Some d \<and> (of_char (upper_hex d) :: nat) < 128
    \<and> (of_char (upper_hex d) :: nat) \<noteq> 43"
  by (auto simp: hex_value_def upper_hex_def)

lemma as_bytes_append: "as_bytes (s @ t) = as_bytes s @ as_bytes t"
  by (simp add: as_bytes_def)

lemma as_bytes_ascii_Cons: "(of_char c :: nat) < 128 \<Longrightarrow> as_bytes (c # s) = of_char c # as_bytes s"
  by (simp add: as_bytes_def utf8_char_def)

lemma url_decode_byte:
  assumes "b < 256"
  shows "url_decode_bytes (as_bytes (url_encode_byte b) @ bs) = map_sum id ((#) b) (url_decode_bytes bs)"
proof (cases "unreserved b")
  case True
  then have "b < 128" "b \<noteq> 37" "b \<noteq> 43" by (auto simp: unreserved_def)
  then show ?thesis using True by (simp add: url_encode_byte_def as_bytes_ascii_Cons as_bytes_def utf8_char_def)
next
  case False
  have hex: "b div 16 < 16" "b mod 16 < 16" using assms by auto
  then have "hex_pair (of_char (upper_hex (b div 16))) (of_char (upper_hex (b mod 16))) = Some b"
    using upper_hex_value [OF hex(1)] upper_hex_value [OF hex(2)] by (simp add: hex_pair_def)
  then show ?thesis
    using False upper_hex_value [OF hex(1)] upper_hex_value [OF hex(2)]
    by (simp add: url_encode_byte_def as_bytes_def utf8_char_def)
qed

lemma url_decode_encoded:
  assumes "\<forall>b\<in>set bs. b < 256"
  shows "url_decode_bytes (as_bytes (concat (map url_encode_byte bs))) = Inr bs"
  using assms by (induction bs) (simp_all add: as_bytes_append url_decode_byte, simp add: as_bytes_def)

lemma url_roundtrip: "url_decode utf8_error (url_encode s) = Inr s"
  using url_decode_encoded [of "as_bytes s"] as_bytes_bound [of _ s] by (simp add: url_decode_def url_encode_def)

text \<open>A plus sign is taken as the sign of a number: the code \<open>%+f\<close> is accepted.\<close>

lemma plus_sign_in_code: "url_decode e ''%+f'' = Inr [CHR 15]"
  by code_simp

section \<open>HTML codes\<close>

text \<open>An entity has its only ampersand in front and its only semicolon at the end; a token is an entity or
  one other character.\<close>

definition entity :: "string \<Rightarrow> bool" where
  "entity t \<longleftrightarrow> (\<exists>u. t = CHR ''&'' # u @ '';'' \<and> CHR ''&'' \<notin> set u \<and> CHR '';'' \<notin> set u)"

definition token :: "string \<Rightarrow> bool" where
  "token t \<longleftrightarrow> entity t \<or> (\<exists>c. t = [c] \<and> c \<noteq> CHR ''&'')"

lemma str_replace_Nil [simp]: "str_replace p r [] = []"
  by (simp add: str_replace.simps)

lemma str_replace_skip:
  assumes "entity p" "CHR ''&'' \<notin> set v"
  shows "str_replace p r (v @ s) = v @ str_replace p r s"
  using assms(2)
proof (induction v)
  case (Cons c v)
  have "\<not> prefix p (c # v @ s)" using assms(1) Cons.prems by (auto simp: entity_def)
  then show ?case using Cons by (simp add: str_replace.simps [of p r "c # v @ s"])
qed simp

lemma entity_prefix:
  assumes "entity p" "entity t" "prefix p (t @ s)"
  shows "p = t"
proof -
  obtain u v where uv: "p = CHR ''&'' # u @ '';''" "t = CHR ''&'' # v @ '';''" "CHR '';'' \<notin> set u" "CHR '';'' \<notin> set v"
    using assms(1,2) by (auto simp: entity_def)
  obtain w where "u @ CHR '';'' # w = v @ CHR '';'' # s" using assms(3) uv by (auto simp: prefix_def)
  then have "takeWhile (\<lambda>c. c \<noteq> CHR '';'') (u @ CHR '';'' # w) = takeWhile (\<lambda>c. c \<noteq> CHR '';'') (v @ CHR '';'' # s)" by simp
  moreover have "takeWhile (\<lambda>c. c \<noteq> CHR '';'') (x @ CHR '';'' # y) = x" if "CHR '';'' \<notin> set x" for x y
    using that by (induction x) auto
  ultimately have "u = v" using uv(3,4) by simp
  then show ?thesis using uv by simp
qed

lemma str_replace_token:
  assumes "entity p" "token t"
  shows "str_replace p r (t @ s) = (if t = p then r else t) @ str_replace p r s"
proof (cases "t = p")
  case True
  then have "t @ s \<noteq> []" "p \<noteq> []" using assms(1) by (auto simp: entity_def)
  then show ?thesis using True by (subst str_replace.simps) simp
next
  case False
  show ?thesis
  proof (cases "entity t")
    case True
    then obtain v where v: "t = CHR ''&'' # v" "CHR ''&'' \<notin> set v" by (auto simp: entity_def)
    have "\<not> prefix p (t @ s)" using entity_prefix [OF assms(1) True] False by blast
    then show ?thesis
      using v(1) False str_replace_skip [OF assms(1) v(2)] str_replace.simps [of p r "CHR ''&'' # v @ s"] by simp
  next
    case plain: False
    then have "CHR ''&'' \<notin> set t" using assms(2) by (auto simp: token_def)
    then show ?thesis using False str_replace_skip [OF assms(1)] by simp
  qed
qed

lemma str_replace_tokens:
  assumes "entity p" "\<forall>t\<in>set ts. token t"
  shows "str_replace p r (concat ts) = concat (map (\<lambda>t. if t = p then r else t) ts)"
  using assms(2) by (induction ts) (simp_all add: str_replace_token [OF assms(1)])

lemma entities: "entity ''&amp;''" "entity ''&lt;''" "entity ''&gt;''" "entity ''&quot;''" "entity ''&#39;''"
    "entity ''&#x27;''" "entity ''&#x2F;''"
proof -
  have "entity (CHR ''&'' # u @ '';'')" if "CHR ''&'' \<notin> set u" "CHR '';'' \<notin> set u" for u
    using that by (auto simp: entity_def)
  from this [of "''amp''"] this [of "''lt''"] this [of "''gt''"] this [of "''quot''"] this [of "''#39''"] this [of "''#x27''"] this [of "''#x2F''"]
  show "entity ''&amp;''" "entity ''&lt;''" "entity ''&gt;''" "entity ''&quot;''" "entity ''&#39;''"
    "entity ''&#x27;''" "entity ''&#x2F;''" by simp_all
qed

text \<open>Replacements one after the other, on the tokens that stand for the characters of a text.\<close>

definition retoken :: "(string \<times> string) list \<Rightarrow> string \<Rightarrow> string" where
  "retoken es t = foldl (\<lambda>t (p, r). if t = p then r else t) t es"

lemma replace_all:
  assumes "\<forall>(p, r)\<in>set es. entity p \<and> token r" "\<forall>c\<in>set s. token (f c)"
  shows "foldl (\<lambda>s (p, r). str_replace p r s) (concat (map f s)) es = concat (map (\<lambda>c. retoken es (f c)) s)"
  using assms
proof (induction es arbitrary: f)
  case Nil
  then show ?case by (simp add: retoken_def)
next
  case (Cons e es)
  obtain p r where e: "e = (p, r)" by force
  have "str_replace p r (concat (map f s)) = concat (map (\<lambda>c. if f c = p then r else f c) s)"
    using Cons.prems e str_replace_tokens [of p "map f s" r] by (simp add: comp_def)
  then show ?case using Cons.IH [of "\<lambda>c. if f c = p then r else f c"] Cons.prems e by (simp add: retoken_def)
qed

lemma html_tokens: "token (html_char c)"
  using entities by (auto simp: html_char_def token_def)

text \<open>A text without ampersands is given back; in others an ampersand that stands before the name of an
  entity is decoded twice.\<close>

lemma html_roundtrip:
  assumes "CHR ''&'' \<notin> set s"
  shows "html_decode (html_encode s) = s"
proof -
  have first: "str_replace ''&amp;'' ''&'' (html_encode s) = html_encode s"
  proof -
    have "(if html_char c = ''&amp;'' then ''&'' else html_char c) = html_char c" if "c \<in> set s" for c
      using that assms by (auto simp: html_char_def)
    then show ?thesis
      using str_replace_tokens [OF entities(1), of "map html_char s" "''&''"] html_tokens
      by (simp add: html_encode_def comp_def cong: map_cong)
  qed
  have "retoken (tl html_entities) (html_char c) = [c]" if "c \<in> set s" for c
    using that assms by (auto simp: retoken_def html_entities_def html_char_def)
  then have "foldl (\<lambda>s (p, r). str_replace p r s) (html_encode s) (tl html_entities) = concat (map (\<lambda>c. [c]) s)"
    unfolding html_encode_def
    by (subst replace_all) (use entities html_tokens in \<open>auto simp: html_entities_def token_def cong: map_cong\<close>)
  then show ?thesis using first by (simp add: html_decode_def html_entities_def)
qed

lemma html_decodes_twice: "html_decode (html_encode ''&lt;'') = ''<''"
  by code_simp

text \<open>What is encoded has no character that is special in HTML, apart from the ampersands of entities.\<close>

lemma html_encode_safe: "set (html_encode s) \<inter> {CHR ''<'', CHR ''>'', CHR 34, CHR 39} = {}"
  by (auto simp: html_encode_def html_char_def split: if_splits)

section \<open>The tool gives texts back\<close>

text \<open>What the documentation of the crates promises: a decoder reads what its encoder writes, and the
  Base64 alphabet for URLs has neither equals signs nor dots; what it writes is ASCII.\<close>

definition crates_ok :: "Crates \<Rightarrow> bool" where
  "crates_ok cr \<longleftrightarrow>
     (\<forall>bs. (\<forall>b\<in>set bs. b < 256) \<longrightarrow> std_decode cr (std_encode cr bs) = Inr bs
       \<and> nopad_decode cr (nopad_encode cr bs) = Inr bs \<and> crate_hex_decode cr (crate_hex_encode cr bs) = Inr bs
       \<and> CHR ''='' \<notin> set (nopad_encode cr bs) \<and> CHR ''.'' \<notin> set (nopad_encode cr bs))"

lemma crates_okD:
  assumes "crates_ok cr"
  shows "std_decode cr (std_encode cr (as_bytes s)) = Inr (as_bytes s)"
    "nopad_decode cr (nopad_encode cr (as_bytes s)) = Inr (as_bytes s)"
    "crate_hex_decode cr (crate_hex_encode cr (as_bytes s)) = Inr (as_bytes s)"
    "CHR ''='' \<notin> set (nopad_encode cr (as_bytes s))" "CHR ''.'' \<notin> set (nopad_encode cr (as_bytes s))"
  using assms as_bytes_bound [of _ s] by (auto simp: crates_ok_def)

text \<open>C28: decoding what the tool encoded gives the text back, with Base64 in both alphabets, hexadecimal and
  percent codes for every text, and with HTML codes for every text without an ampersand.\<close>

theorem codes_roundtrip:
  assumes "crates_ok cr"
    "code \<in> {''base64'', ''base64url'', ''hex'', ''url''} \<or> code = ''html'' \<and> CHR ''&'' \<notin> set s"
  shows "\<exists>t. execute cr (Some (code @ ''_encode'')) (Some s) = Coded t code
    \<and> execute cr (Some (code @ ''_decode'')) (Some t) = Coded s code"
proof -
  note ok = crates_okD [OF assms(1), of s]
  consider "code = ''base64''" | "code = ''base64url''" | "code = ''hex''" | "code = ''url''"
    | "code = ''html''" "CHR ''&'' \<notin> set s" using assms(2) by auto
  then show ?thesis
    by cases (simp_all add: execute_def decoded_text_def or_else_def ok url_roundtrip html_roundtrip)
qed

text \<open>The payload of a token.\<close>

lemma trim_end_eq_append: "CHR ''='' \<notin> set s \<Longrightarrow> \<forall>c\<in>set t. c = CHR ''='' \<Longrightarrow> trim_end_eq (s @ t) = s"
proof -
  assume s: "CHR ''='' \<notin> set s" and t: "\<forall>c\<in>set t. c = CHR ''=''"
  have "dropWhile (\<lambda>c. c = CHR ''='') (rev t @ rev s) = rev s"
  proof -
    have "dropWhile (\<lambda>c. c = CHR ''='') (rev t @ rev s) = dropWhile (\<lambda>c. c = CHR ''='') (rev s)"
      using t by (intro dropWhile_append2) simp
    also have "\<dots> = rev s"
    proof (cases "rev s")
      case (Cons c u)
      then have "c \<in> set s" by (metis list.set_intros(1) set_rev)
      then show ?thesis using s Cons by auto
    qed simp
    finally show ?thesis .
  qed
  then show ?thesis by (simp add: trim_end_eq_def)
qed

lemma jwt_payload:
  assumes "crates_ok cr" "CHR ''.'' \<notin> set h" "CHR ''.'' \<notin> set sig" "json_error cr s = None"
  shows "jwt_decode cr (h @ ''.'' @ nopad_encode cr (as_bytes s) @ ''.'' @ sig) = Inr s"
proof -
  let ?p = "nopad_encode cr (as_bytes s)"
  note ok = crates_okD [OF assms(1), of s]
  have parts: "split_char (CHR ''.'') (h @ ''.'' @ ?p @ ''.'' @ sig) = [h, ?p, sig]"
  proof -
    have piece: "split_char (CHR ''.'') (w @ CHR ''.'' # r) = w # split_char (CHR ''.'') r" if "CHR ''.'' \<notin> set w" for w r
      using that by (intro split_by_first) auto
    have "split_char (CHR ''.'') sig = [sig]" using assms(3) by (intro split_by_no_sep) auto
    then show ?thesis using piece [OF assms(2)] piece [OF ok(5)] by simp
  qed
  have "trim_end_eq (?p @ ''=='') = ?p" "trim_end_eq (?p @ ''='') = ?p" "trim_end_eq ?p = ?p"
    using trim_end_eq_append [OF ok(4), of "''==''"] trim_end_eq_append [OF ok(4), of "''=''"]
      trim_end_eq_append [OF ok(4), of "[]"] by simp_all
  then show ?thesis using parts ok(2) assms(4) by (simp add: jwt_decode_def or_else_def Let_def)
qed

text \<open>Crates that keep the promises: every byte as two letters.\<close>

definition letters :: "nat list \<Rightarrow> string" where
  "letters bs = concat (map (\<lambda>b. [char_of (65 + b div 16), char_of (65 + b mod 16)]) bs)"

fun of_letters :: "string \<Rightarrow> string + nat list" where
  "of_letters [] = Inr []"
| "of_letters (c # d # s) = map_sum id ((#) ((of_char c - 65) * 16 + (of_char d - 65))) (of_letters s)"
| "of_letters [c] = Inl ''odd length''"

definition letter_crates :: Crates where
  "letter_crates =
     \<lparr>std_encode = letters, std_decode = of_letters, nopad_encode = letters, nopad_decode = of_letters,
      padded_decode = of_letters, crate_hex_encode = letters, crate_hex_decode = of_letters,
      json_error = (\<lambda>_. None), bytes_error = (\<lambda>_. [])\<rparr>"

lemma of_letters_letters:
  assumes "\<forall>b\<in>set bs. b < 256"
  shows "of_letters (letters bs) = Inr bs \<and> (\<forall>c\<in>set (letters bs). 65 \<le> (of_char c :: nat))"
  using assms
proof (induction bs)
  case (Cons b bs)
  have "b div 16 < 16" "b mod 16 < 16" using Cons.prems by auto
  then have code: "of_char (char_of (65 + b div 16) :: char) = 65 + b div 16" "of_char (char_of (65 + b mod 16) :: char) = 65 + b mod 16"
    by (simp_all del: add.commute)
  then show ?case using Cons by (simp add: letters_def)
qed (simp add: letters_def)

lemma letter_crates_ok: "crates_ok letter_crates"
proof -
  have "CHR ''='' \<notin> set (letters bs) \<and> CHR ''.'' \<notin> set (letters bs)" if "\<forall>b\<in>set bs. b < 256" for bs
    using of_letters_letters [OF that] by force
  then show ?thesis using of_letters_letters by (simp add: crates_ok_def letter_crates_def)
qed

theorem codes_roundtrip_witness:
  "(\<exists>t. execute letter_crates (Some ''url_encode'') (Some ''a+b &'') = Coded t ''url''
      \<and> execute letter_crates (Some ''url_decode'') (Some t) = Coded ''a+b &'' ''url'')
    \<and> execute letter_crates (Some ''url_encode'') (Some ''a+b &'') = Coded ''a%2Bb%20%26'' ''url''"
proof
  show "\<exists>t. execute letter_crates (Some ''url_encode'') (Some ''a+b &'') = Coded t ''url''
      \<and> execute letter_crates (Some ''url_decode'') (Some t) = Coded ''a+b &'' ''url''"
    using codes_roundtrip [OF letter_crates_ok, of "''url''" "''a+b &''"] by simp
  show "execute letter_crates (Some ''url_encode'') (Some ''a+b &'') = Coded ''a%2Bb%20%26'' ''url''"
    by code_simp
qed

end
