(* ===== verification/IpTools.thy ===== *)
theory IpTools
  imports Capability RustText "HOL-Library.Monad_Syntax"
begin

text \<open>
  \<open>argentor-builtins/src/ip_tools.rs\<close>: classification of addresses, blocks in CIDR notation, binary and
  reverse names. The parser of IPv4 addresses of the standard library is modelled; that of IPv6 addresses
  is a parameter. The answers are given before they are written as JSON.
\<close>

section \<open>Addresses\<close>

type_synonym Ipv4Addr = "u8 \<times> u8 \<times> u8 \<times> u8"

text \<open>\<open>Ipv4Addr::from_str\<close>: four decimal numbers of at most three digits without leading zeros.\<close>

definition parse_octet :: "string \<Rightarrow> nat option" where
  "parse_octet s =
     (if s = [] \<or> 3 < length s \<or> (1 < length s \<and> hd s = CHR ''0'') then None
      else case parse_digits 256 0 s of Inr n \<Rightarrow> Some n | Inl _ \<Rightarrow> None)"

definition parse_v4 :: "string \<Rightarrow> Ipv4Addr option" where
  "parse_v4 s =
     (case split_char (CHR ''.'') s of
        [a, b, c, d] \<Rightarrow>
          do { a \<leftarrow> parse_octet a; b \<leftarrow> parse_octet b; c \<leftarrow> parse_octet c; d \<leftarrow> parse_octet d;
               Some (of_nat a, of_nat b, of_nat c, of_nat d) }
      | _ \<Rightarrow> None)"

fun v4_addr :: "Ipv4Addr \<Rightarrow> IpAddr" where
  "v4_addr (a, b, c, d) = V4 a b c d"

definition parse_ip :: "(string \<Rightarrow> IpAddr option) \<Rightarrow> string \<Rightarrow> IpAddr option" where
  "parse_ip parse_v6 s = (case parse_v4 s of Some a \<Rightarrow> Some (v4_addr a) | None \<Rightarrow> parse_v6 s)"

fun v4_bits :: "Ipv4Addr \<Rightarrow> u32" where
  "v4_bits (a, b, c, d) = ((ucast a * 256 + ucast b) * 256 + ucast c) * 256 + ucast d"

definition v4_of_bits :: "u32 \<Rightarrow> Ipv4Addr" where
  "v4_of_bits w =
     (ucast (drop_bit 24 w), ucast (drop_bit 16 w), ucast (drop_bit 8 w), ucast w)"

definition show_bits :: "u32 \<Rightarrow> string" where
  "show_bits w = show_ip (v4_addr (v4_of_bits w))"

section \<open>Classification\<close>

record IpInfo =
  info_ip :: string
  version :: string
  classification :: string
  ip_is_loopback :: bool
  ip_is_private :: bool
  ip_is_link_local :: bool
  ip_is_multicast :: bool

text \<open>The tests of \<open>Ipv4Addr\<close> and \<open>Ipv6Addr\<close>.\<close>

fun v4_tests :: "IpAddr \<Rightarrow> bool \<times> bool \<times> bool \<times> bool \<times> string" where
  "v4_tests (V4 a b c d) =
     (a = 127, a = 10 \<or> a = 172 \<and> b AND 0xf0 = 16 \<or> a = 192 \<and> b = 168, a = 169 \<and> b = 254,
      224 \<le> a \<and> a \<le> 239, ''v4'')"
| "v4_tests (V6 s0 s1 s2 s3 s4 s5 s6 s7) =
     (s0 = 0 \<and> s1 = 0 \<and> s2 = 0 \<and> s3 = 0 \<and> s4 = 0 \<and> s5 = 0 \<and> s6 = 0 \<and> s7 = 1, False, False,
      s0 AND 0xff00 = 0xff00, ''v6'')"

definition classify_ip :: "IpAddr \<Rightarrow> IpInfo" where
  "classify_ip ip =
     (let (loopback, private, link_local, multicast, v) = v4_tests ip;
          cls = (if loopback then ''loopback'' else if private then ''private'' else if link_local then ''link-local''
                 else if multicast then ''multicast'' else ''public'')
      in \<lparr>info_ip = show_ip ip, version = v, classification = cls, ip_is_loopback = loopback, ip_is_private = private,
          ip_is_link_local = link_local, ip_is_multicast = multicast\<rparr>)"

section \<open>Blocks\<close>

record CidrInfo =
  info_cidr :: string
  network :: string
  broadcast :: string
  netmask :: string
  prefix_length :: u32
  host_count :: u64
  first_host :: "string option"
  last_host :: "string option"

definition prefix_mask :: "u32 \<Rightarrow> u32" where
  "prefix_mask p = (if p = 0 then 0 else push_bit (unat (32 - p)) (NOT 0))"

text \<open>The address and the prefix of a notation, with the texts of the errors.\<close>

definition parse_block :: "string \<Rightarrow> string \<Rightarrow> string \<Rightarrow> string \<Rightarrow> string + Ipv4Addr \<times> u32" where
  "parse_block ip_error prefix_error ip p =
     (case parse_v4 ip of
        None \<Rightarrow> Inl (ip_error @ ''invalid IPv4 address syntax'')
      | Some a \<Rightarrow>
          (case parse_uint (2 ^ 32) p of
             Inl e \<Rightarrow> Inl (prefix_error @ int_error_message e)
           | Inr n \<Rightarrow> Inr (a, of_nat n)))"

definition parse_cidr :: "string \<Rightarrow> string + CidrInfo" where
  "parse_cidr cidr =
     (case split_char (CHR ''/'') cidr of
        [ip, p] \<Rightarrow>
          (case parse_block ''Invalid IP address: '' ''Invalid prefix length: '' ip p of
             Inl e \<Rightarrow> Inl e
           | Inr (a, p) \<Rightarrow>
               if 32 < p then Inl (''Prefix length '' @ show_nat (unat p) @ '' exceeds maximum of 32'')
               else
                 let m = prefix_mask p; net = v4_bits a AND m; brd = net OR NOT m;
                     hosts = (2 ^ unat (32 - p) :: u64)
                 in Inr \<lparr>info_cidr = cidr, network = show_bits net, broadcast = show_bits brd, netmask = show_bits m,
                      prefix_length = p, host_count = (if 31 \<le> p then hosts else saturating_sub hosts 2),
                      first_host = (if p < 31 then Some (show_bits (net + 1)) else None),
                      last_host = (if p < 31 then Some (show_bits (brd - 1)) else None)\<rparr>)
      | _ \<Rightarrow> Inl (''Invalid CIDR notation: '' @ [CHR 39] @ cidr @ [CHR 39] @ ''. Expected format: IP/prefix''))"

definition ip_in_cidr :: "string \<Rightarrow> string \<Rightarrow> string + bool" where
  "ip_in_cidr ip_str cidr =
     (case split_char (CHR ''/'') cidr of
        [ip, p] \<Rightarrow>
          (case parse_block ''Invalid network IP: '' ''Invalid prefix: '' ip p of
             Inl e \<Rightarrow> Inl e
           | Inr (a, p) \<Rightarrow>
               (case parse_v4 ip_str of
                  None \<Rightarrow> Inl ''Invalid IP: invalid IPv4 address syntax''
                | Some x \<Rightarrow>
                    if 32 < p then Inl ''Prefix exceeds 32''
                    else Inr (v4_bits a AND prefix_mask p = v4_bits x AND prefix_mask p)))
      | _ \<Rightarrow> Inl ''Invalid CIDR notation'')"

section \<open>Names\<close>

definition pad_left :: "nat \<Rightarrow> string \<Rightarrow> string" where
  "pad_left n s = replicate (n - length s) (CHR ''0'') @ s"

fun segments :: "IpAddr \<Rightarrow> nat list" where
  "segments (V4 a b c d) = map unat [a, b, c, d]"
| "segments (V6 s0 s1 s2 s3 s4 s5 s6 s7) = map unat [s0, s1, s2, s3, s4, s5, s6, s7]"

fun ip_to_binary :: "IpAddr \<Rightarrow> string" where
  "ip_to_binary (V4 a b c d) = join ''.'' (map (\<lambda>o'. pad_left 8 (show_radix 2 o')) (segments (V4 a b c d)))"
| "ip_to_binary (V6 s0 s1 s2 s3 s4 s5 s6 s7) =
     join '':'' (map (\<lambda>s. pad_left 16 (show_radix 2 s)) (segments (V6 s0 s1 s2 s3 s4 s5 s6 s7)))"

definition v6_number :: "nat list \<Rightarrow> nat" where
  "v6_number segs = foldl (\<lambda>n s. n * 65536 + s) 0 segs"

fun reverse_dns_name :: "IpAddr \<Rightarrow> string" where
  "reverse_dns_name (V4 a b c d) =
     show_nat (unat d) @ ''.'' @ show_nat (unat c) @ ''.'' @ show_nat (unat b) @ ''.'' @ show_nat (unat a) @ ''.in-addr.arpa''"
| "reverse_dns_name (V6 s0 s1 s2 s3 s4 s5 s6 s7) =
     (let expanded = pad_left 32 (show_hex (v6_number (segments (V6 s0 s1 s2 s3 s4 s5 s6 s7))))
      in join ''.'' (map (\<lambda>c. [c]) (rev expanded)) @ ''.ip6.arpa'')"

section \<open>The tool\<close>

record IpArgs =
  arg_operation :: "string option"
  arg_ip :: "string option"
  arg_cidr :: "string option"
  arg_ip_a :: "string option"
  arg_ip_b :: "string option"

datatype IpAnswer =
    Classified IpInfo
  | Valid bool string
  | Block CidrInfo
  | InRange string string bool
  | Binary string string
  | ReverseDns string string
  | Compared string string bool bool string string
  | IpError string

definition missing :: "string \<Rightarrow> IpAnswer" where
  "missing name = IpError (''Missing required parameter: '' @ [CHR 39] @ name @ [CHR 39])"

text \<open>An argument that is an address: the text and the address.\<close>

definition ip_argument ::
  "(string \<Rightarrow> IpAddr option) \<Rightarrow> string \<Rightarrow> string \<Rightarrow> string option \<Rightarrow> IpAnswer + string \<times> IpAddr" where
  "ip_argument parse_v6 name message arg =
     (case arg of
        None \<Rightarrow> Inl (missing name)
      | Some s \<Rightarrow>
          (case parse_ip parse_v6 s of
             None \<Rightarrow> Inl (IpError (message @ '': invalid IP address syntax''))
           | Some ip \<Rightarrow> Inr (s, ip)))"

definition same_version :: "IpAddr \<Rightarrow> IpAddr \<Rightarrow> bool" where
  "same_version a b =
     (case (a, b) of (V4 _ _ _ _, V4 _ _ _ _) \<Rightarrow> True | (V6 _ _ _ _ _ _ _ _, V6 _ _ _ _ _ _ _ _) \<Rightarrow> True | _ \<Rightarrow> False)"

definition ip_execute :: "(string \<Rightarrow> IpAddr option) \<Rightarrow> IpArgs \<Rightarrow> IpAnswer" where
  "ip_execute v6 args =
     (case arg_operation args of
        None \<Rightarrow> missing ''operation''
      | Some op \<Rightarrow>
          if op = ''parse'' \<or> op = ''classify''
          then (case ip_argument v6 ''ip'' ''Invalid IP address'' (arg_ip args) of
              Inl e \<Rightarrow> e | Inr (s, ip) \<Rightarrow> Classified (classify_ip ip))
          else if op = ''validate''
          then (case arg_ip args of None \<Rightarrow> missing ''ip'' | Some s \<Rightarrow> Valid (parse_ip v6 s \<noteq> None) s)
          else if op = ''cidr_info''
          then (case arg_cidr args of
              None \<Rightarrow> missing ''cidr''
            | Some c \<Rightarrow> (case parse_cidr c of Inr info \<Rightarrow> Block info | Inl e \<Rightarrow> IpError e))
          else if op = ''in_range''
          then (case arg_ip args of
              None \<Rightarrow> missing ''ip''
            | Some s \<Rightarrow>
            (case arg_cidr args of
              None \<Rightarrow> missing ''cidr''
            | Some c \<Rightarrow> (case ip_in_cidr s c of Inr b \<Rightarrow> InRange s c b | Inl e \<Rightarrow> IpError e)))
          else if op = ''to_binary''
          then (case ip_argument v6 ''ip'' ''Invalid IP'' (arg_ip args) of
              Inl e \<Rightarrow> e | Inr (s, ip) \<Rightarrow> Binary s (ip_to_binary ip))
          else if op = ''reverse_dns''
          then (case ip_argument v6 ''ip'' ''Invalid IP'' (arg_ip args) of
              Inl e \<Rightarrow> e | Inr (s, ip) \<Rightarrow> ReverseDns s (reverse_dns_name ip))
          else if op = ''compare''
          then (case (arg_ip_a args, arg_ip_b args) of
              (None, _) \<Rightarrow> missing ''ip_a''
            | (Some a, None) \<Rightarrow> missing ''ip_b''
            | (Some a, Some b) \<Rightarrow>
            (case ip_argument v6 ''ip_a'' ''Invalid ip_a'' (Some a) of
              Inl e \<Rightarrow> e
            | Inr (a, x) \<Rightarrow>
            (case ip_argument v6 ''ip_b'' ''Invalid ip_b'' (Some b) of
              Inl e \<Rightarrow> e
            | Inr (b, y) \<Rightarrow>
                Compared a b (x = y) (same_version x y) (classification (classify_ip x)) (classification (classify_ip y)))))
          else IpError (''Unknown operation: '' @ [CHR 39] @ op @ [CHR 39] @ ''. Supported: parse, validate, ''
            @ ''classify, cidr_info, in_range, to_binary, reverse_dns, compare''))"

section \<open>Addresses and numbers\<close>

lemma digit_char_zero: "d < 10 \<Longrightarrow> digit_char d = CHR ''0'' \<Longrightarrow> d = 0"
  using digit_char_range [of d] by simp

lemma show_octet: "n < 256 \<Longrightarrow> length (show_nat n) \<le> 3 \<and> (1 < length (show_nat n) \<longrightarrow> hd (show_nat n) \<noteq> CHR ''0'')"
proof -
  assume n: "n < 256"
  consider "n < 10" | "10 \<le> n" "n < 100" | "100 \<le> n" by linarith
  then show ?thesis
  proof cases
    case 1
    then show ?thesis by (simp add: show_nat_def show_radix.simps [of 10 n])
  next
    case 2
    then have "show_nat n = [digit_char (n div 10), digit_char (n mod 10)]" "0 < n div 10" "n div 10 < 10"
      by (simp_all add: show_nat_def show_radix.simps [of 10 n] show_radix.simps [of 10 "n div 10"] div_greater_zero_iff)
    then show ?thesis using digit_char_zero [of "n div 10"] by auto
  next
    case 3
    then have "10 \<le> n div 10" "n div 10 div 10 < 10" "0 < n div 10 div 10" using n by linarith+
    then have "show_nat n = [digit_char (n div 10 div 10), digit_char (n div 10 mod 10), digit_char (n mod 10)]"
      using 3 by (simp add: show_nat_def show_radix.simps [of 10 n] show_radix.simps [of 10 "n div 10"]
        show_radix.simps [of 10 "n div 10 div 10"])
    then show ?thesis using digit_char_zero [of "n div 10 div 10"] \<open>0 < n div 10 div 10\<close> \<open>n div 10 div 10 < 10\<close> by auto
  qed
qed

lemma parse_octet_show: "n < 256 \<Longrightarrow> parse_octet (show_nat n) = Some n"
  using show_octet [of n] parse_digits_show [of n 256] by (auto simp: parse_octet_def)

lemma show_nat_no_dot: "CHR ''.'' \<notin> set (show_nat n)"
  using show_nat_range [of "CHR ''.''" n] by auto

lemma parse_show_v4: "parse_v4 (show_ip (v4_addr a)) = Some a"
proof -
  obtain w x y z where a: "a = (w, x, y, z)" by (cases a)
  have piece: "split_char (CHR ''.'') (show_nat n @ CHR ''.'' # r) = show_nat n # split_char (CHR ''.'') r" for n r
    using show_nat_no_dot [of n] by (intro split_by_first) auto
  have "split_char (CHR ''.'') (show_nat n) = [show_nat n]" for n
    using show_nat_no_dot [of n] by (intro split_by_no_sep) auto
  then have "split_char (CHR ''.'') (show_ip (v4_addr a)) = map (show_nat \<circ> unat) [w, x, y, z]"
    using piece by (simp add: a show_v4_def)
  then show ?thesis by (simp add: parse_v4_def parse_octet_show unat_u8_less a)
qed

text \<open>The same with natural numbers.\<close>

lemma v4_bits_nat: "v4_bits (a, b, c, d) = of_nat (v4_number (unat a) (unat b) (unat c) (unat d))"
  by (simp add: v4_number_def)

declare v4_bits.simps [simp del]

lemma v4_of_bits_nat: "v4_of_bits w =
     (of_nat (unat w div 16777216), of_nat (unat w div 65536 mod 256), of_nat (unat w div 256 mod 256), of_nat (unat w mod 256))"
proof -
  have low: "(of_nat n :: u8) = of_nat (n mod 256)" for n by (simp add: word_of_nat_eq_iff take_bit_eq_mod)
  have shift: "(ucast (drop_bit k w) :: u8) = of_nat (unat w div 2 ^ k)" for k
  proof -
    have "unat (drop_bit k w) = drop_bit k (unat w)"
      by (subst unsigned_drop_bit_eq) (simp add: take_bit_nat_eq_self unsigned_less [of w, where 'a = nat, simplified])
    also have "\<dots> = unat w div 2 ^ k" by (rule drop_bit_eq_div)
    finally have "unat (drop_bit k w) = unat w div 2 ^ k" .
    then have "(of_nat (unat (drop_bit k w)) :: u8) = of_nat (unat w div 2 ^ k)" by (simp only:)
    then show ?thesis by (simp only: of_nat_unat)
  qed
  have w: "unat w < 2 ^ 32" using unsigned_less [of w, where 'a = nat] by simp
  show ?thesis
    unfolding v4_of_bits_def shift using low [of "unat w div 65536"] low [of "unat w div 256"] low [of "unat w"]
    by simp
qed

lemma unat_v4_bits:
  "unat (v4_bits (a, b, c, d)) = v4_number (unat a) (unat b) (unat c) (unat d)"
proof -
  have "v4_number (unat a) (unat b) (unat c) (unat d) < 2 ^ 32"
    using unat_u8_less [of a] unat_u8_less [of b] unat_u8_less [of c] unat_u8_less [of d]
    by (simp add: v4_number_def)
  then show ?thesis unfolding v4_bits_nat by (simp add: unsigned_of_nat take_bit_nat_eq_self)
qed

lemma digit_pair: "(d :: nat) < 256 \<Longrightarrow> (x * 256 + d) div 256 = x" "d < 256 \<Longrightarrow> (x * 256 + d) mod 256 = d"
  by simp_all

lemma v4_number_low:
  assumes "c < 256" "d < 256"
  shows "v4_number a b c d div 256 mod 256 = c" and "v4_number a b c d mod 256 = d"
  unfolding v4_number_def using assms by (simp_all only: digit_pair)

lemma v4_of_bits_bits: "v4_of_bits (v4_bits a) = a"
proof -
  obtain w x y z where a: "a = (w, x, y, z)" by (cases a)
  note less = unat_u8_less [of w] unat_u8_less [of x] unat_u8_less [of y] unat_u8_less [of z]
  let ?n = "v4_number (unat w) (unat x) (unat y) (unat z)"
  have n: "?n div 16777216 = unat w" "?n div 65536 mod 256 = unat x" "?n div 256 mod 256 = unat y" "?n mod 256 = unat z"
    using v4_number_div [OF less(2-4), of "unat w"] v4_number_low [OF less(3,4)] less
    by (simp_all add: digit_pair)
  show ?thesis unfolding v4_of_bits_nat a unat_v4_bits n by simp
qed

lemma v4_bits_of_bits: "v4_bits (v4_of_bits w) = w"
proof -
  have w: "unat w < 2 ^ 32" using unsigned_less [of w, where 'a = nat] by simp
  then have parts: "unat w div 16777216 < 256" "unat w div 65536 mod 256 < 256" "unat w div 256 mod 256 < 256" "unat w mod 256 < 256"
    by (simp_all add: less_mult_imp_div_less)
  have same: "unat (of_nat n :: u8) = n" if "n < 256" for n
    using that by (simp add: unsigned_of_nat take_bit_nat_eq_self)
  have "v4_number (unat w div 16777216) (unat w div 65536 mod 256) (unat w div 256 mod 256) (unat w mod 256) = unat w"
  proof -
    have "unat w div 65536 = unat w div 256 div 256" "unat w div 16777216 = unat w div 256 div 256 div 256"
      by (simp_all flip: div_mult2_eq)
    then show ?thesis by (simp only: v4_number_def div_mult_mod_eq)
  qed
  then show ?thesis unfolding v4_of_bits_nat v4_bits_nat by (simp add: same parts)
qed

lemma parse_show_bits: "parse_v4 (show_bits w) = Some (v4_of_bits w)"
  by (simp add: show_bits_def parse_show_v4)

lemma parse_bits_number: "map_option (unat \<circ> v4_bits) (parse_v4 (show_bits w)) = Some (unat w)"
  by (simp only: parse_show_bits option.map comp_apply v4_bits_of_bits)

section \<open>Masks\<close>

text \<open>The mask of a prefix clears the low bits, and its complement sets them.\<close>

lemma prefix_mask_not_mask: "p \<le> 32 \<Longrightarrow> prefix_mask p = NOT (mask (32 - unat p))"
proof -
  assume p: "p \<le> 32"
  have k: "unat (32 - p) = 32 - unat p" using p by (simp add: unat_sub)
  show ?thesis
  proof (cases "p = 0")
    case True
    have "mask 32 = (- 1 :: u32)" by (simp add: mask_eq_exp_minus_1)
    then show ?thesis using True by (simp add: prefix_mask_def)
  next
    case False
    then show ?thesis by (simp add: prefix_mask_def k push_bit_minus_one_eq_not_mask)
  qed
qed

lemma and_not_mask: "x AND NOT (mask k) = x - take_bit k x" for x :: "'a::len word"
proof -
  have "x - take_bit k x = x AND NOT (take_bit k x)" by (rule disjunctive_diff) (simp add: bit_take_bit_iff)
  also have "\<dots> = x AND NOT (mask k)" by (rule bit_eqI) (auto simp: bit_simps)
  finally show ?thesis by simp
qed

lemma unat_and_not_mask: "unat (x AND NOT (mask k)) = unat x div 2 ^ k * 2 ^ k" for x :: "'a::len word"
proof -
  have "take_bit k x \<le> x" by (simp add: word_le_nat_alt unsigned_take_bit_eq take_bit_nat_less_eq_self)
  moreover have "unat (take_bit k x) = unat x mod 2 ^ k"
    unfolding unsigned_take_bit_eq by (simp add: take_bit_eq_mod)
  ultimately have "unat (x AND NOT (mask k)) = unat x - unat x mod 2 ^ k"
    unfolding and_not_mask by (simp only: unat_sub)
  then show ?thesis by (simp add: minus_mod_eq_div_mult)
qed

lemma unat_or_mask: "k \<le> 32 \<Longrightarrow> unat ((x AND NOT (mask k)) OR mask k) = unat x div 2 ^ k * 2 ^ k + 2 ^ k - 1" for x :: u32
proof -
  assume k: "k \<le> 32"
  let ?n = "x AND NOT (mask k)"
  have plus: "?n OR mask k = ?n + mask k" by (rule disjunctive_add [symmetric]) (simp add: bit_simps)
  have m: "unat (mask k :: u32) = 2 ^ k - 1"
  proof -
    have "unat (take_bit k (- 1) :: u32) = take_bit k (mask 32)"
      unfolding unsigned_take_bit_eq unsigned_minus_1_eq_mask by simp
    then show ?thesis using k by (simp add: take_bit_minus_one_eq_mask take_bit_of_mask min_def) (simp add: mask_eq_exp_minus_1)
  qed
  have x: "unat x < 2 ^ 32" using unsigned_less [of x, where 'a = nat] by simp
  have "unat x div 2 ^ k < 2 ^ (32 - k)" using x k by (simp add: less_mult_imp_div_less flip: power_add)
  then have "(unat x div 2 ^ k + 1) * 2 ^ k \<le> 2 ^ (32 - k) * 2 ^ k" by (intro mult_right_mono) simp_all
  then have "unat x div 2 ^ k * 2 ^ k + 2 ^ k \<le> 2 ^ 32" using k by (simp flip: power_add)
  then have "unat ?n + unat (mask k :: u32) < 2 ^ 32" by (simp add: unat_and_not_mask m)
  then have "unat (?n + mask k) = unat ?n + unat (mask k :: u32)" by (simp add: unat_plus_if')
  then show ?thesis by (simp add: plus unat_and_not_mask m)
qed

lemma block_member: "(n :: nat) div d = m div d \<longleftrightarrow> m div d * d \<le> n \<and> n \<le> m div d * d + d - 1" if "0 < d"
proof -
  have "n div d = m div d \<longleftrightarrow> m div d * d \<le> n \<and> n < Suc (m div d) * d"
    using that by (metis div_nat_eqI dividend_less_times_div less_eq_div_iff_mult_less_eq lessI less_mult_imp_div_less
        mult.commute mult_Suc_right nat_less_le not_less_eq times_div_less_eq_dividend)
  then show ?thesis using that by (auto simp: algebra_simps)
qed

lemma parse_block_Inr:
  "parse_block e f ip p = Inr (a, q) \<longleftrightarrow>
     parse_v4 ip = Some a \<and> (\<exists>n. parse_uint (2 ^ 32) p = Inr n \<and> q = of_nat n)"
  by (auto simp: parse_block_def split: option.splits sum.splits)

text \<open>The block of an address and a prefix, as numbers.\<close>

lemma block_bounds:
  fixes a x :: Ipv4Addr and p :: u32
  assumes "p \<le> 32"
  defines "k \<equiv> 32 - unat p"
  defines "lo \<equiv> v4_bits a AND prefix_mask p" and "hi \<equiv> (v4_bits a AND prefix_mask p) OR NOT (prefix_mask p)"
  shows "unat lo = unat (v4_bits a) div 2 ^ k * 2 ^ k" and "unat hi = unat lo + 2 ^ k - 1"
    and "v4_bits a AND prefix_mask p = v4_bits x AND prefix_mask p \<longleftrightarrow> unat lo \<le> unat (v4_bits x) \<and> unat (v4_bits x) \<le> unat hi"
proof -
  have m: "prefix_mask p = NOT (mask k)" using prefix_mask_not_mask [OF assms(1)] by (simp add: k_def)
  show lo: "unat lo = unat (v4_bits a) div 2 ^ k * 2 ^ k" unfolding lo_def m by (rule unat_and_not_mask)
  have "unat hi = unat (v4_bits a) div 2 ^ k * 2 ^ k + 2 ^ k - 1"
    unfolding hi_def m using unat_or_mask [of k "v4_bits a"] by (simp add: k_def)
  then show hi: "unat hi = unat lo + 2 ^ k - 1" using lo by simp
  have "v4_bits a AND prefix_mask p = v4_bits x AND prefix_mask p
      \<longleftrightarrow> unat (v4_bits a) div 2 ^ k = unat (v4_bits x) div 2 ^ k"
    unfolding m word_unat_eq_iff unat_and_not_mask by simp
  also have "\<dots> \<longleftrightarrow> unat (v4_bits x) div 2 ^ k = unat (v4_bits a) div 2 ^ k" by auto
  also have "\<dots> \<longleftrightarrow> unat lo \<le> unat (v4_bits x) \<and> unat (v4_bits x) \<le> unat hi"
    unfolding hi unfolding lo by (rule block_member) simp
  finally show "v4_bits a AND prefix_mask p = v4_bits x AND prefix_mask p
    \<longleftrightarrow> unat lo \<le> unat (v4_bits x) \<and> unat (v4_bits x) \<le> unat hi" .
qed

text \<open>The answer to a notation, and what else it decides.\<close>

lemma parse_cidr_Inr:
  assumes "parse_cidr cidr = Inr info"
  obtains a p where "p \<le> 32" "prefix_length info = p"
    "network info = show_bits (v4_bits a AND prefix_mask p)"
    "broadcast info = show_bits ((v4_bits a AND prefix_mask p) OR NOT (prefix_mask p))"
    "host_count info = (if 31 \<le> p then 2 ^ unat (32 - p) else saturating_sub (2 ^ unat (32 - p)) 2)"
    "first_host info = (if p < 31 then Some (show_bits ((v4_bits a AND prefix_mask p) + 1)) else None)"
    "last_host info = (if p < 31 then Some (show_bits (((v4_bits a AND prefix_mask p) OR NOT (prefix_mask p)) - 1)) else None)"
    "\<And>s x. parse_v4 s = Some x \<Longrightarrow> ip_in_cidr s cidr = Inr (v4_bits a AND prefix_mask p = v4_bits x AND prefix_mask p)"
proof -
  obtain ip q where parts: "split_char (CHR ''/'') cidr = [ip, q]"
    using assms by (auto simp: parse_cidr_def split: list.splits)
  obtain a p where block: "parse_block ''Invalid IP address: '' ''Invalid prefix length: '' ip q = Inr (a, p)"
    using assms parts by (auto simp: parse_cidr_def split: sum.splits)
  then have block': "parse_block ''Invalid network IP: '' ''Invalid prefix: '' ip q = Inr (a, p)"
    by (simp only: parse_block_Inr)
  have p: "p \<le> 32" using assms parts block by (auto simp: parse_cidr_def split: if_splits)
  then have le: "\<not> 32 < p" by (simp add: not_less)
  show ?thesis
    by (rule that [OF p, of a])
      (use assms parts block block' le in \<open>auto simp: parse_cidr_def ip_in_cidr_def Let_def\<close>)
qed

text \<open>C14: the answer to a CIDR notation is the block of the prefix: its network address is a multiple of the
  size of the block and its broadcast address the last one; an address is in range exactly when it is
  between the two; below a prefix of 31 the hosts are those strictly between, as many as counted.\<close>

theorem cidr_block:
  assumes "parse_cidr cidr = Inr info"
  shows "\<exists>net brd. parse_v4 (network info) = Some net \<and> parse_v4 (broadcast info) = Some brd
    \<and> (let lo = unat (v4_bits net); hi = unat (v4_bits brd); size = 2 ^ (32 - unat (prefix_length info))
       in prefix_length info \<le> 32 \<and> lo mod size = 0 \<and> hi = lo + size - 1
        \<and> (\<forall>s x. parse_v4 s = Some x \<longrightarrow>
             ip_in_cidr s cidr = Inr (lo \<le> unat (v4_bits x) \<and> unat (v4_bits x) \<le> hi))
        \<and> (if prefix_length info < 31
           then unat (host_count info) = hi - lo - 1
             \<and> (\<exists>f l. first_host info = Some f \<and> last_host info = Some l
                 \<and> map_option (unat \<circ> v4_bits) (parse_v4 f) = Some (lo + 1)
                 \<and> map_option (unat \<circ> v4_bits) (parse_v4 l) = Some (hi - 1))
           else unat (host_count info) = hi - lo + 1 \<and> first_host info = None \<and> last_host info = None))"
proof -
  obtain a p where p: "p \<le> 32" and info: "prefix_length info = p"
    "network info = show_bits (v4_bits a AND prefix_mask p)"
    "broadcast info = show_bits ((v4_bits a AND prefix_mask p) OR NOT (prefix_mask p))"
    "host_count info = (if 31 \<le> p then 2 ^ unat (32 - p) else saturating_sub (2 ^ unat (32 - p)) 2)"
    "first_host info = (if p < 31 then Some (show_bits ((v4_bits a AND prefix_mask p) + 1)) else None)"
    "last_host info = (if p < 31 then Some (show_bits (((v4_bits a AND prefix_mask p) OR NOT (prefix_mask p)) - 1)) else None)"
    and range: "\<And>s x. parse_v4 s = Some x \<Longrightarrow> ip_in_cidr s cidr = Inr (v4_bits a AND prefix_mask p = v4_bits x AND prefix_mask p)"
    by (rule parse_cidr_Inr [OF assms]) (rule that)
  define lo hi k where "lo = v4_bits a AND prefix_mask p" and "hi = (v4_bits a AND prefix_mask p) OR NOT (prefix_mask p)"
    and "k = 32 - unat p"
  note bounds = block_bounds [OF p, of a, folded k_def, folded hi_def, folded lo_def]
  have size: "(0 :: nat) < 2 ^ k" "unat (32 - p) = k" using p by (simp_all add: k_def unat_sub)
  have count: "unat (2 ^ k :: u64) = 2 ^ k"
  proof -
    have "k < 64" by (simp add: k_def)
    then have "unat (of_nat (2 ^ k) :: u64) = 2 ^ k" by (simp only: unsigned_of_nat) (simp add: take_bit_nat_eq_self)
    then show ?thesis by simp
  qed
  have ends: "unat lo mod 2 ^ k = 0" "unat hi = unat lo + 2 ^ k - 1" using bounds(1,2) by simp_all
  have addresses: "parse_v4 (network info) = Some (v4_of_bits lo)" "parse_v4 (broadcast info) = Some (v4_of_bits hi)"
    using info by (simp_all add: parse_show_bits lo_def hi_def)
  have members: "ip_in_cidr s cidr = Inr (unat lo \<le> unat (v4_bits x) \<and> unat (v4_bits x) \<le> unat hi)"
    if "parse_v4 s = Some x" for s x
    using range [OF that] block_bounds(3) [OF p, of a x, folded k_def, folded hi_def, folded lo_def] by (simp add: lo_def)
  have hosts: "if p < 31
    then unat (host_count info) = unat hi - unat lo - 1
      \<and> (\<exists>f l. first_host info = Some f \<and> last_host info = Some l
          \<and> map_option (unat \<circ> v4_bits) (parse_v4 f) = Some (unat lo + 1)
          \<and> map_option (unat \<circ> v4_bits) (parse_v4 l) = Some (unat hi - 1))
    else unat (host_count info) = unat hi - unat lo + 1 \<and> first_host info = None \<and> last_host info = None"
  proof (cases "p < 31")
    case True
    then have "2 \<le> k" by (simp add: k_def word_less_nat_alt)
    then have four: "(4 :: nat) \<le> 2 ^ k" using power_increasing [of 2 k "2 :: nat"] by simp
    have "unat lo < unat hi" using ends(2) four by simp
    then have next_lo: "unat (lo + 1) = unat lo + 1" by (simp add: unat_inc)
    have "hi \<noteq> 0" using ends(2) four by auto
    then have prev_hi: "unat (hi - 1) = unat hi - 1" by (simp add: unat_minus_one)
    have "host_count info = saturating_sub (2 ^ k) 2" using info(4) True size(2) by (simp add: word_less_nat_alt word_le_nat_alt)
    then have "unat (host_count info) = unat hi - unat lo - 1"
      using count four ends(2) by (simp add: unat_saturating_sub)
    then show ?thesis
      using True info(5,6) next_lo prev_hi parse_bits_number [of "lo + 1"] parse_bits_number [of "hi - 1"]
      by (simp flip: lo_def) (simp add: hi_def lo_def)
  next
    case False
    then have "host_count info = 2 ^ k" using info(4) size(2) by (simp add: not_less)
    then show ?thesis using False info(5,6) count ends(2) size(1) by simp
  qed
  show ?thesis
    by (intro exI conjI) (rule addresses(1), rule addresses(2),
      unfold Let_def v4_bits_of_bits info(1) k_def [symmetric], use members hosts ends p in blast)
qed

lemma sample_shown:
  "show_bits 0xC0A80140 = ''192.168.1.64''" "show_bits 0xC0A8017F = ''192.168.1.127''" "show_bits 0xFFFFFFC0 = ''255.255.255.192''"
  "show_bits 0xC0A80141 = ''192.168.1.65''" "show_bits 0xC0A8017E = ''192.168.1.126''"
proof -
  have nums: "show_nat 192 = ''192''" "show_nat 168 = ''168''" "show_nat 1 = ''1''" "show_nat 64 = ''64''" "show_nat 127 = ''127''"
    "show_nat 255 = ''255''" "show_nat 65 = ''65''" "show_nat 126 = ''126''" by code_simp+
  show "show_bits 0xC0A80140 = ''192.168.1.64''" "show_bits 0xC0A8017F = ''192.168.1.127''" "show_bits 0xFFFFFFC0 = ''255.255.255.192''"
    "show_bits 0xC0A80141 = ''192.168.1.65''" "show_bits 0xC0A8017E = ''192.168.1.126''"
    using nums by (simp_all add: show_bits_def v4_of_bits_def show_v4_def)
qed

lemma sample_block:
  "parse_cidr ''192.168.1.77/26'' = Inr \<lparr>info_cidr = ''192.168.1.77/26'', network = ''192.168.1.64'',
     broadcast = ''192.168.1.127'', netmask = ''255.255.255.192'', prefix_length = 26, host_count = 62,
     first_host = Some ''192.168.1.65'', last_host = Some ''192.168.1.126''\<rparr>"
proof -
  have block: "parse_block e f ''192.168.1.77'' ''26'' = Inr ((192, 168, 1, 77), 26)" for e f
    by (simp add: parse_block_def parse_v4_def parse_octet_def parse_uint_def to_digit_def)
  have mask: "prefix_mask 26 = 0xFFFFFFC0" by (simp add: prefix_mask_def mask_eq_exp_minus_1)
  have "v4_bits (192, 168, 1, 77) = 0xC0A8014D" by (simp add: v4_bits.simps)
  moreover have "show_bits (- 1062731393) = ''192.168.1.127''" "show_bits (- 1062731394) = ''192.168.1.126''"
  proof -
    have eq: "(- 1062731393 :: u32) = 0xC0A8017F" "(- 1062731394 :: u32) = 0xC0A8017E" by simp_all
    show "show_bits (- 1062731393) = ''192.168.1.127''" "show_bits (- 1062731394) = ''192.168.1.126''"
      unfolding eq by (rule sample_shown)+
  qed
  ultimately show ?thesis by (simp add: parse_cidr_def block mask Let_def sample_shown saturating_sub_def)
qed

theorem cidr_block_witness:
  "\<exists>net brd. parse_v4 ''192.168.1.64'' = Some net \<and> parse_v4 ''192.168.1.127'' = Some brd
    \<and> unat (v4_bits brd) = unat (v4_bits net) + 63
    \<and> (\<forall>s x. parse_v4 s = Some x \<longrightarrow> ip_in_cidr s ''192.168.1.77/26''
          = Inr (unat (v4_bits net) \<le> unat (v4_bits x) \<and> unat (v4_bits x) \<le> unat (v4_bits brd)))"
  using cidr_block [OF sample_block] by (auto simp: Let_def)

section \<open>Names and classes\<close>

text \<open>The digits in base 2 of a binary form, read back.\<close>

definition from_bits :: "string \<Rightarrow> nat" where
  "from_bits s = foldl (\<lambda>n c. 2 * n + (if c = CHR ''1'' then 1 else 0)) 0 s"

lemma from_bits_snoc: "from_bits (s @ [c]) = 2 * from_bits s + (if c = CHR ''1'' then 1 else 0)"
  by (simp add: from_bits_def)

lemma from_bits_show: "from_bits (show_radix 2 n) = n"
proof (induction n rule: less_induct)
  case (less n)
  have "n = 0 \<or> n = 1 \<or> 2 \<le> n" by arith
  then show ?case
  proof (elim disjE)
    assume "2 \<le> n"
    moreover have halves: "n mod 2 = Suc 0 \<Longrightarrow> Suc (2 * (n div 2)) = n" "n mod 2 = 0 \<Longrightarrow> 2 * (n div 2) = n" by presburger+
    moreover have "digit_char (n mod 2) = (if n mod 2 = 1 then CHR ''1'' else CHR ''0'')"
    proof -
      have "n mod 2 = 0 \<or> n mod 2 = 1" by presburger
      then show ?thesis by (auto simp: digit_char_simps)
    qed
    ultimately show ?thesis
      using less.IH [of "n div 2"] halves by (auto simp: show_radix.simps [of 2 n] from_bits_snoc)
  qed (simp_all add: show_radix.simps [of 2 0] show_radix.simps [of 2 "Suc 0"] digit_char_simps from_bits_def)
qed

lemma from_bits_pad: "from_bits (pad_left k (show_radix 2 n)) = n"
proof -
  have zeros: "from_bits (replicate m (CHR ''0'') @ s) = from_bits s" for m s
    by (induction m) (simp_all add: from_bits_def)
  show ?thesis by (simp add: pad_left_def zeros from_bits_show)
qed

text \<open>Link-local addresses of IPv6 are classed as public, and so are its private ones.\<close>

lemma v6_link_local_public:
  "classification (classify_ip (V6 0xfe80 0 0 0 0 0 0 1)) = ''public''
    \<and> classification (classify_ip (V6 0xfc00 0 0 0 0 0 0 1)) = ''public''"
  by (simp add: classify_ip_def)

text \<open>What is classed as private here is also private for the network checks of the permissions.\<close>

lemma private_class_refused:
  assumes "classification (classify_ip (V4 a b c d)) \<in> {''loopback'', ''private'', ''link-local''}"
  shows "is_private_ip (V4 a b c d)"
proof -
  have "16 \<le> b \<and> b \<le> 31" if "b AND 0xf0 = 16"
  proof -
    have "NOT (mask 4) = (0xf0 :: u8)" by (simp add: mask_eq_exp_minus_1)
    then have "b AND NOT (mask 4) = 16" using that by (simp only:)
    then have "unat b div 16 * 16 = 16" using unat_and_not_mask [of b 4] by simp
    then show ?thesis by (simp add: word_le_nat_alt) presburger
  qed
  then show ?thesis using assms by (auto simp: classify_ip_def split: if_splits)
qed

end
