(* ===== verification/ExprParser.thy ===== *)
theory ExprParser
  imports RustText Float64
begin

text \<open>
  The expression evaluator of \<open>argentor-builtins/src/calculator.rs\<close>: the tokenizer and the recursive
  descent. A position in the tokens is the list of those that are left. Every call takes fuel, which
  \<open>evaluate_expression\<close> gives enough of. \<open>powf\<close> is a parameter.
\<close>

section \<open>Tokens\<close>

datatype Token = Number f64 | Plus | Minus | Star | Slash | Caret | LParen | RParen

definition is_number_char :: "char \<Rightarrow> bool" where
  "is_number_char c \<longleftrightarrow> to_digit c \<noteq> None \<or> c = CHR ''.''"

text \<open>\<open>str::parse::<f64>\<close> of digits and dots: at most one dot and at least one digit, correctly rounded.\<close>

definition digits_value :: "string \<Rightarrow> nat" where
  "digits_value ds = foldl (\<lambda>n c. 10 * n + (case to_digit c of Some d \<Rightarrow> d | None \<Rightarrow> 0)) 0 ds"

definition parse_decimal :: "string \<Rightarrow> f64 option" where
  "parse_decimal s =
     (case split_char (CHR ''.'') s of
        [ds] \<Rightarrow> if ds = [] then None else Some (lit (of_nat (digits_value ds)))
      | [ds, fs] \<Rightarrow>
          if ds = [] \<and> fs = [] then None
          else Some (lit (of_nat (digits_value (ds @ fs)) / 10 ^ length fs))
      | _ \<Rightarrow> None)"

definition symbol :: "char \<Rightarrow> Token option" where
  "symbol c =
     (if c = CHR ''+'' then Some Plus else if c = CHR ''-'' then Some Minus else if c = CHR ''*'' then Some Star
      else if c = CHR ''/'' then Some Slash else if c = CHR ''^'' then Some Caret
      else if c = CHR ''('' then Some LParen else if c = CHR '')'' then Some RParen else None)"

function tokenize :: "string \<Rightarrow> string + Token list" where
  "tokenize s =
     (case s of
        [] \<Rightarrow> Inr []
      | c # cs \<Rightarrow>
          if c \<in> {CHR '' '', CHR 9, CHR 10, CHR 13} then tokenize cs
          else case symbol c of
            Some t \<Rightarrow> map_sum id ((#) t) (tokenize cs)
          | None \<Rightarrow>
              if is_number_char c
              then
                let num = takeWhile is_number_char s
                in case parse_decimal num of
                     None \<Rightarrow> Inl (''Invalid number: '' @ num)
                   | Some n \<Rightarrow> map_sum id ((#) (Number n)) (tokenize (dropWhile is_number_char cs))
              else Inl (''Unexpected character: '' @ [CHR 39, c, CHR 39]))"
  by auto
termination
  by (relation "measure length") (auto simp: length_dropWhile_le le_imp_less_Suc)

declare tokenize.simps [simp del]

section \<open>The descent\<close>

text \<open>An outcome: out of fuel, an error, or a value and the tokens that are left.\<close>

type_synonym outcome = "(string + f64 \<times> Token list) option"

definition chain :: "outcome \<Rightarrow> (f64 \<Rightarrow> Token list \<Rightarrow> outcome) \<Rightarrow> outcome" where
  "chain x f =
     (case x of
        None \<Rightarrow> None
      | Some (Inl e) \<Rightarrow> Some (Inl e)
      | Some (Inr (v, ts)) \<Rightarrow> f v ts)"

text \<open>The \<open>Debug\<close> form of a token; that of a number is the parameter \<open>show\<close>.\<close>

fun debug_token :: "(f64 \<Rightarrow> string) \<Rightarrow> Token \<Rightarrow> string" where
  "debug_token sh (Number n) = ''Number('' @ sh n @ '')''"
| "debug_token sh Plus = ''Plus''"
| "debug_token sh Minus = ''Minus''"
| "debug_token sh Star = ''Star''"
| "debug_token sh Slash = ''Slash''"
| "debug_token sh Caret = ''Caret''"
| "debug_token sh LParen = ''LParen''"
| "debug_token sh RParen = ''RParen''"

record Floats =
  powf :: "f64 \<Rightarrow> f64 \<Rightarrow> f64"
  show_f64 :: "f64 \<Rightarrow> string"

text \<open>\<open>x == 0.0\<close> holds for both zeros.\<close>

definition is_zero :: "f64 \<Rightarrow> bool" where
  "is_zero x \<longleftrightarrow> x \<le> 0 \<and> 0 \<le> x"

text \<open>The functions of the descent as one recursion on the fuel: a level is a function, or one of the two
  loops with its accumulator.\<close>

datatype Level = ExprLevel | ExprLoop f64 | TermLevel | TermLoop f64 | PowerLevel | UnaryLevel | PrimaryLevel

primrec descend :: "Floats \<Rightarrow> nat \<Rightarrow> Level \<Rightarrow> Token list \<Rightarrow> outcome" where
  "descend fl 0 = (\<lambda>level ts. None)"
| "descend fl (Suc n) = (\<lambda>level ts.
     case level of
       ExprLevel \<Rightarrow> chain (descend fl n TermLevel ts) (\<lambda>left ts. descend fl n (ExprLoop left) ts)
     | ExprLoop left \<Rightarrow>
         (case ts of
            Plus # ts \<Rightarrow> chain (descend fl n TermLevel ts) (\<lambda>right ts. descend fl n (ExprLoop (left + right)) ts)
          | Minus # ts \<Rightarrow> chain (descend fl n TermLevel ts) (\<lambda>right ts. descend fl n (ExprLoop (left - right)) ts)
          | _ \<Rightarrow> Some (Inr (left, ts)))
     | TermLevel \<Rightarrow> chain (descend fl n PowerLevel ts) (\<lambda>left ts. descend fl n (TermLoop left) ts)
     | TermLoop left \<Rightarrow>
         (case ts of
            Star # ts \<Rightarrow> chain (descend fl n PowerLevel ts) (\<lambda>right ts. descend fl n (TermLoop (left * right)) ts)
          | Slash # ts \<Rightarrow> chain (descend fl n PowerLevel ts)
              (\<lambda>right ts. if is_zero right then Some (Inl ''Division by zero in expression'')
                          else descend fl n (TermLoop (left / right)) ts)
          | _ \<Rightarrow> Some (Inr (left, ts)))
     | PowerLevel \<Rightarrow>
         chain (descend fl n UnaryLevel ts)
           (\<lambda>base ts. case ts of
                Caret # ts \<Rightarrow> chain (descend fl n PowerLevel ts) (\<lambda>e ts. Some (Inr (powf fl base e, ts)))
              | _ \<Rightarrow> Some (Inr (base, ts)))
     | UnaryLevel \<Rightarrow>
         (case ts of
            Minus # ts \<Rightarrow> chain (descend fl n UnaryLevel ts) (\<lambda>v ts. Some (Inr (- v, ts)))
          | _ \<Rightarrow> descend fl n PrimaryLevel ts)
     | PrimaryLevel \<Rightarrow>
         (case ts of
            [] \<Rightarrow> Some (Inl ''Unexpected end of expression'')
          | Number v # ts \<Rightarrow> Some (Inr (v, ts))
          | LParen # ts \<Rightarrow>
              chain (descend fl n ExprLevel ts)
                (\<lambda>v ts. case ts of
                     RParen # ts \<Rightarrow> Some (Inr (v, ts))
                   | _ \<Rightarrow> Some (Inl ''Missing closing parenthesis''))
          | t # ts \<Rightarrow> Some (Inl (''Unexpected token: '' @ debug_token (show_f64 fl) t))))"

definition parse_expr :: "Floats \<Rightarrow> nat \<Rightarrow> Token list \<Rightarrow> outcome" where
  "parse_expr fl n ts = descend fl n ExprLevel ts"

definition fuel :: "Token list \<Rightarrow> nat" where
  "fuel ts = 6 * length ts + 5"

definition evaluate_tokens :: "Floats \<Rightarrow> Token list \<Rightarrow> (string + f64) option" where
  "evaluate_tokens fl tokens =
     (case parse_expr fl (fuel tokens) tokens of
        None \<Rightarrow> None
      | Some (Inl e) \<Rightarrow> Some (Inl e)
      | Some (Inr (v, [])) \<Rightarrow> Some (Inr v)
      | Some (Inr (v, t # ts)) \<Rightarrow>
          Some (Inl (''Unexpected token at position '' @ show_nat (length tokens - length (t # ts)) @ '': ''
            @ debug_token (show_f64 fl) t)))"

definition evaluate_expression :: "Floats \<Rightarrow> string \<Rightarrow> (string + f64) option" where
  "evaluate_expression fl input =
     (case tokenize input of Inl e \<Rightarrow> Some (Inl e) | Inr tokens \<Rightarrow> evaluate_tokens fl tokens)"

section \<open>The grammar\<close>

text \<open>What the comment above \<open>parse_expr\<close> says, as trees; the repetitions are tails.\<close>

datatype expr = Expr "term" etail
and etail = ENil | EPlus "term" etail | EMinus "term" etail
and "term" = Term power ttail
and ttail = TNil | TStar power ttail | TSlash power ttail
and power = Base unary | Pow unary power
and unary = Neg unary | Prim primary
and primary = Num f64 | Paren expr

primrec expr_tokens :: "expr \<Rightarrow> Token list"
and etail_tokens :: "etail \<Rightarrow> Token list"
and term_tokens :: "term \<Rightarrow> Token list"
and ttail_tokens :: "ttail \<Rightarrow> Token list"
and power_tokens :: "power \<Rightarrow> Token list"
and unary_tokens :: "unary \<Rightarrow> Token list"
and primary_tokens :: "primary \<Rightarrow> Token list" where
  "expr_tokens (Expr t l) = term_tokens t @ etail_tokens l"
| "etail_tokens ENil = []"
| "etail_tokens (EPlus t l) = Plus # term_tokens t @ etail_tokens l"
| "etail_tokens (EMinus t l) = Minus # term_tokens t @ etail_tokens l"
| "term_tokens (Term p l) = power_tokens p @ ttail_tokens l"
| "ttail_tokens TNil = []"
| "ttail_tokens (TStar p l) = Star # power_tokens p @ ttail_tokens l"
| "ttail_tokens (TSlash p l) = Slash # power_tokens p @ ttail_tokens l"
| "power_tokens (Base u) = unary_tokens u"
| "power_tokens (Pow u p) = unary_tokens u @ Caret # power_tokens p"
| "unary_tokens (Neg u) = Minus # unary_tokens u"
| "unary_tokens (Prim p) = primary_tokens p"
| "primary_tokens (Num v) = [Number v]"
| "primary_tokens (Paren e) = LParen # expr_tokens e @ [RParen]"

definition andthen :: "string + f64 \<Rightarrow> (f64 \<Rightarrow> string + f64) \<Rightarrow> string + f64" where
  "andthen x f = (case x of Inl e \<Rightarrow> Inl e | Inr v \<Rightarrow> f v)"

text \<open>The value of a tree: the operators of a level from left to right, powers from right to left.\<close>

primrec expr_value :: "Floats \<Rightarrow> expr \<Rightarrow> string + f64"
and etail_value :: "Floats \<Rightarrow> etail \<Rightarrow> f64 \<Rightarrow> string + f64"
and term_value :: "Floats \<Rightarrow> term \<Rightarrow> string + f64"
and ttail_value :: "Floats \<Rightarrow> ttail \<Rightarrow> f64 \<Rightarrow> string + f64"
and power_value :: "Floats \<Rightarrow> power \<Rightarrow> string + f64"
and unary_value :: "Floats \<Rightarrow> unary \<Rightarrow> string + f64"
and primary_value :: "Floats \<Rightarrow> primary \<Rightarrow> string + f64" where
  "expr_value fl (Expr t l) = andthen (term_value fl t) (etail_value fl l)"
| "etail_value fl ENil = Inr"
| "etail_value fl (EPlus t l) = (\<lambda>left. andthen (term_value fl t) (\<lambda>right. etail_value fl l (left + right)))"
| "etail_value fl (EMinus t l) = (\<lambda>left. andthen (term_value fl t) (\<lambda>right. etail_value fl l (left - right)))"
| "term_value fl (Term p l) = andthen (power_value fl p) (ttail_value fl l)"
| "ttail_value fl TNil = Inr"
| "ttail_value fl (TStar p l) = (\<lambda>left. andthen (power_value fl p) (\<lambda>right. ttail_value fl l (left * right)))"
| "ttail_value fl (TSlash p l) = (\<lambda>left. andthen (power_value fl p)
     (\<lambda>right. if is_zero right then Inl ''Division by zero in expression'' else ttail_value fl l (left / right)))"
| "power_value fl (Base u) = unary_value fl u"
| "power_value fl (Pow u p) = andthen (unary_value fl u) (\<lambda>b. andthen (power_value fl p) (\<lambda>e. Inr (powf fl b e)))"
| "unary_value fl (Neg u) = andthen (unary_value fl u) (\<lambda>v. Inr (- v))"
| "unary_value fl (Prim p) = primary_value fl p"
| "primary_value fl (Num v) = Inr v"
| "primary_value fl (Paren e) = expr_value fl e"

lemmas descend_Suc = descend.simps(2) [THEN fun_cong, THEN fun_cong]

declare descend.simps(2) [simp del]

section \<open>The fuel is enough\<close>

text \<open>What each level needs on top of six for every token, and the tokens it takes.\<close>

fun need :: "Level \<Rightarrow> nat" where
  "need ExprLevel = 5"
| "need (ExprLoop v) = 1"
| "need TermLevel = 4"
| "need (TermLoop v) = 1"
| "need PowerLevel = 3"
| "need UnaryLevel = 2"
| "need PrimaryLevel = 1"

fun takes :: "Level \<Rightarrow> nat" where
  "takes (ExprLoop v) = 0"
| "takes (TermLoop v) = 0"
| "takes level = 1"

definition settled :: "nat \<Rightarrow> outcome \<Rightarrow> bool" where
  "settled k x \<longleftrightarrow> (\<exists>r. x = Some r \<and> (\<forall>v rest. r = Inr (v, rest) \<longrightarrow> length rest \<le> k))"

lemma settled_chain:
  "settled k x \<Longrightarrow> (\<And>v rest. length rest \<le> k \<Longrightarrow> settled m (f v rest)) \<Longrightarrow> settled m (chain x f)"
  by (auto simp: settled_def chain_def split: sum.splits)

lemma settled_simps [simp]: "settled k (Some (Inl e))" "settled k (Some (Inr (v, ts))) \<longleftrightarrow> length ts \<le> k"
  by (auto simp: settled_def)

lemma settled_mono: "settled k x \<Longrightarrow> k \<le> m \<Longrightarrow> settled m x"
  by (fastforce simp: settled_def)

lemma descend_settled:
  "6 * length ts + need level \<le> n \<Longrightarrow> settled (length ts - takes level) (descend fl n level ts)"
proof (induction n arbitrary: level ts)
  case 0
  then show ?case by (cases level) auto
next
  case (Suc n)
  have IH: "settled k (descend fl n level ts)" if "6 * length ts + need level \<le> n" "length ts - takes level \<le> k" for level ts k
    using Suc.IH [OF that(1)] that(2) settled_mono by blast
  show ?case
  proof (cases level)
    case ExprLevel
    then show ?thesis
      using Suc.prems by (auto simp: descend_Suc intro!: settled_chain [where k = "length ts - 1"] IH)
  next
    case (ExprLoop left)
    then show ?thesis
      using Suc.prems
      by (auto simp: descend_Suc split: list.split Token.split intro!: settled_chain [where k = "length ts - 2"] IH)
  next
    case TermLevel
    then show ?thesis
      using Suc.prems by (auto simp: descend_Suc intro!: settled_chain [where k = "length ts - 1"] IH)
  next
    case (TermLoop left)
    then show ?thesis
      using Suc.prems
      by (auto simp: descend_Suc split: list.split Token.split intro!: settled_chain [where k = "length ts - 2"] IH)
  next
    case PowerLevel
    then show ?thesis
      using Suc.prems
      by (auto simp: descend_Suc split: list.split Token.split intro!: settled_chain [where k = "length ts - 1"] IH)
  next
    case UnaryLevel
    then show ?thesis
      using Suc.prems
      by (auto simp: descend_Suc split: list.split Token.split intro!: settled_chain [where k = "length ts - 2"] IH)
  next
    case PrimaryLevel
    then show ?thesis
      using Suc.prems
      by (auto simp: descend_Suc split: list.split Token.split intro!: settled_chain [where k = "length ts - 2"] IH)
  qed
qed

text \<open>The evaluation of any tokens returns.\<close>

lemma evaluate_tokens_returns: "evaluate_tokens fl ts \<noteq> None"
proof -
  have "settled (length ts - 1) (parse_expr fl (fuel ts) ts)"
    using descend_settled [of ts ExprLevel "fuel ts" fl] by (simp add: parse_expr_def fuel_def)
  then show ?thesis by (auto simp: evaluate_tokens_def settled_def split: sum.splits list.splits)
qed

section \<open>Every tree is evaluated\<close>

definition returns :: "string + f64 \<Rightarrow> Token list \<Rightarrow> outcome" where
  "returns r rest = Some (map_sum id (\<lambda>v. (v, rest)) r)"

lemma chain_returns: "chain (returns r rest) f = (case r of Inl e \<Rightarrow> Some (Inl e) | Inr v \<Rightarrow> f v rest)"
  by (cases r) (simp_all add: chain_def returns_def)

lemma returns_andthen: "returns (andthen r g) rest = (case r of Inl e \<Rightarrow> Some (Inl e) | Inr v \<Rightarrow> returns (g v) rest)"
  by (cases r) (simp_all add: andthen_def returns_def)

lemma returns_Inr [simp]: "returns (Inr v) rest = Some (Inr (v, rest))" "returns (Inl e) rest = Some (Inl e)"
  by (simp_all add: returns_def)

text \<open>What may not come next for a level to stop.\<close>

definition no_power :: "Token list \<Rightarrow> bool" where
  "no_power ts \<longleftrightarrow> (\<forall>us. ts \<noteq> Caret # us)"

definition no_term :: "Token list \<Rightarrow> bool" where
  "no_term ts \<longleftrightarrow> no_power ts \<and> (\<forall>us. ts \<noteq> Star # us \<and> ts \<noteq> Slash # us)"

definition no_expr :: "Token list \<Rightarrow> bool" where
  "no_expr ts \<longleftrightarrow> no_term ts \<and> (\<forall>us. ts \<noteq> Plus # us \<and> ts \<noteq> Minus # us)"

lemmas stops = no_power_def no_term_def no_expr_def

lemma etail_stops: "no_expr rest \<Longrightarrow> no_term (etail_tokens l @ rest)"
  by (cases l) (auto simp: stops)

lemma ttail_stops: "no_term rest \<Longrightarrow> no_power (ttail_tokens l @ rest)"
  by (cases l) (auto simp: stops)

lemma chain_case:
  "chain x f = (case x of None \<Rightarrow> None | Some (Inl e) \<Rightarrow> Some (Inl e) | Some (Inr (v, ts)) \<Rightarrow> f v ts)"
  by (simp add: chain_def)

lemma unary_tokens_head: "unary_tokens (Prim p) @ rest \<noteq> Minus # us"
  by (cases p) auto

lemma tree_evaluated:
  "no_expr rest \<Longrightarrow> 6 * length (expr_tokens e @ rest) + 5 \<le> n
     \<Longrightarrow> descend fl n ExprLevel (expr_tokens e @ rest) = returns (expr_value fl e) rest"
  "no_expr rest \<Longrightarrow> 6 * length (etail_tokens el @ rest) + 1 \<le> n
     \<Longrightarrow> descend fl n (ExprLoop left) (etail_tokens el @ rest) = returns (etail_value fl el left) rest"
  "no_term rest \<Longrightarrow> 6 * length (term_tokens t @ rest) + 4 \<le> n
     \<Longrightarrow> descend fl n TermLevel (term_tokens t @ rest) = returns (term_value fl t) rest"
  "no_term rest \<Longrightarrow> 6 * length (ttail_tokens tt @ rest) + 1 \<le> n
     \<Longrightarrow> descend fl n (TermLoop left) (ttail_tokens tt @ rest) = returns (ttail_value fl tt left) rest"
  "no_power rest \<Longrightarrow> 6 * length (power_tokens p @ rest) + 3 \<le> n
     \<Longrightarrow> descend fl n PowerLevel (power_tokens p @ rest) = returns (power_value fl p) rest"
  "6 * length (unary_tokens u @ rest) + 2 \<le> n
     \<Longrightarrow> descend fl n UnaryLevel (unary_tokens u @ rest) = returns (unary_value fl u) rest"
  "6 * length (primary_tokens q @ rest) + 1 \<le> n
     \<Longrightarrow> descend fl n PrimaryLevel (primary_tokens q @ rest) = returns (primary_value fl q) rest"
proof (induction e and el and t and tt and p and u and q arbitrary: n rest and n rest left and n rest
    and n rest left and n rest and n rest and n rest)
  case (Expr t l)
  then obtain m where n: "n = Suc m" by (cases n) auto
  have "descend fl m TermLevel (term_tokens t @ etail_tokens l @ rest) = returns (term_value fl t) (etail_tokens l @ rest)"
    using Expr.prems n by (intro Expr.IH(1) etail_stops) auto
  moreover have "descend fl m (ExprLoop left) (etail_tokens l @ rest) = returns (etail_value fl l left) rest" for left
    using Expr.prems n by (intro Expr.IH(2)) auto
  ultimately show ?case by (auto simp: n descend_Suc chain_returns returns_andthen split: sum.split)
next
  case ENil
  then show ?case by (cases n) (auto simp: descend_Suc stops split: list.split Token.split)
next
  case (EPlus t l)
  then obtain m where n: "n = Suc m" by (cases n) auto
  have "descend fl m TermLevel (term_tokens t @ etail_tokens l @ rest) = returns (term_value fl t) (etail_tokens l @ rest)"
    using EPlus.prems n by (intro EPlus.IH(1) etail_stops) auto
  moreover have "descend fl m (ExprLoop left) (etail_tokens l @ rest) = returns (etail_value fl l left) rest" for left
    using EPlus.prems n by (intro EPlus.IH(2)) auto
  ultimately show ?case by (auto simp: n descend_Suc chain_returns returns_andthen split: sum.split)
next
  case (EMinus t l)
  then obtain m where n: "n = Suc m" by (cases n) auto
  have "descend fl m TermLevel (term_tokens t @ etail_tokens l @ rest) = returns (term_value fl t) (etail_tokens l @ rest)"
    using EMinus.prems n by (intro EMinus.IH(1) etail_stops) auto
  moreover have "descend fl m (ExprLoop left) (etail_tokens l @ rest) = returns (etail_value fl l left) rest" for left
    using EMinus.prems n by (intro EMinus.IH(2)) auto
  ultimately show ?case by (auto simp: n descend_Suc chain_returns returns_andthen split: sum.split)
next
  case (Term p l)
  then obtain m where n: "n = Suc m" by (cases n) auto
  have "descend fl m PowerLevel (power_tokens p @ ttail_tokens l @ rest) = returns (power_value fl p) (ttail_tokens l @ rest)"
    using Term.prems n by (intro Term.IH(1) ttail_stops) auto
  moreover have "descend fl m (TermLoop left) (ttail_tokens l @ rest) = returns (ttail_value fl l left) rest" for left
    using Term.prems n by (intro Term.IH(2)) auto
  ultimately show ?case by (auto simp: n descend_Suc chain_returns returns_andthen split: sum.split)
next
  case TNil
  then show ?case by (cases n) (auto simp: descend_Suc stops split: list.split Token.split)
next
  case (TStar p l)
  then obtain m where n: "n = Suc m" by (cases n) auto
  have "descend fl m PowerLevel (power_tokens p @ ttail_tokens l @ rest) = returns (power_value fl p) (ttail_tokens l @ rest)"
    using TStar.prems n by (intro TStar.IH(1) ttail_stops) auto
  moreover have "descend fl m (TermLoop left) (ttail_tokens l @ rest) = returns (ttail_value fl l left) rest" for left
    using TStar.prems n by (intro TStar.IH(2)) auto
  ultimately show ?case by (auto simp: n descend_Suc chain_returns returns_andthen split: sum.split)
next
  case (TSlash p l)
  then obtain m where n: "n = Suc m" by (cases n) auto
  have "descend fl m PowerLevel (power_tokens p @ ttail_tokens l @ rest) = returns (power_value fl p) (ttail_tokens l @ rest)"
    using TSlash.prems n by (intro TSlash.IH(1) ttail_stops) auto
  moreover have "descend fl m (TermLoop left) (ttail_tokens l @ rest) = returns (ttail_value fl l left) rest" for left
    using TSlash.prems n by (intro TSlash.IH(2)) auto
  ultimately show ?case by (auto simp: n descend_Suc chain_returns returns_andthen split: sum.split)
next
  case (Base u)
  then obtain m where n: "n = Suc m" by (cases n) auto
  have "descend fl m UnaryLevel (unary_tokens u @ rest) = returns (unary_value fl u) rest"
    using Base.prems n by (intro Base.IH) auto
  then show ?case
    using Base.prems by (auto simp: n descend_Suc chain_returns stops split: sum.split list.split Token.split)
next
  case (Pow u p)
  then obtain m where n: "n = Suc m" by (cases n) auto
  have "descend fl m UnaryLevel (unary_tokens u @ Caret # power_tokens p @ rest) = returns (unary_value fl u) (Caret # power_tokens p @ rest)"
    using Pow.prems n by (intro Pow.IH(1)) auto
  moreover have "descend fl m PowerLevel (power_tokens p @ rest) = returns (power_value fl p) rest"
    using Pow.prems n by (intro Pow.IH(2)) auto
  ultimately show ?case by (auto simp: n descend_Suc chain_returns returns_andthen split: sum.split)
next
  case (Neg u)
  then obtain m where n: "n = Suc m" by (cases n) auto
  have "descend fl m UnaryLevel (unary_tokens u @ rest) = returns (unary_value fl u) rest"
    using Neg.prems n by (intro Neg.IH) auto
  then show ?case by (auto simp: n descend_Suc chain_returns returns_andthen split: sum.split)
next
  case (Prim q)
  then obtain m where n: "n = Suc m" by (cases n) auto
  have "descend fl m PrimaryLevel (primary_tokens q @ rest) = returns (primary_value fl q) rest"
    using Prim.prems n by (intro Prim.IH) auto
  then show ?case using n unary_tokens_head [of q rest] by (cases q) (simp_all add: descend_Suc)
next
  case (Num v)
  then show ?case by (cases n) (auto simp: descend_Suc)
next
  case (Paren e)
  then obtain m where n: "n = Suc m" by (cases n) auto
  have "descend fl m ExprLevel (expr_tokens e @ RParen # rest) = returns (expr_value fl e) (RParen # rest)"
    using Paren.prems n by (intro Paren.IH) (auto simp: stops)
  then show ?case by (auto simp: n descend_Suc chain_returns split: sum.split)
qed

section \<open>Every value comes from a tree\<close>

primrec derives :: "Floats \<Rightarrow> Level \<Rightarrow> Token list \<Rightarrow> f64 \<Rightarrow> bool" where
  "derives fl ExprLevel ts = (\<lambda>v. \<exists>e. expr_tokens e = ts \<and> expr_value fl e = Inr v)"
| "derives fl (ExprLoop left) ts = (\<lambda>v. \<exists>l. etail_tokens l = ts \<and> etail_value fl l left = Inr v)"
| "derives fl TermLevel ts = (\<lambda>v. \<exists>t. term_tokens t = ts \<and> term_value fl t = Inr v)"
| "derives fl (TermLoop left) ts = (\<lambda>v. \<exists>l. ttail_tokens l = ts \<and> ttail_value fl l left = Inr v)"
| "derives fl PowerLevel ts = (\<lambda>v. \<exists>p. power_tokens p = ts \<and> power_value fl p = Inr v)"
| "derives fl UnaryLevel ts = (\<lambda>v. \<exists>u. unary_tokens u = ts \<and> unary_value fl u = Inr v)"
| "derives fl PrimaryLevel ts = (\<lambda>v. \<exists>q. primary_tokens q = ts \<and> primary_value fl q = Inr v)"

text \<open>Each production, for the level it belongs to.\<close>

lemma derives_intros:
  "derives fl TermLevel a x \<Longrightarrow> derives fl (ExprLoop x) b v \<Longrightarrow> derives fl ExprLevel (a @ b) v"
  "derives fl (ExprLoop left) [] left"
  "derives fl TermLevel a x \<Longrightarrow> derives fl (ExprLoop (left + x)) b v \<Longrightarrow> derives fl (ExprLoop left) (Plus # a @ b) v"
  "derives fl TermLevel a x \<Longrightarrow> derives fl (ExprLoop (left - x)) b v \<Longrightarrow> derives fl (ExprLoop left) (Minus # a @ b) v"
  "derives fl PowerLevel a x \<Longrightarrow> derives fl (TermLoop x) b v \<Longrightarrow> derives fl TermLevel (a @ b) v"
  "derives fl (TermLoop left) [] left"
  "derives fl PowerLevel a x \<Longrightarrow> derives fl (TermLoop (left * x)) b v \<Longrightarrow> derives fl (TermLoop left) (Star # a @ b) v"
  "derives fl PowerLevel a x \<Longrightarrow> \<not> is_zero x \<Longrightarrow> derives fl (TermLoop (left / x)) b v
     \<Longrightarrow> derives fl (TermLoop left) (Slash # a @ b) v"
  "derives fl UnaryLevel a v \<Longrightarrow> derives fl PowerLevel a v"
  "derives fl UnaryLevel a x \<Longrightarrow> derives fl PowerLevel b y \<Longrightarrow> derives fl PowerLevel (a @ Caret # b) (powf fl x y)"
  "derives fl UnaryLevel a v \<Longrightarrow> derives fl UnaryLevel (Minus # a) (- v)"
  "derives fl PrimaryLevel a v \<Longrightarrow> derives fl UnaryLevel a v"
  "derives fl PrimaryLevel [Number v] v"
  "derives fl ExprLevel a v \<Longrightarrow> derives fl PrimaryLevel (LParen # a @ [RParen]) v"
proof -
  show "derives fl TermLevel a x \<Longrightarrow> derives fl (ExprLoop x) b v \<Longrightarrow> derives fl ExprLevel (a @ b) v"
  proof -
    assume "derives fl TermLevel a x" "derives fl (ExprLoop x) b v"
    then obtain t l where "term_tokens t = a" "term_value fl t = Inr x" "etail_tokens l = b" "etail_value fl l x = Inr v" by auto
    then have "expr_tokens (Expr t l) = a @ b \<and> expr_value fl (Expr t l) = Inr v" by (simp add: andthen_def)
    then show ?thesis unfolding derives.simps by blast
  qed
  show "derives fl (ExprLoop left) [] left" by (auto intro!: exI [of _ ENil])
  show "derives fl TermLevel a x \<Longrightarrow> derives fl (ExprLoop (left + x)) b v \<Longrightarrow> derives fl (ExprLoop left) (Plus # a @ b) v"
  proof -
    assume "derives fl TermLevel a x" "derives fl (ExprLoop (left + x)) b v"
    then obtain t l where "term_tokens t = a" "term_value fl t = Inr x" "etail_tokens l = b" "etail_value fl l ((left + x)) = Inr v"  by auto
    then have "etail_tokens (EPlus t l) = Plus # a @ b \<and> etail_value fl (EPlus t l) left = Inr v" by (simp add: andthen_def)
    then show ?thesis unfolding derives.simps by blast
  qed
  show "derives fl TermLevel a x \<Longrightarrow> derives fl (ExprLoop (left - x)) b v \<Longrightarrow> derives fl (ExprLoop left) (Minus # a @ b) v"
  proof -
    assume "derives fl TermLevel a x" "derives fl (ExprLoop (left - x)) b v"
    then obtain t l where "term_tokens t = a" "term_value fl t = Inr x" "etail_tokens l = b" "etail_value fl l ((left - x)) = Inr v"  by auto
    then have "etail_tokens (EMinus t l) = Minus # a @ b \<and> etail_value fl (EMinus t l) left = Inr v" by (simp add: andthen_def)
    then show ?thesis unfolding derives.simps by blast
  qed
  show "derives fl PowerLevel a x \<Longrightarrow> derives fl (TermLoop x) b v \<Longrightarrow> derives fl TermLevel (a @ b) v"
  proof -
    assume "derives fl PowerLevel a x" "derives fl (TermLoop x) b v"
    then obtain t l where "power_tokens t = a" "power_value fl t = Inr x" "ttail_tokens l = b" "ttail_value fl l (x) = Inr v"  by auto
    then have "term_tokens (Term t l) = a @ b \<and> term_value fl (Term t l) = Inr v" by (simp add: andthen_def)
    then show ?thesis unfolding derives.simps by blast
  qed
  show "derives fl (TermLoop left) [] left" by (auto intro!: exI [of _ TNil])
  show "derives fl PowerLevel a x \<Longrightarrow> derives fl (TermLoop (left * x)) b v \<Longrightarrow> derives fl (TermLoop left) (Star # a @ b) v"
  proof -
    assume "derives fl PowerLevel a x" "derives fl (TermLoop (left * x)) b v"
    then obtain t l where "power_tokens t = a" "power_value fl t = Inr x" "ttail_tokens l = b" "ttail_value fl l ((left * x)) = Inr v"  by auto
    then have "ttail_tokens (TStar t l) = Star # a @ b \<and> ttail_value fl (TStar t l) left = Inr v" by (simp add: andthen_def)
    then show ?thesis unfolding derives.simps by blast
  qed
  show "derives fl PowerLevel a x \<Longrightarrow> \<not> is_zero x \<Longrightarrow> derives fl (TermLoop (left / x)) b v
     \<Longrightarrow> derives fl (TermLoop left) (Slash # a @ b) v"
  proof -
    assume "derives fl PowerLevel a x" "\<not> is_zero x" "derives fl (TermLoop (left / x)) b v"
    then obtain t l where "power_tokens t = a" "power_value fl t = Inr x" "ttail_tokens l = b" "ttail_value fl l ((left / x)) = Inr v" "\<not> is_zero x" by auto
    then have "ttail_tokens (TSlash t l) = Slash # a @ b \<and> ttail_value fl (TSlash t l) left = Inr v" by (simp add: andthen_def)
    then show ?thesis unfolding derives.simps by blast
  qed
  show "derives fl UnaryLevel a v \<Longrightarrow> derives fl PowerLevel a v"
  proof -
    assume "derives fl UnaryLevel a v"
    then obtain u where "unary_tokens u = a" "unary_value fl u = Inr v" by auto
    then have "power_tokens (Base u) = a \<and> power_value fl (Base u) = Inr v" by (simp add: andthen_def)
    then show ?thesis unfolding derives.simps by blast
  qed
  show "derives fl UnaryLevel a x \<Longrightarrow> derives fl PowerLevel b y \<Longrightarrow> derives fl PowerLevel (a @ Caret # b) (powf fl x y)"
  proof -
    assume "derives fl UnaryLevel a x" "derives fl PowerLevel b y"
    then obtain u p where "unary_tokens u = a" "unary_value fl u = Inr x" "power_tokens p = b" "power_value fl p = Inr y"  by auto
    then have "power_tokens (Pow u p) = a @ Caret # b \<and> power_value fl (Pow u p) = Inr (powf fl x y)" by (simp add: andthen_def)
    then show ?thesis unfolding derives.simps by blast
  qed
  show "derives fl UnaryLevel a v \<Longrightarrow> derives fl UnaryLevel (Minus # a) (- v)"
  proof -
    assume "derives fl UnaryLevel a v"
    then obtain u where "unary_tokens u = a" "unary_value fl u = Inr v" by auto
    then have "unary_tokens (Neg u) = Minus # a \<and> unary_value fl (Neg u) = Inr (- v)" by (simp add: andthen_def)
    then show ?thesis unfolding derives.simps by blast
  qed
  show "derives fl PrimaryLevel a v \<Longrightarrow> derives fl UnaryLevel a v"
  proof -
    assume "derives fl PrimaryLevel a v"
    then obtain u where "primary_tokens u = a" "primary_value fl u = Inr v" by auto
    then have "unary_tokens (Prim u) = a \<and> unary_value fl (Prim u) = Inr v" by (simp add: andthen_def)
    then show ?thesis unfolding derives.simps by blast
  qed
  show "derives fl PrimaryLevel [Number v] v" by (auto intro!: exI [of _ "Num v"])
  show "derives fl ExprLevel a v \<Longrightarrow> derives fl PrimaryLevel (LParen # a @ [RParen]) v"
  proof -
    assume "derives fl ExprLevel a v"
    then obtain u where "expr_tokens u = a" "expr_value fl u = Inr v" by auto
    then have "primary_tokens (Paren u) = LParen # a @ [RParen] \<and> primary_value fl (Paren u) = Inr v" by (simp add: andthen_def)
    then show ?thesis unfolding derives.simps by blast
  qed
qed

lemma chain_Inr: "chain x f = Some (Inr r) \<longleftrightarrow> (\<exists>v ts. x = Some (Inr (v, ts)) \<and> f v ts = Some (Inr r))"
  by (auto simp: chain_def split: option.splits sum.splits)

lemma descend_sound:
  "descend fl n level ts = Some (Inr (v, rest)) \<Longrightarrow> \<exists>us. ts = us @ rest \<and> derives fl level us v"
proof (induction n arbitrary: level ts v rest)
  case (Suc n)
  note run = Suc.prems [unfolded descend_Suc]
  show ?case
  proof (cases level)
    case ExprLevel
    then obtain x mid where a: "descend fl n TermLevel ts = Some (Inr (x, mid))" "descend fl n (ExprLoop x) mid = Some (Inr (v, rest))"
      using run by (auto simp: chain_Inr)
    show ?thesis using Suc.IH [OF a(1)] Suc.IH [OF a(2)] ExprLevel derives_intros(1) by fastforce
  next
    case (ExprLoop left)
    consider us x mid where "ts = Plus # us" "descend fl n TermLevel us = Some (Inr (x, mid))"
        "descend fl n (ExprLoop (left + x)) mid = Some (Inr (v, rest))"
      | us x mid where "ts = Minus # us" "descend fl n TermLevel us = Some (Inr (x, mid))"
        "descend fl n (ExprLoop (left - x)) mid = Some (Inr (v, rest))"
      | "v = left" "rest = ts"
      using run ExprLoop by (auto simp: chain_Inr split: list.splits Token.splits)
    then show ?thesis
    proof cases
      case 1
      then show ?thesis using Suc.IH [OF 1(2)] Suc.IH [OF 1(3)] ExprLoop derives_intros(3) by fastforce
    next
      case 2
      then show ?thesis using Suc.IH [OF 2(2)] Suc.IH [OF 2(3)] ExprLoop derives_intros(4) by fastforce
    next
      case 3
      then show ?thesis using ExprLoop derives_intros(2) [of fl left] by auto
    qed
  next
    case TermLevel
    then obtain x mid where a: "descend fl n PowerLevel ts = Some (Inr (x, mid))" "descend fl n (TermLoop x) mid = Some (Inr (v, rest))"
      using run by (auto simp: chain_Inr)
    show ?thesis using Suc.IH [OF a(1)] Suc.IH [OF a(2)] TermLevel derives_intros(5) by fastforce
  next
    case (TermLoop left)
    consider us x mid where "ts = Star # us" "descend fl n PowerLevel us = Some (Inr (x, mid))"
        "descend fl n (TermLoop (left * x)) mid = Some (Inr (v, rest))"
      | us x mid where "ts = Slash # us" "descend fl n PowerLevel us = Some (Inr (x, mid))" "\<not> is_zero x"
        "descend fl n (TermLoop (left / x)) mid = Some (Inr (v, rest))"
      | "v = left" "rest = ts"
      using run TermLoop by (auto simp: chain_Inr split: list.splits Token.splits if_splits)
    then show ?thesis
    proof cases
      case 1
      then show ?thesis using Suc.IH [OF 1(2)] Suc.IH [OF 1(3)] TermLoop derives_intros(7) by fastforce
    next
      case 2
      then show ?thesis using Suc.IH [OF 2(2)] Suc.IH [OF 2(4)] TermLoop derives_intros(8) by fastforce
    next
      case 3
      then show ?thesis using TermLoop derives_intros(6) [of fl left] by auto
    qed
  next
    case PowerLevel
    then obtain x mid where a: "descend fl n UnaryLevel ts = Some (Inr (x, mid))"
      and b: "(case mid of Caret # us \<Rightarrow> chain (descend fl n PowerLevel us) (\<lambda>e ts. Some (Inr (powf fl x e, ts)))
        | _ \<Rightarrow> Some (Inr (x, mid))) = Some (Inr (v, rest))"
      using run by (auto simp: chain_Inr)
    consider us y where "mid = Caret # us" "descend fl n PowerLevel us = Some (Inr (y, rest))" "v = powf fl x y"
      | "v = x" "rest = mid"
      using b by (auto simp: chain_Inr split: list.splits Token.splits)
    then show ?thesis
    proof cases
      case 1
      then show ?thesis using Suc.IH [OF a] Suc.IH [OF 1(2)] PowerLevel derives_intros(10) by fastforce
    next
      case 2
      then show ?thesis using Suc.IH [OF a] PowerLevel derives_intros(9) by fastforce
    qed
  next
    case UnaryLevel
    consider us x where "ts = Minus # us" "descend fl n UnaryLevel us = Some (Inr (x, rest))" "v = - x"
      | "descend fl n PrimaryLevel ts = Some (Inr (v, rest))"
      using run UnaryLevel by (auto simp: chain_Inr split: list.splits Token.splits)
    then show ?thesis
    proof cases
      case 1
      then show ?thesis using Suc.IH [OF 1(2)] UnaryLevel derives_intros(11) by fastforce
    next
      case 2
      then obtain us where "ts = us @ rest" "derives fl PrimaryLevel us v" using Suc.IH by blast
      then show ?thesis unfolding UnaryLevel using derives_intros(12) by blast
    qed
  next
    case PrimaryLevel
    consider "ts = Number v # rest" | us where "ts = LParen # us" "descend fl n ExprLevel us = Some (Inr (v, RParen # rest))"
    proof (cases ts)
      case Nil
      then show thesis using run PrimaryLevel by simp
    next
      case (Cons t us)
      then have "(\<exists>x. t = Number x) \<or> t = LParen" using run PrimaryLevel by (cases t) simp_all
      then show thesis
      proof
        assume "\<exists>x. t = Number x"
        then show thesis using that(1) run PrimaryLevel Cons by auto
      next
        assume t: "t = LParen"
        then obtain x ws where w: "descend fl n ExprLevel us = Some (Inr (x, ws))"
          "(case ws of RParen # ts \<Rightarrow> Some (Inr (x, ts)) | _ \<Rightarrow> Some (Inl ''Missing closing parenthesis'')) = Some (Inr (v, rest))"
          using run PrimaryLevel Cons by (auto simp: chain_Inr)
        then have "ws = RParen # rest \<and> x = v" by (cases ws; cases "hd ws") simp_all
        then show thesis using that(2) w(1) t Cons by simp
      qed
    qed
    then show ?thesis
    proof cases
      case 1
      then show ?thesis using PrimaryLevel derives_intros(13) by fastforce
    next
      case 2
      then obtain ws where "us = ws @ RParen # rest" "derives fl ExprLevel ws v" using Suc.IH by blast
      then show ?thesis using 2 PrimaryLevel derives_intros(14) by (intro exI [of _ "LParen # ws @ [RParen]"]) simp
    qed
  qed
qed simp

lemma evaluate_tree: "evaluate_tokens fl (expr_tokens e) = Some (expr_value fl e)"
  using tree_evaluated(1) [of "[]" e "fuel (expr_tokens e)" fl]
  by (cases "expr_value fl e") (simp_all add: evaluate_tokens_def parse_expr_def fuel_def stops)

text \<open>C13: the evaluator is the grammar of its comment. Tokens have a value exactly when they are the tokens of
  a tree of the grammar that has it; the tokens of every tree are evaluated to the value of the tree, or to
  its division by zero; and the evaluation of any tokens returns.\<close>

theorem evaluate_exact:
  "evaluate_tokens fl ts \<noteq> None
    \<and> (evaluate_tokens fl ts = Some (Inr v) \<longleftrightarrow> (\<exists>e. expr_tokens e = ts \<and> expr_value fl e = Inr v))
    \<and> evaluate_tokens fl (expr_tokens e) = Some (expr_value fl e)"
proof (intro conjI)
  show "evaluate_tokens fl (expr_tokens e) = Some (expr_value fl e)" by (rule evaluate_tree)
  show "evaluate_tokens fl ts \<noteq> None" by (rule evaluate_tokens_returns)
  show "evaluate_tokens fl ts = Some (Inr v) \<longleftrightarrow> (\<exists>e. expr_tokens e = ts \<and> expr_value fl e = Inr v)"
  proof
    assume "evaluate_tokens fl ts = Some (Inr v)"
    then have "descend fl (fuel ts) ExprLevel ts = Some (Inr (v, []))"
      by (auto simp: evaluate_tokens_def parse_expr_def split: option.splits sum.splits list.splits prod.splits)
    then show "\<exists>e. expr_tokens e = ts \<and> expr_value fl e = Inr v" using descend_sound by fastforce
  next
    assume "\<exists>e. expr_tokens e = ts \<and> expr_value fl e = Inr v"
    then show "evaluate_tokens fl ts = Some (Inr v)" using evaluate_tree by auto
  qed
qed

text \<open>The sign binds more tightly than the power: \<open>-2^2\<close> is the square of \<open>-2\<close>.\<close>

lemma sign_before_power:
  "evaluate_tokens fl [Minus, Number x, Caret, Number y] = Some (Inr (powf fl (- x) y))"
  using evaluate_tree [of fl "Expr (Term (Pow (Neg (Prim (Num x))) (Base (Prim (Num y)))) TNil) ENil"]
  by (simp add: andthen_def)

end
