(* ===== verification/Calculator.thy ===== *)
theory Calculator
  imports ExprParser
begin

text \<open>
  The calculator tool: the rest of \<open>argentor-builtins/src/calculator.rs\<close>. The arguments are what the
  readings of the JSON object give: \<open>as_f64\<close>, \<open>as_i64\<close> (64 bits, signed) and \<open>as_str\<close>. The functions of
  the platform's mathematical library are parameters. The trial divisions of \<open>is_prime\<close> wrap on 64 bits;
  \<open>None\<close> is a loop that does not end.
\<close>

section \<open>Integers\<close>

definition factorial :: "u64 \<Rightarrow> u64" where
  "factorial n = foldl (\<lambda>acc i. acc * of_nat i) 1 [1..<Suc (unat n)]"

partial_function (option) trial_divisions :: "u64 \<Rightarrow> u64 \<Rightarrow> bool option" where
  "trial_divisions n i =
     (if i * i \<le> n
      then if n mod i = 0 \<or> n mod (i + 2) = 0 then Some False else trial_divisions n (i + 6)
      else Some True)"

definition is_prime :: "u64 \<Rightarrow> bool option" where
  "is_prime n =
     (if n < 2 then Some False
      else if n < 4 then Some True
      else if n mod 2 = 0 \<or> n mod 3 = 0 then Some False
      else trial_divisions n 5)"

section \<open>Floating point\<close>

fun ffloor :: "f64 \<Rightarrow> f64" where
  "ffloor (Finite s a) = Finite s (of_int \<bar>\<lfloor>signed_of s a\<rfloor>\<bar>)"
| "ffloor x = x"

text \<open>\<open>f64::round\<close>: halves away from zero.\<close>

fun fround :: "f64 \<Rightarrow> f64" where
  "fround (Finite s a) = Finite s (of_int \<lfloor>a + 1 / 2\<rfloor>)"
| "fround x = x"

fun fabs :: "f64 \<Rightarrow> f64" where
  "fabs (Finite s a) = Finite False a"
| "fabs (Infinite s) = Infinite False"
| "fabs NaN = NaN"

text \<open>The remainder of \<open>%\<close> is exact and has the sign of the first operand.\<close>

fun frem :: "f64 \<Rightarrow> f64 \<Rightarrow> f64" where
  "frem (Finite s a) (Finite t b) = (if b = 0 then NaN else Finite s (a - of_int \<lfloor>a / b\<rfloor> * b))"
| "frem (Finite s a) (Infinite t) = Finite s a"
| "frem x y = NaN"

text \<open>\<open>std::f64::consts::E\<close>.\<close>

definition euler :: f64 where
  "euler = Finite False (6121026514868073 / 2251799813685248)"

definition partial_cmp :: "f64 \<Rightarrow> f64 \<Rightarrow> Ordering option" where
  "partial_cmp x y =
     (if x < y then Some Less else if y < x then Some Greater else if x \<le> y then Some Equal else None)"

definition mean :: "f64 list \<Rightarrow> f64" where
  "mean vals = foldl (+) (- 0) vals / of_uint (of_nat (length vals) :: u64)"

definition median :: "f64 list \<Rightarrow> f64" where
  "median values =
     (let sorted = sort_by (\<lambda>a b. case partial_cmp a b of Some ord \<Rightarrow> ord | None \<Rightarrow> Equal) values;
          mid = length sorted div 2
      in if length sorted mod 2 = 0 then (sorted ! (mid - 1) + sorted ! mid) / lit 2 else sorted ! mid)"

record Libm =
  floats :: Floats
  fsqrt :: "f64 \<Rightarrow> f64"
  fcbrt :: "f64 \<Rightarrow> f64"
  fln :: "f64 \<Rightarrow> f64"
  flog10 :: "f64 \<Rightarrow> f64"
  flog :: "f64 \<Rightarrow> f64 \<Rightarrow> f64"
  fsin :: "f64 \<Rightarrow> f64"
  fcos :: "f64 \<Rightarrow> f64"
  ftan :: "f64 \<Rightarrow> f64"

section \<open>The tool\<close>

text \<open>An element of \<open>values\<close> that is not a number is \<open>None\<close>.\<close>

record CalcArgs =
  calc_operation :: "string option"
  arg_a :: "f64 option"
  arg_b :: "f64 option"
  arg_value :: "f64 option"
  arg_values :: "f64 option list option"
  arg_base :: "f64 option"
  arg_exponent :: "f64 option"
  arg_n :: "u64 option"
  arg_expression :: "string option"

text \<open>The value under \<open>result\<close>; \<open>json!\<close> writes \<open>null\<close> for a number that is not finite.\<close>

datatype CalcAnswer = Float f64 | Null | Integer u64 | Truth bool

fun json_f64 :: "f64 \<Rightarrow> CalcAnswer" where
  "json_f64 (Finite s a) = Float (Finite s a)"
| "json_f64 x = Null"

type_synonym calc_result = "string + CalcAnswer"

definition success_json :: "f64 \<Rightarrow> calc_result" where
  "success_json value = Inr (json_f64 value)"

definition missing_arg :: "string \<Rightarrow> string" where
  "missing_arg key = ''Missing required parameter: '' @ key"

definition with_arg :: "string \<Rightarrow> 'a option \<Rightarrow> ('a \<Rightarrow> calc_result) \<Rightarrow> calc_result" where
  "with_arg key x f = (case x of None \<Rightarrow> Inl (missing_arg key) | Some v \<Rightarrow> f v)"

definition answer_of :: "string + f64 \<Rightarrow> calc_result" where
  "answer_of r = (case r of Inl e \<Rightarrow> Inl e | Inr v \<Rightarrow> success_json v)"

definition get_values :: "CalcArgs \<Rightarrow> f64 list option" where
  "get_values args = map_option (List.map_filter id) (arg_values args)"

definition binary_op :: "CalcArgs \<Rightarrow> (f64 \<Rightarrow> f64 \<Rightarrow> string + f64) \<Rightarrow> calc_result" where
  "binary_op args f = with_arg ''a'' (arg_a args) (\<lambda>a. with_arg ''b'' (arg_b args) (\<lambda>b. answer_of (f a b)))"

definition unary_op :: "CalcArgs \<Rightarrow> (f64 \<Rightarrow> string + f64) \<Rightarrow> calc_result" where
  "unary_op args f = with_arg ''value'' (arg_value args) (\<lambda>v. answer_of (f v))"

definition aggregate_op :: "CalcArgs \<Rightarrow> (f64 list \<Rightarrow> f64) \<Rightarrow> calc_result" where
  "aggregate_op args f =
     with_arg ''values (array of numbers)'' (get_values args)
       (\<lambda>values. if values = [] then Inl ''values array must not be empty'' else success_json (f values))"

definition undefined_log :: string where
  "undefined_log = ''Logarithm undefined for non-positive values''"

definition log_op :: "Libm \<Rightarrow> CalcArgs \<Rightarrow> calc_result" where
  "log_op m args =
     with_arg ''value'' (arg_value args)
       (\<lambda>value.
          if value \<le> 0 then Inl undefined_log
          else
            let base = (case arg_base args of Some b \<Rightarrow> b | None \<Rightarrow> euler)
            in if base \<le> 0 \<or> (base \<le> lit 1 \<and> lit 1 \<le> base)
               then Inl ''Logarithm base must be positive and not equal to 1''
               else success_json (flog m value base))"

definition factorial_op :: "CalcArgs \<Rightarrow> calc_result" where
  "factorial_op args =
     (case arg_n args of
        None \<Rightarrow> Inl ''Missing required integer parameter: n''
      | Some n \<Rightarrow>
          if sint n < 0 then Inl ''Factorial undefined for negative numbers''
          else if 20 < sint n then Inl ''Factorial overflow: maximum supported value is 20''
          else Inr (Integer (factorial n)))"

definition prime_op :: "CalcArgs \<Rightarrow> calc_result option" where
  "prime_op args =
     (case arg_n args of
        None \<Rightarrow> Some (Inl ''Missing required integer parameter: n'')
      | Some n \<Rightarrow>
          if sint n < 0 then Some (Inl ''Primality test undefined for negative numbers'')
          else map_option (\<lambda>prime. Inr (Truth prime)) (is_prime n))"

definition evaluate_op :: "Libm \<Rightarrow> CalcArgs \<Rightarrow> calc_result option" where
  "evaluate_op m args =
     (case arg_expression args of
        None \<Rightarrow> Some (Inl (missing_arg ''expression''))
      | Some e \<Rightarrow> map_option answer_of (evaluate_expression (floats m) e))"

definition numeric_op :: "Libm \<Rightarrow> string \<Rightarrow> CalcArgs \<Rightarrow> calc_result" where
  "numeric_op m operation args =
     (if operation = ''add'' then binary_op args (\<lambda>a b. Inr (a + b))
      else if operation = ''subtract'' then binary_op args (\<lambda>a b. Inr (a - b))
      else if operation = ''multiply'' then binary_op args (\<lambda>a b. Inr (a * b))
      else if operation = ''divide''
      then binary_op args (\<lambda>a b. if is_zero b then Inl ''Division by zero'' else Inr (a / b))
      else if operation = ''modulo''
      then binary_op args (\<lambda>a b. if is_zero b then Inl ''Modulo by zero'' else Inr (frem a b))
      else if operation = ''power''
      then with_arg ''base'' (arg_base args)
             (\<lambda>base. with_arg ''exponent'' (arg_exponent args) (\<lambda>e. success_json (powf (floats m) base e)))
      else if operation = ''sqrt''
      then unary_op args (\<lambda>v. if v < 0 then Inl ''Cannot compute square root of a negative number'' else Inr (fsqrt m v))
      else if operation = ''cbrt'' then unary_op args (\<lambda>v. Inr (fcbrt m v))
      else if operation = ''abs'' then unary_op args (\<lambda>v. Inr (fabs v))
      else if operation = ''ceil'' then unary_op args (\<lambda>v. Inr (fceil v))
      else if operation = ''floor'' then unary_op args (\<lambda>v. Inr (ffloor v))
      else if operation = ''round'' then unary_op args (\<lambda>v. Inr (fround v))
      else if operation = ''ln'' then unary_op args (\<lambda>v. if v \<le> 0 then Inl undefined_log else Inr (fln m v))
      else if operation = ''log10'' then unary_op args (\<lambda>v. if v \<le> 0 then Inl undefined_log else Inr (flog10 m v))
      else if operation = ''log'' then log_op m args
      else if operation = ''sin'' then unary_op args (\<lambda>v. Inr (fsin m v))
      else if operation = ''cos'' then unary_op args (\<lambda>v. Inr (fcos m v))
      else if operation = ''tan'' then unary_op args (\<lambda>v. Inr (ftan m v))
      else if operation = ''factorial'' then factorial_op args
      else if operation = ''min'' then aggregate_op args (foldl fmin (Infinite False))
      else if operation = ''max'' then aggregate_op args (foldl fmax (Infinite True))
      else if operation = ''mean'' then aggregate_op args mean
      else if operation = ''median'' then aggregate_op args median
      else Inl (''Unknown operation: '' @ operation))"

definition calc_execute :: "Libm \<Rightarrow> CalcArgs \<Rightarrow> calc_result option" where
  "calc_execute m args =
     (case calc_operation args of
        None \<Rightarrow> Some (Inl (missing_arg ''operation''))
      | Some operation \<Rightarrow>
          if operation = ''is_prime'' then prime_op args
          else if operation = ''evaluate'' then evaluate_op m args
          else Some (numeric_op m operation args))"

section \<open>Factorials\<close>

lemma factorial_of_nat: "foldl (\<lambda>acc i. acc * of_nat i) 1 [1..<Suc k] = (of_nat (fact k) :: u64)"
  by (induction k) (simp_all add: algebra_simps)

lemma fact_20: "k \<le> 20 \<Longrightarrow> (fact k :: nat) < 2 ^ 64"
proof -
  assume "k \<le> 20"
  then have "(fact k :: nat) \<le> fact 20" by (rule fact_mono)
  also have "\<dots> < 2 ^ 64" by (simp add: fact_numeral)
  finally show ?thesis .
qed

lemma factorial_exact: "unat n \<le> 20 \<Longrightarrow> unat (factorial n) = fact (unat n)"
  using fact_20 [of "unat n"] by (simp only: factorial_def factorial_of_nat) (simp add: unat_of_nat)

section \<open>Primes\<close>

definition prime_number :: "nat \<Rightarrow> bool" where
  "prime_number n \<longleftrightarrow> 1 < n \<and> (\<forall>d. d dvd n \<longrightarrow> d = 1 \<or> d = n)"

text \<open>No number from 2 up to a bound divides.\<close>

definition no_divisor :: "nat \<Rightarrow> nat \<Rightarrow> bool" where
  "no_divisor n k \<longleftrightarrow> (\<forall>d. 2 \<le> d \<longrightarrow> d < k \<longrightarrow> \<not> d dvd n)"

lemma no_divisor_prime: "1 < n \<Longrightarrow> no_divisor n k \<Longrightarrow> n < k * k \<Longrightarrow> prime_number n"
proof -
  assume n: "1 < n" "no_divisor n k" "n < k * k"
  have "d = 1 \<or> d = n" if "d dvd n" for d
  proof -
    obtain e where e: "n = d * e" using \<open>d dvd n\<close> unfolding dvd_def by blast
    have "d < k \<or> e < k" using n(3) e by (metis mult_le_mono not_le)
    moreover have "0 < d" "0 < e" using e n(1) by (auto intro!: Nat.gr0I)
    moreover have "d < 2 \<or> \<not> d < k" "e < 2 \<or> \<not> e < k"
      using n(2) e unfolding no_divisor_def by (metis dvd_triv_left dvd_triv_right not_le)+
    ultimately have "d = 1 \<or> e = 1" by linarith
    then show ?thesis using e by auto
  qed
  then show ?thesis using n(1) by (simp add: prime_number_def)
qed

lemma not_prime: "d dvd n \<Longrightarrow> 1 < d \<Longrightarrow> d < n \<Longrightarrow> \<not> prime_number n"
  by (auto simp: prime_number_def)

text \<open>A step of six passes only multiples of 2 and 3 besides the two numbers it tries.\<close>

lemma no_divisor_step:
  assumes "no_divisor n i" "\<not> 2 dvd n" "\<not> 3 dvd n" "i mod 6 = 5" "\<not> i dvd n" "\<not> (i + 2) dvd n"
  shows "no_divisor n (i + 6)"
  unfolding no_divisor_def
proof (intro allI impI)
  fix d assume d: "2 \<le> d" "d < i + 6"
  show "\<not> d dvd n"
  proof (cases "2 dvd d \<or> 3 dvd d")
    case True
    then show ?thesis using assms(2,3) dvd_trans by blast
  next
    case False
    have "d < i \<or> d = i \<or> d = i + 2"
    proof (rule ccontr)
      assume no: "\<not> ?thesis"
      then have "d = i + 1 \<or> d = i + 3 \<or> d = i + 4 \<or> d = i + 5" using d(2) by linarith
      then show False using False assms(4) by presburger
    qed
    then show ?thesis using assms(1,5,6) d(1) by (auto simp: no_divisor_def)
  qed
qed

lemma mod_word_dvd: "n mod k = 0 \<longleftrightarrow> unat k dvd unat n" for n k :: u64
  by (metis dvd_eq_mod_eq_0 unat_eq_0 unat_mod)

lemma trial_divisions_prime:
  fixes n :: u64
  assumes "unat n < 2 ^ 63" "3 < unat n" "\<not> 2 dvd unat n" "\<not> 3 dvd unat n"
    and "i mod 6 = 5" "i < 3037000510" "no_divisor (unat n) i"
  shows "trial_divisions n (of_nat i) = Some (prime_number (unat n))"
  using assms(5-7)
proof (induction "3037000510 - i" arbitrary: i rule: less_induct)
  case less
  let ?i = "of_nat i :: u64"
  have i5: "5 \<le> i" using less.prems(1) by presburger
  have ui: "unat ?i = i" using less.prems(2) by (simp add: unat_of_nat)
  have u2: "unat (?i + 2) = i + 2" using less.prems(2) by (simp add: unat_word_ariths ui)
  have "i * i < 3037000510 * 3037000510" using less.prems(2) by (intro mult_strict_mono) auto
  then have sq: "unat (?i * ?i) = i * i" by (simp add: unat_word_ariths ui)
  have step: "?i + 6 = of_nat (i + 6)" by simp
  show ?case
  proof (cases "i * i \<le> unat n")
    case False
    then have "prime_number (unat n)" using no_divisor_prime [of "unat n" i] assms(2) less.prems(3) by simp
    then show ?thesis using False by (subst trial_divisions.simps) (simp add: word_le_nat_alt sq)
  next
    case True
    have lt: "i < 3037000500"
    proof (rule ccontr)
      assume "\<not> ?thesis"
      then have "3037000500 * 3037000500 \<le> i * i" by (intro mult_le_mono) auto
      then show False using True assms(1) by simp
    qed
    have "5 * i \<le> i * i" using i5 by (intro mult_le_mono) auto
    then have small: "i + 2 < unat n" using True i5 by linarith
    have mods: "n mod ?i = 0 \<longleftrightarrow> i dvd unat n" "n mod (?i + 2) = 0 \<longleftrightarrow> (i + 2) dvd unat n"
      by (simp_all only: mod_word_dvd ui u2)
    show ?thesis
    proof (cases "i dvd unat n \<or> (i + 2) dvd unat n")
      case d: True
      then have "\<not> prime_number (unat n)" using not_prime [of i "unat n"] not_prime [of "i + 2" "unat n"] small i5 by linarith
      then show ?thesis using True d by (subst trial_divisions.simps) (simp add: word_le_nat_alt sq mods)
    next
      case d: False
      have "trial_divisions n ?i = trial_divisions n (of_nat (i + 6))"
        using True d by (subst trial_divisions.simps) (simp add: word_le_nat_alt sq mods add.commute)
      also have "\<dots> = Some (prime_number (unat n))"
        using no_divisor_step [OF less.prems(3) assms(3,4) less.prems(1)] d lt less.prems(1)
        by (intro less.hyps) (auto simp: mod_add_self2)
      finally show ?thesis .
    qed
  qed
qed

lemma is_prime_exact: "unat n < 2 ^ 63 \<Longrightarrow> is_prime n = Some (prime_number (unat n))"
proof -
  assume n: "unat n < 2 ^ 63"
  have small: "prime_number 2" "prime_number 3"
    by (rule no_divisor_prime [where k = 2]; simp add: no_divisor_def)+
  consider "unat n < 2" | "unat n = 2" | "unat n = 3" | "3 < unat n" by linarith
  then show ?thesis
  proof cases
    case 4
    have big: "(n < 2) = False" "(n < 4) = False" using 4 by (simp_all add: word_less_nat_alt)
    have mods: "n mod 2 = 0 \<longleftrightarrow> 2 dvd unat n" "n mod 3 = 0 \<longleftrightarrow> 3 dvd unat n"
      using mod_word_dvd [of n 2] mod_word_dvd [of n 3] by simp_all
    show ?thesis
    proof (cases "2 dvd unat n \<or> 3 dvd unat n")
      case True
      then have "\<not> prime_number (unat n)" using not_prime [of 2 "unat n"] not_prime [of 3 "unat n"] 4 by linarith
      moreover have "n mod 2 = 0 \<or> n mod 3 = 0" using True mods by blast
      ultimately show ?thesis by (simp only: is_prime_def big if_True if_False)
    next
      case False
      have "no_divisor (unat n) 5"
        unfolding no_divisor_def
      proof (intro allI impI)
        fix d :: nat assume "2 \<le> d" "d < 5"
        then have "d = 2 \<or> d = 3 \<or> d = 2 * 2" by linarith
        then show "\<not> d dvd unat n" using False by (metis dvd_mult_left)
      qed
      then have "trial_divisions n (of_nat 5) = Some (prime_number (unat n))"
        using 4 False n by (intro trial_divisions_prime) auto
      moreover have "(n mod 2 = 0 \<or> n mod 3 = 0) = False" unfolding mods using False by blast
      ultimately show ?thesis by (simp only: is_prime_def big if_False of_nat_numeral)
    qed
  qed (use small in \<open>auto simp: is_prime_def word_less_nat_alt prime_number_def\<close>)
qed

lemma nonneg_i64:
  fixes n :: u64
  assumes "\<not> sint n < 0"
  shows "unat n < 2 ^ 63 \<and> sint n = int (unat n)"
proof -
  have "uint n = uint (word_of_int (sint n) :: u64)" by simp
  also have "\<dots> = sint n" unfolding uint_word_of_int using assms sint_lt [of n] by simp
  finally have eq: "sint n = int (unat n)" by simp
  then have "int (unat n) < int (2 ^ 63)" using sint_lt [of n] by simp
  then show ?thesis using eq by (simp only: of_nat_less_iff simp_thms)
qed

lemma i64_above: "sint n < 0 \<or> (20 < sint n \<longleftrightarrow> 20 < unat n)" for n :: u64
proof (cases "sint n < 0")
  case False
  then have "sint n = int (unat n)" using nonneg_i64 by blast
  then show ?thesis by linarith
qed simp

text \<open>C27: the tool's answers on integers are exact for every argument of 64 bits, and it answers: the
  primality of a number that is not negative, though the test multiplies and adds on words; the
  factorial up to 20; and the two messages outside these ranges.\<close>

theorem integer_answers:
  "calc_execute m (args\<lparr>calc_operation := Some ''is_prime'', arg_n := Some n\<rparr>) =
     Some (if sint n < 0 then Inl ''Primality test undefined for negative numbers''
           else Inr (Truth (prime_number (unat n))))
    \<and> (\<exists>r. calc_execute m (args\<lparr>calc_operation := Some ''factorial'', arg_n := Some n\<rparr>) =
          Some (if sint n < 0 then Inl ''Factorial undefined for negative numbers''
                else if 20 < unat n then Inl ''Factorial overflow: maximum supported value is 20''
                else Inr (Integer r))
        \<and> (20 < unat n \<or> unat r = fact (unat n)))"
proof (intro conjI exI [of _ "factorial n"])
  show "20 < unat n \<or> unat (factorial n) = fact (unat n)" using factorial_exact [of n] by (cases "20 < unat n") simp_all
qed (use nonneg_i64 [of n] i64_above [of n] is_prime_exact [of n] in
  \<open>auto simp: calc_execute_def prime_op_def numeric_op_def factorial_op_def\<close>)

section \<open>Aggregates\<close>

definition rational :: "f64 \<Rightarrow> rat" where
  "rational x = (case x of Finite s a \<Rightarrow> signed_of s a | _ \<Rightarrow> 0)"

definition is_finite :: "f64 \<Rightarrow> bool" where
  "is_finite x \<longleftrightarrow> (\<exists>s a. x = Finite s a)"

lemma finite_le: "is_finite x \<Longrightarrow> is_finite y \<Longrightarrow> x \<le> y \<longleftrightarrow> rational x \<le> rational y"
  by (auto simp: is_finite_def rational_def)

lemma finite_less: "is_finite x \<Longrightarrow> is_finite y \<Longrightarrow> x < y \<longleftrightarrow> rational x < rational y"
  by (auto simp: is_finite_def rational_def)

text \<open>\<open>min\<close> and \<open>max\<close> are one of the values, and below or above all of them.\<close>

lemma fold_pick:
  assumes pick: "\<And>x y. x \<noteq> NaN \<Longrightarrow> y \<noteq> NaN \<Longrightarrow> pick x y \<in> {x, y} \<and> R (pick x y) x \<and> R (pick x y) y"
    and trans: "\<And>x y z. R x y \<Longrightarrow> R y z \<Longrightarrow> R x z"
    and refl: "\<And>x. x \<noteq> NaN \<Longrightarrow> R x x"
    and x: "x \<noteq> NaN" and xs: "NaN \<notin> set xs"
  shows "foldl pick x xs \<in> insert x (set xs) \<and> (\<forall>v\<in>insert x (set xs). R (foldl pick x xs) v)"
  using x xs
proof (induction xs arbitrary: x)
  case (Cons y ys)
  have p: "pick x y \<in> {x, y}" "R (pick x y) x" "R (pick x y) y" using pick [of x y] Cons.prems by auto
  have "pick x y \<noteq> NaN" using p(1) Cons.prems by auto
  moreover have "NaN \<notin> set ys" using Cons.prems by simp
  ultimately have IH: "foldl pick (pick x y) ys \<in> insert (pick x y) (set ys)"
    "\<forall>v\<in>insert (pick x y) (set ys). R (foldl pick (pick x y) ys) v"
    using Cons.IH by blast+
  have "R (foldl pick (pick x y) ys) x" "R (foldl pick (pick x y) ys) y" using IH(2) p(2,3) trans by blast+
  then show ?case using IH p(1) by auto
qed (simp add: refl)

lemma fmin_picks: "x \<noteq> NaN \<Longrightarrow> y \<noteq> NaN \<Longrightarrow> fmin x y \<in> {x, y} \<and> fmin x y \<le> x \<and> fmin x y \<le> y"
  using f64_le_total [of x y] f64_le_refl [of x] f64_le_refl [of y] by (auto simp: fmin_def)

lemma fmax_picks: "x \<noteq> NaN \<Longrightarrow> y \<noteq> NaN \<Longrightarrow> fmax x y \<in> {x, y} \<and> x \<le> fmax x y \<and> y \<le> fmax x y"
  using f64_le_total [of x y] f64_le_refl [of x] f64_le_refl [of y] by (auto simp: fmax_def)

lemma min_max_values:
  assumes "vals \<noteq> []" "\<forall>v\<in>set vals. is_finite v"
  shows "foldl fmin (Infinite False) vals \<in> set vals" "\<forall>v\<in>set vals. foldl fmin (Infinite False) vals \<le> v"
    "foldl fmax (Infinite True) vals \<in> set vals" "\<forall>v\<in>set vals. v \<le> foldl fmax (Infinite True) vals"
proof -
  have "NaN \<notin> set vals" using assms(2) by (auto simp: is_finite_def)
  have mn: "foldl fmin (Infinite False) vals \<in> insert (Infinite False) (set vals)
      \<and> (\<forall>v\<in>insert (Infinite False) (set vals). foldl fmin (Infinite False) vals \<le> v)"
    by (rule fold_pick [where R = "(\<le>)", OF fmin_picks f64_le_trans f64_le_refl _ \<open>NaN \<notin> set vals\<close>]) simp_all
  have mx: "foldl fmax (Infinite True) vals \<in> insert (Infinite True) (set vals)
      \<and> (\<forall>v\<in>insert (Infinite True) (set vals). v \<le> foldl fmax (Infinite True) vals)"
    by (rule fold_pick [where R = "\<lambda>a b. b \<le> a", OF fmax_picks f64_le_trans f64_le_refl _ \<open>NaN \<notin> set vals\<close>]) simp_all
  obtain s a where v: "Finite s a \<in> set vals" using assms by (cases vals) (auto simp: is_finite_def)
  show "foldl fmin (Infinite False) vals \<in> set vals" "foldl fmax (Infinite True) vals \<in> set vals"
    using mn mx v by fastforce+
  show "\<forall>v\<in>set vals. foldl fmin (Infinite False) vals \<le> v" "\<forall>v\<in>set vals. v \<le> foldl fmax (Infinite True) vals"
    using mn mx by simp_all
qed

text \<open>The median is read from the values in order.\<close>

lemma median_sorted:
  assumes "\<forall>v\<in>set vals. is_finite v"
  shows "median vals =
    (let xs = sort_key rational vals; mid = length vals div 2
     in if even (length vals) then (xs ! (mid - 1) + xs ! mid) / lit 2 else xs ! mid)"
proof -
  have "sort_by (\<lambda>a b. case partial_cmp a b of Some ord \<Rightarrow> ord | None \<Rightarrow> Equal) vals = sort_key rational vals"
    using assms by (intro sort_by_key) (auto simp: partial_cmp_def finite_le finite_less)
  then show ?thesis by (simp add: median_def Let_def even_iff_mod_2_eq_zero)
qed

text \<open>A result that overflows is answered as a success whose value is \<open>null\<close>.\<close>

lemma overflow_is_null:
  "calc_execute m (args\<lparr>calc_operation := Some ''add'', arg_a := Some x, arg_b := Some x\<rparr>) = Some (Inr Null)"
  if "x = Finite False (pow2 1023)"
proof -
  have "x + x = Infinite False"
    using round_mag_representable [of "pow2 1024" 1 1024]
    by (simp add: that pack_def signed_of_def)
  then show ?thesis by (simp add: calc_execute_def numeric_op_def binary_op_def with_arg_def answer_of_def success_json_def)
qed

end
