(* ===== verification/Spec2Isabelle.thy ===== *)
theory Spec2Isabelle
  imports TokenBudget CircuitBreaker Rbac PermissionMode TaskQueue ResponseCache
    ConversationTree TokenPool ProxyOrchestrator CredentialVault DiffFormat DiffTool A2AServer Semver GraphQueries
    WorkflowPipeline Handoff Replanner Cron PerKeyRateLimit TenantLimits RegionRouter MessageBus
    TextCodec IpTools Calculator
begin

text \<open>
  A model of the decision-making core of Argentor, a framework in Rust for running agents that
  call tools, and the theorems that make it correct.

  \<^bold>\<open>The program.\<close> An agent runs a loop: it asks a model provider for a completion and executes
  the tools the answer names. Around that loop stand small components that decide: may this
  tool run and with these arguments (\<open>argentor-security\<close>, \<open>permission_mode.rs\<close>), may this provider be
  called now (\<open>circuit_breaker.rs\<close>), with which key (\<open>argentor-mcp\<close>), is the answer already known
  (\<open>response_cache.rs\<close>), is the budget spent (\<open>token_budget.rs\<close>), which task is next
  (\<open>argentor-orchestrator\<close>), and what is the history of the conversation (\<open>argentor-session\<close>).
  These components are modelled here; the calls of providers, processes and servers are not.

  \<^bold>\<open>Theories.\<close>
  \<^item> \<open>RustStd\<close>: what the code uses of the standard library (fixed-width integers, strings, UTF-8).
  \<^item> \<open>RustText\<close>: lines, decimal numbers and the order of strings, for the tools that read and write text.
  \<^item> \<open>Interfaces\<close>: the contracts that components share, as locales: machines with an invariant
    (\<open>state_machine\<close>), implementations that may panic against specifications (\<open>simulation\<close>), tables
    (\<open>last_write_store\<close>, \<open>removable_store\<close>). Each is interpreted in the theories below.
  \<^item> \<open>CoreTypes\<close>: the error type and the messages of \<open>argentor-core\<close> (\<open>error.rs\<close>, \<open>message.rs\<close>).
  \<^item> \<open>TokenBudget\<close>: \<open>argentor-agent/src/token_budget.rs\<close>. Recordings commute; what \<open>check\<close> answers.
  \<^item> \<open>CircuitBreaker\<close>: \<open>argentor-agent/src/circuit_breaker.rs\<close>. The state machine and its invariant, the
    threshold, the time limit on rejections; the registry keeps one machine per provider.
  \<^item> \<open>Capability\<close>, \<open>ShellCheck\<close>, \<open>PathCheck\<close>: \<open>argentor-security/src/capability.rs\<close>. Permission sets
    and network targets; splitting a command line and checking each command; sanitising,
    normalising and resolving paths and the containment check.
  \<^item> \<open>Rbac\<close>: \<open>argentor-security/src/rbac.rs\<close>. Roles, the permission table, policies.
  \<^item> \<open>PermissionMode\<close>: \<open>argentor-agent/src/permission_mode.rs\<close>. Pattern matching and the five modes.
  \<^item> \<open>TaskTypes\<close>, \<open>TaskQueue\<close>: \<open>argentor-orchestrator/src/types.rs\<close> and \<open>task_queue.rs\<close>. Scheduling by
    dependencies, the cycle check, progress.
  \<^item> \<open>LruCache\<close>, \<open>ResponseCache\<close>: \<open>argentor-agent/src/response_cache.rs\<close>. The linked slots refine a list;
    the counters around it.
  \<^item> \<open>ConversationTree\<close>: \<open>argentor-session/src/conversation_tree.rs\<close> and \<open>session.rs\<close>. Branches over nodes
    with parent links; reachable trees, histories, comparison, conversion.
  \<^item> \<open>TokenPool\<close>: \<open>argentor-mcp/src/token_pool.rs\<close>. Rate windows, quotas, selection, provider index.
  \<^item> \<open>ProxyOrchestrator\<close>: \<open>argentor-mcp/src/proxy_orchestrator.rs\<close>. Rules, strategies and circuits of the
    proxies that run the calls; a machine with an invariant over histories.
  \<^item> \<open>Lcs\<close>, \<open>DiffEngine\<close>, \<open>DiffPlan\<close>, \<open>DiffFormat\<close>: \<open>argentor-agent/src/diff_engine.rs\<close>. Matching lines by longest
    common subsequences; generating and applying diffs; validation and plans; the unified format
    and its parser. \<open>DiffTool\<close>: \<open>argentor-builtins/src/diff_tool.rs\<close>, the same for agents, with a
    matching that \<open>Lcs\<close> shows to be the same.
  \<^item> \<open>Semver\<close>: \<open>argentor-builtins/src/semver_tool.rs\<close>. Parsing and printing versions, their order, sorting.
  \<^item> \<open>A2AProtocol\<close>, \<open>A2AServer\<close>: \<open>argentor-a2a/src/protocol.rs\<close> and \<open>server.rs\<close>. Tasks that agents send each
    other, their states, and the handlers of requests over the store of tasks.
  \<^item> \<open>GraphSearch\<close>, \<open>KnowledgeGraph\<close>, \<open>GraphQueries\<close>: \<open>argentor-memory/src/knowledge_graph.rs\<close>. Breadth-first
    search in general; entities and relationships with their indexes; the traversals, which the
    first shows to be exact, and merging.
  \<^item> \<open>Kahn\<close>, \<open>WorkflowTypes\<close>, \<open>WorkflowDsl\<close>, \<open>Workflow\<close>, \<open>WorkflowPipeline\<close>: \<open>argentor-orchestrator/src/workflow_dsl.rs\<close> and
    \<open>workflow.rs\<close>. Kahn's algorithm in general (the locale \<open>kahn_queue\<close>); what a workflow file may
    hold and how it compiles; the engine that runs it, with conditions, retries and jumps; the
    path from a file to a completed run.
  \<^item> \<open>Handoff\<close>, \<open>Replanner\<close>: \<open>argentor-orchestrator/src/handoff.rs\<close> and \<open>replanner.rs\<close>. Passing control between
    agents, a machine with an invariant; what to do about a failed task.
  \<^item> \<open>Cron\<close>: \<open>argentor-builtins/src/cron_parser.rs\<close>. The texts of cron fields and the minutes they name.
  \<^item> \<open>MessageBus\<close>: \<open>argentor-orchestrator/src/message_bus.rs\<close>. Mailboxes per role, shown to answer like a log
    of all messages.
  \<^item> \<open>Windows\<close>, \<open>PerKeyRateLimit\<close>, \<open>TenantLimits\<close>: \<open>argentor-gateway/src/rate_limit_per_key.rs\<close> and
    \<open>argentor-security/src/tenant_limits.rs\<close>. What a limiter over a window of time owes (the locale
    \<open>sliding_window\<close>), interpreted on the minutes and hours of the API keys and on the seconds of the
    tenants; quotas per day, requests in flight and the budget of the month.
  \<^item> \<open>Float64\<close>: the type \<open>f64\<close> with its rounding, which the budgets are computed in. Rounding is monotone.
  \<^item> \<open>RegionRouter\<close>: \<open>argentor-gateway/src/region_router.rs\<close>. Which provider and region may process data of
    a classification, and what the validation of the rules is worth.
  \<^item> \<open>ExprParser\<close>, \<open>Calculator\<close>: \<open>argentor-builtins/src/calculator.rs\<close>. The evaluator of expressions, shown to be
    the grammar of its comment, and the other operations, the primality test on words among them.
  \<^item> \<open>IpTools\<close>, \<open>TextCodec\<close>: \<open>argentor-builtins/src/ip_tools.rs\<close> and \<open>encode_decode.rs\<close>. CIDR blocks are the
    intervals they claim to be; percent encoding and HTML entities decode to what was encoded.
  \<^item> \<open>EncryptedStore\<close>: \<open>argentor-security/src/encrypted_store.rs\<close>. The cipher and the file store.
  \<^item> \<open>CredentialVault\<close>: \<open>argentor-mcp/src/credential_vault.rs\<close>. The encrypted vault answers as a plain one.

  \<^bold>\<open>Reading the model.\<close> A struct is a record and an enum a datatype with the source's names; a
  method is a function from the state to the result and the new state. A \<open>Result\<close> is a sum whose
  left side is the error. A panic, and a loop that does not end, is \<open>None\<close>. A \<open>HashMap\<close> is a map;
  where its iteration order matters the order is an argument. The clock, random bytes and fresh
  identifiers are arguments, as are functions of other crates; the theorems name what they
  assume of these. State behind a lock is changed by one method at a time, so concurrent callers
  are sequences of calls. Where a method takes the lock more than once its sections are separate steps,
  with other calls in between (\<open>A2AServer\<close>, \<open>Workflow\<close>, \<open>ProxyOrchestrator\<close>); so are the atomic counters
  where that shows (\<open>TokenBudget\<close>).
  Integers keep their width and wrap, as in a release build.

  \<^bold>\<open>Loops and fuel.\<close> The loops of \<open>split_shell_segments\<close>, of the decoder, of the cipher, of the
  ancestor walk and of the graph searches end by a measure. The depth-first search of \<open>has_cycle\<close> recurses with fuel, one
  more than the number of tasks; the theorem on it states that an answer is returned. The walk
  along parent links is a partial function that is proved to return in every reachable tree. Kahn's
  algorithm has the number of steps as fuel, which is proved to be enough; \<open>run_to_completion\<close> stops
  after 1000 steps, as the code does. The descent of \<open>ExprParser\<close> has six calls for every token and five
  more as fuel, which is proved to be enough; the trial divisions of the primality test are a partial
  function that is proved to return for every number of 63 bits.

  \<^bold>\<open>Not modelled.\<close> Poisoned locks (they need a panic inside a critical section), logging, file and
  network I/O, floating-point statistics, serialisation formats, and strings beyond U+00FF. Of the
  other components, these are next in order: the quotas of \<open>argentor-cloud\<close>, data
  residency, the hook chain.
\<close>

section \<open>Properties across components\<close>

text \<open>C37: the two diff implementations agree. For texts of fewer than 2 ^ 32 lines the tool of the
  agents and the diff engine find the same sequence of kept, inserted and deleted lines, although
  one counts in 64 bits and the other in 32.\<close>

theorem diff_tools_agree:
  assumes "length b < 2 ^ 32"
  shows "map edit_kind (backtrack_edits a b (tool_lcs_table a b)) = compute_edit_ops a b"
  unfolding backtrack_edits_kinds compute_edit_ops_def
  by (rule matching_width) (use assms in simp_all)

theorem diff_tools_agree_witness:
  "map edit_kind (backtrack_edits [''a'', ''b''] [''b''] (tool_lcs_table [''a'', ''b''] [''b''])) =
     compute_edit_ops [''a'', ''b''] [''b'']"
  by (rule diff_tools_agree) simp

end
